(* ===== verification/Convex_Prelude.thy ===== *)
theory Convex_Prelude
  imports Main "HOL-Library.Word" "HOL-Library.List_Lexorder" "HOL-Library.Product_Lexorder"
begin

text \<open>
  Shared vocabulary of the development: the machine types of the Rust sources, the
  result type that stands for \<open>Result\<close>, Rust's three-valued \<open>Ordering\<close> with its
  lexicographic extension to sequences, big-endian byte conversion, and
  \<open>BTreeMap\<close>/\<open>BTreeSet\<close> as strictly ascending association lists.  The interface
  \<open>ordered_map\<close> states what a client may rely on; it is interpreted on the
  association lists below.
\<close>

unbundle bit_operations_syntax

named_theorems bt_simps \<open>lookup, keys and order of the ordered maps\<close>
named_theorems cmp_simps \<open>the three-valued comparison\<close>

section \<open>Machine types\<close>

type_synonym u8 = "8 word"
type_synonym u16 = "16 word"
type_synonym u32 = "32 word"
type_synonym u64 = "64 word"
type_synonym i64 = "64 word"
type_synonym bytes = "u8 list"

section \<open>Orderings\<close>

text \<open>\<open>std::cmp::Ordering\<close> and the comparison of a totally ordered type.\<close>

datatype ordering = Less | Equal | Greater

definition cmp :: "'a::linorder \<Rightarrow> 'a \<Rightarrow> ordering" where
  "cmp a b = (if a < b then Less else if a = b then Equal else Greater)"

lemma cmp_iff [cmp_simps, simp]:
  "cmp a b = Less \<longleftrightarrow> a < b" "cmp a b = Equal \<longleftrightarrow> a = b" "cmp a b = Greater \<longleftrightarrow> b < a"
  by (auto simp: cmp_def)

lemma cmp_refl [simp]: "cmp a a = Equal"
  by (simp add: cmp_def)

text \<open>\<open>Ordering::then\<close>: the second comparison counts when the first is equal.\<close>

fun then_cmp :: "ordering \<Rightarrow> ordering \<Rightarrow> ordering" where
  "then_cmp Equal c = c"
| "then_cmp c _ = c"

lemma then_cmp_iff [cmp_simps]:
  "then_cmp a b = Less \<longleftrightarrow> a = Less \<or> a = Equal \<and> b = Less"
  "then_cmp a b = Equal \<longleftrightarrow> a = Equal \<and> b = Equal"
  "then_cmp a b = Greater \<longleftrightarrow> a = Greater \<or> a = Equal \<and> b = Greater"
  by (cases a; simp)+

text \<open>\<open>Iterator::cmp\<close>, which slices, \<open>Vec\<close>, \<open>BTreeSet\<close> and \<open>BTreeMap\<close> use.\<close>

fun list_cmp :: "('a \<Rightarrow> 'b \<Rightarrow> ordering) \<Rightarrow> 'a list \<Rightarrow> 'b list \<Rightarrow> ordering" where
  "list_cmp f [] [] = Equal"
| "list_cmp f [] (y # ys) = Less"
| "list_cmp f (x # xs) [] = Greater"
| "list_cmp f (x # xs) (y # ys) = then_cmp (f x y) (list_cmp f xs ys)"

lemma list_cmp_cong [fundef_cong]:
  assumes "xs = xs'" and "ys = ys'"
    and "\<And>x y. x \<in> set xs' \<Longrightarrow> y \<in> set ys' \<Longrightarrow> f x y = g x y"
  shows "list_cmp f xs ys = list_cmp g xs' ys'"
proof -
  have "list_cmp f xs' ys' = list_cmp g xs' ys'"
    using assms(3) by (induction g xs' ys' rule: list_cmp.induct) auto
  with assms(1,2) show ?thesis by simp
qed

lemma list_cmp_cmp [simp]: "list_cmp cmp xs ys = cmp xs (ys :: 'a::linorder list)"
  by (induction "cmp :: 'a \<Rightarrow> _" xs ys rule: list_cmp.induct) (auto simp: cmp_def)

text \<open>Laws of a comparison lift from the elements to sequences.\<close>

fun opposite :: "ordering \<Rightarrow> ordering" where
  "opposite Less = Greater"
| "opposite Equal = Equal"
| "opposite Greater = Less"

lemma cmp_swap: "cmp b a = opposite (cmp a b)"
  by (auto simp: cmp_def)

lemma opposite_then: "opposite (then_cmp a b) = then_cmp (opposite a) (opposite b)"
  by (cases a) auto

lemma list_cmp_Equal:
  "(\<And>x y. x \<in> set xs \<Longrightarrow> f x y = Equal \<longleftrightarrow> x = y) \<Longrightarrow> list_cmp f xs ys = Equal \<longleftrightarrow> xs = ys"
  by (induction f xs ys rule: list_cmp.induct) (auto simp: then_cmp_iff)

lemma list_cmp_swap:
  "(\<And>x y. x \<in> set xs \<Longrightarrow> f y x = opposite (f x y)) \<Longrightarrow>
     list_cmp f ys xs = opposite (list_cmp f xs ys)"
proof (induction xs arbitrary: ys)
  case Nil
  show ?case by (cases ys) auto
next
  case (Cons x xs)
  have IH: "list_cmp f ys xs = opposite (list_cmp f xs ys)" for ys
    by (rule Cons.IH, rule Cons.prems) simp
  show ?case
  proof (cases ys)
    case (Cons y zs)
    have "f y x = opposite (f x y)" by (rule Cons.prems) simp
    with IH [of zs] Cons show ?thesis by (simp add: opposite_then)
  qed simp
qed

lemma then_cmp_trans:
  assumes "\<And>x y. f x y = Equal \<longleftrightarrow> x = y"
    and "f x y = Less \<Longrightarrow> f y z = Less \<Longrightarrow> f x z = Less"
    and "g = Less \<Longrightarrow> h = Less \<Longrightarrow> k = Less"
    and "then_cmp (f x y) g = Less" and "then_cmp (f y z) h = Less"
  shows "then_cmp (f x z) k = Less"
proof (cases "f x y")
  case Less
  then show ?thesis using assms(1) [of y z] assms(2,5) by (cases "f y z") auto
next
  case Equal
  then have "x = y" using assms(1) by blast
  then show ?thesis using Equal assms(3-5) by (cases "f y z") auto
next
  case Greater
  then show ?thesis using assms(4) by simp
qed

lemma list_cmp_trans:
  assumes eq: "\<And>x y. f x y = Equal \<longleftrightarrow> x = y"
  shows "(\<And>x y z. x \<in> set xs \<Longrightarrow> f x y = Less \<Longrightarrow> f y z = Less \<Longrightarrow> f x z = Less) \<Longrightarrow>
    list_cmp f xs ys = Less \<Longrightarrow> list_cmp f ys zs = Less \<Longrightarrow> list_cmp f xs zs = Less"
proof (induction xs arbitrary: ys zs)
  case Nil
  from Nil.prems(2,3) show ?case by (cases ys; cases zs) simp_all
next
  case (Cons x xs)
  obtain y ys' where y: "ys = y # ys'" using Cons.prems(2) by (cases ys) auto
  obtain z zs' where z: "zs = z # zs'" using Cons.prems(3) y by (cases zs) auto
  have IH: "list_cmp f xs ys' = Less \<Longrightarrow> list_cmp f ys' zs' = Less \<Longrightarrow> list_cmp f xs zs' = Less"
    by (rule Cons.IH [of ys']) (use Cons.prems(1) in \<open>auto\<close>)
  have less: "f x y = Less \<Longrightarrow> f y z = Less \<Longrightarrow> f x z = Less" by (rule Cons.prems(1)) simp_all
  show ?case
    using then_cmp_trans [of f, OF eq less IH] Cons.prems(2,3) by (simp add: y z)
qed

section \<open>Results\<close>

text \<open>A fallible Rust function returns \<open>Inl\<close> of its error or \<open>Inr\<close> of its value.\<close>

definition bind_result :: "'e + 'a \<Rightarrow> ('a \<Rightarrow> 'e + 'b) \<Rightarrow> 'e + 'b" where
  "bind_result r f = (case r of Inl e \<Rightarrow> Inl e | Inr x \<Rightarrow> f x)"

lemma bind_result_simps [simp]:
  "bind_result (Inl e) f = Inl e" "bind_result (Inr x) f = f x"
  by (simp_all add: bind_result_def)

lemma bind_result_cong [fundef_cong]:
  "r = r' \<Longrightarrow> (\<And>x. r' = Inr x \<Longrightarrow> f x = g x) \<Longrightarrow> bind_result r f = bind_result r' g"
  by (cases r') auto

lemma bind_result_Inr_iff: "bind_result r f = Inr y \<longleftrightarrow> (\<exists>x. r = Inr x \<and> f x = Inr y)"
  by (cases r) auto

lemma bind_result_Inl_iff:
  "bind_result r f = Inl e \<longleftrightarrow> r = Inl e \<or> (\<exists>x. r = Inr x \<and> f x = Inl e)"
  by (cases r) auto

fun is_ok :: "'e + 'a \<Rightarrow> bool" where
  "is_ok (Inl _) = False"
| "is_ok (Inr _) = True"

text \<open>Collecting a sequence of results stops at the first error.\<close>

fun map_result :: "('a \<Rightarrow> 'e + 'b) \<Rightarrow> 'a list \<Rightarrow> 'e + 'b list" where
  "map_result f [] = Inr []"
| "map_result f (x # xs) =
     bind_result (f x) (\<lambda>y. bind_result (map_result f xs) (\<lambda>ys. Inr (y # ys)))"

lemma map_result_Inr_iff:
  "map_result f xs = Inr ys \<longleftrightarrow> list_all2 (\<lambda>x y. f x = Inr y) xs ys"
  by (induction xs arbitrary: ys)
     (auto simp: bind_result_Inr_iff list_all2_Cons1)

text \<open>A loop that updates a state and may panic in the middle.\<close>

fun fold_option :: "('a \<Rightarrow> 's \<Rightarrow> 's option) \<Rightarrow> 'a list \<Rightarrow> 's \<Rightarrow> 's option" where
  "fold_option f [] s = Some s"
| "fold_option f (x # xs) s = (case f x s of None \<Rightarrow> None | Some s' \<Rightarrow> fold_option f xs s')"

section \<open>Big-endian bytes\<close>

text \<open>\<open>to_be_bytes\<close> of an unsigned integer given by its value, and its inverse.\<close>

fun be_bytes :: "nat \<Rightarrow> nat \<Rightarrow> bytes" where
  "be_bytes 0 x = []"
| "be_bytes (Suc k) x = be_bytes k (x div 256) @ [of_nat (x mod 256)]"

definition from_be :: "bytes \<Rightarrow> nat" where
  "from_be bs = foldl (\<lambda>acc b. 256 * acc + unat b) 0 bs"

lemma length_be_bytes [simp]: "length (be_bytes k x) = k"
  by (induction k arbitrary: x) auto

lemma unat_of_nat_u8 [simp]: "x < 256 \<Longrightarrow> unat (of_nat x :: u8) = x"
  by (simp add: unat_of_nat)

lemma u8_less_256 [simp]: "unat (b :: u8) < 256"
  using unsigned_less [of b] by simp

lemma u8_le_255 [simp]: "x \<le> (255 :: u8)"
proof -
  have "unat x \<le> 255" using u8_less_256 [of x] by linarith
  then show ?thesis by (simp add: word_le_nat_alt)
qed

lemma u8_not_less_255 [simp]: "\<not> x < (255 :: u8) \<longleftrightarrow> x = 255" "\<not> (255 :: u8) < x"
  using u8_le_255 [of x] by (auto simp del: u8_le_255)

lemma u8_less_plus_one: "x < (255 :: u8) \<Longrightarrow> y < x + 1 \<longleftrightarrow> y \<le> x"
  by (simp add: word_less_nat_alt word_le_nat_alt unat_word_ariths less_Suc_eq_le)

lemma from_be_snoc [simp]: "from_be (bs @ [b]) = 256 * from_be bs + unat b"
  by (simp add: from_be_def)

lemma from_be_Nil [simp]: "from_be [] = 0"
  by (simp add: from_be_def)

lemma from_be_bytes: "x < 256 ^ k \<Longrightarrow> from_be (be_bytes k x) = x"
proof (induction k arbitrary: x)
  case (Suc k)
  then have "x div 256 < 256 ^ k" by (simp add: less_mult_imp_div_less mult.commute)
  with Suc.IH show ?case by simp
qed simp

lemma be_bytes_from_be: "be_bytes (length bs) (from_be bs) = bs"
proof (induction bs rule: rev_induct)
  case (snoc b bs)
  then show ?case by simp
qed simp

lemma from_be_less: "from_be bs < 256 ^ length bs"
proof (induction bs rule: rev_induct)
  case (snoc b bs)
  have "256 * from_be bs + unat b < 256 * from_be bs + 256" by simp
  also have "\<dots> \<le> 256 * 256 ^ length bs" using snoc by simp
  finally show ?case by simp
qed simp

lemma be_bytes_inject:
  "x < 256 ^ k \<Longrightarrow> y < 256 ^ k \<Longrightarrow> be_bytes k x = be_bytes k y \<longleftrightarrow> x = y"
  by (metis from_be_bytes)

lemma append_less_iff:
  "length xs = length ys \<Longrightarrow> xs @ us < ys @ vs \<longleftrightarrow> xs < ys \<or> xs = ys \<and> us < vs"
  for xs :: "'a::linorder list"
  by (induction xs ys rule: list_induct2) auto

lemma less_by_div_mod:
  assumes "0 < (m :: nat)"
  shows "x < y \<longleftrightarrow> x div m < y div m \<or> x div m = y div m \<and> x mod m < y mod m"
proof (cases "x div m" "y div m" rule: linorder_cases)
  case less
  then have "x < y" by (metis div_le_mono leD leI)
  with less show ?thesis by simp
next
  case equal
  then have "x < y \<longleftrightarrow> x mod m < y mod m"
    by (metis mult_div_mod_eq nat_add_left_cancel_less)
  with equal show ?thesis by simp
next
  case greater
  then have "\<not> x < y" by (metis div_le_mono leD less_imp_le_nat)
  with greater show ?thesis by simp
qed

lemma be_bytes_less:
  "x < 256 ^ k \<Longrightarrow> y < 256 ^ k \<Longrightarrow> be_bytes k x < be_bytes k y \<longleftrightarrow> x < y"
proof (induction k arbitrary: x y)
  case (Suc k)
  from Suc.prems have q: "x div 256 < 256 ^ k" "y div 256 < 256 ^ k"
    by (simp_all add: less_mult_imp_div_less mult.commute)
  have "(of_nat (x mod 256) :: u8) < of_nat (y mod 256) \<longleftrightarrow> x mod 256 < y mod 256"
    by (simp add: word_less_nat_alt)
  with q Suc.IH [OF q] have "be_bytes (Suc k) x < be_bytes (Suc k) y \<longleftrightarrow>
      x div 256 < y div 256 \<or> x div 256 = y div 256 \<and> x mod 256 < y mod 256"
    by (auto simp: append_less_iff be_bytes_inject)
  also have "\<dots> \<longleftrightarrow> x < y"
    by (rule less_by_div_mod [symmetric]) simp
  finally show ?case .
qed simp

lemma drop_be_bytes: "be_bytes (n + k) x = be_bytes n (x div 256 ^ k) @ be_bytes k x"
proof (induction k arbitrary: x)
  case (Suc k)
  have "be_bytes (n + Suc k) x = be_bytes (n + k) (x div 256) @ [of_nat (x mod 256)]" by simp
  also have "\<dots> = be_bytes n (x div 256 div 256 ^ k) @ be_bytes (Suc k) x"
    by (simp add: Suc.IH)
  also have "x div 256 div 256 ^ k = x div 256 ^ Suc k"
    by (simp add: div_mult2_eq)
  finally show ?case .
qed simp

lemma be_bytes_mod: "be_bytes k (x mod 256 ^ k) = be_bytes k x"
proof (induction k arbitrary: x)
  case (Suc k)
  have "x mod 256 ^ Suc k div 256 = (x div 256) mod 256 ^ k"
    by (simp add: mod_mult2_eq)
  moreover have "x mod 256 ^ Suc k mod 256 = x mod 256"
    by (simp add: mod_mod_cancel)
  ultimately show ?case by (simp add: Suc.IH)
qed simp

section \<open>Ordered maps\<close>

text \<open>
  \<open>BTreeMap\<close> (and \<open>imbl::OrdMap\<close>) iterate their entries in key order, so the model is the
  list of entries, strictly ascending in the key.  \<open>BTreeSet\<close> is the list of its elements.
\<close>

type_synonym ('k, 'v) btree = "('k \<times> 'v) list"

abbreviation bt_ok :: "('k::linorder, 'v) btree \<Rightarrow> bool" where
  "bt_ok m \<equiv> sorted_wrt (<) (map fst m)"

fun bt_insert :: "'k::linorder \<Rightarrow> 'v \<Rightarrow> ('k, 'v) btree \<Rightarrow> ('k, 'v) btree" where
  "bt_insert k v [] = [(k, v)]"
| "bt_insert k v ((l, w) # m) =
     (if k < l then (k, v) # (l, w) # m
      else if k = l then (k, v) # m
      else (l, w) # bt_insert k v m)"

fun bt_remove :: "'k::linorder \<Rightarrow> ('k, 'v) btree \<Rightarrow> ('k, 'v) btree" where
  "bt_remove k [] = []"
| "bt_remove k ((l, w) # m) = (if k = l then m else (l, w) # bt_remove k m)"

definition bt_get :: "('k::linorder, 'v) btree \<Rightarrow> 'k \<Rightarrow> 'v option" where
  "bt_get m k = map_of m k"

lemma bt_insert_keys [bt_simps, simp]: "fst ` set (bt_insert k v m) = insert k (fst ` set m)"
  by (induction k v m rule: bt_insert.induct) auto

lemma bt_insert_ok [bt_simps, simp]: "bt_ok m \<Longrightarrow> bt_ok (bt_insert k v m)"
proof (induction k v m rule: bt_insert.induct)
  case (2 k v l w m)
  have keys: "set (map fst (bt_insert k v m)) = insert k (set (map fst m))" by simp
  have "\<not> k < l \<Longrightarrow> k \<noteq> l \<Longrightarrow> \<forall>y \<in> set (map fst (bt_insert k v m)). l < y"
    unfolding keys using "2.prems" by auto
  with 2 show ?case by (auto dest: less_trans)
qed simp

lemma bt_ok_notin: "bt_ok ((l, w) # m) \<Longrightarrow> k \<le> l \<Longrightarrow> k \<notin> fst ` set m"
  by (force dest: leD)

lemma bt_get_insert [bt_simps, simp]:
  "bt_get (bt_insert k v m) = (bt_get m)(k \<mapsto> v)"
  by (induction k v m rule: bt_insert.induct) (auto simp: bt_get_def fun_eq_iff)

lemma bt_remove_subset: "set (bt_remove k m) \<subseteq> set m"
  by (induction k m rule: bt_remove.induct) auto

lemma bt_remove_ok [bt_simps, simp]: "bt_ok m \<Longrightarrow> bt_ok (bt_remove k m)"
  by (induction k m rule: bt_remove.induct) (auto dest: bt_remove_subset [THEN subsetD])

lemma bt_remove_filter: "bt_ok m \<Longrightarrow> bt_remove k m = filter (\<lambda>e. fst e \<noteq> k) m"
proof (induction k m rule: bt_remove.induct)
  case (2 k l w m)
  then show ?case by (auto intro!: filter_True [symmetric])
qed simp

lemma bt_get_remove [bt_simps, simp]: "bt_ok m \<Longrightarrow> bt_get (bt_remove k m) = (bt_get m)(k := None)"
proof (induction k m rule: bt_remove.induct)
  case (2 k l w m)
  then have "k = l \<Longrightarrow> map_of m k = None"
    by (auto simp: map_of_eq_None_iff)
  with 2 show ?case by (auto simp: bt_get_def fun_eq_iff)
qed (simp add: bt_get_def fun_eq_iff)

lemma bt_get_iff: "bt_ok m \<Longrightarrow> bt_get m k = Some v \<longleftrightarrow> (k, v) \<in> set m"
proof (induction m)
  case (Cons e m)
  then show ?case by (cases e) (auto simp: bt_get_def dest: weak_map_of_SomeI map_of_SomeD)
qed (simp add: bt_get_def)

lemma bt_ext: "bt_ok m \<Longrightarrow> bt_ok n \<Longrightarrow> set m = set n \<Longrightarrow> m = n"
proof (induction m arbitrary: n)
  case (Cons e m)
  then obtain f n' where n: "n = f # n'" by (cases n) auto
  have ef: "e = f"
  proof (rule ccontr)
    assume "e \<noteq> f"
    with Cons.prems n have "f \<in> set m" "e \<in> set n'" by auto
    with Cons.prems n have "fst e < fst f" "fst f < fst e" by auto
    then show False by simp
  qed
  have "e \<notin> set m" "e \<notin> set n'" using Cons.prems n ef by auto
  with Cons.prems n ef have "set m = set n'" by auto
  with Cons n ef show ?case by simp
qed simp

lemma bt_split:
  "bt_ok m \<Longrightarrow> filter (\<lambda>e. fst e < k) m @ filter (\<lambda>e. k \<le> fst e) m = m"
proof (induction m)
  case (Cons e m)
  show ?case
  proof (cases "fst e < k")
    case False
    with Cons.prems have "\<forall>x \<in> set m. k \<le> fst x \<and> \<not> fst x < k" by force
    then have "filter (\<lambda>e. fst e < k) m = []" "filter (\<lambda>e. k \<le> fst e) m = m"
      by (auto simp: filter_empty_conv)
    with False show ?thesis by simp
  qed (use Cons in auto)
qed simp

lemma bt_remove_mid: "bt_ok (a @ (k, v) # b) \<Longrightarrow> bt_remove k (a @ (k, v) # b) = a @ b"
  by (induction a) auto

lemma bt_insert_mid:
  "\<forall>x \<in> set a. fst x < k \<Longrightarrow> \<forall>x \<in> set b. k < fst x \<Longrightarrow>
     bt_insert k v (a @ b) = a @ (k, v) # b"
proof (induction a)
  case Nil
  then show ?case by (cases b) auto
next
  case (Cons e a)
  then show ?case by (cases e) auto
qed

lemma bt_insert_last: "\<forall>y \<in> set ys. fst y < k \<Longrightarrow> bt_insert k v ys = ys @ [(k, v)]"
  using bt_insert_mid [of ys k "[]" v] by simp

section \<open>Nested maps and sets\<close>

text \<open>
  \<open>entry(k).or_insert_with(..)\<close> reads a default for a missing key; \<open>BTreeSet\<close> is an ordered map
  to \<open>unit\<close>.
\<close>

type_synonym 't bset = "('t, unit) btree"

definition bs_extend :: "'t::linorder list \<Rightarrow> 't bset \<Rightarrow> 't bset" where
  "bs_extend xs s = fold (\<lambda>x. bt_insert x ()) xs s"

definition get_or :: "'v \<Rightarrow> ('k::linorder, 'v) btree \<Rightarrow> 'k \<Rightarrow> 'v" where
  "get_or d m k = (case bt_get m k of None \<Rightarrow> d | Some v \<Rightarrow> v)"

text \<open>A well-formed map all of whose values satisfy a predicate.\<close>

definition bt_all :: "('v \<Rightarrow> bool) \<Rightarrow> ('k::linorder, 'v) btree \<Rightarrow> bool" where
  "bt_all P m = (bt_ok m \<and> list_all (P \<circ> snd) m)"

lemma bs_extend_keys [bt_simps, simp]: "fst ` set (bs_extend xs s) = set xs \<union> fst ` set s"
  unfolding bs_extend_def by (induction xs arbitrary: s) auto

lemma bs_extend_ok [bt_simps, simp]: "bt_ok s \<Longrightarrow> bt_ok (bs_extend xs s)"
  unfolding bs_extend_def by (induction xs arbitrary: s) simp_all

lemma get_or_Nil [bt_simps, simp]: "get_or d [] k = d"
  by (simp add: get_or_def bt_get_def)

lemma get_or_insert [bt_simps, simp]: "get_or d (bt_insert k v m) = (get_or d m)(k := v)"
  by (auto simp: get_or_def fun_eq_iff)

lemma get_or_remove [bt_simps, simp]: "bt_ok m \<Longrightarrow> get_or d (bt_remove k m) = (get_or d m)(k := d)"
  by (auto simp: get_or_def fun_eq_iff)

lemma get_or_Some: "bt_get m k = Some v \<Longrightarrow> get_or d m k = v"
  by (simp add: get_or_def)

lemma bt_insert_subset: "set (bt_insert k v m) \<subseteq> insert (k, v) (set m)"
  by (induction k v m rule: bt_insert.induct) auto

lemma bt_all_ok: "bt_all P m \<Longrightarrow> bt_ok m"
  by (simp add: bt_all_def)

lemma bt_all_Nil [bt_simps, simp]: "bt_all P []"
  by (simp add: bt_all_def)

lemma bt_all_insert [bt_simps, simp]: "bt_all P m \<Longrightarrow> P v \<Longrightarrow> bt_all P (bt_insert k v m)"
  using bt_insert_subset [of k v m] by (auto simp: bt_all_def list_all_iff)

lemma bt_all_remove [bt_simps, simp]: "bt_all P m \<Longrightarrow> bt_all P (bt_remove k m)"
  using bt_remove_subset [of k m] by (auto simp: bt_all_def list_all_iff)

lemma bt_all_get: "bt_all P m \<Longrightarrow> bt_get m k = Some v \<Longrightarrow> P v"
  by (auto simp: bt_all_def list_all_iff bt_get_iff)

lemma bt_all_get_or: "bt_all P m \<Longrightarrow> P d \<Longrightarrow> P (get_or d m k)"
  by (auto simp: get_or_def dest: bt_all_get split: option.splits)

lemma bt_distinct: "bt_ok m \<Longrightarrow> distinct (map fst m)"
  by (metis strict_sorted_iff)

lemma bt_key_get: "bt_ok m \<Longrightarrow> k \<in> fst ` set m \<longleftrightarrow> (\<exists>v. bt_get m k = Some v)"
  by (force simp: bt_get_iff)

lemma bt_Nil_iff: "m = [] \<longleftrightarrow> (\<forall>k. bt_get m k = None)"
proof (cases m)
  case (Cons e m')
  then have "bt_get m (fst e) \<noteq> None" by (cases e) (simp add: bt_get_def)
  with Cons show ?thesis by auto
qed (simp add: bt_get_def)

section \<open>The contract of ordered maps\<close>

text \<open>The contract of an ordered map, as its clients use it.\<close>

locale ordered_map =
  fixes get :: "'m \<Rightarrow> 'k \<Rightarrow> 'v option"
    and put :: "'k \<Rightarrow> 'v \<Rightarrow> 'm \<Rightarrow> 'm"
    and del :: "'k \<Rightarrow> 'm \<Rightarrow> 'm"
    and emp :: "'m"
    and ok :: "'m \<Rightarrow> bool"
  assumes get_emp: "get emp k = None"
    and get_put: "ok m \<Longrightarrow> get (put k v m) = (get m)(k \<mapsto> v)"
    and get_del: "ok m \<Longrightarrow> get (del k m) = (get m)(k := None)"
    and ok_emp: "ok emp"
    and ok_put: "ok m \<Longrightarrow> ok (put k v m)"
    and ok_del: "ok m \<Longrightarrow> ok (del k m)"
begin

lemma get_put_all:
  "ok m \<Longrightarrow> get (fold (\<lambda>(k, v). put k v) kvs m) = (get m) ++ map_of (rev kvs)
     \<and> ok (fold (\<lambda>(k, v). put k v) kvs m)"
proof (induction kvs arbitrary: m)
  case (Cons kv kvs)
  obtain k v where kv: "kv = (k, v)" by (cases kv)
  have "ok (put k v m)" using Cons.prems by (rule ok_put)
  from Cons.IH [OF this] Cons.prems kv show ?case
    by (auto simp: get_put map_add_def fun_eq_iff split: option.splits)
qed simp

lemma del_put_same: "ok m \<Longrightarrow> get (del k (put k v m)) = (get m)(k := None)"
  by (simp add: get_put get_del ok_put)

lemma put_del_comm:
  "ok m \<Longrightarrow> k \<noteq> l \<Longrightarrow> get (put k v (del l m)) = get (del l (put k v m))"
  by (simp add: get_put get_del ok_put ok_del fun_upd_twist)

end

interpretation bt: ordered_map bt_get bt_insert bt_remove "[]" "bt_ok :: ('k::linorder, 'v) btree \<Rightarrow> bool"
proof
  show "bt_get [] k = (None :: 'v option)" for k :: 'k by (simp add: bt_get_def)
qed simp_all

section \<open>Registries\<close>

text \<open>
  A component that several clients share holds, for every client and key, what the client registered
  there.  The contract of such a component: inserting an entry and removing it update the registry at
  one place.  Whole collections of entries are then inserted and removed one by one.
\<close>

definition register :: "'i \<Rightarrow> 'x \<Rightarrow> 'v option \<Rightarrow> ('i \<Rightarrow> 'x \<Rightarrow> 'v option) \<Rightarrow> 'i \<Rightarrow> 'x \<Rightarrow> 'v option" where
  "register i x v reg = reg(i := (reg i)(x := v))"

lemma register_simp: "register i x v reg j y = (if j = i \<and> y = x then v else reg j y)"
  by (simp add: register_def)

locale registry =
  fixes ins :: "'i \<Rightarrow> 'x \<times> 'r \<Rightarrow> 's \<Rightarrow> 's"
    and del :: "'i \<Rightarrow> 'x \<times> 'r \<Rightarrow> 's \<Rightarrow> 's option"
    and ok :: "('i \<Rightarrow> 'x \<Rightarrow> 'v option) \<Rightarrow> 's \<Rightarrow> bool"
    and val :: "'r \<Rightarrow> 'v"
    and good :: "'x \<times> 'r \<Rightarrow> bool"
  assumes ins: "ok reg s \<Longrightarrow> reg i x = None \<Longrightarrow> good (x, r) \<Longrightarrow> ok (register i x (Some (val r)) reg) (ins i (x, r) s)"
    and del: "ok reg s \<Longrightarrow> reg i x = Some (val r) \<Longrightarrow> \<exists>s'. del i (x, r) s = Some s' \<and> ok (register i x None reg) s'"
begin

lemma ins_all:
  "ok reg s \<Longrightarrow> distinct (map fst es) \<Longrightarrow> \<forall>e \<in> set es. good e \<Longrightarrow> \<forall>x \<in> fst ` set es. reg i x = None \<Longrightarrow>
     ok (reg(i := \<lambda>x. case map_of es x of None \<Rightarrow> reg i x | Some r \<Rightarrow> Some (val r))) (fold (ins i) es s)"
proof (induction es arbitrary: reg s)
  case (Cons e es)
  obtain x r where e: "e = (x, r)" by (cases e)
  let ?reg = "register i x (Some (val r)) reg"
  have "ok ?reg (ins i e s)" using Cons.prems by (auto simp: e intro: ins)
  moreover have "\<forall>y \<in> fst ` set es. ?reg i y = None" using Cons.prems by (auto simp: e register_simp)
  ultimately have "ok (?reg(i := \<lambda>y. case map_of es y of None \<Rightarrow> ?reg i y | Some r \<Rightarrow> Some (val r))) (fold (ins i) es (ins i e s))"
    using Cons.prems by (intro Cons.IH) auto
  moreover have "?reg(i := \<lambda>y. case map_of es y of None \<Rightarrow> ?reg i y | Some r \<Rightarrow> Some (val r))
      = reg(i := \<lambda>y. case map_of (e # es) y of None \<Rightarrow> reg i y | Some r \<Rightarrow> Some (val r))"
    using Cons.prems(2) map_of_eq_None_iff [of es x]
    by (auto simp: e fun_eq_iff register_simp split: option.splits)
  ultimately show ?case by (simp only: fold_Cons o_apply)
qed simp

lemma del_all:
  "ok reg s \<Longrightarrow> distinct (map fst es) \<Longrightarrow> \<forall>(x, r) \<in> set es. reg i x = Some (val r) \<Longrightarrow>
     \<exists>s'. fold_option (del i) es s = Some s' \<and> ok (reg(i := \<lambda>x. if x \<in> fst ` set es then None else reg i x)) s'"
proof (induction es arbitrary: reg s)
  case (Cons e es)
  obtain x r where e: "e = (x, r)" by (cases e)
  let ?reg = "register i x None reg"
  obtain t where t: "del i e s = Some t" "ok ?reg t" using Cons.prems del [of reg s i x r] by (auto simp: e)
  have "\<forall>(y, r) \<in> set es. ?reg i y = Some (val r)" using Cons.prems by (force simp: e register_simp)
  then obtain u where u: "fold_option (del i) es t = Some u" "ok (?reg(i := \<lambda>y. if y \<in> fst ` set es then None else ?reg i y)) u"
    using Cons.IH [OF t(2)] Cons.prems(2) by (auto simp del: fun_upd_apply)
  have "?reg(i := \<lambda>y. if y \<in> fst ` set es then None else ?reg i y)
      = reg(i := \<lambda>y. if y \<in> fst ` set (e # es) then None else reg i y)"
    by (auto simp: e fun_eq_iff register_simp)
  with t u show ?case by (simp del: fun_upd_apply)
qed simp

end

end
