(* ===== verification/Convex_Value.thy ===== *)
theory Convex_Value
  imports Convex_Prelude
begin

text \<open>
  The \<open>value\<close> crate: \<open>ConvexValue\<close> (\<open>value/src/lib.rs\<close>) with its size-checked containers
  (\<open>array.rs\<close>, \<open>set.rs\<close>, \<open>map.rs\<close>, \<open>object.rs\<close>, \<open>string.rs\<close>, \<open>bytes.rs\<close>,
  \<open>size.rs\<close>), the identifier and field-name checks of \<open>sync_types/src/identifier.rs\<close>, and
  the hand-written total order of \<open>sorting.rs\<close>.

  Strings are their UTF-8 bytes, which is also how Rust orders them.  \<open>i64\<close> and \<open>f64\<close> are
  64-bit words (for \<open>f64\<close> the IEEE bits, which is all the code looks at).  The containers
  cache their size and nesting; the caches are computed once by \<open>try_from\<close> from the items,
  so the model keeps the items and recomputes \<open>value_size\<close> and \<open>value_nesting\<close>.
\<close>

named_theorems value_cmp_simps \<open>the order on values\<close>

section \<open>Identifiers and field names\<close>

type_synonym field_name = bytes

definition ascii :: "string \<Rightarrow> bytes" where
  "ascii s = map (\<lambda>c. of_nat (of_char c)) s"

definition MAX_IDENTIFIER_LEN :: nat where "MAX_IDENTIFIER_LEN = 64"

definition MAX_FIELD_NAME_LENGTH :: nat where "MAX_FIELD_NAME_LENGTH = 1024"

definition is_ascii_alphabetic :: "u8 \<Rightarrow> bool" where
  "is_ascii_alphabetic b = (65 \<le> b \<and> b \<le> 90 \<or> 97 \<le> b \<and> b \<le> 122)"

definition is_ascii_alphanumeric :: "u8 \<Rightarrow> bool" where
  "is_ascii_alphanumeric b = (is_ascii_alphabetic b \<or> 48 \<le> b \<and> b \<le> 57)"

definition is_ascii :: "u8 \<Rightarrow> bool" where
  "is_ascii b = (b < 128)"

definition is_ascii_control :: "u8 \<Rightarrow> bool" where
  "is_ascii_control b = (b < 32 \<or> b = 127)"

datatype identifier_error =
  InvalidFirstCharacter | EmptyIdentifier | InvalidCharacter | IdentifierTooLong | OnlyUnderscores

text \<open>
  The characters are read as bytes: a non-ASCII character is rejected at its first byte, which
  is at least 128, so the checks agree with the ones on \<open>chars()\<close>.
\<close>

definition check_valid_identifier_inner :: "bytes \<Rightarrow> identifier_error + unit" where
  "check_valid_identifier_inner s =
     (case s of
        [] \<Rightarrow> Inl EmptyIdentifier
      | c # chars \<Rightarrow>
          (if \<not> (is_ascii_alphabetic c \<or> c = 95) then Inl InvalidFirstCharacter
           else if \<exists>c \<in> set chars. \<not> is_ascii_alphanumeric c \<and> c \<noteq> 95 then Inl InvalidCharacter
           else if length s > MAX_IDENTIFIER_LEN then Inl IdentifierTooLong
           else if \<forall>c \<in> set s. c = 95 then Inl OnlyUnderscores
           else Inr ()))"

definition is_valid_identifier :: "bytes \<Rightarrow> bool" where
  "is_valid_identifier s = is_ok (check_valid_identifier_inner s)"

datatype field_name_error = StartsWithDollar | NonPrintable | FieldNameTooLong

definition check_valid_field_name_inner :: "bytes \<Rightarrow> field_name_error + unit" where
  "check_valid_field_name_inner s =
     (if s \<noteq> [] \<and> hd s = 36 then Inl StartsWithDollar
      else if \<exists>c \<in> set s. \<not> is_ascii c \<or> is_ascii_control c then Inl NonPrintable
      else if length s > MAX_FIELD_NAME_LENGTH then Inl FieldNameTooLong
      else Inr ())"

definition is_valid_field_name :: "bytes \<Rightarrow> bool" where
  "is_valid_field_name s = is_ok (check_valid_field_name_inner s)"

definition FieldName_from_str :: "bytes \<Rightarrow> field_name_error + field_name" where
  "FieldName_from_str s = bind_result (check_valid_field_name_inner s) (\<lambda>_. Inr s)"

text \<open>An \<open>IdentifierFieldName\<close> passes both checks.\<close>

definition IdentifierFieldName_from_str ::
    "bytes \<Rightarrow> (field_name_error + identifier_error) + field_name" where
  "IdentifierFieldName_from_str s =
     (case check_valid_field_name_inner s of
        Inl e \<Rightarrow> Inl (Inl e)
      | Inr _ \<Rightarrow>
          (case check_valid_identifier_inner s of
             Inl e \<Rightarrow> Inl (Inr e)
           | Inr _ \<Rightarrow> Inr s))"

text \<open>System names start with an underscore.\<close>

definition FieldName_is_system :: "field_name \<Rightarrow> bool" where
  "FieldName_is_system s = (s \<noteq> [] \<and> hd s = 95)"

section \<open>Values\<close>

datatype convex_value =
    Null
  | Int64 i64
  | Float64 u64
  | Boolean bool
  | StringV bytes
  | BytesV bytes
  | ArrayV "convex_value list"
  | SetV "convex_value list"
  | MapV "(convex_value \<times> convex_value) list"
  | ObjectV "(field_name \<times> convex_value) list"

type_synonym convex_object = "(field_name, convex_value) btree"

lemma size_pair_fst [termination_simp]:
  "(k, v) \<in> set kvs \<Longrightarrow> size k < Suc (size_list (size_prod size size) kvs)"
  by (induction kvs) auto

lemma size_pair_snd [termination_simp]:
  "(k, v) \<in> set kvs \<Longrightarrow> size v < Suc (size_list (size_prod f size) kvs)"
  by (induction kvs) auto

definition type_name :: "convex_value \<Rightarrow> string" where
  "type_name v = (case v of
       Null \<Rightarrow> ''Null'' | Int64 _ \<Rightarrow> ''Int64'' | Float64 _ \<Rightarrow> ''Float64''
     | Boolean _ \<Rightarrow> ''Boolean'' | StringV _ \<Rightarrow> ''String'' | BytesV _ \<Rightarrow> ''Bytes''
     | ArrayV _ \<Rightarrow> ''Array'' | SetV _ \<Rightarrow> ''Set'' | MapV _ \<Rightarrow> ''Map'' | ObjectV _ \<Rightarrow> ''Object'')"

text \<open>\<open>iter().max().unwrap_or(0)\<close>.\<close>

definition max_or_0 :: "nat list \<Rightarrow> nat" where
  "max_or_0 ns = foldr max ns 0"

fun value_size :: "convex_value \<Rightarrow> nat" where
  "value_size Null = 1"
| "value_size (Int64 _) = 1 + 8"
| "value_size (Float64 _) = 1 + 8"
| "value_size (Boolean _) = 1"
| "value_size (StringV s) = 1 + length s + 1"
| "value_size (BytesV b) = 1 + length b + 1"
| "value_size (ArrayV vs) = 1 + sum_list (map (\<lambda>v. value_size v) vs) + 1"
| "value_size (SetV vs) = 1 + sum_list (map (\<lambda>v. value_size v) vs) + 1"
| "value_size (MapV kvs) = 1 + sum_list (map (\<lambda>(k, v). value_size k + value_size v) kvs) + 1"
| "value_size (ObjectV fs) = 1 + sum_list (map (\<lambda>(f, v). length f + 1 + value_size v) fs) + 1"

fun value_nesting :: "convex_value \<Rightarrow> nat" where
  "value_nesting Null = 0"
| "value_nesting (Int64 _) = 0"
| "value_nesting (Float64 _) = 0"
| "value_nesting (Boolean _) = 0"
| "value_nesting (StringV _) = 0"
| "value_nesting (BytesV _) = 0"
| "value_nesting (ArrayV vs) = 1 + max_or_0 (map (\<lambda>v. value_nesting v) vs)"
| "value_nesting (SetV vs) = 1 + max_or_0 (map (\<lambda>v. value_nesting v) vs)"
| "value_nesting (MapV kvs) = 1 + max_or_0 (map (\<lambda>(k, v). max (value_nesting k) (value_nesting v)) kvs)"
| "value_nesting (ObjectV fs) = 1 + max_or_0 (map (\<lambda>(f, v). value_nesting v) fs)"

section \<open>Limits\<close>

definition MAX_SIZE :: nat where "MAX_SIZE = 2 ^ 25"
definition MAX_USER_SIZE :: nat where "MAX_USER_SIZE = 2 ^ 20"
definition MAX_NESTING :: nat where "MAX_NESTING = 64"
definition MAX_DOCUMENT_NESTING :: nat where "MAX_DOCUMENT_NESTING = 16"
definition MAX_ARRAY_LEN :: nat where "MAX_ARRAY_LEN = 8192"
definition MAX_SET_LEN :: nat where "MAX_SET_LEN = 1024"
definition MAX_MAP_LEN :: nat where "MAX_MAP_LEN = 1024"
definition MAX_OBJECT_FIELDS :: nat where "MAX_OBJECT_FIELDS = 1024"

datatype value_error =
    ValueTooLarge nat | TooNested nat | ArrayTooLong nat | SetTooLong nat | MapTooLong nat
  | TooManyFields nat | WrongType string | InvalidFieldName field_name_error
  | InvalidUtf8 | UnexpectedEof | DuplicateElement | EscapeTag | UnrecognizedTag u8 | OutOfFuel

definition check_system_size :: "nat \<Rightarrow> value_error + unit" where
  "check_system_size n = (if n > MAX_SIZE then Inl (ValueTooLarge n) else Inr ())"

definition check_user_size :: "nat \<Rightarrow> value_error + unit" where
  "check_user_size n = (if n > MAX_USER_SIZE then Inl (ValueTooLarge n) else Inr ())"

definition check_nesting :: "nat \<Rightarrow> value_error + unit" where
  "check_nesting nesting = (if nesting > MAX_NESTING then Inl (TooNested nesting) else Inr ())"

definition check_nesting_for_documents :: "nat \<Rightarrow> bool" where
  "check_nesting_for_documents nesting = (nesting > MAX_DOCUMENT_NESTING)"

text \<open>The limit checks shared by the container constructors.\<close>

definition check_limits :: "convex_value \<Rightarrow> value_error + convex_value" where
  "check_limits v =
     bind_result (check_system_size (value_size v)) (\<lambda>_.
     bind_result (check_nesting (value_nesting v)) (\<lambda>_. Inr v))"

definition ConvexString_try_from :: "bytes \<Rightarrow> value_error + convex_value" where
  "ConvexString_try_from s =
     bind_result (check_system_size (1 + length s + 1)) (\<lambda>_. Inr (StringV s))"

definition ConvexBytes_try_from :: "bytes \<Rightarrow> value_error + convex_value" where
  "ConvexBytes_try_from b =
     bind_result (check_system_size (1 + length b + 1)) (\<lambda>_. Inr (BytesV b))"

definition ConvexArray_try_from :: "convex_value list \<Rightarrow> value_error + convex_value" where
  "ConvexArray_try_from items =
     (if length items > MAX_ARRAY_LEN then Inl (ArrayTooLong (length items))
      else check_limits (ArrayV items))"

definition ConvexSet_try_from :: "convex_value list \<Rightarrow> value_error + convex_value" where
  "ConvexSet_try_from items =
     (if length items > MAX_SET_LEN then Inl (SetTooLong (length items))
      else check_limits (SetV items))"

definition ConvexMap_try_from ::
    "(convex_value \<times> convex_value) list \<Rightarrow> value_error + convex_value" where
  "ConvexMap_try_from items =
     (if length items > MAX_MAP_LEN then Inl (MapTooLong (length items))
      else check_limits (MapV items))"

definition ConvexObject_try_from :: "convex_object \<Rightarrow> value_error + convex_object" where
  "ConvexObject_try_from fields =
     (if length fields > MAX_OBJECT_FIELDS then Inl (TooManyFields (length fields))
      else bind_result (check_limits (ObjectV fields)) (\<lambda>_. Inr fields))"

section \<open>The order on values\<close>

text \<open>
  \<open>f64::total_cmp\<close>: the bits as a signed integer, with all bits but the sign flipped when the
  sign is set.
\<close>

definition total_cmp_key :: "u64 \<Rightarrow> u64" where
  "total_cmp_key b = (if bit b 63 then b XOR 0x7FFFFFFFFFFFFFFF else b)"

definition total_cmp :: "u64 \<Rightarrow> u64 \<Rightarrow> ordering" where
  "total_cmp a b = cmp (sint (total_cmp_key a)) (sint (total_cmp_key b))"

definition type_tag :: "convex_value \<Rightarrow> nat" where
  "type_tag v = (case v of
       Null \<Rightarrow> 1 | Int64 _ \<Rightarrow> 2 | Float64 _ \<Rightarrow> 3 | Boolean _ \<Rightarrow> 4 | StringV _ \<Rightarrow> 5
     | BytesV _ \<Rightarrow> 6 | ArrayV _ \<Rightarrow> 7 | SetV _ \<Rightarrow> 8 | MapV _ \<Rightarrow> 9 | ObjectV _ \<Rightarrow> 10)"

text \<open>
  The arms where \<open>self\<close> and \<open>other\<close> have different variants panic in the source; they are
  unreachable since equal tags mean equal variants, and the model returns \<open>Equal\<close> there.
\<close>

fun value_cmp :: "convex_value \<Rightarrow> convex_value \<Rightarrow> ordering" where
  "value_cmp v w =
     (if type_tag v \<noteq> type_tag w then cmp (type_tag v) (type_tag w)
      else case v of
        Null \<Rightarrow> Equal
      | Int64 a \<Rightarrow> (case w of Int64 b \<Rightarrow> cmp (sint a) (sint b) | _ \<Rightarrow> Equal)
      | Float64 a \<Rightarrow> (case w of Float64 b \<Rightarrow> total_cmp a b | _ \<Rightarrow> Equal)
      | Boolean a \<Rightarrow> (case w of Boolean b \<Rightarrow> cmp a b | _ \<Rightarrow> Equal)
      | StringV a \<Rightarrow> (case w of StringV b \<Rightarrow> cmp a b | _ \<Rightarrow> Equal)
      | BytesV a \<Rightarrow> (case w of BytesV b \<Rightarrow> cmp a b | _ \<Rightarrow> Equal)
      | ArrayV a \<Rightarrow> (case w of ArrayV b \<Rightarrow> list_cmp (\<lambda>x y. value_cmp x y) a b | _ \<Rightarrow> Equal)
      | SetV a \<Rightarrow> (case w of SetV b \<Rightarrow> list_cmp (\<lambda>x y. value_cmp x y) a b | _ \<Rightarrow> Equal)
      | MapV a \<Rightarrow>
          (case w of
             MapV b \<Rightarrow>
               list_cmp (\<lambda>(k1, v1) (k2, v2). then_cmp (value_cmp k1 k2) (value_cmp v1 v2)) a b
           | _ \<Rightarrow> Equal)
      | ObjectV a \<Rightarrow>
          (case w of
             ObjectV b \<Rightarrow>
               list_cmp (\<lambda>(f1, v1) (f2, v2). then_cmp (cmp f1 f2) (value_cmp v1 v2)) a b
           | _ \<Rightarrow> Equal))"

declare value_cmp.simps [simp del]

text \<open>Entries of a map or object: the key decides, then the value.\<close>

definition entry_cmp ::
    "('k \<Rightarrow> 'k \<Rightarrow> ordering) \<Rightarrow> ('v \<Rightarrow> 'v \<Rightarrow> ordering) \<Rightarrow> 'k \<times> 'v \<Rightarrow> 'k \<times> 'v \<Rightarrow> ordering" where
  "entry_cmp f g = (\<lambda>(k1, v1) (k2, v2). then_cmp (f k1 k2) (g v1 v2))"

lemma entry_cmp_simp [simp]:
  "entry_cmp f g (k, v) (l, w) = then_cmp (f k l) (g v w)"
  by (simp add: entry_cmp_def)

lemma value_cmp_same [simp]:
  "value_cmp Null Null = Equal"
  "value_cmp (Int64 i) (Int64 j) = cmp (sint i) (sint j)"
  "value_cmp (Float64 f) (Float64 g) = total_cmp f g"
  "value_cmp (Boolean a) (Boolean b) = cmp a b"
  "value_cmp (StringV s) (StringV t) = cmp s t"
  "value_cmp (BytesV s) (BytesV t) = cmp s t"
  "value_cmp (ArrayV xs) (ArrayV ys) = list_cmp value_cmp xs ys"
  "value_cmp (SetV xs) (SetV ys) = list_cmp value_cmp xs ys"
  "value_cmp (MapV kvs) (MapV lws) =
     list_cmp (entry_cmp value_cmp value_cmp) kvs lws"
  "value_cmp (ObjectV fs) (ObjectV gs) =
     list_cmp (entry_cmp cmp value_cmp) fs gs"
  by (simp_all add: entry_cmp_def value_cmp.simps [of "_ _"] value_cmp.simps [of Null] type_tag_def)

lemma value_cmp_diff: "type_tag v \<noteq> type_tag w \<Longrightarrow> value_cmp v w = cmp (type_tag v) (type_tag w)"
  by (simp add: value_cmp.simps [of v w])

lemma total_cmp_key_sign: "bit (total_cmp_key b) 63 \<longleftrightarrow> bit b 63"
  by (simp add: total_cmp_key_def bit_xor_iff)

lemma total_cmp_key_idem: "total_cmp_key (total_cmp_key b) = b"
  by (simp add: total_cmp_key_def bit_xor_iff Bit_Operations.semiring_bit_operations_class.xor.assoc)

lemma total_cmp_key_inject: "total_cmp_key a = total_cmp_key b \<longleftrightarrow> a = b"
  using total_cmp_key_idem [of a] total_cmp_key_idem [of b] by metis

lemma cmp_Equal_iff: "cmp a b = Equal \<longleftrightarrow> a = b"
  by (auto simp: cmp_def)

lemma total_cmp_Equal: "total_cmp a b = Equal \<longleftrightarrow> a = b"
  by (simp add: total_cmp_def cmp_Equal_iff word_eq_iff_signed [symmetric] total_cmp_key_inject)

lemma type_tag_cases:
  assumes "type_tag v = type_tag w"
  obtains (Null) "v = Null" "w = Null"
    | (Int64) i j where "v = Int64 i" "w = Int64 j"
    | (Float64) f g where "v = Float64 f" "w = Float64 g"
    | (Boolean) a b where "v = Boolean a" "w = Boolean b"
    | (String) s t where "v = StringV s" "w = StringV t"
    | (Bytes) s t where "v = BytesV s" "w = BytesV t"
    | (Array) xs ys where "v = ArrayV xs" "w = ArrayV ys"
    | (Set) xs ys where "v = SetV xs" "w = SetV ys"
    | (Map) kvs lws where "v = MapV kvs" "w = MapV lws"
    | (Object) fs gs where "v = ObjectV fs" "w = ObjectV gs"
  using assms by (cases v; cases w) (auto simp: type_tag_def)

text \<open>
  Facts about a pair of values: different tags are settled by the tags, equal tags by the
  variants.
\<close>

lemma value_cmp_Equal: "value_cmp v w = Equal \<longleftrightarrow> v = w"
proof (induction v arbitrary: w rule: convex_value.induct)
  case (ArrayV xs)
  then show ?case by (cases w) (auto simp: value_cmp_diff type_tag_def list_cmp_Equal)
next
  case (SetV xs)
  then show ?case by (cases w) (auto simp: value_cmp_diff type_tag_def list_cmp_Equal)
next
  case (MapV kvs)
  have "entry_cmp value_cmp value_cmp d e = Equal \<longleftrightarrow> d = e" if "d \<in> set kvs" for d e
    using MapV.IH that by (cases d; cases e) (force simp: then_cmp_iff)
  then show ?case
    by (cases w) (auto simp: value_cmp_diff type_tag_def list_cmp_Equal)
next
  case (ObjectV fs)
  have "entry_cmp cmp value_cmp d e = Equal \<longleftrightarrow> d = e" if "d \<in> set fs" for d e
    using ObjectV.IH that by (cases d; cases e) (force simp: then_cmp_iff)
  then show ?case
    by (cases w) (auto simp: value_cmp_diff type_tag_def list_cmp_Equal)
qed (case_tac w; simp add: value_cmp_diff type_tag_def total_cmp_Equal cmp_Equal_iff
      word_eq_iff_signed [symmetric])+

lemma cmp_Less_trans: "cmp a b = Less \<Longrightarrow> cmp b c = Less \<Longrightarrow> cmp a (c :: 'a::linorder) = Less"
  by (auto simp: cmp_def split: if_splits)

lemma entry_cmp_swap:
  "f (fst e) (fst d) = opposite (f (fst d) (fst e)) \<Longrightarrow> g (snd e) (snd d) = opposite (g (snd d) (snd e)) \<Longrightarrow>
     entry_cmp f g e d = opposite (entry_cmp f g d e)"
  by (cases d; cases e) (simp add: opposite_then)

lemma entry_cmp_Equal:
  "(\<And>x y. f x y = Equal \<longleftrightarrow> x = y) \<Longrightarrow> (\<And>x y. g x y = Equal \<longleftrightarrow> x = y) \<Longrightarrow>
     entry_cmp f g d e = Equal \<longleftrightarrow> d = e"
  by (cases d; cases e) (simp add: then_cmp_iff)

lemma entry_cmp_trans:
  assumes "\<And>x y. f x y = Equal \<longleftrightarrow> x = y"
    and "f (fst c) (fst d) = Less \<Longrightarrow> f (fst d) (fst e) = Less \<Longrightarrow> f (fst c) (fst e) = Less"
    and "g (snd c) (snd d) = Less \<Longrightarrow> g (snd d) (snd e) = Less \<Longrightarrow> g (snd c) (snd e) = Less"
    and "entry_cmp f g c d = Less" and "entry_cmp f g d e = Less"
  shows "entry_cmp f g c e = Less"
  using then_cmp_trans [of f, OF assms(1-3)] assms(4,5) by (cases c; cases d; cases e) simp

text \<open>Induction over values, with the entries of maps and objects as pairs.\<close>

lemma value_induct [case_names Null Int64 Float64 Boolean StringV BytesV ArrayV SetV MapV ObjectV]:
  assumes "P Null" and "\<And>i. P (Int64 i)" and "\<And>b. P (Float64 b)" and "\<And>b. P (Boolean b)"
    and "\<And>s. P (StringV s)" and "\<And>s. P (BytesV s)"
    and "\<And>xs. (\<And>x. x \<in> set xs \<Longrightarrow> P x) \<Longrightarrow> P (ArrayV xs)"
    and "\<And>xs. (\<And>x. x \<in> set xs \<Longrightarrow> P x) \<Longrightarrow> P (SetV xs)"
    and "\<And>kvs. (\<And>e. e \<in> set kvs \<Longrightarrow> P (fst e)) \<Longrightarrow> (\<And>e. e \<in> set kvs \<Longrightarrow> P (snd e)) \<Longrightarrow> P (MapV kvs)"
    and "\<And>fs. (\<And>e. e \<in> set fs \<Longrightarrow> P (snd e)) \<Longrightarrow> P (ObjectV fs)"
  shows "P v"
  by (induction v rule: convex_value.induct)
    (use assms in \<open>auto simp: fsts.simps snds.simps\<close>)

lemma total_cmp_swap: "total_cmp b a = opposite (total_cmp a b)"
  unfolding total_cmp_def by (rule cmp_swap)

lemma value_cmp_swap_tag:
  assumes "type_tag v = type_tag w \<Longrightarrow> value_cmp w v = opposite (value_cmp v w)"
  shows "value_cmp w v = opposite (value_cmp v w)"
proof (cases "type_tag v = type_tag w")
  case False
  then have "value_cmp v w = cmp (type_tag v) (type_tag w)" "value_cmp w v = cmp (type_tag w) (type_tag v)"
    by (simp_all add: value_cmp_diff)
  then show ?thesis using cmp_swap by metis
qed (rule assms)

lemma same_variant:
  "type_tag Null = type_tag w \<Longrightarrow> w = Null"
  "type_tag (Int64 i) = type_tag w \<Longrightarrow> \<exists>j. w = Int64 j"
  "type_tag (Float64 b) = type_tag w \<Longrightarrow> \<exists>c. w = Float64 c"
  "type_tag (Boolean p) = type_tag w \<Longrightarrow> \<exists>q. w = Boolean q"
  "type_tag (StringV s) = type_tag w \<Longrightarrow> \<exists>t. w = StringV t"
  "type_tag (BytesV s) = type_tag w \<Longrightarrow> \<exists>t. w = BytesV t"
  "type_tag (ArrayV xs) = type_tag w \<Longrightarrow> \<exists>ys. w = ArrayV ys"
  "type_tag (SetV xs) = type_tag w \<Longrightarrow> \<exists>ys. w = SetV ys"
  "type_tag (MapV kvs) = type_tag w \<Longrightarrow> \<exists>lws. w = MapV lws"
  "type_tag (ObjectV fs) = type_tag w \<Longrightarrow> \<exists>gs. w = ObjectV gs"
  by (cases w; simp add: type_tag_def)+

lemma value_cmp_swap: "value_cmp w v = opposite (value_cmp v w)"
proof (induction v arbitrary: w rule: value_induct)
  case (ArrayV xs)
  show ?case
  proof (rule value_cmp_swap_tag)
    assume "type_tag (ArrayV xs) = type_tag w"
    then obtain ys where "w = ArrayV ys" by (blast dest: same_variant)
    with list_cmp_swap [of xs value_cmp ys, OF ArrayV.IH] show "value_cmp w (ArrayV xs) = opposite (value_cmp (ArrayV xs) w)"
      by simp
  qed
next
  case (SetV xs)
  show ?case
  proof (rule value_cmp_swap_tag)
    assume "type_tag (SetV xs) = type_tag w"
    then obtain ys where "w = SetV ys" by (blast dest: same_variant)
    with list_cmp_swap [of xs value_cmp ys, OF SetV.IH] show "value_cmp w (SetV xs) = opposite (value_cmp (SetV xs) w)"
      by simp
  qed
next
  case (MapV xs)
  show ?case
  proof (rule value_cmp_swap_tag)
    assume "type_tag (MapV xs) = type_tag w"
    then obtain ys where "w = MapV ys" by (blast dest: same_variant)
    with list_cmp_swap [of xs "entry_cmp value_cmp value_cmp" ys, OF entry_cmp_swap, OF MapV.IH] show "value_cmp w (MapV xs) = opposite (value_cmp (MapV xs) w)"
      by simp
  qed
next
  case (ObjectV xs)
  show ?case
  proof (rule value_cmp_swap_tag)
    assume "type_tag (ObjectV xs) = type_tag w"
    then obtain ys where "w = ObjectV ys" by (blast dest: same_variant)
    with list_cmp_swap [of xs "entry_cmp cmp value_cmp" ys, OF entry_cmp_swap, OF cmp_swap ObjectV.IH] show "value_cmp w (ObjectV xs) = opposite (value_cmp (ObjectV xs) w)"
      by simp
  qed
qed (rule value_cmp_swap_tag, drule same_variant, force intro: cmp_swap total_cmp_swap)+

lemma value_cmp_less_tag: "value_cmp u v = Less \<Longrightarrow> type_tag u \<le> type_tag v"
  by (cases "type_tag u = type_tag v") (auto simp: value_cmp_diff cmp_def split: if_splits)

lemma value_cmp_tag_less: "type_tag u < type_tag v \<Longrightarrow> value_cmp u v = Less"
  by (simp add: value_cmp_diff cmp_def)

lemma value_cmp_trans_tag:
  assumes "type_tag u = type_tag v \<Longrightarrow> type_tag u = type_tag w \<Longrightarrow> value_cmp u w = Less"
    and "value_cmp u v = Less" and "value_cmp v w = Less"
  shows "value_cmp u w = Less"
  using assms value_cmp_less_tag [of u v] value_cmp_less_tag [of v w] value_cmp_tag_less [of u w]
  by fastforce

lemma value_cmp_trans:
  "value_cmp u v = Less \<Longrightarrow> value_cmp v w = Less \<Longrightarrow> value_cmp u w = Less"
proof (induction u arbitrary: v w rule: value_induct)
  case (ArrayV xs)
  show ?case
  proof (rule value_cmp_trans_tag [OF _ ArrayV.prems])
    assume "type_tag (ArrayV xs) = type_tag v" "type_tag (ArrayV xs) = type_tag w"
    then obtain ys zs where "v = ArrayV ys" "w = ArrayV zs" by (blast dest: same_variant)
    with list_cmp_trans [of value_cmp xs ys zs, OF value_cmp_Equal ArrayV.IH] ArrayV.prems
    show "value_cmp (ArrayV xs) w = Less" by simp
  qed
next
  case (SetV xs)
  show ?case
  proof (rule value_cmp_trans_tag [OF _ SetV.prems])
    assume "type_tag (SetV xs) = type_tag v" "type_tag (SetV xs) = type_tag w"
    then obtain ys zs where "v = SetV ys" "w = SetV zs" by (blast dest: same_variant)
    with list_cmp_trans [of value_cmp xs ys zs, OF value_cmp_Equal SetV.IH] SetV.prems
    show "value_cmp (SetV xs) w = Less" by simp
  qed
next
  case (MapV xs)
  show ?case
  proof (rule value_cmp_trans_tag [OF _ MapV.prems])
    assume "type_tag (MapV xs) = type_tag v" "type_tag (MapV xs) = type_tag w"
    then obtain ys zs where "v = MapV ys" "w = MapV zs" by (blast dest: same_variant)
    with list_cmp_trans [of "entry_cmp value_cmp value_cmp" xs ys zs, OF entry_cmp_Equal entry_cmp_trans, OF value_cmp_Equal value_cmp_Equal value_cmp_Equal MapV.IH] MapV.prems
    show "value_cmp (MapV xs) w = Less" by simp
  qed
next
  case (ObjectV xs)
  show ?case
  proof (rule value_cmp_trans_tag [OF _ ObjectV.prems])
    assume "type_tag (ObjectV xs) = type_tag v" "type_tag (ObjectV xs) = type_tag w"
    then obtain ys zs where "v = ObjectV ys" "w = ObjectV zs" by (blast dest: same_variant)
    with list_cmp_trans [of "entry_cmp cmp value_cmp" xs ys zs, OF entry_cmp_Equal entry_cmp_trans, OF cmp_Equal_iff value_cmp_Equal cmp_Equal_iff cmp_Less_trans ObjectV.IH] ObjectV.prems
    show "value_cmp (ObjectV xs) w = Less" by simp
  qed
qed (rule value_cmp_trans_tag, (drule same_variant)+, auto simp: total_cmp_def dest: cmp_Less_trans)+

instantiation convex_value :: linorder
begin

definition less_convex_value :: "convex_value \<Rightarrow> convex_value \<Rightarrow> bool" where
  "less_convex_value v w = (value_cmp v w = Less)"

definition less_eq_convex_value :: "convex_value \<Rightarrow> convex_value \<Rightarrow> bool" where
  "less_eq_convex_value v w = (value_cmp v w \<noteq> Greater)"

instance
proof
  fix u v w :: convex_value
  have sw: "value_cmp v u = opposite (value_cmp u v)" by (rule value_cmp_swap)
  show "u < v \<longleftrightarrow> u \<le> v \<and> \<not> v \<le> u"
    using sw by (cases "value_cmp u v") (auto simp: less_convex_value_def less_eq_convex_value_def)
  show "u \<le> u" using value_cmp_Equal [of u u] by (simp add: less_eq_convex_value_def)
  show "u \<le> v \<or> v \<le> u" using sw by (cases "value_cmp u v") (auto simp: less_eq_convex_value_def)
  show "u = v" if "u \<le> v" "v \<le> u"
    using that sw value_cmp_Equal [of u v]
    by (cases "value_cmp u v") (auto simp: less_eq_convex_value_def)
  show "u \<le> w" if "u \<le> v" "v \<le> w"
    using that value_cmp_trans [of u v w] value_cmp_Equal [of u v] value_cmp_Equal [of v w]
    by (cases "value_cmp u v"; cases "value_cmp v w") (auto simp: less_eq_convex_value_def)
qed

end

lemma cmp_value [simp]: "cmp v w = value_cmp v w"
  using value_cmp_Equal [of v w]
  by (cases "value_cmp v w") (auto simp: cmp_def less_convex_value_def)

section \<open>Well-formed values\<close>

text \<open>\<open>str::from_utf8\<close>: the well-formed byte sequences of the Unicode standard.\<close>

definition utf8_cont :: "u8 \<Rightarrow> bool" where
  "utf8_cont b = (128 \<le> b \<and> b \<le> 191)"

definition utf8_second :: "u8 \<Rightarrow> u8 \<Rightarrow> bool" where
  "utf8_second b0 b1 =
     (if b0 = 0xE0 then 0xA0 \<le> b1 \<and> b1 \<le> 0xBF
      else if b0 = 0xED then 0x80 \<le> b1 \<and> b1 \<le> 0x9F
      else if b0 = 0xF0 then 0x90 \<le> b1 \<and> b1 \<le> 0xBF
      else if b0 = 0xF4 then 0x80 \<le> b1 \<and> b1 \<le> 0x8F
      else utf8_cont b1)"

fun utf8_valid :: "bytes \<Rightarrow> bool" where
  "utf8_valid [] = True"
| "utf8_valid (b0 # bs) =
     (if b0 < 128 then utf8_valid bs
      else case bs of [] \<Rightarrow> False | b1 # bs1 \<Rightarrow>
        if 0xC2 \<le> b0 \<and> b0 \<le> 0xDF then utf8_cont b1 \<and> utf8_valid bs1
        else case bs1 of [] \<Rightarrow> False | b2 # bs2 \<Rightarrow>
          if 0xE0 \<le> b0 \<and> b0 \<le> 0xEF then utf8_second b0 b1 \<and> utf8_cont b2 \<and> utf8_valid bs2
          else case bs2 of [] \<Rightarrow> False | b3 # bs3 \<Rightarrow>
            0xF0 \<le> b0 \<and> b0 \<le> 0xF4 \<and> utf8_second b0 b1 \<and> utf8_cont b2 \<and> utf8_cont b3
              \<and> utf8_valid bs3)"

lemma utf8_valid_ascii: "\<forall>b \<in> set bs. b < 128 \<Longrightarrow> utf8_valid bs"
  by (induction bs) auto

text \<open>
  What the types of the source guarantee of a value: strings are UTF-8, sets and maps are
  \<open>BTreeSet\<close>s and \<open>BTreeMap\<close>s, field names have been parsed, and every container has passed
  the limits of its constructor.
\<close>

definition within_limits :: "convex_value \<Rightarrow> bool" where
  "within_limits v = (value_size v \<le> MAX_SIZE \<and> value_nesting v \<le> MAX_NESTING)"

fun value_ok :: "convex_value \<Rightarrow> bool" where
  "value_ok Null = True"
| "value_ok (Int64 _) = True"
| "value_ok (Float64 _) = True"
| "value_ok (Boolean _) = True"
| "value_ok (StringV s) = (utf8_valid s \<and> within_limits (StringV s))"
| "value_ok (BytesV s) = within_limits (BytesV s)"
| "value_ok (ArrayV xs) =
     (length xs \<le> MAX_ARRAY_LEN \<and> within_limits (ArrayV xs) \<and> (\<forall>x \<in> set xs. value_ok x))"
| "value_ok (SetV xs) =
     (sorted_wrt (<) xs \<and> length xs \<le> MAX_SET_LEN \<and> within_limits (SetV xs)
       \<and> (\<forall>x \<in> set xs. value_ok x))"
| "value_ok (MapV kvs) =
     (bt_ok kvs \<and> length kvs \<le> MAX_MAP_LEN \<and> within_limits (MapV kvs)
       \<and> (\<forall>(k, v) \<in> set kvs. value_ok k \<and> value_ok v))"
| "value_ok (ObjectV fs) =
     (bt_ok fs \<and> length fs \<le> MAX_OBJECT_FIELDS \<and> within_limits (ObjectV fs)
       \<and> (\<forall>(f, v) \<in> set fs. is_valid_field_name f \<and> value_ok v))"

lemma check_limits_ok: "check_limits v = Inr w \<longleftrightarrow> w = v \<and> within_limits v"
  by (auto simp: check_limits_def check_system_size_def check_nesting_def within_limits_def)

lemma nesting_le_max: "n \<in> set ns \<Longrightarrow> n \<le> max_or_0 ns"
  by (induction ns) (auto simp: max_or_0_def)

lemma max_or_0_le: "max_or_0 ns \<le> m \<longleftrightarrow> (\<forall>n \<in> set ns. n \<le> m)"
  by (induction ns) (auto simp: max_or_0_def)

section \<open>Properties\<close>

text \<open>C27. The hand-written comparison of values is a total order: it is \<open>Equal\<close> only on identical
  values (also for floats, by their bits), swapping the arguments reverses it, and it is
  transitive.\<close>

theorem value_cmp_total_order:
  "(value_cmp v w = Equal \<longleftrightarrow> v = w) \<and> value_cmp w v = opposite (value_cmp v w)
   \<and> (value_cmp u v = Less \<and> value_cmp v w = Less \<longrightarrow> value_cmp u w = Less)"
  using value_cmp_Equal value_cmp_swap value_cmp_trans by blast

theorem value_cmp_total_order_witness:
  "value_cmp (Int64 (- 1)) (Float64 0) = Less \<and> value_cmp (Float64 0) (StringV [97]) = Less
   \<and> value_cmp (Int64 (- 1)) (StringV [97]) = Less"
  using value_cmp_total_order [of "Float64 0" "StringV [97]" "Int64 (- 1)"]
  by (simp add: value_cmp_diff type_tag_def cmp_def)

text \<open>The container constructors accept exactly what fits the limits: given items that are
  themselves well formed, an array is built iff it is within the length, size and nesting limits,
  the result is the array of these items, and it is well formed.\<close>

lemma ConvexArray_try_from_ok:
  assumes "\<forall>x \<in> set xs. value_ok x"
  shows "case ConvexArray_try_from xs of
      Inr v \<Rightarrow> v = ArrayV xs \<and> value_ok v
    | Inl _ \<Rightarrow> MAX_ARRAY_LEN < length xs \<or> MAX_SIZE < value_size (ArrayV xs) \<or> MAX_NESTING < value_nesting (ArrayV xs)"
  using assms
  by (auto simp: ConvexArray_try_from_def check_limits_def check_system_size_def check_nesting_def within_limits_def
      split: sum.splits)

end
