(* ===== verification/Sort_Key_Decode.thy ===== *)
theory Sort_Key_Decode
  imports Sort_Key
begin

text \<open>
  The decoder of sort keys, \<open>sorting_decode\<close> in \<open>value/src/sorting.rs\<close>, which the crate builds
  for its tests.  A reader is the list of bytes still to be read; peeking is looking at its head.
\<close>

section \<open>Decoding\<close>

text \<open>
  The loops of the decoder are bounded by fuel.  Every turn of \<open>read_terminated\<close> and every
  nested call consumes a byte, so one more than the length of the input is enough; that
  \<open>OutOfFuel\<close> is then never returned is proved below.
\<close>

type_synonym 'a reader = "value_error + 'a \<times> bytes"

fun read_u8 :: "bytes \<Rightarrow> u8 reader" where
  "read_u8 [] = Inl UnexpectedEof"
| "read_u8 (b # bs) = Inr (b, bs)"

definition read_exact :: "nat \<Rightarrow> bytes \<Rightarrow> bytes reader" where
  "read_exact n bs = (if length bs < n then Inl UnexpectedEof else Inr (take n bs, drop n bs))"

fun read_escaped_bytes :: "bytes \<Rightarrow> bytes reader" where
  "read_escaped_bytes [] = Inl UnexpectedEof"
| "read_escaped_bytes (b # bs) =
     (if b = TERMINATOR_BYTE then
        (case bs of
           c # cs \<Rightarrow>
             if c = ESCAPE_BYTE
             then bind_result (read_escaped_bytes cs) (\<lambda>(out, r). Inr (TERMINATOR_BYTE # out, r))
             else Inr ([], bs)
         | [] \<Rightarrow> Inr ([], []))
      else bind_result (read_escaped_bytes bs) (\<lambda>(out, r). Inr (b # out, r)))"

definition read_escaped_string :: "bytes \<Rightarrow> bytes reader" where
  "read_escaped_string bs =
     bind_result (read_escaped_bytes bs) (\<lambda>(s, r).
       if utf8_valid s then Inr (s, r) else Inl InvalidUtf8)"

definition read_tagged_int :: "u8 \<Rightarrow> bytes \<Rightarrow> i64 reader" where
  "read_tagged_int tag bs =
     (let is_negative = tag < ZERO_INT64_TAG;
          diff = unat (max tag ZERO_INT64_TAG) - unat (min tag ZERO_INT64_TAG);
          num_bytes = 2 ^ (diff - 1)
      in bind_result (read_exact num_bytes bs) (\<lambda>(buf, r).
           Inr (of_nat (from_be (replicate (8 - num_bytes) (if is_negative then 0xFF else 0) @ buf)), r)))"

definition read_float :: "bytes \<Rightarrow> u64 reader" where
  "read_float bs =
     bind_result (read_exact 8 bs) (\<lambda>(buf, r).
       let n = (of_nat (from_be buf) :: u64)
       in Inr (if n AND 0x8000000000000000 \<noteq> 0 then n AND NOT 0x8000000000000000 else NOT n, r))"

fun read_terminated :: "('acc \<Rightarrow> bytes \<Rightarrow> 'acc reader) \<Rightarrow> nat \<Rightarrow> 'acc \<Rightarrow> bytes \<Rightarrow> 'acc reader" where
  "read_terminated read_element 0 acc bs = Inl OutOfFuel"
| "read_terminated read_element (Suc n) acc bs =
     (if bs \<noteq> [] \<and> hd bs = TERMINATOR_BYTE then Inr (acc, tl bs)
      else bind_result (read_element acc bs) (\<lambda>(acc', r). read_terminated read_element n acc' r))"

definition read_array_element ::
    "(bytes \<Rightarrow> convex_value reader) \<Rightarrow> convex_value list \<Rightarrow> bytes \<Rightarrow> convex_value list reader" where
  "read_array_element rd xs bs = bind_result (rd bs) (\<lambda>(x, r). Inr (xs @ [x], r))"

definition read_set_element ::
    "(bytes \<Rightarrow> convex_value reader) \<Rightarrow> convex_value list \<Rightarrow> bytes \<Rightarrow> convex_value list reader" where
  "read_set_element rd xs bs =
     bind_result (rd bs) (\<lambda>(x, r).
       if x \<in> set xs then Inl DuplicateElement else Inr (insort_insert x xs, r))"

definition read_map_entry ::
    "(bytes \<Rightarrow> convex_value reader) \<Rightarrow> (convex_value, convex_value) btree \<Rightarrow> bytes \<Rightarrow>
       (convex_value, convex_value) btree reader" where
  "read_map_entry rd m bs =
     bind_result (rd bs) (\<lambda>(k, r1).
     bind_result (rd r1) (\<lambda>(v, r2).
       if bt_get m k \<noteq> None then Inl DuplicateElement else Inr (bt_insert k v m, r2)))"

definition parse_field :: "bytes \<Rightarrow> value_error + field_name" where
  "parse_field s = (case FieldName_from_str s of Inl e \<Rightarrow> Inl (InvalidFieldName e) | Inr f \<Rightarrow> Inr f)"

definition read_object_field ::
    "(bytes \<Rightarrow> convex_value reader) \<Rightarrow> convex_object \<Rightarrow> bytes \<Rightarrow> convex_object reader" where
  "read_object_field rd m bs =
     bind_result (read_escaped_string bs) (\<lambda>(s, r1).
     bind_result (parse_field s) (\<lambda>f.
     bind_result (rd r1) (\<lambda>(v, r2).
       if bt_get m f \<noteq> None then Inl DuplicateElement else Inr (bt_insert f v m, r2))))"

text \<open>\<open>try_from\<close> on what was read, keeping the rest of the input.\<close>

definition finish :: "('a \<Rightarrow> value_error + 'b) \<Rightarrow> 'a reader \<Rightarrow> 'b reader" where
  "finish f rd = bind_result rd (\<lambda>(a, r). bind_result (f a) (\<lambda>b. Inr (b, r)))"

primrec read_value :: "nat \<Rightarrow> bytes \<Rightarrow> convex_value reader" where
  "read_value 0 bs = Inl OutOfFuel"
| "read_value (Suc n) bs =
     bind_result (read_u8 bs) (\<lambda>(tag, r).
       if tag = NULL_TAG then Inr (Null, r)
       else if tag = ZERO_INT64_TAG then Inr (Int64 0, r)
       else if NEG_INT64_8_BYTE_TAG \<le> tag \<and> tag \<le> POS_INT64_8_BYTE_TAG
       then finish (\<lambda>i. Inr (Int64 i)) (read_tagged_int tag r)
       else if tag = FLOAT64_TAG then finish (\<lambda>f. Inr (Float64 f)) (read_float r)
       else if tag = FALSE_BOOLEAN_TAG then Inr (Boolean False, r)
       else if tag = TRUE_BOOLEAN_TAG then Inr (Boolean True, r)
       else if tag = STRING_TAG then finish ConvexString_try_from (read_escaped_string r)
       else if tag = BYTES_TAG then finish ConvexBytes_try_from (read_escaped_bytes r)
       else if tag = ARRAY_TAG
       then finish ConvexArray_try_from (read_terminated (read_array_element (read_value n)) n [] r)
       else if tag = SET_TAG
       then finish ConvexSet_try_from (read_terminated (read_set_element (read_value n)) n [] r)
       else if tag = MAP_TAG
       then finish ConvexMap_try_from (read_terminated (read_map_entry (read_value n)) n [] r)
       else if tag = OBJECT_TAG
       then finish (\<lambda>m. bind_result (ConvexObject_try_from m) (\<lambda>m'. Inr (ObjectV m')))
              (read_terminated (read_object_field (read_value n)) n [] r)
       else if tag = ESCAPE_BYTE then Inl EscapeTag
       else Inl (UnrecognizedTag tag))"

definition read_sort_key :: "bytes \<Rightarrow> convex_value reader" where
  "read_sort_key bs = read_value (Suc (length bs)) bs"

fun bytes_to_values_loop :: "nat \<Rightarrow> bytes \<Rightarrow> value_error + convex_value option list" where
  "bytes_to_values_loop 0 bs = Inl OutOfFuel"
| "bytes_to_values_loop (Suc n) bs =
     (if bs = [] then Inr []
      else bind_result (read_sort_key bs) (\<lambda>(v, r).
           bind_result (bytes_to_values_loop n r) (\<lambda>vs. Inr (Some v # vs))))"

definition bytes_to_values :: "bytes \<Rightarrow> value_error + convex_value option list" where
  "bytes_to_values bs = bytes_to_values_loop (Suc (length bs)) bs"

section \<open>Integers read back\<close>

lemma be_bytes_0: "be_bytes k 0 = replicate k 0"
  by (induction k) (simp_all flip: replicate_append_same)

lemma be_bytes_max: "be_bytes k (256 ^ k - 1) = replicate k 255"
proof (induction k)
  case (Suc k)
  have "(256 ^ Suc k - 1) div 256 = (256 ^ k - 1 :: nat)" "(256 ^ Suc k - 1) mod 256 = (255 :: nat)"
    using div_mult_self1 [of 256 255 "256 ^ k - 1 :: nat"] mod_mult_self1 [of 255 "256 ^ k - 1 :: nat" 256]
    by (simp_all add: algebra_simps)
  then show ?case using Suc by (simp flip: replicate_append_same)
qed simp

lemma int_high:
  "unat n div 256 ^ int_bytes n = (if sint n < 0 then 256 ^ (8 - int_bytes n) - 1 else 0)"
proof -
  have "uint n = (if sint n < 0 then sint n + 2 ^ 64 else sint n)"
    using uint_sint [of n] sint_less [of n] sint_greater_eq [of n] mod_add_self2 [of "sint n" "2 ^ 64"]
      mod_pos_pos_trivial [of "sint n + 2 ^ 64" "2 ^ 64"]
    by (auto simp: take_bit_eq_mod)
  moreover have "256 ^ int_bytes n * (unat n div 256 ^ int_bytes n) + int_low n = unat n"
    by (simp add: int_low_def)
  then have "int (256 ^ int_bytes n * (unat n div 256 ^ int_bytes n) + int_low n) = int (unat n)"
    by (rule arg_cong)
  then have "256 ^ int_bytes n * int (unat n div 256 ^ int_bytes n) + int (int_low n) = int (unat n)"
    unfolding of_nat_add of_nat_mult of_nat_power of_nat_numeral .
  then have "uint n = 256 ^ int_bytes n * int (unat n div 256 ^ int_bytes n) + int (int_low n)"
    by simp
  ultimately have q: "256 ^ int_bytes n * int (unat n div 256 ^ int_bytes n)
      = (if sint n < 0 then 2 ^ 64 - 256 ^ int_bytes n else 0)"
    using int_low [of n] by auto
  define q where "q = unat n div 256 ^ int_bytes n"
  from q int_bytes_cases [of n] show ?thesis
    unfolding q_def [symmetric] by (auto split: if_splits)
qed

lemma int_split:
  "be_bytes 8 (unat n) =
     replicate (8 - int_bytes n) (if sint n < 0 then 255 else 0) @ be_bytes (int_bytes n) (int_low n)"
proof -
  have "8 = 8 - int_bytes n + int_bytes n" using int_bytes_cases [of n] by auto
  then have "be_bytes 8 (unat n) = be_bytes (8 - int_bytes n) (unat n div 256 ^ int_bytes n) @ be_bytes (int_bytes n) (unat n)"
    using drop_be_bytes [of "8 - int_bytes n" "int_bytes n" "unat n"] by simp
  then show ?thesis using be_bytes_max [of "8 - int_bytes n"] by (simp add: int_high int_low_def be_bytes_mod be_bytes_0)
qed

lemma int_bytes_eq: "2 ^ (tag_diff n - Suc 0) = int_bytes n"
  by (simp add: int_bytes_def)

lemma tagged_int_assert: "write_tagged_int_assert n"
  using int_split [of n] by (simp add: write_tagged_int_assert_def Let_def int_bytes_eq)

lemma read_exact_append: "length buf = k \<Longrightarrow> read_exact k (buf @ r) = Inr (buf, r)"
  by (simp add: read_exact_def)

lemma read_int:
  assumes "n \<noteq> 0"
  shows "read_tagged_int (int_tag n) (be_bytes (int_bytes n) (int_low n) @ r) = Inr (n, r)"
proof -
  have t: "unat (int_tag n) = nat (8 + int_class n)"
    using uint_int_tag [of n] by (simp add: unat_eq_nat_uint)
  have neg: "int_tag n < ZERO_INT64_TAG \<longleftrightarrow> sint n < 0"
    using t assms tag_diff_pos [of n] by (auto simp: word_less_nat_alt tag_defs int_class_def)
  have "unat (max (int_tag n) ZERO_INT64_TAG) - unat (min (int_tag n) ZERO_INT64_TAG) = tag_diff n"
    using t assms int_class_range [of n] tag_diff_pos [of n]
    by (auto simp: max_def min_def word_le_nat_alt tag_defs int_class_def split: if_splits)
  then have "read_tagged_int (int_tag n) (be_bytes (int_bytes n) (int_low n) @ r)
      = Inr (of_nat (from_be (be_bytes 8 (unat n))), r)"
    using neg by (simp add: read_tagged_int_def Let_def read_exact_append int_split int_bytes_eq)
  also have "from_be (be_bytes 8 (unat n)) = unat n"
    using unsigned_less [of n] by (intro from_be_bytes) simp
  finally show ?thesis by simp
qed

lemma read_float: "read_float (be_bytes 8 (unat (float_key_bits f)) @ r) = Inr (f, r)"
proof -
  have "from_be (be_bytes 8 (unat (float_key_bits f))) = unat (float_key_bits f)"
    using unsigned_less [of "float_key_bits f"] by (intro from_be_bytes) simp
  moreover have "bit (float_key_bits f) 63 \<longleftrightarrow> \<not> bit f 63"
    by (simp add: float_key_bits_def sign_bit bit_simps)
  moreover have "(f OR 0x8000000000000000) AND NOT 0x8000000000000000 = f" if "\<not> bit f 63"
  proof -
    have "f AND 0x8000000000000000 = 0" using that sign_bit [of f] by blast
    then show ?thesis by (simp add: bit_eq_iff bit_simps) blast
  qed
  ultimately show ?thesis
    by (simp add: read_float_def read_exact_append sign_bit Let_def) (simp add: float_key_bits_def sign_bit)
qed

section \<open>Values read back\<close>

lemma read_escaped:
  "unescaped r \<Longrightarrow> read_escaped_bytes (write_escaped_bytes s @ r) = Inr (s, r)"
proof (induction s)
  case Nil
  then show ?case by (cases r) (auto simp: write_escaped_bytes_def)
next
  case (Cons b s)
  then show ?case by (auto simp: write_escaped_bytes_def tag_defs)
qed

text \<open>
  All four containers are read the same way: after the items \<open>ys\<close> the accumulator is \<open>ys\<close>
  itself, since the items arrive in ascending order.
\<close>

lemma read_terminated_items:
  assumes rd: "\<And>ys x zs r. items = ys @ x # zs \<Longrightarrow> unescaped r \<Longrightarrow> rd ys (enc x @ r) = Inr (ys @ [x], r)"
    and start: "\<And>x. x \<in> set items \<Longrightarrow> \<exists>b bs. enc x = b # bs \<and> b \<noteq> TERMINATOR_BYTE \<and> b \<noteq> ESCAPE_BYTE"
  shows "items = ys @ zs \<Longrightarrow> length (concat (map enc zs)) < n \<Longrightarrow>
    read_terminated rd n ys (concat (map enc zs) @ TERMINATOR_BYTE # r) = Inr (items, r)"
proof (induction zs arbitrary: ys n)
  case Nil
  then show ?case by (cases n) auto
next
  case (Cons z zs)
  obtain b bs where b: "enc z = b # bs" "b \<noteq> TERMINATOR_BYTE" using start [of z] Cons.prems(1) by auto
  obtain m where n: "n = Suc m" using Cons.prems(2) by (cases n) auto
  have "unescaped (concat (map enc zs) @ TERMINATOR_BYTE # r)"
    using start Cons.prems(1) by (cases zs) (force simp: tag_defs)+
  from rd [OF Cons.prems(1) this] Cons.IH [of "ys @ [z]" m] Cons.prems b n show ?case by simp
qed

lemma insort_insert_last: "\<forall>y \<in> set ys. y < x \<Longrightarrow> insort_insert x ys = ys @ [x]" for x :: "'a::linorder"
proof -
  assume *: "\<forall>y \<in> set ys. y < x"
  then have "insort x ys = ys @ [x]" by (induction ys) auto
  with * show ?thesis by (auto simp: insort_insert_key_def)
qed

lemma bt_get_last: "\<forall>y \<in> set ys. fst y < k \<Longrightarrow> bt_get ys k = None"
  by (induction ys) (auto simp: bt_get_def)

lemma length_concat_member: "x \<in> set xs \<Longrightarrow> length (f x) \<le> length (concat (map f xs))"
  by (induction xs) auto

lemma parse_field_ok: "is_valid_field_name f \<Longrightarrow> parse_field f = Inr f"
  by (auto simp: parse_field_def FieldName_from_str_def is_valid_field_name_def bind_result_def
      split: sum.splits)

lemma field_utf8: "is_valid_field_name f \<Longrightarrow> utf8_valid f"
  by (rule utf8_valid_ascii) (auto simp: is_valid_field_name_def check_valid_field_name_inner_def
      is_ascii_def split: if_splits)

abbreviation reads :: "convex_value \<Rightarrow> nat \<Rightarrow> bool" where
  "reads v n \<equiv> \<forall>r. unescaped r \<longrightarrow> read_value n (write_sort_key v @ r) = Inr (v, r)"

lemma read_array_items:
  assumes "\<forall>x \<in> set xs. reads x n" and "length (concat (map write_sort_key xs)) < n"
  shows "read_terminated (read_array_element (read_value n)) n [] (concat (map write_sort_key xs) @ TERMINATOR_BYTE # r)
    = Inr (xs, r)"
  by (rule read_terminated_items [of xs])
    (use assms sort_key_start in \<open>auto simp: read_array_element_def\<close>)

lemma read_set_items:
  assumes "\<forall>x \<in> set xs. reads x n" and "length (concat (map write_sort_key xs)) < n" and "sorted_wrt (<) xs"
  shows "read_terminated (read_set_element (read_value n)) n [] (concat (map write_sort_key xs) @ TERMINATOR_BYTE # r)
    = Inr (xs, r)"
proof (rule read_terminated_items [of xs])
  fix ys x zs r
  assume xs: "xs = ys @ x # zs" and r: "unescaped r"
  then have less: "\<forall>y \<in> set ys. y < x" using assms(3) by (simp add: sorted_wrt_append)
  with xs r assms(1) show "read_set_element (read_value n) ys (write_sort_key x @ r) = Inr (ys @ [x], r)"
    by (auto simp: read_set_element_def insort_insert_last)
qed (use assms sort_key_start in auto)

lemma read_map_items:
  assumes "\<forall>(k, v) \<in> set kvs. reads k n \<and> reads v n" and "bt_ok kvs"
    and "length (concat (map (\<lambda>(k, v). write_sort_key k @ write_sort_key v) kvs)) < n"
  shows "read_terminated (read_map_entry (read_value n)) n []
      (concat (map (\<lambda>(k, v). write_sort_key k @ write_sort_key v) kvs) @ TERMINATOR_BYTE # r) = Inr (kvs, r)"
proof (rule read_terminated_items [of kvs])
  fix ys e zs r
  assume kvs: "kvs = ys @ e # zs" and r: "unescaped r"
  obtain k v where e: "e = (k, v)" by (cases e)
  have less: "\<forall>y \<in> set ys. fst y < k" using assms(2) kvs e by (auto simp: sorted_wrt_append)
  have "unescaped (write_sort_key v @ r)" using sort_key_start [of v] by auto
  with kvs r e assms(1) less
  show "read_map_entry (read_value n) ys ((case e of (k, v) \<Rightarrow> write_sort_key k @ write_sort_key v) @ r) = Inr (ys @ [e], r)"
    by (simp add: read_map_entry_def bt_get_last bt_insert_last)
next
  show "\<exists>b bs. (case e of (k, v) \<Rightarrow> write_sort_key k @ write_sort_key v) = b # bs \<and> b \<noteq> TERMINATOR_BYTE \<and> b \<noteq> ESCAPE_BYTE" for e
    using sort_key_start [of "fst e"] by (cases e) auto
qed (use assms in auto)

lemma read_object_items:
  assumes "\<forall>(f, v) \<in> set fs. key_name f \<and> reads v n" and "bt_ok fs"
    and "length (concat (map (\<lambda>(f, v). write_escaped_bytes f @ write_sort_key v) fs)) < n"
  shows "read_terminated (read_object_field (read_value n)) n []
      (concat (map (\<lambda>(f, v). write_escaped_bytes f @ write_sort_key v) fs) @ TERMINATOR_BYTE # r) = Inr (fs, r)"
proof (rule read_terminated_items [of fs])
  fix ys e zs r
  assume fs: "fs = ys @ e # zs" and r: "unescaped r"
  obtain f v where e: "e = (f, v)" by (cases e)
  have less: "\<forall>y \<in> set ys. fst y < f" using assms(2) fs e by (auto simp: sorted_wrt_append)
  have "unescaped (write_sort_key v @ r)" using sort_key_start [of v] by auto
  with fs r e assms(1) less
  show "read_object_field (read_value n) ys ((case e of (f, v) \<Rightarrow> write_escaped_bytes f @ write_sort_key v) @ r) = Inr (ys @ [e], r)"
    by (simp add: read_object_field_def read_escaped_string_def read_escaped key_name_def field_utf8
        parse_field_ok bt_get_last bt_insert_last)
next
  fix e
  assume e: "e \<in> set fs"
  obtain f v where fv: "e = (f, v)" by (cases e)
  then have "f \<in> {s. s \<noteq> [] \<and> hd s \<noteq> 0 \<and> hd s \<noteq> 255}" using e assms(1) key_name_start [of f] by auto
  from escaped.start [OF this] fv show "\<exists>b bs. (case e of (f, v) \<Rightarrow> write_escaped_bytes f @ write_sort_key v) = b # bs \<and> b \<noteq> TERMINATOR_BYTE \<and> b \<noteq> ESCAPE_BYTE"
    by auto
qed (use assms in auto)

lemma finish_Inr [simp]: "finish f (Inr (a, r)) = bind_result (f a) (\<lambda>b. Inr (b, r))"
  by (simp add: finish_def)

lemma read_value_tag:
  "read_value (Suc n) (FLOAT64_TAG # r) = finish (\<lambda>f. Inr (Float64 f)) (read_float r)"
  "read_value (Suc n) (STRING_TAG # r) = finish ConvexString_try_from (read_escaped_string r)"
  "read_value (Suc n) (BYTES_TAG # r) = finish ConvexBytes_try_from (read_escaped_bytes r)"
  "read_value (Suc n) (ARRAY_TAG # r) =
     finish ConvexArray_try_from (read_terminated (read_array_element (read_value n)) n [] r)"
  "read_value (Suc n) (SET_TAG # r) =
     finish ConvexSet_try_from (read_terminated (read_set_element (read_value n)) n [] r)"
  "read_value (Suc n) (MAP_TAG # r) =
     finish ConvexMap_try_from (read_terminated (read_map_entry (read_value n)) n [] r)"
  "read_value (Suc n) (OBJECT_TAG # r) =
     finish (\<lambda>m. bind_result (ConvexObject_try_from m) (\<lambda>m'. Inr (ObjectV m')))
       (read_terminated (read_object_field (read_value n)) n [] r)"
  by (simp_all add: tag_defs)

lemma check_limits_within: "within_limits v \<Longrightarrow> check_limits v = Inr v"
  by (simp add: check_limits_ok)

lemma read_value_key:
  "value_ok v \<Longrightarrow> key_ok v \<Longrightarrow> length (write_sort_key v) \<le> n \<Longrightarrow> reads v n"
proof (induction v arbitrary: n rule: value_induct)
  case (Int64 i)
  then obtain m where n: "n = Suc m" using sort_key_start [of "Int64 i"] by (cases n) auto
  show ?case
  proof (cases "i = 0")
    case False
    have "4 \<le> int_tag i" "int_tag i \<le> 12" using int_tag_range [of i] by (simp_all add: word_le_nat_alt)
    moreover have "int_tag i \<noteq> ZERO_INT64_TAG"
      using uint_int_tag [of i] int_class_0 [of i] False by (auto simp: tag_defs)
    moreover have "int_tag i \<noteq> NULL_TAG" using \<open>4 \<le> int_tag i\<close> by (auto simp: tag_defs)
    ultimately show ?thesis
      unfolding int_key using False read_int [OF False] by (simp add: n NEG_INT64_8_BYTE_TAG_def POS_INT64_8_BYTE_TAG_def)
  qed (simp add: n tag_defs)
next
  case (Float64 f)
  then obtain m where n: "n = Suc m" by (cases n) simp_all
  show ?case by (simp add: n read_value_tag read_float del: read_value.simps)
next
  case (StringV s)
  then obtain m where n: "n = Suc m" by (cases n) simp_all
  show ?case using StringV.prems(1)
    by (simp add: n read_value_tag read_escaped_string_def read_escaped ConvexString_try_from_def
        check_system_size_def within_limits_def del: read_value.simps)
next
  case (BytesV s)
  then obtain m where n: "n = Suc m" by (cases n) simp_all
  show ?case using BytesV.prems(1)
    by (simp add: n read_value_tag read_escaped ConvexBytes_try_from_def
        check_system_size_def within_limits_def del: read_value.simps)
next
  case (ArrayV xs)
  obtain m where n: "n = Suc m" using ArrayV.prems(3) by (cases n) simp_all
  then have len: "length (concat (map write_sort_key xs)) < m" using ArrayV.prems(3) by simp
  have "reads x m" if "x \<in> set xs" for x
    using that ArrayV.IH [OF that] ArrayV.prems(1,2) len length_concat_member [OF that, of write_sort_key] by simp
  then have rd: "read_terminated (read_array_element (read_value m)) m []
      (concat (map write_sort_key xs) @ TERMINATOR_BYTE # r) = Inr (xs, r)" for r
    using len by (intro read_array_items) blast+
  show ?case using ArrayV.prems(1)
    by (simp add: n read_value_tag rd ConvexArray_try_from_def check_limits_within del: read_value.simps)
next
  case (SetV xs)
  obtain m where n: "n = Suc m" using SetV.prems(3) by (cases n) simp_all
  then have len: "length (concat (map write_sort_key xs)) < m" using SetV.prems(3) by simp
  have "reads x m" if "x \<in> set xs" for x
    using that SetV.IH [OF that] SetV.prems(1,2) len length_concat_member [OF that, of write_sort_key] by simp
  then have rd: "read_terminated (read_set_element (read_value m)) m []
      (concat (map write_sort_key xs) @ TERMINATOR_BYTE # r) = Inr (xs, r)" for r
    using len SetV.prems(1) by (intro read_set_items) simp_all
  show ?case using SetV.prems(1)
    by (simp add: n read_value_tag rd ConvexSet_try_from_def check_limits_within del: read_value.simps)
next
  case (MapV kvs)
  let ?enc = "\<lambda>(k, v). write_sort_key k @ write_sort_key v"
  obtain m where n: "n = Suc m" using MapV.prems(3) by (cases n) simp_all
  then have len: "length (concat (map ?enc kvs)) < m" using MapV.prems(3) by simp
  have "reads k m \<and> reads v m" if e: "(k, v) \<in> set kvs" for k v
  proof -
    have "length (write_sort_key k) \<le> m" "length (write_sort_key v) \<le> m"
      using len length_concat_member [OF e, of ?enc] by simp_all
    moreover have "value_ok k" "value_ok v" "key_ok k" "key_ok v" using MapV.prems(1,2) e by auto
    ultimately show ?thesis using MapV.IH(1) [OF e, of m] MapV.IH(2) [OF e, of m] by simp
  qed
  moreover have "bt_ok kvs" using MapV.prems(1) by simp
  ultimately have rd: "read_terminated (read_map_entry (read_value m)) m []
      (concat (map ?enc kvs) @ TERMINATOR_BYTE # r) = Inr (kvs, r)" for r
    using len by (intro read_map_items) blast+
  show ?case using MapV.prems(1)
    by (simp add: n read_value_tag rd ConvexMap_try_from_def check_limits_within del: read_value.simps)
next
  case (ObjectV fs)
  let ?enc = "\<lambda>(f, v). write_escaped_bytes f @ write_sort_key v"
  obtain m where n: "n = Suc m" using ObjectV.prems(3) by (cases n) simp_all
  then have len: "length (concat (map ?enc fs)) < m" using ObjectV.prems(3) by simp
  have "key_name f \<and> reads v m" if e: "(f, v) \<in> set fs" for f v
  proof -
    have "length (write_sort_key v) \<le> m" using len length_concat_member [OF e, of ?enc] by simp
    moreover have "value_ok v" "key_ok v" "key_name f" using ObjectV.prems(1,2) e by auto
    ultimately show ?thesis using ObjectV.IH(1) [OF e, of m] by simp
  qed
  moreover have "bt_ok fs" using ObjectV.prems(1) by simp
  ultimately have rd: "read_terminated (read_object_field (read_value m)) m []
      (concat (map ?enc fs) @ TERMINATOR_BYTE # r) = Inr (fs, r)" for r
    using len by (intro read_object_items) blast+
  show ?case using ObjectV.prems(1)
    by (simp add: n read_value_tag rd ConvexObject_try_from_def check_limits_within del: read_value.simps)
next
  case Null
  then show ?case by (cases n) simp_all
next
  case (Boolean b)
  then show ?case by (cases n; cases b) (simp_all add: tag_defs)
qed

section \<open>The decoder always answers\<close>

text \<open>
  Every read either fails for a reason of the input or leaves a rest shorter than the bound.
\<close>

definition shrinks :: "'a reader \<Rightarrow> nat \<Rightarrow> bool" where
  "shrinks res n = (case res of Inl e \<Rightarrow> e \<noteq> OutOfFuel | Inr (x, r) \<Rightarrow> length r < n)"

lemma shrinks_simps [simp]:
  "shrinks (Inl e) n \<longleftrightarrow> e \<noteq> OutOfFuel" "shrinks (Inr (x, r)) n \<longleftrightarrow> length r < n"
  by (simp_all add: shrinks_def)

lemma shrinks_bind:
  assumes "shrinks res m" and "\<And>x r. res = Inr (x, r) \<Longrightarrow> length r < m \<Longrightarrow> shrinks (f (x, r)) n"
  shows "shrinks (bind_result res f) n"
  using assms by (cases res) auto

lemma shrinks_bind_value:
  "res \<noteq> Inl OutOfFuel \<Longrightarrow> (\<And>x. res = Inr x \<Longrightarrow> shrinks (f x) n) \<Longrightarrow> shrinks (bind_result res f) n"
  by (cases res) auto

lemma shrinks_mono: "shrinks res m \<Longrightarrow> m \<le> n \<Longrightarrow> shrinks res n"
  by (cases res) auto

lemma shrinks_escaped: "shrinks (read_escaped_bytes bs) (length bs)"
proof (induction bs rule: read_escaped_bytes.induct)
  case (2 b bs)
  have "shrinks (bind_result (read_escaped_bytes cs) (\<lambda>(out, r). Inr (c # out, r))) (Suc (length cs))"
    if "shrinks (read_escaped_bytes cs) (length cs)" for c cs
    using that by (rule shrinks_bind) auto
  note step = this
  have "shrinks (bind_result (read_escaped_bytes cs) (\<lambda>(out, r). Inr (c # out, r))) (Suc (Suc (length cs)))"
    if "shrinks (read_escaped_bytes cs) (length cs)" for c cs
    using step [OF that] by (rule shrinks_mono) simp
  with 2 step show ?case by (auto split: list.splits)
qed simp

lemma shrinks_string: "shrinks (read_escaped_string bs) (length bs)"
  unfolding read_escaped_string_def using shrinks_escaped by (rule shrinks_bind) auto

lemma try_from_errors:
  "ConvexString_try_from s \<noteq> Inl OutOfFuel" "ConvexBytes_try_from s \<noteq> Inl OutOfFuel"
  "ConvexArray_try_from xs \<noteq> Inl OutOfFuel" "ConvexSet_try_from xs \<noteq> Inl OutOfFuel"
  "ConvexMap_try_from m \<noteq> Inl OutOfFuel" "ConvexObject_try_from fs \<noteq> Inl OutOfFuel"
  by (auto simp: ConvexString_try_from_def ConvexBytes_try_from_def ConvexArray_try_from_def ConvexSet_try_from_def
      ConvexMap_try_from_def ConvexObject_try_from_def check_limits_def check_system_size_def check_nesting_def)

lemma parse_field_error: "parse_field s \<noteq> Inl OutOfFuel"
  by (auto simp: parse_field_def split: sum.splits)

lemma shrinks_finish:
  "shrinks res n \<Longrightarrow> (\<And>x. f x \<noteq> Inl OutOfFuel) \<Longrightarrow> shrinks (finish f res) n"
  unfolding finish_def by (erule shrinks_bind) (auto intro!: shrinks_bind_value)

lemma shrinks_exact: "0 < k \<Longrightarrow> shrinks (read_exact k bs) (Suc (length bs))"
  by (auto simp: read_exact_def)

lemma shrinks_tagged_int: "shrinks (read_tagged_int tag bs) (Suc (length bs))"
  unfolding read_tagged_int_def Let_def by (rule shrinks_bind [OF shrinks_exact]) auto

lemma shrinks_float: "shrinks (read_float bs) (Suc (length bs))"
  unfolding read_float_def Let_def by (rule shrinks_bind [OF shrinks_exact]) auto

text \<open>A reader that shrinks every input up to a length.\<close>

abbreviation shrinking :: "(bytes \<Rightarrow> 'a reader) \<Rightarrow> nat \<Rightarrow> bool" where
  "shrinking rd n \<equiv> \<forall>bs. length bs \<le> n \<longrightarrow> shrinks (rd bs) (length bs)"

lemma shrinking_elements:
  assumes "shrinking rd n"
  shows "shrinking (read_array_element rd acc) n" and "shrinking (read_set_element rd acc) n"
    and "shrinking (read_map_entry rd m) n" and "shrinking (read_object_field rd fs) n"
proof -
  show "shrinking (read_array_element rd acc) n" and "shrinking (read_set_element rd acc) n"
    unfolding read_array_element_def read_set_element_def
    using assms by (auto intro!: shrinks_bind [where m = "length _"])
  have two: "shrinks (bind_result (rd r) f) k"
    if "length r < k" "length r \<le> n" "\<And>x r'. length r' < length r \<Longrightarrow> shrinks (f (x, r')) k" for r f k
    using assms that by (intro shrinks_bind [where m = "length r"]) auto
  show "shrinking (read_map_entry rd m) n"
  proof (intro allI impI)
    fix bs :: bytes
    assume n: "length bs \<le> n"
    show "shrinks (read_map_entry rd m bs) (length bs)"
      unfolding read_map_entry_def using n assms
      by (intro shrinks_bind [where m = "length bs"]) (auto intro!: two)
  qed
  show "shrinking (read_object_field rd fs) n"
  proof (intro allI impI)
    fix bs :: bytes
    assume n: "length bs \<le> n"
    show "shrinks (read_object_field rd fs bs) (length bs)"
      unfolding read_object_field_def
    proof (rule shrinks_bind [OF shrinks_string])
      fix s r :: bytes
      assume "length r < length bs"
      then have "shrinks (bind_result (rd r) (\<lambda>(v, r2). if bt_get fs f \<noteq> None then Inl DuplicateElement
          else Inr (bt_insert f v fs, r2))) (length bs)" for f
        using n by (intro two) auto
      then show "shrinks (case (s, r) of (s, r1) \<Rightarrow> bind_result (parse_field s) (\<lambda>f. bind_result (rd r1)
          (\<lambda>(v, r2). if bt_get fs f \<noteq> None then Inl DuplicateElement else Inr (bt_insert f v fs, r2)))) (length bs)"
        using parse_field_error by (simp add: shrinks_bind_value)
    qed
  qed
qed

lemma shrinks_terminated:
  "(\<And>acc. shrinking (rd acc) m) \<Longrightarrow> length bs \<le> m \<Longrightarrow> length bs < n \<Longrightarrow>
     shrinks (read_terminated rd n acc bs) (Suc (length bs))"
proof (induction n arbitrary: acc bs)
  case (Suc n)
  have "shrinks (read_terminated rd n acc' r) (Suc (length bs))" if "length r < length bs" for acc' r
    using Suc.IH [of r acc'] Suc.prems that by (auto intro: shrinks_mono)
  then have "shrinks (bind_result (rd acc bs) (\<lambda>(acc', r). read_terminated rd n acc' r)) (Suc (length bs))"
    using Suc.prems by (intro shrinks_bind [where m = "length bs"]) auto
  then show ?case by auto
qed simp

lemma read_value_shrinks: "length bs < n \<Longrightarrow> shrinks (read_value n bs) (length bs)"
proof (induction n arbitrary: bs)
  case (Suc n)
  show ?case
  proof (cases bs)
    case (Cons tag r)
    have len: "length r < n" using Suc.prems Cons by simp
    then have sub: "shrinking (read_value n) (length r)" using Suc.IH by auto
    note el = shrinking_elements [OF sub]
    note tm = shrinks_terminated [where m = "length r" and bs = r and n = n and acc = "[]", OF _ order.refl len]
    have e: "shrinks (read_escaped_string r) (Suc (length r))" "shrinks (read_escaped_bytes r) (Suc (length r))"
      by (rule shrinks_mono [OF shrinks_string] shrinks_mono [OF shrinks_escaped], simp)+
    show ?thesis unfolding Cons read_value.simps
      using tm [OF el(1)] tm [OF el(2)] tm [OF el(3)] tm [OF el(4)] e
        shrinks_tagged_int [of tag r] shrinks_float [of r]
      by (simp add: shrinks_finish try_from_errors bind_result_Inl_iff)
  qed simp
qed simp

lemma read_sort_key_rest:
  "value_ok v \<Longrightarrow> key_ok v \<Longrightarrow> unescaped r \<Longrightarrow> read_sort_key (write_sort_key v @ r) = Inr (v, r)"
  unfolding read_sort_key_def
  by (rule read_value_key [rule_format, of v]) simp_all

lemma bytes_to_values_loop_key:
  "\<forall>v \<in> set vs. value_ok v \<and> key_ok v \<Longrightarrow> length (values_to_bytes (map Some vs)) < n \<Longrightarrow>
     bytes_to_values_loop n (values_to_bytes (map Some vs)) = Inr (map Some vs)"
proof (induction vs arbitrary: n)
  case Nil
  then show ?case by (cases n) (simp_all add: values_to_bytes_def)
next
  case (Cons v vs)
  obtain m where n: "n = Suc m" using Cons.prems(2) by (cases n) simp_all
  obtain b bs where b: "write_sort_key v = b # bs" using sort_key_start by blast
  have "set (map Some vs) \<subseteq> {v. optional_ok v}" using Cons.prems(1) by auto
  from optional.unescaped_concat [OF this, of "[]"]
  have "unescaped (values_to_bytes (map Some vs))" by (simp add: values_to_bytes_def)
  with Cons.prems(1)
  have "read_sort_key (write_sort_key v @ values_to_bytes (map Some vs)) = Inr (v, values_to_bytes (map Some vs))"
    by (intro read_sort_key_rest) simp_all
  with Cons.IH [of m] Cons.prems n b show ?case
    by (simp add: values_to_bytes_def optional_key_def)
qed

section \<open>Properties\<close>



text \<open>C26. The decoder answers on every input: the fuel of the model is never used up, and a value
  read leaves strictly fewer bytes.\<close>

theorem read_sort_key_total:
  "(\<exists>e. read_sort_key bs = Inl e \<and> e \<noteq> OutOfFuel) \<or>
   (\<exists>v r. read_sort_key bs = Inr (v, r) \<and> length r < length bs)"
proof -
  have "shrinks (read_sort_key bs) (length bs)"
    unfolding read_sort_key_def by (rule read_value_shrinks) simp
  then show ?thesis by (cases "read_sort_key bs") (auto simp: shrinks_def)
qed

text \<open>A sequence of well-formed values survives the round trip through an index key.\<close>

lemma bytes_to_values_roundtrip:
  assumes "\<forall>v \<in> set vs. value_ok v \<and> key_ok v"
  shows "bytes_to_values (values_to_bytes (map Some vs)) = Inr (map Some vs)"
  unfolding bytes_to_values_def using assms by (rule bytes_to_values_loop_key) simp

text \<open>The assertion in \<open>write_tagged_int\<close> holds for every 64-bit integer: the bytes it leaves
  off are all copies of the sign.\<close>

lemma write_tagged_int_assert_holds: "write_tagged_int_assert n"
  by (rule tagged_int_assert)


end
