(* ===== verification/Byte_Interval.thy ===== *)
theory Byte_Interval
  imports Convex_Prelude "HOL-Library.Sublist"
begin

text \<open>
  Intervals of byte strings: \<open>common/src/interval/key.rs\<close> (\<open>BinaryKey\<close>),
  \<open>bounds.rs\<close> (\<open>StartIncluded\<close>, \<open>End\<close>), \<open>mod.rs\<close> (\<open>Interval\<close>) and the cursor and
  order types of \<open>common/src/query.rs\<close>.  Every operation is characterised by the set of
  byte strings an interval denotes, \<open>Interval_points\<close>.
\<close>

named_theorems interval_simps \<open>intervals read as sets of byte strings\<close>

section \<open>Binary keys\<close>

type_synonym binary_key = bytes

definition BinaryKey_min :: binary_key where
  "BinaryKey_min = []"

text \<open>The loop increments the last byte below 255, dropping trailing 255 bytes.\<close>

function BinaryKey_increment :: "binary_key \<Rightarrow> binary_key option" where
  "BinaryKey_increment key =
     (if key = [] then None
      else if last key < 255 then Some (butlast key @ [last key + 1])
      else BinaryKey_increment (butlast key))"
  by pat_completeness auto
termination
  by (relation "measure length") auto

declare BinaryKey_increment.simps [simp del]

lemma increment_Nil [simp]: "BinaryKey_increment [] = None"
  by (simp add: BinaryKey_increment.simps)

lemma increment_snoc [simp]:
  "BinaryKey_increment (b @ [x]) = (if x < 255 then Some (b @ [x + 1]) else BinaryKey_increment b)"
  by (simp add: BinaryKey_increment.simps [of "b @ [x]"])

lemma append_le_iff: "b @ us \<le> b @ vs \<longleftrightarrow> us \<le> (vs :: 'a::linorder list)"
  by (induction b) auto

lemma le_append: "b \<le> b @ (vs :: 'a::linorder list)"
  by (induction b) auto

lemma between_last_byte:
  "x < 255 \<Longrightarrow> b @ [x] \<le> p \<and> p < b @ [x + 1] \<longleftrightarrow> prefix (b @ [x]) (p :: bytes)"
proof (induction b arbitrary: p)
  case Nil
  then show ?case by (cases p) (auto simp: u8_less_plus_one)
next
  case (Cons a b)
  show ?case
  proof (cases p)
    case (Cons c q)
    with Cons.IH [OF Cons.prems, of q] show ?thesis by auto
  qed simp
qed

lemma increment_between:
  "BinaryKey_increment k = Some t \<Longrightarrow> k \<le> p \<and> p < t \<longleftrightarrow> prefix k p"
proof (induction k arbitrary: t p rule: rev_induct)
  case (snoc x b)
  show ?case
  proof (cases "x < 255")
    case True
    with snoc.prems show ?thesis using between_last_byte [OF True, of b p] by auto
  next
    case False
    then have x: "x = 255" by simp
    from False snoc.prems have inc: "BinaryKey_increment b = Some t" by simp
    have "b @ [x] \<le> p \<and> p < t \<longleftrightarrow> b @ [x] \<le> p \<and> prefix b p"
      using snoc.IH [OF inc, of p] le_append [of b "[x]"] order_trans by blast
    also have "\<dots> \<longleftrightarrow> (\<exists>r. p = b @ r \<and> [x] \<le> r)"
      by (auto simp: prefix_def append_le_iff)
    also have "\<dots> \<longleftrightarrow> (\<exists>r. p = b @ x # r)"
    proof -
      have "[x] \<le> r \<longleftrightarrow> (\<exists>r'. r = x # r')" for r
        using x by (cases r) auto
      then show ?thesis by auto
    qed
    finally show ?thesis by (auto simp: prefix_def)
  qed
qed simp

lemma increment_None_iff: "BinaryKey_increment k = None \<longleftrightarrow> (\<forall>x \<in> set k. x = 255)"
proof (induction k rule: rev_induct)
  case (snoc x b)
  with u8_not_less_255(1) [of x] show ?case by auto
qed simp

lemma increment_None_le:
  "BinaryKey_increment k = None \<Longrightarrow> k \<le> p \<longleftrightarrow> prefix k p"
proof (induction k arbitrary: p)
  case (Cons x k)
  from Cons.prems have x: "x = 255" and k: "BinaryKey_increment k = None"
    by (auto simp: increment_None_iff)
  with Cons.IH [OF k] show ?case by (cases p) auto
qed simp

lemma increment_greater: "BinaryKey_increment k = Some t \<Longrightarrow> k < t"
  using increment_between [of k t k] by auto

section \<open>Bounds\<close>

datatype start_included = StartIncluded (start_key: binary_key)

datatype end_bound = Excluded binary_key | Unbounded

text \<open>The derived orders: keys compare as byte strings and \<open>Excluded\<close> precedes \<open>Unbounded\<close>.\<close>

instantiation start_included :: linorder
begin

fun less_start_included :: "start_included \<Rightarrow> start_included \<Rightarrow> bool" where
  "less_start_included (StartIncluded a) (StartIncluded b) = (a < b)"

fun less_eq_start_included :: "start_included \<Rightarrow> start_included \<Rightarrow> bool" where
  "less_eq_start_included (StartIncluded a) (StartIncluded b) = (a \<le> b)"

instance
proof
  fix x y z :: start_included
  show "x < y \<longleftrightarrow> x \<le> y \<and> \<not> y \<le> x" by (cases x; cases y) auto
  show "x \<le> x" by (cases x) simp
  show "x \<le> y \<Longrightarrow> y \<le> z \<Longrightarrow> x \<le> z" by (cases x; cases y; cases z) auto
  show "x \<le> y \<Longrightarrow> y \<le> x \<Longrightarrow> x = y" by (cases x; cases y) auto
  show "x \<le> y \<or> y \<le> x" by (cases x; cases y) auto
qed

end

instantiation end_bound :: linorder
begin

fun less_end_bound :: "end_bound \<Rightarrow> end_bound \<Rightarrow> bool" where
  "less_end_bound (Excluded a) (Excluded b) = (a < b)"
| "less_end_bound (Excluded a) Unbounded = True"
| "less_end_bound Unbounded _ = False"

fun less_eq_end_bound :: "end_bound \<Rightarrow> end_bound \<Rightarrow> bool" where
  "less_eq_end_bound (Excluded a) (Excluded b) = (a \<le> b)"
| "less_eq_end_bound _ Unbounded = True"
| "less_eq_end_bound Unbounded (Excluded _) = False"

instance
proof
  fix x y z :: end_bound
  show "x < y \<longleftrightarrow> x \<le> y \<and> \<not> y \<le> x" by (cases x; cases y) auto
  show "x \<le> x" by (cases x) simp_all
  show "x \<le> y \<Longrightarrow> y \<le> z \<Longrightarrow> x \<le> z" by (cases x; cases y; cases z) auto
  show "x \<le> y \<Longrightarrow> y \<le> x \<Longrightarrow> x = y" by (cases x; cases y) auto
  show "x \<le> y \<or> y \<le> x" by (cases x; cases y) auto
qed

end

definition End_after_prefix :: "binary_key \<Rightarrow> end_bound" where
  "End_after_prefix key =
     (case BinaryKey_increment key of None \<Rightarrow> Unbounded | Some k \<Rightarrow> Excluded k)"

fun End_is_disjoint :: "end_bound \<Rightarrow> start_included \<Rightarrow> bool" where
  "End_is_disjoint Unbounded _ = False"
| "End_is_disjoint (Excluded s) (StartIncluded t) = (s \<le> t)"

fun End_is_adjacent :: "end_bound \<Rightarrow> start_included \<Rightarrow> bool" where
  "End_is_adjacent Unbounded _ = False"
| "End_is_adjacent (Excluded s) (StartIncluded t) = (s = t)"

section \<open>Intervals\<close>

record interval =
  start_bound :: start_included
  end_bound :: end_bound

datatype cursor_position = After bytes | End

datatype order = Asc | Desc

definition Interval_prefix :: "binary_key \<Rightarrow> interval" where
  "Interval_prefix key = \<lparr>start_bound = StartIncluded key, end_bound = End_after_prefix key\<rparr>"

definition Interval_empty :: interval where
  "Interval_empty =
     \<lparr>start_bound = StartIncluded BinaryKey_min, end_bound = Excluded BinaryKey_min\<rparr>"

definition Interval_all :: interval where
  "Interval_all = \<lparr>start_bound = StartIncluded BinaryKey_min, end_bound = Unbounded\<rparr>"

definition Interval_is_empty :: "interval \<Rightarrow> bool" where
  "Interval_is_empty i =
     (case (start_bound i, end_bound i) of
        (_, Unbounded) \<Rightarrow> False
      | (StartIncluded s, Excluded t) \<Rightarrow> s \<ge> t)"

definition Interval_is_superset :: "interval \<Rightarrow> interval \<Rightarrow> bool" where
  "Interval_is_superset i other =
     (Interval_is_empty other \<or>
      start_bound i \<le> start_bound other \<and> end_bound other \<le> end_bound i)"

definition Interval_contains :: "interval \<Rightarrow> bytes \<Rightarrow> bool" where
  "Interval_contains i point =
     ((case start_bound i of StartIncluded s \<Rightarrow> s \<le> point) \<and>
      (case end_bound i of Excluded t \<Rightarrow> point < t | Unbounded \<Rightarrow> True))"

definition Interval_contains_cursor :: "interval \<Rightarrow> cursor_position \<Rightarrow> bool" where
  "Interval_contains_cursor i cursor =
     (case cursor of After last_key \<Rightarrow> Interval_contains i last_key | End \<Rightarrow> True)"

definition Interval_is_disjoint :: "interval \<Rightarrow> interval \<Rightarrow> bool" where
  "Interval_is_disjoint i other =
     (Interval_is_empty i \<or> Interval_is_empty other
      \<or> End_is_disjoint (end_bound other) (start_bound i)
      \<or> End_is_disjoint (end_bound i) (start_bound other))"

definition Interval_is_adjacent :: "interval \<Rightarrow> interval \<Rightarrow> bool" where
  "Interval_is_adjacent i other =
     (if Interval_is_empty i \<or> Interval_is_empty other then False
      else End_is_adjacent (end_bound i) (start_bound other)
           \<or> End_is_adjacent (end_bound other) (start_bound i))"

definition Interval_split_after :: "interval \<Rightarrow> bytes \<Rightarrow> order \<Rightarrow> interval \<times> interval" where
  "Interval_split_after i last_key ord =
     (case ord of
        Asc \<Rightarrow>
          (\<lparr>start_bound = start_bound i, end_bound = End_after_prefix last_key\<rparr>,
           case BinaryKey_increment last_key of
             Some incr \<Rightarrow> \<lparr>start_bound = StartIncluded incr, end_bound = end_bound i\<rparr>
           | None \<Rightarrow> Interval_empty)
      | Desc \<Rightarrow>
          (\<lparr>start_bound = StartIncluded last_key, end_bound = end_bound i\<rparr>,
           \<lparr>start_bound = start_bound i, end_bound = Excluded last_key\<rparr>))"

definition Interval_split :: "interval \<Rightarrow> cursor_position \<Rightarrow> order \<Rightarrow> interval \<times> interval" where
  "Interval_split i cursor ord =
     (case cursor of
        After last_key \<Rightarrow> Interval_split_after i last_key ord
      | End \<Rightarrow> (i, Interval_empty))"

section \<open>The points of an interval\<close>

definition Interval_points :: "interval \<Rightarrow> bytes set" where
  "Interval_points i = {p. Interval_contains i p}"

lemma interval_eq_iff:
  "(i :: interval) = j \<longleftrightarrow> start_bound i = start_bound j \<and> end_bound i = end_bound j"
  by auto

lemma interval_eta [simp]: "\<lparr>start_bound = start_bound i, end_bound = end_bound i\<rparr> = (i :: interval)"
  by simp

lemma mem_points [simp]: "p \<in> Interval_points i \<longleftrightarrow> Interval_contains i p"
  by (simp add: Interval_points_def)

lemma contains_bounds [interval_simps]:
  "Interval_contains i p \<longleftrightarrow>
     start_bound i \<le> StartIncluded p \<and> \<not> End_is_disjoint (end_bound i) (StartIncluded p)"
  by (auto simp: Interval_contains_def split: start_included.splits end_bound.splits)

lemma is_empty_bounds [interval_simps]:
  "Interval_is_empty i \<longleftrightarrow> End_is_disjoint (end_bound i) (start_bound i)"
  by (auto simp: Interval_is_empty_def split: start_included.splits end_bound.splits)

lemma End_disjoint_mono: "End_is_disjoint e s \<Longrightarrow> s \<le> t \<Longrightarrow> End_is_disjoint e t"
  by (cases e; cases s; cases t) auto

lemma End_disjoint_le: "End_is_disjoint e s \<Longrightarrow> e' \<le> e \<Longrightarrow> End_is_disjoint e' s"
  by (cases e; cases e'; cases s) auto

lemma start_contained: "\<not> Interval_is_empty i \<Longrightarrow> Interval_contains i (start_key (start_bound i))"
  by (cases "start_bound i") (simp add: interval_simps)

lemma is_empty_iff_points: "Interval_is_empty i \<longleftrightarrow> Interval_points i = {}"
proof
  assume "Interval_is_empty i"
  then show "Interval_points i = {}" by (auto simp: interval_simps dest: End_disjoint_mono)
next
  assume "Interval_points i = {}"
  with start_contained [of i] show "Interval_is_empty i" by (auto simp: Interval_points_def)
qed

lemma points_empty [simp]: "Interval_points Interval_empty = {}"
  by (auto simp: Interval_empty_def Interval_contains_def BinaryKey_min_def)

lemma points_all [simp]: "Interval_points Interval_all = UNIV"
  by (auto simp: Interval_all_def Interval_contains_def BinaryKey_min_def)

lemma disjoint_points:
  "Interval_is_disjoint i j \<longleftrightarrow> Interval_points i \<inter> Interval_points j = {}"
proof
  assume "Interval_is_disjoint i j"
  then show "Interval_points i \<inter> Interval_points j = {}"
    by (auto simp: Interval_is_disjoint_def is_empty_iff_points)
       (auto simp: interval_simps dest: End_disjoint_mono)
next
  assume dis: "Interval_points i \<inter> Interval_points j = {}"
  show "Interval_is_disjoint i j"
  proof (rule ccontr)
    assume n: "\<not> Interval_is_disjoint i j"
    let ?s = "max (start_bound i) (start_bound j)"
    from n have "Interval_contains i (start_key ?s)" "Interval_contains j (start_key ?s)"
      by (auto simp: Interval_is_disjoint_def interval_simps max_def)
    with dis show False by auto
  qed
qed

lemma superset_sound: "Interval_is_superset i j \<Longrightarrow> Interval_points j \<subseteq> Interval_points i"
  by (auto simp: Interval_is_superset_def is_empty_iff_points)
     (auto simp: interval_simps dest: End_disjoint_le)

lemma end_le_of_subset:
  assumes sub: "Interval_points j \<subseteq> Interval_points i" and ne: "\<not> Interval_is_empty j"
  shows "end_bound j \<le> end_bound i"
proof (rule ccontr)
  assume "\<not> end_bound j \<le> end_bound i"
  then obtain t where t: "end_bound i = Excluded t" and lt: "Excluded t < end_bound j"
    by (cases "end_bound i") (auto simp: not_le)
  let ?p = "max t (start_key (start_bound j))"
  have nd: "\<not> End_is_disjoint (end_bound j) (start_bound j)" using ne by (simp add: interval_simps)
  have "Interval_contains j ?p"
    using lt nd by (cases "end_bound j"; cases "start_bound j") (auto simp: interval_simps max_def)
  moreover have "\<not> Interval_contains i ?p"
    using t by (simp add: interval_simps)
  ultimately show False using sub by auto
qed

lemma superset_points:
  "Interval_is_superset i j \<longleftrightarrow> Interval_points j \<subseteq> Interval_points i"
proof
  assume sub: "Interval_points j \<subseteq> Interval_points i"
  show "Interval_is_superset i j"
  proof (cases "Interval_is_empty j")
    case False
    then have "Interval_contains i (start_key (start_bound j))"
      using start_contained [of j] sub by auto
    then have "start_bound i \<le> start_bound j" by (cases "start_bound j") (simp add: interval_simps)
    with end_le_of_subset [OF sub False] show ?thesis by (simp add: Interval_is_superset_def)
  qed (simp add: Interval_is_superset_def)
qed (rule superset_sound)

lemma prefix_points: "Interval_contains (Interval_prefix key) p \<longleftrightarrow> prefix key p"
  using increment_between [of key _ p] increment_None_le [of key p]
  by (auto simp: Interval_contains_def Interval_prefix_def End_after_prefix_def split: option.splits)

text \<open>
  What \<open>split_after\<close> promises: the two parts of the points of the interval, given that the
  last key read lies in it.
\<close>

lemma split_after_Desc:
  assumes "Interval_contains i k"
  shows "Interval_points (fst (Interval_split_after i k Desc)) = {p \<in> Interval_points i. k \<le> p}"
    and "Interval_points (snd (Interval_split_after i k Desc)) = {p \<in> Interval_points i. p < k}"
  using assms
  by (auto simp: Interval_split_after_def Interval_contains_def
           split: start_included.splits end_bound.splits)

lemma after_prefix_disjoint: "End_is_disjoint (End_after_prefix k) (StartIncluded p) \<longleftrightarrow> \<not> (p < k \<or> prefix k p)"
proof (cases "BinaryKey_increment k")
  case None
  with increment_None_le [OF None, of p] show ?thesis by (auto simp: End_after_prefix_def not_less)
next
  case (Some t)
  with increment_between [OF Some, of p] increment_greater [OF Some]
  show ?thesis by (auto simp: End_after_prefix_def not_less)
qed

lemma incremented_le: "BinaryKey_increment k = Some t \<Longrightarrow> t \<le> p \<longleftrightarrow> k < p \<and> \<not> prefix k p"
  using after_prefix_disjoint [of k p] by (cases "p = k") (auto simp: End_after_prefix_def not_less)

lemma split_after_Asc_read:
  "Interval_points i \<inter> Interval_points (fst (Interval_split_after i k Asc))
     = {p \<in> Interval_points i. p \<le> k \<or> prefix k p}"
  by (auto simp: Interval_split_after_def interval_simps after_prefix_disjoint)

lemma split_after_Asc_rest:
  assumes "Interval_contains i k"
  shows "Interval_points (snd (Interval_split_after i k Asc))
     = {p \<in> Interval_points i. k < p \<and> \<not> prefix k p}"
proof (cases "BinaryKey_increment k")
  case None
  have "\<not> (k < p \<and> \<not> prefix k p)" for p using increment_None_le [OF None, of p] by auto
  moreover have "snd (Interval_split_after i k Asc) = Interval_empty"
    using None by (simp add: Interval_split_after_def)
  ultimately show ?thesis by simp
next
  case (Some t)
  have "t \<le> p \<Longrightarrow> start_bound i \<le> StartIncluded p" for p
    using assms increment_greater [OF Some]
    by (auto simp: Interval_contains_def split: start_included.splits)
  then show ?thesis
    by (auto simp: Interval_split_after_def Some interval_simps incremented_le [OF Some])
qed

section \<open>Properties\<close>

text \<open>The interval of a prefix contains exactly the keys with that prefix, also when the prefix
  is all 0xFF bytes and has no successor.\<close>

lemma Interval_prefix_contains: "Interval_contains (Interval_prefix key) p = prefix key p"
  by (rule prefix_points)

text \<open>Splitting an interval after the last key read loses and repeats nothing: going forward the
  rest is what lies beyond the key and its extensions, going backward what lies below the key, and
  in both directions what was read and the rest partition the interval.\<close>

lemma Interval_split_after_partition:
  assumes "Interval_contains i k"
  shows "Interval_points (snd (Interval_split_after i k Asc)) = {p \<in> Interval_points i. k < p \<and> \<not> prefix k p}
    \<and> Interval_points i \<inter> Interval_points (fst (Interval_split_after i k Asc)) = {p \<in> Interval_points i. p \<le> k \<or> prefix k p}
    \<and> Interval_points (snd (Interval_split_after i k Desc)) = {p \<in> Interval_points i. p < k}
    \<and> Interval_points (fst (Interval_split_after i k Desc)) = {p \<in> Interval_points i. k \<le> p}"
  using split_after_Asc_rest [OF assms] split_after_Asc_read [of i k] split_after_Desc [OF assms] by blast

end
