(* ===== verification/Interval_Set.thy ===== *)
theory Interval_Set
  imports Byte_Interval
begin

text \<open>
  \<open>common/src/interval/interval_set.rs\<close>: a set of intervals kept as an ordered map from
  start to end, non-empty, disjoint and non-adjacent, with the variant \<open>All\<close>.  A panic of
  the source (\<open>expect\<close>, \<open>unreachable!\<close>, an invalid \<open>BTreeMap::range\<close>) is the value
  \<open>None\<close>; the lemmas show that no operation panics on a set that satisfies the invariant,
  and that the operations are union, membership, inclusion and difference of sets of byte
  strings.
\<close>

section \<open>Data and operations\<close>

datatype interval_set = Intervals "(start_included, end_bound) btree" | All

abbreviation mk_interval :: "start_included \<times> end_bound \<Rightarrow> interval" where
  "mk_interval e \<equiv> \<lparr>start_bound = fst e, end_bound = snd e\<rparr>"

definition IntervalSet_new :: interval_set where
  "IntervalSet_new = Intervals []"

definition IntervalSet_eq :: "interval_set \<Rightarrow> interval_set \<Rightarrow> bool" where
  "IntervalSet_eq a b =
     (case (a, b) of
        (All, All) \<Rightarrow> True
      | (All, Intervals m) \<Rightarrow> m = bt_insert (StartIncluded BinaryKey_min) Unbounded []
      | (Intervals m, All) \<Rightarrow> m = bt_insert (StartIncluded BinaryKey_min) Unbounded []
      | (Intervals x, Intervals y) \<Rightarrow> x = y)"

definition IntervalSet_is_empty :: "interval_set \<Rightarrow> bool" where
  "IntervalSet_is_empty s = (case s of Intervals m \<Rightarrow> m = [] | All \<Rightarrow> False)"

definition IntervalSet_len :: "interval_set \<Rightarrow> nat" where
  "IntervalSet_len s = (case s of Intervals m \<Rightarrow> length m | All \<Rightarrow> 1)"

text \<open>\<open>range(..start).next_back()\<close> is the last entry that starts before the interval.\<close>

definition intersecting_or_adjacent ::
    "(start_included, end_bound) btree \<Rightarrow> interval \<Rightarrow> interval list" where
  "intersecting_or_adjacent m i =
     (let before = filter (\<lambda>e. fst e < start_bound i) m in
      (if before = [] then []
       else let other = mk_interval (last before) in
            if \<not> Interval_is_disjoint i other \<or> Interval_is_adjacent i other then [other] else []))
     @ map mk_interval
         (takeWhile (\<lambda>e. \<not> (End_is_disjoint (end_bound i) (fst e)
                            \<and> \<not> End_is_adjacent (end_bound i) (fst e)))
            (filter (\<lambda>e. start_bound i \<le> fst e) m))"

fun add_merge :: "interval list \<Rightarrow> start_included \<Rightarrow> end_bound
    \<Rightarrow> (start_included, end_bound) btree \<Rightarrow> (start_included, end_bound) btree option" where
  "add_merge [] merged_start merged_end m = Some (bt_insert merged_start merged_end m)"
| "add_merge (other # others) merged_start merged_end m =
     (let merged_start' = (if start_bound other < merged_start then start_bound other
                           else merged_start);
          merged_end' = (if end_bound other > merged_end then end_bound other else merged_end)
      in case bt_get m (start_bound other) of
           None \<Rightarrow> None
         | Some _ \<Rightarrow>
             add_merge others merged_start' merged_end' (bt_remove (start_bound other) m))"

definition IntervalSet_add :: "interval_set \<Rightarrow> interval \<Rightarrow> interval_set option" where
  "IntervalSet_add s i =
     (if Interval_is_empty i then Some s
      else case (if i = Interval_all then All else s) of
             All \<Rightarrow> Some All
           | Intervals m \<Rightarrow>
               map_option Intervals
                 (add_merge (intersecting_or_adjacent m i) (start_bound i) (end_bound i) m))"

definition IntervalSet_interval_preceding :: "interval_set \<Rightarrow> bytes \<Rightarrow> interval option" where
  "IntervalSet_interval_preceding s k =
     (case s of
        All \<Rightarrow> Some Interval_all
      | Intervals m \<Rightarrow>
          (let before = filter (\<lambda>e. fst e \<le> StartIncluded k) m in
           if before = [] then None else Some (mk_interval (last before))))"

definition IntervalSet_contains :: "interval_set \<Rightarrow> bytes \<Rightarrow> bool" where
  "IntervalSet_contains s k =
     (case IntervalSet_interval_preceding s k of
        None \<Rightarrow> False
      | Some i \<Rightarrow> Interval_contains i k)"

definition IntervalSet_iter :: "interval_set \<Rightarrow> interval list" where
  "IntervalSet_iter s =
     (case s of All \<Rightarrow> [Interval_all] | Intervals m \<Rightarrow> map mk_interval m)"

text \<open>The loop over the entries that start inside the target, after \<open>component_start\<close>.\<close>

fun split_components_loop ::
    "bytes \<Rightarrow> end_bound \<Rightarrow> (start_included, end_bound) btree \<Rightarrow> (bool \<times> interval) list option"
where
  "split_components_loop component_start target_end [] =
     Some [(False, \<lparr>start_bound = StartIncluded component_start, end_bound = target_end\<rparr>)]"
| "split_components_loop component_start target_end ((interval_start, interval_end) # rest) =
     (let gap = (False, \<lparr>start_bound = StartIncluded component_start,
                         end_bound = Excluded (start_key interval_start)\<rparr>)
      in if target_end \<le> interval_end
         then Some [gap, (True, \<lparr>start_bound = interval_start, end_bound = target_end\<rparr>)]
         else case interval_end of
                Unbounded \<Rightarrow> None
              | Excluded k \<Rightarrow>
                  map_option
                    (\<lambda>cs. gap # (True, \<lparr>start_bound = interval_start, end_bound = interval_end\<rparr>) # cs)
                    (split_components_loop k target_end rest))"

text \<open>\<open>BTreeMap::range\<close> with two excluded bounds panics unless the first is below the second.\<close>

definition split_components_from ::
    "(start_included, end_bound) btree \<Rightarrow> bytes \<Rightarrow> interval \<Rightarrow> (bool \<times> interval) list option" where
  "split_components_from m component_start target =
     (case end_bound target of
        Excluded target_end \<Rightarrow>
          (if target_end \<le> component_start then None
           else split_components_loop component_start (end_bound target)
                  (filter (\<lambda>e. StartIncluded component_start < fst e
                               \<and> fst e < StartIncluded target_end) m))
      | Unbounded \<Rightarrow>
          split_components_loop component_start (end_bound target)
            (filter (\<lambda>e. StartIncluded component_start < fst e) m))"

definition IntervalSet_split_interval_components ::
    "interval_set \<Rightarrow> interval \<Rightarrow> (bool \<times> interval) list option" where
  "IntervalSet_split_interval_components s target =
     (case s of
        All \<Rightarrow> Some [(True, target)]
      | Intervals m \<Rightarrow>
          (if Interval_is_empty target then Some []
           else
             let target_start = start_key (start_bound target) in
             case IntervalSet_interval_preceding s target_start of
               None \<Rightarrow> split_components_from m target_start target
             | Some before \<Rightarrow>
                 (if end_bound target \<le> end_bound before then Some [(True, target)]
                  else case end_bound before of
                         Unbounded \<Rightarrow> None
                       | Excluded before_end \<Rightarrow>
                           (if before_end > target_start
                            then map_option
                                   (\<lambda>cs. (True, \<lparr>start_bound = start_bound target,
                                                 end_bound = end_bound before\<rparr>) # cs)
                                   (split_components_from m before_end target)
                            else split_components_from m target_start target))))"

definition IntervalSet_contains_interval :: "interval_set \<Rightarrow> interval \<Rightarrow> bool option" where
  "IntervalSet_contains_interval s target =
     map_option (list_all fst) (IntervalSet_split_interval_components s target)"

definition IntervalSet_subtract_from_interval :: "interval_set \<Rightarrow> interval \<Rightarrow> interval_set option" where
  "IntervalSet_subtract_from_interval s target =
     map_option
       (\<lambda>cs. Intervals
          (fold (\<lambda>(in_set, i) difference.
                   if \<not> in_set then bt_insert (start_bound i) (end_bound i) difference
                   else difference) cs []))
       (IntervalSet_split_interval_components s target)"

text \<open>The protobuf form, whose generated types are the pair of a start and an optional end.\<close>

datatype end_proto = AfterAll | Exclusive bytes

record interval_proto =
  start_inclusive :: bytes
  end_proto :: "end_proto option"

datatype interval_set_error = MissingEnd | AddPanicked

definition ALL_INTERVAL_PROTO :: "interval_proto list" where
  "ALL_INTERVAL_PROTO = [\<lparr>start_inclusive = [], end_proto = Some AfterAll\<rparr>]"

definition IntervalSet_to_proto :: "interval_set \<Rightarrow> interval_proto list" where
  "IntervalSet_to_proto s =
     (case s of
        All \<Rightarrow> ALL_INTERVAL_PROTO
      | Intervals m \<Rightarrow>
          map (\<lambda>(st, en). \<lparr>start_inclusive = start_key st,
                 end_proto = Some (case en of Unbounded \<Rightarrow> AfterAll | Excluded e \<Rightarrow> Exclusive e)\<rparr>) m)"

fun IntervalSet_from_proto_loop ::
    "interval_proto list \<Rightarrow> interval_set \<Rightarrow> interval_set_error + interval_set" where
  "IntervalSet_from_proto_loop [] s = Inr s"
| "IntervalSet_from_proto_loop (p # ps) s =
     (case end_proto p of
        None \<Rightarrow> Inl MissingEnd
      | Some e \<Rightarrow>
          (case IntervalSet_add s
                  \<lparr>start_bound = StartIncluded (start_inclusive p),
                   end_bound = (case e of AfterAll \<Rightarrow> Unbounded | Exclusive k \<Rightarrow> Excluded k)\<rparr> of
             None \<Rightarrow> Inl AddPanicked
           | Some s' \<Rightarrow> IntervalSet_from_proto_loop ps s'))"

definition IntervalSet_from_proto :: "interval_proto list \<Rightarrow> interval_set_error + interval_set" where
  "IntervalSet_from_proto ps =
     (if ps = ALL_INTERVAL_PROTO then Inr All else IntervalSet_from_proto_loop ps IntervalSet_new)"

section \<open>The invariant and the denotation\<close>

text \<open>An end reaches a start when the two intervals overlap or touch there.\<close>

fun reaches :: "end_bound \<Rightarrow> start_included \<Rightarrow> bool" where
  "reaches Unbounded s = True"
| "reaches (Excluded k) s = (s \<le> StartIncluded k)"

definition entry_ok :: "start_included \<times> end_bound \<Rightarrow> bool" where
  "entry_ok e = (\<not> Interval_is_empty (mk_interval e))"

definition entries_ok :: "(start_included, end_bound) btree \<Rightarrow> bool" where
  "entries_ok m = (list_all entry_ok m \<and> sorted_wrt (\<lambda>a b. \<not> reaches (snd a) (fst b)) m)"

definition entries_points :: "(start_included, end_bound) btree \<Rightarrow> bytes set" where
  "entries_points m = (\<Union>e \<in> set m. Interval_points (mk_interval e))"

definition IntervalSet_ok :: "interval_set \<Rightarrow> bool" where
  "IntervalSet_ok s = (case s of All \<Rightarrow> True | Intervals m \<Rightarrow> entries_ok m)"

definition IntervalSet_points :: "interval_set \<Rightarrow> bytes set" where
  "IntervalSet_points s = (case s of All \<Rightarrow> UNIV | Intervals m \<Rightarrow> entries_points m)"

lemma reaches_alt: "reaches e s \<longleftrightarrow> \<not> (End_is_disjoint e s \<and> \<not> End_is_adjacent e s)"
  by (cases e; cases s) auto

lemma entry_ok_alt: "entry_ok (s, e) \<longleftrightarrow> \<not> End_is_disjoint e s"
  by (simp add: entry_ok_def is_empty_bounds)

lemma reaches_le: "reaches e s \<Longrightarrow> t \<le> s \<Longrightarrow> reaches e t"
  by (cases e) auto

lemma reaches_mono: "reaches e s \<Longrightarrow> e \<le> e' \<Longrightarrow> reaches e' s"
  by (cases e; cases e'; cases s) auto

lemma nonempty_reaches: "\<not> End_is_disjoint e s \<Longrightarrow> reaches e s"
  by (cases e; cases s) auto

lemma not_reaches_less: "\<not> reaches e t \<Longrightarrow> \<not> End_is_disjoint e s \<Longrightarrow> s < t"
  by (cases e; cases s; cases t) auto

lemma not_reaches_disjoint: "\<not> reaches e t \<Longrightarrow> End_is_disjoint e t"
  by (simp add: reaches_alt)

lemma touch_iff:
  assumes "\<not> Interval_is_empty i" and "\<not> Interval_is_empty j"
  shows "\<not> Interval_is_disjoint i j \<or> Interval_is_adjacent i j \<longleftrightarrow>
           reaches (end_bound i) (start_bound j) \<and> reaches (end_bound j) (start_bound i)"
  using assms
  by (cases "start_bound i"; cases "start_bound j"; cases "end_bound i"; cases "end_bound j")
     (auto simp: Interval_is_disjoint_def Interval_is_adjacent_def is_empty_bounds)

text \<open>Two intervals that touch have an interval as their union.\<close>

definition hull :: "interval \<Rightarrow> interval \<Rightarrow> interval" where
  "hull i j = \<lparr>start_bound = min (start_bound i) (start_bound j),
               end_bound = max (end_bound i) (end_bound j)\<rparr>"

lemma hull_points:
  assumes "\<not> Interval_is_empty i" and "\<not> Interval_is_empty j"
    and "reaches (end_bound i) (start_bound j)" and "reaches (end_bound j) (start_bound i)"
  shows "Interval_points (hull i j) = Interval_points i \<union> Interval_points j"
    and "\<not> Interval_is_empty (hull i j)"
proof -
  have "Interval_contains (hull i j) p \<longleftrightarrow> Interval_contains i p \<or> Interval_contains j p" for p
    using assms
    by (cases "start_bound i"; cases "start_bound j"; cases "end_bound i"; cases "end_bound j")
       (auto simp: hull_def interval_simps min_def max_def)
  then show "Interval_points (hull i j) = Interval_points i \<union> Interval_points j" by auto
  with assms(1) show "\<not> Interval_is_empty (hull i j)" by (simp add: is_empty_iff_points)
qed

lemma entries_ok_append:
  "entries_ok (a @ b) \<longleftrightarrow> entries_ok a \<and> entries_ok b
     \<and> (\<forall>x \<in> set a. \<forall>y \<in> set b. \<not> reaches (snd x) (fst y))"
  by (auto simp: entries_ok_def sorted_wrt_append)

lemma entries_ok_Cons:
  "entries_ok (x # m) \<longleftrightarrow> entry_ok x \<and> entries_ok m \<and> (\<forall>y \<in> set m. \<not> reaches (snd x) (fst y))"
  by (auto simp: entries_ok_def)

lemma entries_ok_Nil [simp]: "entries_ok []"
  by (simp add: entries_ok_def)

lemma entries_ok_filter: "entries_ok m \<Longrightarrow> entries_ok (filter P m)"
  by (auto simp: entries_ok_def sorted_wrt_filter list_all_iff)

lemma entry_before: "entry_ok x \<Longrightarrow> \<not> reaches (snd x) t \<Longrightarrow> fst x < t"
  by (cases x) (auto simp: entry_ok_alt dest: not_reaches_less)

lemma entries_ok_bt_ok: "entries_ok m \<Longrightarrow> bt_ok m"
  by (induction m) (auto simp: entries_ok_Cons dest: entry_before)

lemma entries_points_simps [simp]:
  "entries_points [] = {}"
  "entries_points (e # m) = Interval_points (mk_interval e) \<union> entries_points m"
  "entries_points (a @ b) = entries_points a \<union> entries_points b"
  by (auto simp: entries_points_def)

section \<open>Adding an interval\<close>

abbreviation hull_all :: "(start_included, end_bound) btree \<Rightarrow> interval \<Rightarrow> interval" where
  "hull_all mid i \<equiv> fold (\<lambda>x i. hull i (mk_interval x)) mid i"

abbreviation touches :: "interval \<Rightarrow> start_included \<times> end_bound \<Rightarrow> bool" where
  "touches i x \<equiv> entry_ok x \<and> reaches (end_bound i) (fst x) \<and> reaches (snd x) (start_bound i)"

lemma add_merge_mid:
  "bt_ok (a @ mid @ b) \<Longrightarrow>
     add_merge (map mk_interval mid) (start_bound i) (end_bound i) (a @ mid @ b)
       = Some (bt_insert (start_bound (hull_all mid i)) (end_bound (hull_all mid i)) (a @ b))"
proof (induction mid arbitrary: i)
  case (Cons x mid)
  obtain s e where x: "x = (s, e)" by (cases x)
  have ok: "bt_ok (a @ (s, e) # mid @ b)" using Cons.prems x by simp
  then have get: "bt_get (a @ (s, e) # mid @ b) s = Some e" by (simp add: bt_get_iff)
  have ok': "bt_ok (a @ mid @ b)" using ok by (auto simp: sorted_wrt_append)
  have rem: "bt_remove s (a @ (s, e) # mid @ b) = a @ mid @ b" by (rule bt_remove_mid [OF ok])
  have "add_merge (map mk_interval (x # mid)) (start_bound i) (end_bound i) (a @ (x # mid) @ b)
      = add_merge (map mk_interval mid) (start_bound (hull i (mk_interval x)))
          (end_bound (hull i (mk_interval x))) (a @ mid @ b)"
    by (auto simp: x get rem hull_def min_def max_def Let_def)
  also have "\<dots> = Some (bt_insert (start_bound (hull_all (x # mid) i))
                      (end_bound (hull_all (x # mid) i)) (a @ b))"
    using Cons.IH [OF ok', of "hull i (mk_interval x)"] by simp
  finally show ?case .
qed simp

lemma hull_all_points:
  "\<not> Interval_is_empty i \<Longrightarrow> \<forall>x \<in> set mid. touches i x \<Longrightarrow>
     Interval_points (hull_all mid i) = Interval_points i \<union> entries_points mid
     \<and> \<not> Interval_is_empty (hull_all mid i)"
proof (induction mid arbitrary: i)
  case (Cons x mid)
  let ?h = "hull i (mk_interval x)"
  have h: "Interval_points ?h = Interval_points i \<union> Interval_points (mk_interval x)"
    "\<not> Interval_is_empty ?h"
    using hull_points [of i "mk_interval x"] Cons.prems by (auto simp: entry_ok_def)
  have "\<forall>y \<in> set mid. touches ?h y"
    using Cons.prems by (auto simp: hull_def intro: reaches_mono reaches_le)
  with Cons.IH [OF h(2)] h(1) show ?case by auto
qed simp

lemma hull_all_start: "start_bound (hull_all mid i) \<in> insert (start_bound i) (fst ` set mid)"
  and hull_all_end: "end_bound (hull_all mid i) \<in> insert (end_bound i) (snd ` set mid)"
proof (induction mid arbitrary: i)
  case (Cons x mid)
  { case 1 show ?case using Cons.IH(1) [of "hull i (mk_interval x)"]
      by (auto simp: hull_def min_def split: if_splits) }
  { case 2 show ?case using Cons.IH(2) [of "hull i (mk_interval x)"]
      by (auto simp: hull_def max_def split: if_splits) }
qed simp_all

lemma takeWhile_reaches:
  "entries_ok g \<Longrightarrow> \<forall>y \<in> set g. start_bound i \<le> fst y \<Longrightarrow>
     \<forall>x \<in> set (takeWhile (\<lambda>e. reaches (end_bound i) (fst e)) g). touches i x"
proof (induction g)
  case (Cons x g)
  have "reaches (snd x) (start_bound i)"
    using Cons.prems
    by (cases x) (auto simp: entries_ok_Cons entry_ok_alt dest: nonempty_reaches reaches_le)
  with Cons show ?case by (auto simp: entries_ok_Cons)
qed simp

lemma dropWhile_reaches:
  "entries_ok g \<Longrightarrow>
     \<forall>x \<in> set (dropWhile (\<lambda>e. reaches (end_bound i) (fst e)) g). \<not> reaches (end_bound i) (fst x)"
proof (induction g)
  case (Cons x g)
  then have "\<forall>y \<in> set g. fst x \<le> fst y"
    using entry_before [of x] by (fastforce simp: entries_ok_Cons intro: less_imp_le)
  note le = this
  show ?case
  proof (cases "reaches (end_bound i) (fst x)")
    case True
    have "entries_ok g" using Cons.prems by (simp add: entries_ok_Cons)
    note Cons.IH [OF this]
    with True show ?thesis by (simp only: dropWhile.simps if_True)
  next
    case False
    with le have "\<forall>y \<in> set g. \<not> reaches (end_bound i) (fst y)"
      by (auto dest: reaches_le [of "end_bound i" _ "fst x"])
    with False show ?thesis by simp
  qed
qed simp

lemma before_not_reaching:
  assumes "entries_ok (l @ [x])" and "fst x < s" and "y \<in> set l"
  shows "\<not> reaches (snd y) s"
proof
  assume "reaches (snd y) s"
  then have "reaches (snd y) (fst x)" using assms(2) by (auto intro: reaches_le)
  with assms(1,3) show False by (auto simp: entries_ok_append)
qed

lemma intersecting_decomp:
  assumes ok: "entries_ok m" and ne: "\<not> Interval_is_empty i"
  obtains a mid b where "m = a @ mid @ b"
    and "intersecting_or_adjacent m i = map mk_interval mid"
    and "\<forall>x \<in> set mid. touches i x"
    and "\<forall>x \<in> set a. \<not> reaches (snd x) (start_bound i)"
    and "\<forall>x \<in> set b. \<not> reaches (end_bound i) (fst x)"
proof -
  define l where "l = filter (\<lambda>e. fst e < start_bound i) m"
  define g where "g = filter (\<lambda>e. start_bound i \<le> fst e) m"
  define tw where "tw = takeWhile (\<lambda>e. reaches (end_bound i) (fst e)) g"
  define dw where "dw = dropWhile (\<lambda>e. reaches (end_bound i) (fst e)) g"
  have "tw @ dw = g" by (simp add: tw_def dw_def)
  moreover have "m = l @ g"
    unfolding l_def g_def by (rule bt_split [OF entries_ok_bt_ok [OF ok], symmetric])
  ultimately have m: "m = l @ tw @ dw" by simp
  have okl: "entries_ok l" and okg: "entries_ok g"
    using ok by (simp_all add: l_def g_def entries_ok_filter)
  have lt: "\<forall>x \<in> set l. fst x < start_bound i" by (simp add: l_def)
  have tw: "\<forall>x \<in> set tw. touches i x" and dw: "\<forall>x \<in> set dw. \<not> reaches (end_bound i) (fst x)"
    unfolding tw_def dw_def
    by (rule takeWhile_reaches [OF okg], simp add: g_def, rule dropWhile_reaches [OF okg])
  have inter: "intersecting_or_adjacent m i =
      (if l = [] then [] else if reaches (snd (last l)) (start_bound i) then [mk_interval (last l)] else [])
      @ map mk_interval tw"
  proof -
    have "l \<noteq> [] \<Longrightarrow> \<not> Interval_is_disjoint i (mk_interval (last l))
        \<or> Interval_is_adjacent i (mk_interval (last l)) \<longleftrightarrow> reaches (snd (last l)) (start_bound i)"
    proof -
      assume "l \<noteq> []"
      then have "entry_ok (last l)" "fst (last l) < start_bound i"
        using okl lt by (auto simp: entries_ok_def list_all_iff)
      moreover have "reaches (end_bound i) (start_bound i)"
        using ne by (simp add: is_empty_bounds nonempty_reaches)
      ultimately show ?thesis
        using touch_iff [OF ne, of "mk_interval (last l)"]
        by (auto simp: entry_ok_def intro: reaches_le)
    qed
    then show ?thesis
      by (simp add: intersecting_or_adjacent_def Let_def l_def g_def tw_def reaches_alt)
  qed
  show thesis
  proof (cases "l = [] \<or> \<not> reaches (snd (last l)) (start_bound i)")
    case True
    have "\<forall>x \<in> set l. \<not> reaches (snd x) (start_bound i)"
    proof (cases l rule: rev_cases)
      case (snoc l' y)
      with before_not_reaching [of l' y "start_bound i"] okl lt True show ?thesis by auto
    qed simp
    moreover have "intersecting_or_adjacent m i = map mk_interval tw"
      using inter True by auto
    ultimately show thesis using m tw dw by (intro that [of l tw dw])
  next
    case False
    define l' x where "l' = butlast l" and "x = last l"
    have l: "l = l' @ [x]" using False by (simp add: l'_def x_def)
    have "\<forall>y \<in> set l'. \<not> reaches (snd y) (start_bound i)"
      using before_not_reaching [of l' x] okl lt l by auto
    moreover have "touches i x"
    proof -
      have "entry_ok x" "fst x < start_bound i"
        using okl lt l by (auto simp: entries_ok_append entries_ok_Cons)
      moreover have "reaches (end_bound i) (start_bound i)"
        using ne by (simp add: is_empty_bounds nonempty_reaches)
      ultimately show ?thesis
        using False reaches_le [of "end_bound i" "start_bound i" "fst x"] by (simp add: x_def)
    qed
    moreover have "intersecting_or_adjacent m i = map mk_interval (x # tw)"
      using inter False by (simp add: x_def)
    ultimately show thesis
      using tw dw m l by (intro that [of l' "x # tw" dw]) simp_all
  qed
qed

lemma add_entries:
  assumes ok: "entries_ok m" and ne: "\<not> Interval_is_empty i"
  shows "\<exists>m'. add_merge (intersecting_or_adjacent m i) (start_bound i) (end_bound i) m = Some m'
      \<and> entries_ok m' \<and> entries_points m' = entries_points m \<union> Interval_points i"
proof -
  obtain a mid b where m: "m = a @ mid @ b"
    and inter: "intersecting_or_adjacent m i = map mk_interval mid"
    and mid: "\<forall>x \<in> set mid. touches i x"
    and a: "\<forall>x \<in> set a. \<not> reaches (snd x) (start_bound i)"
    and b: "\<forall>x \<in> set b. \<not> reaches (end_bound i) (fst x)"
    using intersecting_decomp [OF ok ne] .
  define h where "h = hull_all mid i"
  note h = hull_all_points [OF ne mid, folded h_def]
  have ah: "\<forall>x \<in> set a. \<not> reaches (snd x) (start_bound h)"
  proof
    fix x assume x: "x \<in> set a"
    from hull_all_start [of mid i] consider "start_bound h = start_bound i"
      | y where "y \<in> set mid" "start_bound h = fst y" by (auto simp: h_def)
    then show "\<not> reaches (snd x) (start_bound h)"
      using x a ok m by cases (auto simp: entries_ok_append)
  qed
  have hb: "\<forall>x \<in> set b. \<not> reaches (end_bound h) (fst x)"
  proof
    fix x assume x: "x \<in> set b"
    from hull_all_end [of mid i] consider "end_bound h = end_bound i"
      | y where "y \<in> set mid" "end_bound h = snd y" by (auto simp: h_def)
    then show "\<not> reaches (end_bound h) (fst x)"
      using x b ok m by cases (auto simp: entries_ok_append)
  qed
  have hok: "entry_ok (start_bound h, end_bound h)"
    using h by (simp add: entry_ok_alt is_empty_bounds)
  have "\<forall>x \<in> set a. fst x < start_bound h"
    using ah ok m by (auto simp: entries_ok_def list_all_iff intro: entry_before)
  moreover have "\<forall>x \<in> set b. start_bound h < fst x"
    using hb entry_before [OF hok] by simp
  ultimately have ins: "bt_insert (start_bound h) (end_bound h) (a @ b)
      = a @ (start_bound h, end_bound h) # b"
    by (rule bt_insert_mid)
  have "entries_ok (a @ (start_bound h, end_bound h) # b)"
    using ok m ah hb hok by (auto simp: entries_ok_append entries_ok_Cons)
  moreover have "mk_interval (start_bound h, end_bound h) = h" by simp
  then have "entries_points (a @ (start_bound h, end_bound h) # b)
      = entries_points m \<union> Interval_points i"
    using h by (simp only: m entries_points_simps Un_ac)
  moreover have "add_merge (intersecting_or_adjacent m i) (start_bound i) (end_bound i) m
      = Some (a @ (start_bound h, end_bound h) # b)"
    using add_merge_mid [OF entries_ok_bt_ok [OF ok [unfolded m]], of i, folded h_def m]
    by (simp add: inter ins)
  ultimately show ?thesis by blast
qed

lemma add_correct:
  assumes "IntervalSet_ok s"
  shows "\<exists>s'. IntervalSet_add s i = Some s' \<and> IntervalSet_ok s'
      \<and> IntervalSet_points s' = IntervalSet_points s \<union> Interval_points i"
proof (cases "Interval_is_empty i")
  case True
  with assms show ?thesis by (simp add: IntervalSet_add_def is_empty_iff_points)
next
  case False
  show ?thesis
  proof (cases "i = Interval_all \<or> s = All")
    case True
    with False show ?thesis
      by (auto simp: IntervalSet_add_def IntervalSet_ok_def IntervalSet_points_def)
  next
    case nall: False
    then obtain m where s: "s = Intervals m" by (cases s) auto
    with assms have "entries_ok m" by (simp add: IntervalSet_ok_def)
    from add_entries [OF this False] False nall s show ?thesis
      by (auto simp: IntervalSet_add_def IntervalSet_ok_def IntervalSet_points_def)
  qed
qed

section \<open>Membership\<close>

lemma entry_points_bounds:
  "p \<in> Interval_points (mk_interval (s, e)) \<longleftrightarrow>
     s \<le> StartIncluded p \<and> \<not> End_is_disjoint e (StartIncluded p)"
  by (simp add: interval_simps)

lemma preceding_in_entries:
  assumes "entries_ok m" and "e \<in> set m" and "p \<in> Interval_points (mk_interval e)"
    and "before = filter (\<lambda>e. fst e \<le> StartIncluded p) m"
  shows "before \<noteq> [] \<and> e = last before"
proof -
  have le: "fst e \<le> StartIncluded p" using assms(3) by (simp add: interval_simps)
  with assms(2,4) have e: "e \<in> set before" by auto
  then obtain l x where b: "before = l @ [x]" by (cases before rule: rev_cases) auto
  have ok: "entries_ok before" using assms(1,4) entries_ok_filter by blast
  have "x \<in> set before" by (simp add: b)
  then have "fst x \<le> StartIncluded p" by (simp add: assms(4))
  then have "e \<notin> set l"
    using ok b assms(3) not_reaches_disjoint [of "snd e" "fst x"]
    by (auto simp: entries_ok_append interval_simps dest: End_disjoint_mono)
  with e b show ?thesis by auto
qed

lemma contains_points:
  assumes "IntervalSet_ok s"
  shows "IntervalSet_contains s p \<longleftrightarrow> p \<in> IntervalSet_points s"
proof (cases s)
  case All
  have "Interval_contains Interval_all p" using points_all by (simp add: Interval_points_def set_eq_iff)
  with All show ?thesis
    by (simp add: IntervalSet_contains_def IntervalSet_interval_preceding_def IntervalSet_points_def)
next
  case (Intervals m)
  define before where "before = filter (\<lambda>e. fst e \<le> StartIncluded p) m"
  have ok: "entries_ok m" using assms Intervals by (simp add: IntervalSet_ok_def)
  have sub: "before \<noteq> [] \<Longrightarrow> last before \<in> set m"
    using last_in_set [of before] by (auto simp: before_def)
  have "IntervalSet_contains s p \<longleftrightarrow> before \<noteq> [] \<and> p \<in> Interval_points (mk_interval (last before))"
    by (simp add: IntervalSet_contains_def IntervalSet_interval_preceding_def Intervals before_def Let_def)
  also have "\<dots> \<longleftrightarrow> (\<exists>e \<in> set m. p \<in> Interval_points (mk_interval e))"
    using preceding_in_entries [OF ok _ _ before_def] sub by blast
  finally show ?thesis by (simp add: Intervals IntervalSet_points_def entries_points_def)
qed

section \<open>Splitting a target into components\<close>

text \<open>
  The components of a split: they start at \<open>s\<close>, each ends where the next starts, the flags
  alternate, no component is empty and the last one ends at \<open>e\<close>.
\<close>

fun chained :: "start_included \<Rightarrow> (bool \<times> interval) list \<Rightarrow> end_bound \<Rightarrow> bool" where
  "chained s [] e = False"
| "chained s [(b, i)] e = (start_bound i = s \<and> end_bound i = e \<and> \<not> Interval_is_empty i)"
| "chained s ((b, i) # (b', i') # cs) e =
     (start_bound i = s \<and> \<not> Interval_is_empty i \<and> b' = (\<not> b)
      \<and> (\<exists>k. end_bound i = Excluded k \<and> chained (StartIncluded k) ((b', i') # cs) e))"

lemma chained_start: "chained s cs e \<Longrightarrow> cs \<noteq> [] \<and> start_bound (snd (hd cs)) = s"
  by (cases "(s, cs, e)" rule: chained.cases) auto

lemma chained_Cons:
  "chained (StartIncluded k) cs e \<Longrightarrow> fst (hd cs) = (\<not> b) \<Longrightarrow> start_bound i = s \<Longrightarrow>
     end_bound i = Excluded k \<Longrightarrow> \<not> Interval_is_empty i \<Longrightarrow> chained s ((b, i) # cs) e"
  by (cases cs) auto

definition component_points :: "(bool \<times> interval) list \<Rightarrow> bytes set" where
  "component_points cs = (\<Union>c \<in> set cs. Interval_points (snd c))"

lemma chained_points:
  "chained s cs e \<Longrightarrow> component_points cs = Interval_points \<lparr>start_bound = s, end_bound = e\<rparr>
     \<and> (\<forall>c \<in> set cs. \<not> Interval_is_empty (snd c)) \<and> \<not> End_is_disjoint e s"
proof (induction s cs e rule: chained.induct)
  case (2 s b i e)
  then have "i = \<lparr>start_bound = s, end_bound = e\<rparr>" by (auto simp: interval_eq_iff)
  with 2 show ?case by (auto simp: component_points_def is_empty_bounds)
next
  case (3 s b i b' i' cs e)
  from 3(2) obtain k where k: "end_bound i = Excluded k"
    and rest: "chained (StartIncluded k) ((b', i') # cs) e" and i: "start_bound i = s"
    and ne: "\<not> Interval_is_empty i" by auto
  note IH = 3(1) [OF rest]
  have ie: "i = \<lparr>start_bound = s, end_bound = Excluded k\<rparr>" using i k by (auto simp: interval_eq_iff)
  have "s < StartIncluded k" using ne ie by (cases s) (simp add: is_empty_bounds)
  then have pts: "Interval_points i \<union> Interval_points \<lparr>start_bound = StartIncluded k, end_bound = e\<rparr>
      = Interval_points \<lparr>start_bound = s, end_bound = e\<rparr>" and dis: "\<not> End_is_disjoint e s"
    using IH ie by (cases s; cases e; force simp: Interval_contains_def)+
  have "component_points ((b, i) # (b', i') # cs)
      = Interval_points i \<union> component_points ((b', i') # cs)"
    by (simp add: component_points_def)
  with IH pts dis ne show ?case by auto
qed simp

text \<open>A component is in the set or outside it, as its flag says.\<close>

fun flagged :: "bytes set \<Rightarrow> (bool \<times> interval) list \<Rightarrow> bool" where
  "flagged S [] = True"
| "flagged S ((b, i) # cs) =
     ((if b then Interval_points i \<subseteq> S else Interval_points i \<inter> S = {}) \<and> flagged S cs)"

lemma flagged_cong:
  assumes "flagged S cs"
    and "\<And>b i. (b, i) \<in> set cs \<Longrightarrow> Interval_points i \<inter> S = Interval_points i \<inter> T"
  shows "flagged T cs"
  using assms
proof (induction cs)
  case (Cons c cs)
  obtain b i where c: "c = (b, i)" by (cases c)
  have "Interval_points i \<inter> S = Interval_points i \<inter> T" using Cons.prems(2) [of b i] c by simp
  then have "(if b then Interval_points i \<subseteq> S else Interval_points i \<inter> S = {})
      \<longleftrightarrow> (if b then Interval_points i \<subseteq> T else Interval_points i \<inter> T = {})"
    by (auto simp: Int_absorb2 inf.order_iff)
  moreover have "flagged T cs" using Cons.prems c by (intro Cons.IH) auto
  ultimately show ?case using Cons.prems(1) c by simp
qed simp

lemma entries_points_above:
  "p \<in> entries_points m \<Longrightarrow> \<forall>e \<in> set m. s < fst e \<Longrightarrow> s < StartIncluded p"
  by (auto simp: entries_points_def interval_simps dest: less_le_trans)

lemma split_loop_correct:
  "entries_ok rest \<Longrightarrow>
   \<forall>e \<in> set rest. StartIncluded c < fst e \<and> \<not> End_is_disjoint tend (fst e) \<Longrightarrow>
   \<not> End_is_disjoint tend (StartIncluded c) \<Longrightarrow>
   \<exists>cs. split_components_loop c tend rest = Some cs \<and> chained (StartIncluded c) cs tend
        \<and> fst (hd cs) = False \<and> flagged (entries_points rest) cs"
proof (induction rest arbitrary: c)
  case Nil
  then show ?case by (simp add: is_empty_bounds)
next
  case (Cons x rest)
  obtain s e where x: "x = (s, e)" by (cases x)
  obtain sk where sk: "s = StartIncluded sk" by (cases s)
  let ?gap = "(False, \<lparr>start_bound = StartIncluded c, end_bound = Excluded sk\<rparr>)"
  let ?S = "entries_points (x # rest)"
  have ok: "entry_ok (s, e)" "entries_ok rest" "\<forall>y \<in> set rest. \<not> reaches e (fst y)"
    using Cons.prems(1) x by (auto simp: entries_ok_Cons)
  have cs: "StartIncluded c < s" and tend: "\<not> End_is_disjoint tend s"
    using Cons.prems(2) x by auto
  have above: "\<forall>y \<in> set rest. s < fst y" using ok(1,3) entry_before [of "(s, e)"] by auto
  have gap_ne: "\<not> Interval_is_empty (snd ?gap)" using cs sk by (simp add: is_empty_bounds)
  have gap: "Interval_points (snd ?gap) \<inter> ?S = {}"
    using entries_points_above [OF _ above] sk x
    by (force simp: interval_simps)
  show ?case
  proof (cases "tend \<le> e")
    case True
    let ?cs = "[?gap, (True, \<lparr>start_bound = s, end_bound = tend\<rparr>)]"
    have "Interval_points \<lparr>start_bound = s, end_bound = tend\<rparr> \<subseteq> ?S"
      using True x by (auto simp: interval_simps dest: End_disjoint_le)
    then have "flagged ?S ?cs" using gap by simp
    moreover have "chained (StartIncluded c) ?cs tend"
      using gap_ne tend sk by (simp add: is_empty_bounds)
    ultimately show ?thesis using True x sk by simp
  next
    case False
    then obtain k where k: "e = Excluded k" by (cases e) auto
    have "\<forall>y \<in> set rest. StartIncluded k < fst y \<and> \<not> End_is_disjoint tend (fst y)"
      using ok(3) Cons.prems(2) k by (auto simp: not_le)
    moreover have kt: "\<not> End_is_disjoint tend (StartIncluded k)"
      using False k by (cases tend) auto
    ultimately obtain cs where cs_def: "split_components_loop k tend rest = Some cs"
      and ch: "chained (StartIncluded k) cs tend" and hd: "fst (hd cs) = False"
      and fl: "flagged (entries_points rest) cs"
      using Cons.IH [OF ok(2)] by blast
    let ?in = "(True, \<lparr>start_bound = s, end_bound = e\<rparr>)"
    have "Interval_points i \<inter> Interval_points (mk_interval x) = {}" if "(b, i) \<in> set cs" for b i
    proof -
      have "Interval_points i \<subseteq> Interval_points \<lparr>start_bound = StartIncluded k, end_bound = tend\<rparr>"
        using chained_points [OF ch] that by (force simp: component_points_def)
      then show ?thesis using x k by (force simp: interval_simps)
    qed
    then have "flagged ?S cs"
      by (intro flagged_cong [OF fl]) (auto simp: Int_Un_distrib)
    moreover have "Interval_points (snd ?in) \<subseteq> ?S" using x by auto
    ultimately have "flagged ?S (?gap # ?in # cs)" using gap by simp
    moreover have "chained (StartIncluded c) (?gap # ?in # cs) tend"
    proof -
      have "chained s (?in # cs) tend"
        using ch hd k ok(1) by (intro chained_Cons [of k]) (auto simp: entry_ok_def)
      then show ?thesis using gap_ne sk by simp
    qed
    ultimately show ?thesis using False x k sk cs_def by simp
  qed
qed

lemma split_from_correct:
  assumes ok: "entries_ok m" and ne: "\<not> End_is_disjoint (end_bound t) (StartIncluded c)"
    and low: "entries_points (filter (\<lambda>e. fst e \<le> StartIncluded c) m) \<inter> {p. c \<le> p} = {}"
  shows "\<exists>cs. split_components_from m c t = Some cs \<and> chained (StartIncluded c) cs (end_bound t)
        \<and> fst (hd cs) = False \<and> flagged (entries_points m) cs"
proof -
  define rest where "rest = filter (\<lambda>e. StartIncluded c < fst e \<and> \<not> End_is_disjoint (end_bound t) (fst e)) m"
  have from_rest: "split_components_from m c t = split_components_loop c (end_bound t) rest"
  proof (cases "end_bound t")
    case (Excluded k)
    have "\<not> End_is_disjoint (Excluded k) a \<longleftrightarrow> a < StartIncluded k" for a by (cases a) auto
    with Excluded ne show ?thesis by (simp add: split_components_from_def rest_def)
  qed (simp add: split_components_from_def rest_def)
  have "entries_ok rest" using ok by (simp add: rest_def entries_ok_filter)
  moreover have "\<forall>e \<in> set rest. StartIncluded c < fst e \<and> \<not> End_is_disjoint (end_bound t) (fst e)"
    by (simp add: rest_def)
  ultimately obtain cs where cs: "split_components_loop c (end_bound t) rest = Some cs"
    "chained (StartIncluded c) cs (end_bound t)" "fst (hd cs) = False"
    and fl: "flagged (entries_points rest) cs"
    using split_loop_correct ne by blast
  have "p \<in> entries_points rest"
    if "p \<in> entries_points m" "p \<in> Interval_points i" "(b, i) \<in> set cs" for p b i
  proof -
    have p: "c \<le> p" "\<not> End_is_disjoint (end_bound t) (StartIncluded p)"
      using chained_points [OF cs(2)] that(2,3)
      by (force simp: component_points_def interval_simps)+
    from that(1) obtain e where e: "e \<in> set m" "p \<in> Interval_points (mk_interval e)"
      by (auto simp: entries_points_def)
    have "\<not> fst e \<le> StartIncluded c"
      using low p(1) e by (force simp: entries_points_def)
    moreover have "\<not> End_is_disjoint (end_bound t) (fst e)"
      using p(2) e(2) by (auto simp: interval_simps dest: End_disjoint_mono)
    ultimately show ?thesis using e by (force simp: rest_def entries_points_def not_le)
  qed
  moreover have "entries_points rest \<subseteq> entries_points m" by (auto simp: entries_points_def rest_def)
  ultimately have "flagged (entries_points m) cs"
    by (intro flagged_cong [OF fl]) blast
  with cs from_rest show ?thesis by auto
qed

lemma preceding_cases:
  assumes "entries_ok m"
  obtains (none) "IntervalSet_interval_preceding (Intervals m) k = None"
      and "filter (\<lambda>e. fst e \<le> StartIncluded k) m = []"
  | (some) l x where "IntervalSet_interval_preceding (Intervals m) k = Some (mk_interval x)"
      and "filter (\<lambda>e. fst e \<le> StartIncluded k) m = l @ [x]" and "x \<in> set m"
      and "fst x \<le> StartIncluded k" and "entries_ok (l @ [x])"
proof (cases "filter (\<lambda>e. fst e \<le> StartIncluded k) m" rule: rev_cases)
  case Nil
  then show thesis by (intro none) (simp_all add: IntervalSet_interval_preceding_def)
next
  case (snoc l x)
  have "x \<in> set (filter (\<lambda>e. fst e \<le> StartIncluded k) m)" unfolding snoc by simp
  then have "x \<in> set m" "fst x \<le> StartIncluded k" by simp_all
  moreover have "entries_ok (l @ [x])"
    using entries_ok_filter [OF assms, of "\<lambda>e. fst e \<le> StartIncluded k"] by (simp add: snoc)
  ultimately show thesis
    using snoc by (intro some [of x l]) (auto simp: IntervalSet_interval_preceding_def)
qed

text \<open>No entry at or before the preceding one has a point from its end on.\<close>

lemma no_points_from:
  assumes "entries_ok (l @ [x])" and "End_is_disjoint (snd x) (StartIncluded c)"
  shows "entries_points (l @ [x]) \<inter> {p. c \<le> p} = {}"
proof -
  have "End_is_disjoint (snd e) (StartIncluded c)" if e: "e \<in> set (l @ [x])" for e
  proof (cases "e \<in> set l")
    case True
    then have "\<not> reaches (snd e) (fst x)" using assms(1) by (auto simp: entries_ok_append)
    moreover have "fst x \<le> StartIncluded c"
      using assms by (cases "snd x"; cases "fst x")
        (auto simp: entries_ok_append entries_ok_Cons entry_ok_def is_empty_bounds)
    ultimately show ?thesis by (auto dest: not_reaches_disjoint End_disjoint_mono)
  qed (use e assms(2) in auto)
  then have "\<not> Interval_contains (mk_interval e) p" if "e \<in> set (l @ [x])" "c \<le> p" for e p
    using that End_disjoint_mono [of "snd e" "StartIncluded c" "StartIncluded p"]
    by (auto simp: interval_simps)
  then show ?thesis unfolding entries_points_def by auto
qed

lemma entries_ok_later:
  "entries_ok m \<Longrightarrow> x \<in> set m \<Longrightarrow> e \<in> set m \<Longrightarrow> fst x < fst e \<Longrightarrow> \<not> reaches (snd x) (fst e)"
proof (induction m)
  case (Cons y m)
  have "\<forall>z \<in> set m. fst y < fst z"
    using Cons.prems(1) entry_before [of y] by (simp add: entries_ok_Cons)
  with Cons show ?case by (auto simp: entries_ok_Cons)
qed simp

lemma filter_up_to_end:
  assumes ok: "entries_ok m" and x: "x \<in> set m" "snd x = Excluded k" "fst x \<le> StartIncluded c" and "c < k"
  shows "filter (\<lambda>e. fst e \<le> StartIncluded k) m = filter (\<lambda>e. fst e \<le> StartIncluded c) m"
proof (rule filter_cong [OF refl])
  fix e assume e: "e \<in> set m"
  show "fst e \<le> StartIncluded k \<longleftrightarrow> fst e \<le> StartIncluded c"
  proof (cases "fst x < fst e")
    case True
    then have "\<not> fst e \<le> StartIncluded k" using entries_ok_later [OF ok x(1) e] x(2) by simp
    with assms(5) show ?thesis by (cases "fst e") auto
  next
    case False
    then have "fst e \<le> StartIncluded c" using x(3) by simp
    with assms(5) show ?thesis by (cases "fst e") auto
  qed
qed

lemma points_in_entry:
  assumes "x \<in> set m" and "fst x \<le> s" and "e \<le> snd x"
  shows "Interval_points \<lparr>start_bound = s, end_bound = e\<rparr> \<subseteq> entries_points m"
proof -
  have "Interval_points \<lparr>start_bound = s, end_bound = e\<rparr> \<subseteq> Interval_points (mk_interval x)"
    using assms(2,3) by (intro superset_sound) (simp add: Interval_is_superset_def)
  with assms(1) show ?thesis by (auto simp: entries_points_def)
qed

lemma split_entries_inside:
  assumes ok: "entries_ok m" and some: "filter (\<lambda>e. fst e \<le> StartIncluded c) m = l @ [x]"
    and x: "x \<in> set m" "fst x \<le> StartIncluded c" "entries_ok (l @ [x])" "snd x = Excluded k"
    and k: "c < k" "\<not> end_bound t \<le> Excluded k" and t: "start_bound t = StartIncluded c"
  shows "\<exists>cs. split_components_from m k t = Some cs
     \<and> chained (start_bound t) ((True, \<lparr>start_bound = start_bound t, end_bound = Excluded k\<rparr>) # cs) (end_bound t)
     \<and> flagged (entries_points m) ((True, \<lparr>start_bound = start_bound t, end_bound = Excluded k\<rparr>) # cs)"
proof -
  have ne: "\<not> End_is_disjoint (end_bound t) (StartIncluded k)"
    using k(2) by (cases "end_bound t") auto
  have "entries_points (filter (\<lambda>e. fst e \<le> StartIncluded k) m) \<inter> {p. k \<le> p} = {}"
    unfolding filter_up_to_end [OF ok x(1,4,2) k(1)] some
    by (rule no_points_from [OF x(3)]) (simp add: x(4))
  from split_from_correct [OF ok ne this] obtain cs where cs: "split_components_from m k t = Some cs"
    "chained (StartIncluded k) cs (end_bound t)" "fst (hd cs) = False" "flagged (entries_points m) cs"
    by blast
  moreover have "Interval_points \<lparr>start_bound = start_bound t, end_bound = Excluded k\<rparr> \<subseteq> entries_points m"
    using points_in_entry [OF x(1)] x(2,4) t by simp
  moreover have "\<not> Interval_is_empty \<lparr>start_bound = start_bound t, end_bound = Excluded k\<rparr>"
    using k(1) t by (simp add: is_empty_bounds)
  ultimately show ?thesis by (auto intro: chained_Cons)
qed

lemma split_entries_correct:
  assumes ok: "entries_ok m" and ne: "\<not> Interval_is_empty t"
  shows "\<exists>cs. IntervalSet_split_interval_components (Intervals m) t = Some cs
        \<and> chained (start_bound t) cs (end_bound t) \<and> flagged (entries_points m) cs"
proof -
  obtain c where c: "start_bound t = StartIncluded c" by (cases "start_bound t")
  have ne': "\<not> End_is_disjoint (end_bound t) (StartIncluded c)"
    using ne c by (simp add: is_empty_bounds)
  note split_def = IntervalSet_split_interval_components_def
  from ok show ?thesis
  proof (cases rule: preceding_cases [where k = c])
    case none
    from split_from_correct [OF ok ne'] none(2) obtain cs where
      "split_components_from m c t = Some cs" "chained (StartIncluded c) cs (end_bound t)"
      "flagged (entries_points m) cs" by auto
    then show ?thesis using none(1) ne c by (simp add: split_def)
  next
    case (some l x)
    consider (all) "end_bound t \<le> snd x" | (inside) k where "snd x = Excluded k" "c < k"
        "\<not> end_bound t \<le> Excluded k"
      | (outside) k where "snd x = Excluded k" "k \<le> c" "\<not> end_bound t \<le> Excluded k"
      using not_less by (cases "snd x") fastforce+
    then show ?thesis
    proof cases
      case all
      have "t = \<lparr>start_bound = StartIncluded c, end_bound = end_bound t\<rparr>"
        using c by (simp add: interval_eq_iff)
      then have "Interval_points t \<subseteq> entries_points m"
        using points_in_entry [OF some(3,4) all] by simp
      then show ?thesis using all ne some(1) c by (simp add: split_def)
    next
      case inside
      with split_entries_inside [OF ok some(2,3,4,5) inside c] ne some(1) c show ?thesis
        by (auto simp: split_def)
    next
      case outside
      have "entries_points (filter (\<lambda>e. fst e \<le> StartIncluded c) m) \<inter> {p. c \<le> p} = {}"
        unfolding some(2) by (rule no_points_from [OF some(5)]) (simp add: outside)
      from split_from_correct [OF ok ne' this] obtain cs where
        "split_components_from m c t = Some cs" "chained (StartIncluded c) cs (end_bound t)"
        "flagged (entries_points m) cs" by auto
      moreover have "\<not> c < k" using outside(2) by simp
      ultimately show ?thesis using outside(1,3) ne some(1) c by (simp add: split_def)
    qed
  qed
qed

lemma split_components_correct:
  assumes "IntervalSet_ok s" and "\<not> Interval_is_empty t"
  shows "\<exists>cs. IntervalSet_split_interval_components s t = Some cs
        \<and> chained (start_bound t) cs (end_bound t) \<and> flagged (IntervalSet_points s) cs"
proof (cases s)
  case All
  with assms(2) show ?thesis
    by (simp add: IntervalSet_split_interval_components_def IntervalSet_points_def)
next
  case (Intervals m)
  with assms split_entries_correct [of m t] show ?thesis
    by (simp add: IntervalSet_ok_def IntervalSet_points_def)
qed

lemma flagged_in_out:
  assumes "flagged S cs"
  shows "component_points cs \<inter> S = component_points (filter fst cs)"
    and "component_points cs - S = component_points (filter (\<lambda>c. \<not> fst c) cs)"
proof -
  have "if fst c then Interval_points (snd c) \<subseteq> S else Interval_points (snd c) \<inter> S = {}"
    if "c \<in> set cs" for c
    using assms that by (induction S cs rule: flagged.induct) (auto simp del: mem_points)
  then have "\<And>c. c \<in> set cs \<Longrightarrow> fst c \<Longrightarrow> Interval_points (snd c) \<subseteq> S"
    and "\<And>c. c \<in> set cs \<Longrightarrow> \<not> fst c \<Longrightarrow> Interval_points (snd c) \<inter> S = {}"
    by (simp_all split: if_splits)
  then show "component_points cs \<inter> S = component_points (filter fst cs)"
    "component_points cs - S = component_points (filter (\<lambda>c. \<not> fst c) cs)"
    unfolding component_points_def by fastforce+
qed

lemma contains_interval_correct:
  assumes "IntervalSet_ok s"
  shows "IntervalSet_contains_interval s t = Some (Interval_points t \<subseteq> IntervalSet_points s)"
proof (cases "Interval_is_empty t")
  case True
  then show ?thesis
    by (cases s) (auto simp: IntervalSet_contains_interval_def IntervalSet_split_interval_components_def
        is_empty_iff_points IntervalSet_points_def)
next
  case False
  then obtain cs where cs: "IntervalSet_split_interval_components s t = Some cs"
    "chained (start_bound t) cs (end_bound t)" "flagged (IntervalSet_points s) cs"
    using split_components_correct [OF assms] by blast
  have t: "Interval_points t = component_points cs"
    using chained_points [OF cs(2)] by simp
  have "list_all fst cs \<longleftrightarrow> component_points (filter (\<lambda>c. \<not> fst c) cs) = {}"
    using chained_points [OF cs(2)]
    by (auto simp: list_all_iff component_points_def is_empty_iff_points)
  also have "\<dots> \<longleftrightarrow> Interval_points t \<subseteq> IntervalSet_points s"
    using flagged_in_out(2) [OF cs(3)] t by auto
  finally show ?thesis using cs(1) by (simp add: IntervalSet_contains_interval_def)
qed

text \<open>
  The components outside the set come in ascending order with a component in the set between
  any two of them, so inserting them one by one gives a well-formed map.
\<close>

abbreviation gaps :: "(bool \<times> interval) list \<Rightarrow> (start_included, end_bound) btree" where
  "gaps cs \<equiv> map (\<lambda>c. (start_bound (snd c), end_bound (snd c))) (filter (\<lambda>c. \<not> fst c) cs)"

lemma chained_starts_above:
  "chained s cs e \<Longrightarrow> c \<in> set cs \<Longrightarrow> s \<le> start_bound (snd c)"
proof (induction s cs e rule: chained.induct)
  case (3 s b i b' i' cs e)
  from 3(2) obtain k where k: "chained (StartIncluded k) ((b', i') # cs) e"
    "start_bound i = s" "end_bound i = Excluded k" "\<not> Interval_is_empty i" by auto
  then have "s < StartIncluded k" by (cases s) (auto simp: is_empty_bounds)
  with 3(1) [OF k(1)] 3(3) k(2) show ?case by (auto simp: less_le_trans order.strict_implies_order)
qed auto

lemma chained_gaps_ok: "chained s cs e \<Longrightarrow> entries_ok (gaps cs)"
proof (induction s cs e rule: chained.induct)
  case (2 s b i e)
  then show ?case by (auto simp: entries_ok_Cons entry_ok_def is_empty_bounds)
next
  case (3 s b i b' i' cs e)
  from 3(2) obtain k where k: "chained (StartIncluded k) ((b', i') # cs) e"
    "end_bound i = Excluded k" "\<not> Interval_is_empty i" and b: "b' = (\<not> b)" by auto
  note IH = 3(1) [OF k(1)]
  show ?case
  proof (cases b)
    case False
    have "\<forall>y \<in> set (gaps ((b', i') # cs)). StartIncluded k < fst y"
    proof (cases cs)
      case (Cons c cs')
      obtain k' where k': "chained (StartIncluded k') cs e" "end_bound i' = Excluded k'"
        and i': "start_bound i' = StartIncluded k" "\<not> Interval_is_empty i'"
        using k(1) Cons by (cases c) auto
      have "StartIncluded k < StartIncluded k'"
        using i' k'(2) by (simp add: is_empty_bounds)
      then have "\<forall>c' \<in> set cs. StartIncluded k < start_bound (snd c')"
        using chained_starts_above [OF k'(1)] less_le_trans by blast
      then show ?thesis using b False by simp
    qed (use b False in simp)
    then show ?thesis using IH False k(2,3)
      by (auto simp: entries_ok_Cons entry_ok_def is_empty_bounds not_le)
  qed (use IH in auto)
qed simp

lemma fold_insert_ascending:
  "bt_ok (acc @ m) \<Longrightarrow> fold (\<lambda>e. bt_insert (fst e) (snd e)) m acc = acc @ m"
proof (induction m arbitrary: acc)
  case (Cons e m)
  have "bt_insert (fst e) (snd e) (acc @ []) = acc @ [(fst e, snd e)]"
    using Cons.prems by (intro bt_insert_mid) (auto simp: sorted_wrt_append)
  with Cons show ?case by simp
qed simp

lemma subtract_fold:
  "fold (\<lambda>(in_set, i) difference.
           if \<not> in_set then bt_insert (start_bound i) (end_bound i) difference else difference) cs acc
     = fold (\<lambda>e. bt_insert (fst e) (snd e)) (gaps cs) acc"
  by (induction cs arbitrary: acc) auto

lemma subtract_correct:
  assumes "IntervalSet_ok s"
  shows "\<exists>d. IntervalSet_subtract_from_interval s t = Some d \<and> IntervalSet_ok d
      \<and> IntervalSet_points d = Interval_points t - IntervalSet_points s"
proof (cases "Interval_is_empty t")
  case True
  then show ?thesis
    by (cases s) (auto simp: IntervalSet_subtract_from_interval_def IntervalSet_ok_def
        IntervalSet_split_interval_components_def is_empty_iff_points IntervalSet_points_def)
next
  case False
  then obtain cs where cs: "IntervalSet_split_interval_components s t = Some cs"
    "chained (start_bound t) cs (end_bound t)" "flagged (IntervalSet_points s) cs"
    using split_components_correct [OF assms] by blast
  have ok: "entries_ok (gaps cs)" by (rule chained_gaps_ok [OF cs(2)])
  have "fold (\<lambda>e. bt_insert (fst e) (snd e)) (gaps cs) [] = gaps cs"
    using fold_insert_ascending [of "[]" "gaps cs"] entries_ok_bt_ok [OF ok] by simp
  moreover have "entries_points (gaps cs) = component_points (filter (\<lambda>c. \<not> fst c) cs)"
    by (force simp: entries_points_def component_points_def)
  ultimately show ?thesis
    using cs(1) ok flagged_in_out(2) [OF cs(3)] chained_points [OF cs(2)]
    by (simp add: IntervalSet_subtract_from_interval_def subtract_fold IntervalSet_ok_def
        IntervalSet_points_def)
qed

section \<open>Sets of keys as the read sets use them\<close>

text \<open>
  The contract of \<open>IntervalSet\<close> towards its clients: adding an interval never panics and adds its
  keys, and membership is membership in the denoted set of keys.
\<close>

locale key_set =
  fixes add :: "'s \<Rightarrow> interval \<Rightarrow> 's option"
    and mem :: "'s \<Rightarrow> bytes \<Rightarrow> bool"
    and emp :: 's
    and ok :: "'s \<Rightarrow> bool"
    and points :: "'s \<Rightarrow> bytes set"
  assumes emp: "ok emp" "points emp = {}"
    and add: "ok s \<Longrightarrow> \<exists>s'. add s i = Some s' \<and> ok s' \<and> points s' = points s \<union> Interval_points i"
    and mem: "ok s \<Longrightarrow> mem s p \<longleftrightarrow> p \<in> points s"
begin

lemma add_all:
  "ok s \<Longrightarrow> \<exists>s'. fold_option (\<lambda>i s. add s i) is s = Some s' \<and> ok s'
     \<and> points s' = points s \<union> (\<Union>i \<in> set is. Interval_points i)"
proof (induction "is" arbitrary: s)
  case (Cons i "is")
  obtain s' where s': "add s i = Some s'" "ok s'" "points s' = points s \<union> Interval_points i"
    using add [OF Cons.prems] by blast
  from Cons.IH [OF s'(2)] s' show ?case by (auto simp: Un_assoc)
qed simp

lemma mem_add_all:
  assumes "ok s" and "fold_option (\<lambda>i s. add s i) is s = Some s'"
  shows "mem s' p \<longleftrightarrow> mem s p \<or> (\<exists>i \<in> set is. Interval_contains i p)"
  using add_all [OF assms(1), of "is"] assms by (auto simp: mem)

end

interpretation interval_set: key_set IntervalSet_add IntervalSet_contains IntervalSet_new IntervalSet_ok IntervalSet_points
proof
  show "IntervalSet_ok IntervalSet_new" "IntervalSet_points IntervalSet_new = {}"
    by (simp_all add: IntervalSet_new_def IntervalSet_ok_def IntervalSet_points_def)
qed (simp_all add: add_correct contains_points)

text \<open>The protobuf form of a set of intervals is read back by adding them one by one.\<close>

definition entry_proto :: "start_included \<times> end_bound \<Rightarrow> interval_proto" where
  "entry_proto e = \<lparr>start_inclusive = start_key (fst e),
     end_proto = Some (case snd e of Unbounded \<Rightarrow> AfterAll | Excluded k \<Rightarrow> Exclusive k)\<rparr>"

lemma to_proto_entries: "IntervalSet_to_proto (Intervals m) = map entry_proto m"
  by (auto simp: IntervalSet_to_proto_def entry_proto_def)

lemma from_proto_entries:
  "fold_option (\<lambda>i s. IntervalSet_add s i) (map mk_interval m) s = Some s' \<Longrightarrow>
     IntervalSet_from_proto_loop (map entry_proto m) s = Inr s'"
proof (induction m arbitrary: s)
  case (Cons e m)
  have "\<lparr>start_bound = StartIncluded (start_key (fst e)),
      end_bound = (case (case snd e of Unbounded \<Rightarrow> AfterAll | Excluded k \<Rightarrow> Exclusive k) of
         AfterAll \<Rightarrow> Unbounded | Exclusive k \<Rightarrow> Excluded k)\<rparr> = mk_interval e"
    by (cases e) (auto split: end_bound.splits)
  with Cons show ?case by (auto simp: entry_proto_def split: option.splits)
qed simp

section \<open>Properties\<close>

text \<open>C14. Adding an interval never panics, keeps the intervals of the set disjoint, non-adjacent
  and in order, and adds exactly the keys of the interval.\<close>

theorem IntervalSet_add_adds:
  assumes "IntervalSet_ok s"
  shows "\<exists>s'. IntervalSet_add s i = Some s' \<and> IntervalSet_ok s'
    \<and> IntervalSet_points s' = IntervalSet_points s \<union> Interval_points i"
  using assms by (rule interval_set.add)

theorem IntervalSet_add_adds_witness:
  "\<exists>s'. IntervalSet_add (Intervals [(StartIncluded [1], Excluded [2])]) \<lparr>start_bound = StartIncluded [2], end_bound = Unbounded\<rparr> = Some s'
    \<and> IntervalSet_ok s'
    \<and> IntervalSet_points s' = IntervalSet_points (Intervals [(StartIncluded [1], Excluded [2])])
        \<union> Interval_points \<lparr>start_bound = StartIncluded [2], end_bound = Unbounded\<rparr>"
  by (rule IntervalSet_add_adds)
    (simp add: IntervalSet_ok_def entries_ok_def entry_ok_def is_empty_bounds)

text \<open>Whatever intervals are added to an empty set, in whatever order, no addition panics and
  \<open>contains\<close> then answers exactly whether some added interval contains the key.\<close>

lemma IntervalSet_contains_added:
  "\<exists>s. fold_option (\<lambda>i s. IntervalSet_add s i) is IntervalSet_new = Some s
     \<and> IntervalSet_ok s \<and> (\<forall>p. IntervalSet_contains s p = (\<exists>i \<in> set is. Interval_contains i p))"
proof -
  have ok: "IntervalSet_ok IntervalSet_new" by (rule interval_set.emp)
  obtain s where s: "fold_option (\<lambda>i s. IntervalSet_add s i) is IntervalSet_new = Some s" "IntervalSet_ok s"
    using interval_set.add_all [OF ok] by blast
  have "IntervalSet_contains s p = (\<exists>i \<in> set is. Interval_contains i p)" for p
    using interval_set.mem_add_all [OF ok s(1)] interval_set.mem [OF ok] interval_set.emp(2) by simp
  with s show ?thesis by blast
qed

text \<open>Splitting a non-empty interval against a set succeeds, cuts it into consecutive non-empty
  pieces that cover it, and the pieces flagged \<open>true\<close> are exactly the keys of the interval that
  are in the set.\<close>

lemma split_interval_components_partition:
  assumes "IntervalSet_ok s" and "\<not> Interval_is_empty t"
  shows "\<exists>cs. IntervalSet_split_interval_components s t = Some cs
    \<and> chained (start_bound t) cs (end_bound t)
    \<and> component_points cs = Interval_points t
    \<and> component_points (filter fst cs) = Interval_points t \<inter> IntervalSet_points s
    \<and> component_points (filter (\<lambda>c. \<not> fst c) cs) = Interval_points t - IntervalSet_points s"
proof -
  obtain cs where cs: "IntervalSet_split_interval_components s t = Some cs"
    "chained (start_bound t) cs (end_bound t)" "flagged (IntervalSet_points s) cs"
    using split_components_correct [OF assms] by blast
  have "component_points cs = Interval_points t" using chained_points [OF cs(2)] by simp
  with cs flagged_in_out [OF cs(3)] show ?thesis by auto
qed

text \<open>Subtracting a set from an interval gives a well-formed set of exactly the keys of the
  interval that are not in the set, and \<open>contains_interval\<close> decides whether there are none.\<close>

lemma subtract_and_contains_interval:
  assumes "IntervalSet_ok s"
  shows "(\<exists>d. IntervalSet_subtract_from_interval s t = Some d \<and> IntervalSet_ok d
      \<and> IntervalSet_points d = Interval_points t - IntervalSet_points s)
    \<and> IntervalSet_contains_interval s t = Some (Interval_points t \<subseteq> IntervalSet_points s)"
  using subtract_correct [OF assms] contains_interval_correct [OF assms] by blast

text \<open>A set of intervals written to its protobuf form and read back is well formed and has the
  same keys.\<close>

lemma interval_set_proto_roundtrip:
  assumes "IntervalSet_ok s"
  shows "\<exists>s'. IntervalSet_from_proto (IntervalSet_to_proto s) = Inr s' \<and> IntervalSet_ok s'
    \<and> IntervalSet_points s' = IntervalSet_points s"
proof (cases "IntervalSet_to_proto s = ALL_INTERVAL_PROTO")
  case True
  have "IntervalSet_points s = UNIV"
  proof (cases s)
    case (Intervals m)
    with True obtain e where m: "m = [e]" "entry_proto e = \<lparr>start_inclusive = [], end_proto = Some AfterAll\<rparr>"
      by (auto simp: to_proto_entries ALL_INTERVAL_PROTO_def)
    then have "mk_interval e = Interval_all"
      by (cases e; cases "fst e") (auto simp: entry_proto_def Interval_all_def BinaryKey_min_def split: end_bound.splits)
    with m Intervals points_all show ?thesis by (simp add: IntervalSet_points_def entries_points_def)
  qed (simp add: IntervalSet_points_def)
  with True show ?thesis by (simp add: IntervalSet_from_proto_def IntervalSet_ok_def IntervalSet_points_def)
next
  case False
  then obtain m where s: "s = Intervals m" by (cases s) (auto simp: IntervalSet_to_proto_def)
  have ok: "IntervalSet_ok IntervalSet_new" by (rule interval_set.emp)
  obtain s' where s': "fold_option (\<lambda>i s. IntervalSet_add s i) (map mk_interval m) IntervalSet_new = Some s'"
    "IntervalSet_ok s'" "IntervalSet_points s' = (\<Union>i \<in> set (map mk_interval m). Interval_points i)"
    using interval_set.add_all [OF ok, of "map mk_interval m"] interval_set.emp(2) by auto
  from from_proto_entries [OF s'(1)] s' False s show ?thesis
    by (auto simp: IntervalSet_from_proto_def to_proto_entries IntervalSet_points_def entries_points_def)
qed

end
