(* ===== verification/Timestamp.thy ===== *)
theory Timestamp
  imports Convex_Prelude
begin

text \<open>
  Transaction timestamps (\<open>convex/sync_types/src/timestamp.rs\<close>): nanoseconds since the epoch, a
  \<open>u64\<close> of at most \<open>i64::MAX\<close>.  The model is the natural number with the bounds written out;
  a \<open>Duration\<close> is its number of nanoseconds, an unbounded natural number, and the cast
  \<open>as_nanos() as u64\<close> is the reduction modulo \<open>2 ^ 64\<close>.
\<close>

section \<open>Operations\<close>

type_synonym timestamp = nat

definition Timestamp_MAX :: timestamp where "Timestamp_MAX = 2 ^ 63 - 1"
definition Timestamp_MIN :: timestamp where "Timestamp_MIN = 0"

datatype timestamp_error =
    AlreadyAtMax | AlreadyAtMin | OverflowU64 | OverflowI64 | AlreadyGreater | TimestampTooLarge
  | NegativeTimestamp

definition as_u64 :: "nat \<Rightarrow> nat" where
  "as_u64 n = n mod 2 ^ 64"

definition Timestamp_succ :: "timestamp \<Rightarrow> timestamp_error + timestamp" where
  "Timestamp_succ t = (if t \<ge> Timestamp_MAX then Inl AlreadyAtMax else Inr (t + 1))"

definition Timestamp_pred :: "timestamp \<Rightarrow> timestamp_error + timestamp" where
  "Timestamp_pred t = (if t \<le> Timestamp_MIN then Inl AlreadyAtMin else Inr (t - 1))"

definition Timestamp_add :: "timestamp \<Rightarrow> nat \<Rightarrow> timestamp_error + timestamp" where
  "Timestamp_add t duration =
     (let nanos = t + as_u64 duration
      in if nanos \<ge> 2 ^ 64 then Inl OverflowU64
         else if \<not> nanos \<le> Timestamp_MAX then Inl OverflowI64
         else Inr nanos)"

definition Timestamp_sub :: "timestamp \<Rightarrow> nat \<Rightarrow> timestamp_error + timestamp" where
  "Timestamp_sub t duration =
     (let nanos = as_u64 duration
      in if t \<le> nanos then Inl AlreadyGreater else Inr (t - nanos))"

text \<open>\<open>must\<close> panics (\<open>None\<close>) out of bounds; its argument is an \<open>i32\<close>.\<close>

definition Timestamp_must :: "32 word \<Rightarrow> timestamp option" where
  "Timestamp_must value =
     (if sint value < int Timestamp_MIN \<or> int Timestamp_MAX < sint value then None
      else Some (nat (sint value)))"

definition Timestamp_try_from_i64 :: "i64 \<Rightarrow> timestamp_error + timestamp" where
  "Timestamp_try_from_i64 value =
     (if sint value < 0 then Inl NegativeTimestamp else Inr (nat (sint value)))"

definition Timestamp_try_from_u64 :: "u64 \<Rightarrow> timestamp_error + timestamp" where
  "Timestamp_try_from_u64 value =
     (if unat value > Timestamp_MAX then Inl TimestampTooLarge else Inr (unat value))"

definition Timestamp_to_u64 :: "timestamp \<Rightarrow> u64" where
  "Timestamp_to_u64 t = of_nat t"

definition Timestamp_to_i64 :: "timestamp \<Rightarrow> i64" where
  "Timestamp_to_i64 t = of_nat t"

section \<open>Bounds\<close>

definition timestamp_ok :: "timestamp \<Rightarrow> bool" where
  "timestamp_ok t = (t \<le> Timestamp_MAX)"

lemma Timestamp_succ_Inr [simp]: "Timestamp_succ t = Inr u \<longleftrightarrow> t < Timestamp_MAX \<and> u = Suc t"
  by (auto simp: Timestamp_succ_def)

lemma Timestamp_succ_less [simp]: "t < Timestamp_MAX \<Longrightarrow> Timestamp_succ t = Inr (Suc t)"
  by simp

lemma Timestamp_sub_le: "Timestamp_sub t d = Inr u \<Longrightarrow> u \<le> t"
  by (auto simp: Timestamp_sub_def Let_def split: if_splits)

lemma small_as_u64: "d < 2 ^ 64 \<Longrightarrow> as_u64 d = d"
  by (simp add: as_u64_def)

lemma unat_timestamp: "t \<le> Timestamp_MAX \<Longrightarrow> unat (of_nat t :: 64 word) = t"
  by (simp add: unat_of_nat Timestamp_MAX_def)

lemma sint_timestamp:
  assumes "t \<le> Timestamp_MAX"
  shows "sint (of_nat t :: 64 word) = int t"
proof -
  have "int t < 2 ^ 63" using assms by (simp add: Timestamp_MAX_def)
  then have "signed_take_bit 63 (int t) = int t"
    by (subst signed_take_bit_int_eq_self_iff) simp
  then show ?thesis by (simp add: signed_of_nat)
qed



lemma timestamp_i64_roundtrip: "timestamp_ok t \<Longrightarrow> Timestamp_try_from_i64 (Timestamp_to_i64 t) = Inr t"
  by (simp add: timestamp_ok_def Timestamp_try_from_i64_def Timestamp_to_i64_def sint_timestamp)

lemma timestamp_u64_roundtrip: "timestamp_ok t \<Longrightarrow> Timestamp_try_from_u64 (Timestamp_to_u64 t) = Inr t"
  by (simp add: timestamp_ok_def Timestamp_try_from_u64_def Timestamp_to_u64_def unat_timestamp)

end
