(* ===== verification/Convex_Object.thy ===== *)
theory Convex_Object
  imports Convex_Value
begin

text \<open>
  Objects and field paths of the \<open>value\<close> crate: the methods of \<open>ConvexObject\<close> and the
  \<open>remove_*\<close> parsing helpers of \<open>object.rs\<close>, \<open>FieldPath\<close> of \<open>field_path.rs\<close>, and the
  conversions between \<open>ConvexValue\<close> and the primitive types of \<open>lib.rs\<close>.
\<close>

section \<open>Objects\<close>

definition ConvexObject_empty :: convex_object where
  "ConvexObject_empty = []"

definition ConvexObject_for_value ::
    "field_name \<Rightarrow> convex_value \<Rightarrow> value_error + convex_object" where
  "ConvexObject_for_value key v = ConvexObject_try_from (bt_insert key v [])"

definition ConvexObject_get :: "convex_object \<Rightarrow> field_name \<Rightarrow> convex_value option" where
  "ConvexObject_get obj f = bt_get obj f"

definition ConvexObject_contains_field :: "convex_object \<Rightarrow> field_name \<Rightarrow> bool" where
  "ConvexObject_contains_field obj f = (ConvexObject_get obj f \<noteq> None)"

fun get_path_loop :: "convex_value \<Rightarrow> field_name list \<Rightarrow> convex_value option" where
  "get_path_loop v [] = Some v"
| "get_path_loop v (f # fs) =
     (case v of
        ObjectV obj \<Rightarrow>
          (case bt_get obj f of None \<Rightarrow> None | Some w \<Rightarrow> get_path_loop w fs)
      | _ \<Rightarrow> None)"

definition ConvexObject_get_path :: "convex_object \<Rightarrow> field_name list \<Rightarrow> convex_value option" where
  "ConvexObject_get_path obj path =
     (case path of
        [] \<Rightarrow> None
      | f # fs \<Rightarrow> (case bt_get obj f of None \<Rightarrow> None | Some v \<Rightarrow> get_path_loop v fs))"

definition ConvexObject_shallow_merge ::
    "convex_object \<Rightarrow> convex_object \<Rightarrow> value_error + convex_object" where
  "ConvexObject_shallow_merge obj other =
     ConvexObject_try_from (fold (\<lambda>(f, v) fields. bt_insert f v fields) other obj)"

text \<open>\<open>None\<close> is the panic of the \<open>expect\<close>.\<close>

definition ConvexObject_filter_system_fields :: "convex_object \<Rightarrow> convex_object option" where
  "ConvexObject_filter_system_fields obj =
     (case ConvexObject_try_from (filter (\<lambda>(k, _). \<not> FieldName_is_system k) obj) of
        Inl _ \<Rightarrow> None
      | Inr obj' \<Rightarrow> Some obj')"

section \<open>Parsing helpers\<close>

text \<open>
  Each \<open>remove_*\<close> takes the field out of the map, also when it then fails, and reports what it
  found.  \<open>remove_object\<close> is generic in the target type: its \<open>TryFrom\<close> is the parameter
  \<open>try_into\<close>.
\<close>

datatype 'e parse_error =
    ExpectedString field_name "convex_value option"
  | ExpectedBoolean field_name "convex_value option"
  | ExpectedInt field_name "convex_value option"
  | ExpectedObject field_name "convex_value option"
  | ExpectedObjectOrNull field_name "convex_value option"
  | ExpectedArray field_name "convex_value option"
  | ExpectedStringInArray field_name convex_value
  | Nested 'e

type_synonym ('e, 'a) parse = "('e parse_error + 'a) \<times> convex_object"

definition remove_string :: "convex_object \<Rightarrow> field_name \<Rightarrow> ('e, bytes) parse" where
  "remove_string fields f =
     ((case bt_get fields f of
         Some (StringV s) \<Rightarrow> Inr s
       | v \<Rightarrow> Inl (ExpectedString f v)), bt_remove f fields)"

definition remove_nullable_string :: "convex_object \<Rightarrow> field_name \<Rightarrow> ('e, bytes option) parse" where
  "remove_nullable_string fields f =
     ((case bt_get fields f of
         Some (StringV s) \<Rightarrow> Inr (Some s)
       | Some Null \<Rightarrow> Inr None
       | None \<Rightarrow> Inr None
       | v \<Rightarrow> Inl (ExpectedString f v)), bt_remove f fields)"

definition remove_boolean :: "convex_object \<Rightarrow> field_name \<Rightarrow> ('e, bool) parse" where
  "remove_boolean fields f =
     ((case bt_get fields f of
         Some (Boolean b) \<Rightarrow> Inr b
       | v \<Rightarrow> Inl (ExpectedBoolean f v)), bt_remove f fields)"

definition remove_int64 :: "convex_object \<Rightarrow> field_name \<Rightarrow> ('e, i64) parse" where
  "remove_int64 fields f =
     ((case bt_get fields f of
         Some (Int64 i) \<Rightarrow> Inr i
       | v \<Rightarrow> Inl (ExpectedInt f v)), bt_remove f fields)"

definition remove_nullable_int64 :: "convex_object \<Rightarrow> field_name \<Rightarrow> ('e, i64 option) parse" where
  "remove_nullable_int64 fields f =
     ((case bt_get fields f of
         Some (Int64 i) \<Rightarrow> Inr (Some i)
       | None \<Rightarrow> Inr None
       | v \<Rightarrow> Inl (ExpectedInt f v)), bt_remove f fields)"

definition remove_object ::
    "(convex_object \<Rightarrow> 'e + 't) \<Rightarrow> convex_object \<Rightarrow> field_name \<Rightarrow> ('e, 't) parse" where
  "remove_object try_into fields f =
     ((case bt_get fields f of
         Some (ObjectV obj) \<Rightarrow>
           (case try_into obj of Inl e \<Rightarrow> Inl (Nested e) | Inr t \<Rightarrow> Inr t)
       | v \<Rightarrow> Inl (ExpectedObject f v)), bt_remove f fields)"

definition remove_nullable_object ::
    "(convex_object \<Rightarrow> 'e + 't) \<Rightarrow> convex_object \<Rightarrow> field_name \<Rightarrow> ('e, 't option) parse" where
  "remove_nullable_object try_into fields f =
     ((case bt_get fields f of
         Some (ObjectV obj) \<Rightarrow>
           (case try_into obj of Inl e \<Rightarrow> Inl (Nested e) | Inr t \<Rightarrow> Inr (Some t))
       | Some Null \<Rightarrow> Inr None
       | None \<Rightarrow> Inr None
       | v \<Rightarrow> Inl (ExpectedObjectOrNull f v)), bt_remove f fields)"

definition remove_vec :: "convex_object \<Rightarrow> field_name \<Rightarrow> ('e, convex_value list) parse" where
  "remove_vec fields f =
     ((case bt_get fields f of
         Some (ArrayV a) \<Rightarrow> Inr a
       | v \<Rightarrow> Inl (ExpectedArray f v)), bt_remove f fields)"

definition expect_string :: "field_name \<Rightarrow> convex_value \<Rightarrow> 'e parse_error + bytes" where
  "expect_string f v = (case v of StringV s \<Rightarrow> Inr s | _ \<Rightarrow> Inl (ExpectedStringInArray f v))"

definition remove_vec_of_strings :: "convex_object \<Rightarrow> field_name \<Rightarrow> ('e, bytes list) parse" where
  "remove_vec_of_strings fields f =
     (let (r, fields') = remove_vec fields f
      in (bind_result r (map_result (expect_string f)), fields'))"

definition remove_nullable_vec ::
    "convex_object \<Rightarrow> field_name \<Rightarrow> ('e, convex_value list option) parse" where
  "remove_nullable_vec fields f =
     ((case bt_get fields f of
         Some (ArrayV a) \<Rightarrow> Inr (Some a)
       | None \<Rightarrow> Inr None
       | v \<Rightarrow> Inl (ExpectedArray f v)), bt_remove f fields)"

definition remove_nullable_vec_of_strings ::
    "convex_object \<Rightarrow> field_name \<Rightarrow> ('e, bytes list option) parse" where
  "remove_nullable_vec_of_strings fields f =
     (let (r, fields') = remove_nullable_vec fields f
      in (bind_result r (\<lambda>values. case values of
              None \<Rightarrow> Inr None
            | Some vs \<Rightarrow> bind_result (map_result (expect_string f) vs) (\<lambda>ss. Inr (Some ss))), fields'))"

section \<open>Field paths\<close>

type_synonym field_path = "field_name list"

datatype path_error =
  EmptyPath | BadComponent "field_name_error + identifier_error" | NotAString | NotAList
  | PathTooLarge value_error

definition FieldPath_new :: "field_name list \<Rightarrow> path_error + field_path" where
  "FieldPath_new fields = (if fields = [] then Inl EmptyPath else Inr fields)"

text \<open>\<open>str::trim_matches\<close> and \<open>str::split\<close> on the byte \<open>.\<close>.\<close>

definition trim_matches :: "u8 \<Rightarrow> bytes \<Rightarrow> bytes" where
  "trim_matches c s = rev (dropWhile ((=) c) (rev (dropWhile ((=) c) s)))"

fun split_on :: "u8 \<Rightarrow> bytes \<Rightarrow> bytes list" where
  "split_on c [] = [[]]"
| "split_on c (b # bs) =
     (if b = c then [] # split_on c bs
      else (case split_on c bs of [] \<Rightarrow> [[b]] | w # ws \<Rightarrow> (b # w) # ws))"

fun join :: "u8 \<Rightarrow> bytes list \<Rightarrow> bytes" where
  "join c [] = []"
| "join c [w] = w"
| "join c (w # ws) = w @ c # join c ws"

definition parse_component :: "bytes \<Rightarrow> path_error + field_name" where
  "parse_component w =
     (case IdentifierFieldName_from_str w of Inl e \<Rightarrow> Inl (BadComponent e) | Inr f \<Rightarrow> Inr f)"

definition FieldPath_from_str :: "bytes \<Rightarrow> path_error + field_path" where
  "FieldPath_from_str path =
     (let trimmed = trim_matches 46 path
      in if trimmed = [] then Inl EmptyPath
         else bind_result (map_result parse_component (split_on 46 trimmed)) FieldPath_new)"

definition FieldPath_to_string :: "field_path \<Rightarrow> bytes" where
  "FieldPath_to_string path = join 46 path"

definition FieldPath_to_value :: "field_path \<Rightarrow> path_error + convex_value" where
  "FieldPath_to_value path =
     (case ConvexString_try_from (FieldPath_to_string path) of
        Inl e \<Rightarrow> Inl (PathTooLarge e)
      | Inr v \<Rightarrow> Inr v)"

definition FieldPath_from_value :: "convex_value \<Rightarrow> path_error + field_path" where
  "FieldPath_from_value v = (case v of StringV s \<Rightarrow> FieldPath_from_str s | _ \<Rightarrow> Inl NotAString)"

definition FieldPaths_to_value :: "field_path list \<Rightarrow> path_error + convex_value" where
  "FieldPaths_to_value paths =
     bind_result (map_result FieldPath_to_value paths) (\<lambda>vs.
       case ConvexArray_try_from vs of Inl e \<Rightarrow> Inl (PathTooLarge e) | Inr v \<Rightarrow> Inr v)"

definition FieldPaths_from_value :: "convex_value \<Rightarrow> path_error + field_path list" where
  "FieldPaths_from_value v =
     (case v of
        ArrayV a \<Rightarrow> map_result FieldPath_from_value a
      | _ \<Rightarrow> Inl NotAList)"

section \<open>Objects stay well formed\<close>

abbreviation object_ok :: "convex_object \<Rightarrow> bool" where
  "object_ok obj \<equiv> value_ok (ObjectV obj)"

abbreviation fields_ok :: "convex_object \<Rightarrow> bool" where
  "fields_ok obj \<equiv> bt_ok obj \<and> (\<forall>(f, v) \<in> set obj. is_valid_field_name f \<and> value_ok v)"

lemma object_try_from_ok:
  "fields_ok obj \<Longrightarrow> ConvexObject_try_from obj = Inr o' \<longleftrightarrow> o' = obj \<and> object_ok obj"
  by (auto simp: ConvexObject_try_from_def bind_result_Inr_iff check_limits_ok)

lemma bt_insert_elem: "e \<in> set (bt_insert k v m) \<Longrightarrow> e = (k, v) \<or> e \<in> set m"
  by (induction k v m rule: bt_insert.induct) (auto split: if_splits)

lemma fields_ok_insert:
  "fields_ok m \<Longrightarrow> is_valid_field_name k \<Longrightarrow> value_ok v \<Longrightarrow> fields_ok (bt_insert k v m)"
  using bt_insert_ok [of m k v] by (blast dest: bt_insert_elem)

lemma fields_ok_merge:
  "fields_ok m \<Longrightarrow> \<forall>(f, v) \<in> set kvs. is_valid_field_name f \<and> value_ok v \<Longrightarrow>
     fields_ok (fold (\<lambda>(f, v) fields. bt_insert f v fields) kvs m)"
proof (induction kvs arbitrary: m)
  case (Cons kv kvs)
  obtain k v where kv: "kv = (k, v)" by (cases kv)
  then have "fields_ok (bt_insert k v m)" using Cons.prems by (intro fields_ok_insert) auto
  with Cons.IH [of "bt_insert k v m"] Cons.prems(2) kv show ?case by simp
qed simp

lemma bt_rev_get: "bt_ok m \<Longrightarrow> map_of (rev m) = bt_get m"
proof -
  assume ok: "bt_ok m"
  then have "distinct (map fst m)" by (metis strict_sorted_iff)
  then have "map_of (rev m) = map_of m" by (intro map_of_inject_set [THEN iffD2]) (auto simp: rev_map [symmetric])
  then show ?thesis by (simp add: bt_get_def fun_eq_iff)
qed

lemma shallow_merge_correct:
  assumes "object_ok obj" and "object_ok other" and "ConvexObject_shallow_merge obj other = Inr m"
  shows "object_ok m" and "bt_get m = bt_get obj ++ bt_get other"
proof -
  let ?m = "fold (\<lambda>(f, v) fields. bt_insert f v fields) other obj"
  have "fields_ok ?m" using assms(1,2) by (intro fields_ok_merge) auto
  from object_try_from_ok [OF this, of m] assms(3) have m: "m = ?m" "object_ok ?m"
    unfolding ConvexObject_shallow_merge_def by blast+
  then show "object_ok m" by simp
  show "bt_get m = bt_get obj ++ bt_get other"
    using bt.get_put_all [of obj other] assms(1,2) by (simp add: m(1) bt_rev_get)
qed

lemma sum_list_filter_le: "sum_list (map f (filter P xs)) \<le> (sum_list (map f xs) :: nat)"
  by (induction xs) auto

lemma bt_filter:
  "bt_ok m \<Longrightarrow> bt_ok (filter P m)
     \<and> bt_get (filter P m) k = (case bt_get m k of Some v \<Rightarrow> if P (k, v) then Some v else None | None \<Rightarrow> None)"
proof (intro conjI)
  assume ok: "bt_ok m"
  show *: "bt_ok (filter P m)" using ok by (induction m) auto
  show "bt_get (filter P m) k = (case bt_get m k of Some v \<Rightarrow> if P (k, v) then Some v else None | None \<Rightarrow> None)"
  proof (cases "bt_get m k")
    case None
    then have "(k, v) \<notin> set m" for v using bt_get_iff [OF ok, of k v] by simp
    then show ?thesis using None bt_get_iff [OF *, of k] by (cases "bt_get (filter P m) k") auto
  next
    case (Some v)
    then have "(k, w) \<in> set m \<longleftrightarrow> w = v" for w using bt_get_iff [OF ok, of k w] by auto
    then show ?thesis using Some bt_get_iff [OF *, of k] by (cases "bt_get (filter P m) k") auto
  qed
qed

lemma object_ok_filter: "object_ok obj \<Longrightarrow> object_ok (filter P obj)"
proof -
  assume ok: "object_ok obj"
  have "value_size (ObjectV (filter P obj)) \<le> value_size (ObjectV obj)"
    using sum_list_filter_le [of "\<lambda>(f, v). length f + 1 + value_size v" P obj] by simp
  moreover have "value_nesting (ObjectV (filter P obj)) \<le> value_nesting (ObjectV obj)"
    by (fastforce simp: max_or_0_le intro: nesting_le_max)
  moreover have "length (filter P obj) \<le> MAX_OBJECT_FIELDS"
    using ok le_trans [OF length_filter_le [of P obj]] by simp
  ultimately show ?thesis
    using ok bt_filter [of obj P] by (auto simp: within_limits_def simp del: value_size.simps value_nesting.simps)
qed

lemma filter_system_fields_correct:
  "object_ok obj \<Longrightarrow> ConvexObject_filter_system_fields obj = Some (filter (\<lambda>(k, _). \<not> FieldName_is_system k) obj)"
proof -
  let ?fs = "filter (\<lambda>(k, _). \<not> FieldName_is_system k) obj"
  assume "object_ok obj"
  then have "object_ok ?fs" by (rule object_ok_filter)
  then have "ConvexObject_try_from ?fs = Inr ?fs" using object_try_from_ok [of ?fs ?fs] by auto
  then show ?thesis by (simp add: ConvexObject_filter_system_fields_def)
qed

section \<open>Paths round trip\<close>

lemma get_path_loop_append:
  "get_path_loop v (p @ q) = (case get_path_loop v p of None \<Rightarrow> None | Some w \<Rightarrow> get_path_loop w q)"
  by (induction v p rule: get_path_loop.induct) (auto split: convex_value.splits option.splits)

lemma join_split: "join c (split_on c s) = s"
proof (induction c s rule: split_on.induct)
  case (2 c b bs)
  then show ?case by (cases "split_on c bs" rule: remdups_adj.cases) auto
qed simp

lemma split_append: "c \<notin> set w \<Longrightarrow> split_on c (w @ c # s) = w # split_on c s"
  by (induction w) auto

lemma split_one: "c \<notin> set w \<Longrightarrow> split_on c w = [w]"
  by (induction w) auto

lemma split_join: "ws \<noteq> [] \<Longrightarrow> \<forall>w \<in> set ws. c \<notin> set w \<Longrightarrow> split_on c (join c ws) = ws"
  by (induction c ws rule: join.induct) (auto simp: split_append split_one)

lemma trim_id: "s \<noteq> [] \<Longrightarrow> hd s \<noteq> c \<Longrightarrow> last s \<noteq> c \<Longrightarrow> trim_matches c s = s"
proof -
  assume s: "s \<noteq> []" "hd s \<noteq> c" "last s \<noteq> c"
  then have "dropWhile ((=) c) s = s" by (cases s) auto
  moreover have "dropWhile ((=) c) (rev s) = rev s" using s by (cases s rule: rev_cases) auto
  ultimately show ?thesis by (simp add: trim_matches_def)
qed

lemma join_ends:
  "ws \<noteq> [] \<Longrightarrow> \<forall>w \<in> set ws. w \<noteq> [] \<Longrightarrow>
     join c ws \<noteq> [] \<and> hd (join c ws) = hd (hd ws) \<and> last (join c ws) = last (last ws)"
  by (induction c ws rule: join.induct) auto

lemma parse_component_ok:
  "parse_component w = Inr f \<longleftrightarrow> f = w \<and> is_valid_field_name w \<and> is_valid_identifier w"
  by (auto simp: parse_component_def IdentifierFieldName_from_str_def is_valid_field_name_def
      is_valid_identifier_def split: sum.splits)

lemma identifier_no_dot: "is_valid_identifier w \<Longrightarrow> w \<noteq> [] \<and> 46 \<notin> set w"
  by (auto simp: is_valid_identifier_def check_valid_identifier_inner_def is_ascii_alphanumeric_def
      is_ascii_alphabetic_def split: list.splits if_splits)

lemma map_parse_components:
  "map_result parse_component ws = Inr fs
     \<longleftrightarrow> fs = ws \<and> (\<forall>w \<in> set ws. is_valid_field_name w \<and> is_valid_identifier w)"
  by (auto simp: map_result_Inr_iff parse_component_ok list_all2_conv_all_nth all_set_conv_all_nth
      intro!: nth_equalityI)

abbreviation field_path_ok :: "field_path \<Rightarrow> bool" where
  "field_path_ok p \<equiv> p \<noteq> [] \<and> (\<forall>w \<in> set p. is_valid_field_name w \<and> is_valid_identifier w)"

lemma FieldPath_parse:
  "FieldPath_from_str s = Inr p \<longleftrightarrow> field_path_ok p \<and> trim_matches 46 s = FieldPath_to_string p"
proof
  assume "FieldPath_from_str s = Inr p"
  then have p: "p = split_on 46 (trim_matches 46 s)"
    "\<forall>w \<in> set p. is_valid_field_name w \<and> is_valid_identifier w" "p \<noteq> []"
    by (auto simp: FieldPath_from_str_def Let_def bind_result_Inr_iff map_parse_components FieldPath_new_def
        split: if_splits)
  then show "field_path_ok p \<and> trim_matches 46 s = FieldPath_to_string p"
    by (simp add: FieldPath_to_string_def join_split)
next
  assume p: "field_path_ok p \<and> trim_matches 46 s = FieldPath_to_string p"
  then have "split_on 46 (trim_matches 46 s) = p"
    unfolding FieldPath_to_string_def by (auto intro!: split_join dest: identifier_no_dot)
  moreover have "FieldPath_to_string p \<noteq> []"
    using p join_ends [of p 46] identifier_no_dot by (auto simp: FieldPath_to_string_def)
  ultimately show "FieldPath_from_str s = Inr p"
    using p by (simp add: FieldPath_from_str_def Let_def bind_result_Inr_iff map_parse_components FieldPath_new_def)
qed

lemma FieldPath_trim: "field_path_ok p \<Longrightarrow> trim_matches 46 (FieldPath_to_string p) = FieldPath_to_string p"
proof -
  assume p: "field_path_ok p"
  then have w: "\<forall>w \<in> set p. w \<noteq> [] \<and> 46 \<notin> set w" using identifier_no_dot by blast
  then have "hd (hd p) \<noteq> 46" "last (last p) \<noteq> 46" using p by (metis hd_in_set last_in_set)+
  with p w join_ends [of p 46] show ?thesis by (auto simp: FieldPath_to_string_def intro: trim_id)
qed

section \<open>Properties\<close>

text \<open>Merging two objects, when the result is within the limits, gives a well-formed object in
  which the fields of the second object win over those of the first.\<close>

lemma shallow_merge_overwrites:
  assumes "value_ok (ObjectV obj)" and "value_ok (ObjectV other)"
    and "ConvexObject_shallow_merge obj other = Inr m"
  shows "value_ok (ObjectV m)
    \<and> ConvexObject_get m f = (case ConvexObject_get other f of Some v \<Rightarrow> Some v | None \<Rightarrow> ConvexObject_get obj f)"
  using shallow_merge_correct [OF assms] by (auto simp: ConvexObject_get_def map_add_def split: option.splits)

text \<open>\<open>filter_system_fields\<close> never panics on a well-formed object: the result is well formed, has
  no field that starts with an underscore, and keeps every other field.\<close>

lemma filter_system_fields_total:
  assumes "value_ok (ObjectV obj)"
  shows "\<exists>obj'. ConvexObject_filter_system_fields obj = Some obj' \<and> value_ok (ObjectV obj')
    \<and> (\<forall>f. ConvexObject_get obj' f = (if FieldName_is_system f then None else ConvexObject_get obj f))"
proof -
  let ?o = "filter (\<lambda>(k, _). \<not> FieldName_is_system k) obj"
  have "ConvexObject_get ?o f = (if FieldName_is_system f then None else ConvexObject_get obj f)" for f
    using bt_filter [of obj "\<lambda>(k, _). \<not> FieldName_is_system k" f] assms
    by (auto simp: ConvexObject_get_def split: option.splits)
  then show ?thesis using filter_system_fields_correct [OF assms] object_ok_filter [OF assms] by blast
qed

text \<open>A string parses to a field path exactly when the path is non-empty, all its components are
  valid identifiers and field names, and it prints to the string without the dots around it; so
  printing and parsing a path gives it back.\<close>

lemma FieldPath_parse_print:
  "(FieldPath_from_str s = Inr p \<longleftrightarrow>
      p \<noteq> [] \<and> (\<forall>w \<in> set p. is_valid_field_name w \<and> is_valid_identifier w)
      \<and> trim_matches 46 s = FieldPath_to_string p)
   \<and> (FieldPath_from_str s = Inr p \<longrightarrow> FieldPath_from_str (FieldPath_to_string p) = Inr p)"
  using FieldPath_parse [of s p] FieldPath_parse [of "FieldPath_to_string p" p] FieldPath_trim [of p] by blast

text \<open>Looking up a path in two steps is looking it up at once.\<close>

lemma get_path_append:
  assumes "p \<noteq> []" and "q \<noteq> []"
  shows "ConvexObject_get_path obj (p @ q) =
    (case ConvexObject_get_path obj p of
       Some (ObjectV obj') \<Rightarrow> ConvexObject_get_path obj' q
     | _ \<Rightarrow> None)"
  using assms
  by (cases p; cases q) (auto simp: ConvexObject_get_path_def get_path_loop_append split: option.splits convex_value.splits)

end
