(* ===== verification/Base32.thy ===== *)
theory Base32
  imports Convex_Value
begin

text \<open>
  The Base32 codec of \<open>value/src/base32.rs\<close> (Crockford's alphabet, lower case, no padding).  A
  string is its bytes.  The fixed arrays of the source are lists; the index computations are the
  source's, on 8-bit words.
\<close>

section \<open>The codec\<close>

definition ALPHABET :: bytes where
  "ALPHABET = ascii ''0123456789abcdefghjkmnpqrstvwxyz''"

definition encoded_len :: "nat \<Rightarrow> nat" where
  "encoded_len len =
     (let r = len mod 5;
          last_chunk = (if r = 0 then 0 else if r = 1 then 2 else if r = 2 then 4 else if r = 3 then 5 else 7)
      in len div 5 * 8 + last_chunk)"

text \<open>\<open>slice::chunks\<close>, and a block of the given length padded with zeros.\<close>

function chunks :: "nat \<Rightarrow> 'a list \<Rightarrow> 'a list list" where
  "chunks n xs = (if n = 0 \<or> xs = [] then [] else take n xs # chunks n (drop n xs))"
  by pat_completeness auto
termination by (relation "measure (\<lambda>(n, xs). length xs)") auto

declare chunks.simps [simp del]

definition padded :: "nat \<Rightarrow> bytes \<Rightarrow> bytes" where
  "padded n xs = xs @ replicate (n - length xs) 0"

definition block_indexes :: "bytes \<Rightarrow> u8 list" where
  "block_indexes block =
     [drop_bit 3 (block ! 0 AND 0xF8),
      push_bit 2 (block ! 0 AND 0x07) OR drop_bit 6 (block ! 1 AND 0xC0),
      drop_bit 1 (block ! 1 AND 0x3E),
      push_bit 4 (block ! 1 AND 0x01) OR drop_bit 4 (block ! 2 AND 0xF0),
      push_bit 1 (block ! 2 AND 0x0F) OR drop_bit 7 (block ! 3),
      drop_bit 2 (block ! 3 AND 0x7C),
      push_bit 3 (block ! 3 AND 0x03) OR drop_bit 5 (block ! 4 AND 0xE0),
      block ! 4 AND 0x1F]"

definition encode_chunk :: "bytes \<Rightarrow> bytes" where
  "encode_chunk chunk = map (\<lambda>i. ALPHABET ! unat i) (block_indexes (padded 5 chunk))"

definition base32_encode :: "bytes \<Rightarrow> bytes" where
  "base32_encode data =
     (let out = concat (map encode_chunk (chunks 5 data))
      in if length data mod 5 \<noteq> 0
         then let num_extra = 8 - (length data mod 5 * 8 + 4) div 5
              in take (length out - num_extra) out
         else out)"

text \<open>
  The error carries the byte that starts the reported character and the position inside the
  eight-byte chunk, as the source has them.
\<close>

datatype invalid_base32 = InvalidBase32 (character: u8) (position: nat) (string: bytes)

definition char_offset :: "u8 \<Rightarrow> u8 option" where
  "char_offset b =
     (if 48 \<le> b \<and> b \<le> 57 then Some 48
      else if 97 \<le> b \<and> b \<le> 104 then Some (97 - 10)
      else if 106 \<le> b \<and> b \<le> 107 then Some (97 - 10 + 1)
      else if 109 \<le> b \<and> b \<le> 110 then Some (97 - 10 + 2)
      else if 112 \<le> b \<and> b \<le> 116 then Some (97 - 10 + 3)
      else if 118 \<le> b \<and> b \<le> 122 then Some (97 - 10 + 4)
      else None)"

fun decode_chars :: "bytes \<Rightarrow> nat \<Rightarrow> bytes \<Rightarrow> invalid_base32 + u8 list" where
  "decode_chars data i [] = Inr []"
| "decode_chars data i (b # bs) =
     (case char_offset b of
        None \<Rightarrow> Inl (InvalidBase32 (data ! i) i data)
      | Some offset \<Rightarrow> bind_result (decode_chars data (Suc i) bs) (\<lambda>is. Inr ((b - offset) # is)))"

definition regroup :: "u8 list \<Rightarrow> bytes" where
  "regroup indexes =
     [push_bit 3 (indexes ! 0) OR drop_bit 2 (indexes ! 1),
      push_bit 6 (indexes ! 1) OR push_bit 1 (indexes ! 2) OR drop_bit 4 (indexes ! 3),
      push_bit 4 (indexes ! 3) OR drop_bit 1 (indexes ! 4),
      push_bit 7 (indexes ! 4) OR push_bit 2 (indexes ! 5) OR drop_bit 3 (indexes ! 6),
      push_bit 5 (indexes ! 6) OR indexes ! 7]"

fun decode_loop :: "bytes \<Rightarrow> bytes list \<Rightarrow> invalid_base32 + bytes" where
  "decode_loop data [] = Inr []"
| "decode_loop data (chunk # rest) =
     bind_result (decode_chars data 0 chunk) (\<lambda>is.
     bind_result (decode_loop data rest) (\<lambda>out. Inr (regroup (padded 8 is) @ out)))"

definition base32_decode :: "bytes \<Rightarrow> invalid_base32 + bytes" where
  "base32_decode data =
     bind_result (decode_loop data (chunks 8 data)) (\<lambda>out. Inr (take (length data * 5 div 8) out))"

section \<open>Regrouping bits\<close>

lemma u8_bit_eqI:
  assumes "bit x 0 = bit y 0" "bit x 1 = bit y 1" "bit x 2 = bit y 2" "bit x 3 = bit y 3"
    "bit x 4 = bit y 4" "bit x 5 = bit y 5" "bit x 6 = bit y 6" "bit x 7 = bit y 7"
  shows "x = (y :: u8)"
proof (rule bit_word_eqI)
  fix n assume "n < LENGTH(8)"
  then have "n \<in> {0, 1, 2, 3, 4, 5, 6, 7}" by auto
  with assms show "bit x n = bit y n" by auto
qed

lemma bit_times_2: "bit (x * 2) n \<longleftrightarrow> n < 8 \<and> 0 < n \<and> bit x (n - 1)" for x :: u8
  using bit_push_bit_iff [of 1 x n] by (auto simp: push_bit_eq_mult)

lemma bit_small: "bit x (Suc (Suc 0)) = bit x 2" "bit x (Suc (Suc (Suc 0))) = bit x 3" for x :: u8
  by (simp_all add: numeral_2_eq_2 numeral_3_eq_3)

lemma u8_bit_ge: "8 \<le> n \<Longrightarrow> \<not> bit x n" for x :: u8
  using bit_imp_le_length [of x n] by auto

lemma regroup_indexes: "length block = 5 \<Longrightarrow> regroup (block_indexes block) = block"
proof -
  assume "length block = 5"
  then obtain a b c d e where [simp]: "block = [a, b, c, d, e]"
    by (auto simp: length_Suc_conv eval_nat_numeral)
  show ?thesis
    by (simp add: regroup_def block_indexes_def)
      (intro conjI; rule u8_bit_eqI; simp add: bit_simps bit_times_2 bit_small)
qed

section \<open>Characters\<close>

lemma alphabet_inverse:
  assumes "n < 32"
  shows "\<exists>offset. char_offset (ALPHABET ! n) = Some offset \<and> ALPHABET ! n - offset = of_nat n"
proof -
  have "list_all (\<lambda>n. \<exists>offset. char_offset (ALPHABET ! n) = Some offset \<and> ALPHABET ! n - offset = of_nat n) [0..<32]"
    by (simp add: upt_rec ALPHABET_def ascii_def char_offset_def)
  with assms show ?thesis by (simp add: list_all_iff)
qed

lemma alphabet_inverse_word:
  "i < 32 \<Longrightarrow> \<exists>offset. char_offset (ALPHABET ! unat i) = Some offset \<and> ALPHABET ! unat i - offset = i" for i :: u8
  using alphabet_inverse [of "unat i"] by (simp add: word_less_nat_alt)

lemma decode_alphabet:
  "\<forall>i \<in> set is. i < 32 \<Longrightarrow> decode_chars data k (map (\<lambda>i. ALPHABET ! unat i) is) = Inr is"
proof (induction "is" arbitrary: k)
  case (Cons i "is")
  from alphabet_inverse_word [of i] Cons show ?case by auto
qed simp

lemma five_bits: "\<not> bit x 5 \<Longrightarrow> \<not> bit x 6 \<Longrightarrow> \<not> bit x 7 \<Longrightarrow> x < 32" for x :: u8
proof -
  assume "\<not> bit x 5" "\<not> bit x 6" "\<not> bit x 7"
  then have "take_bit 5 x = x" by (intro u8_bit_eqI) (simp_all add: bit_simps)
  moreover have "take_bit 5 (unat x) < 32" by (simp add: take_bit_eq_mod)
  ultimately have "unat x < 32" by (metis unsigned_take_bit_eq)
  then show ?thesis by (simp add: word_less_nat_alt)
qed

lemma indexes_less: "\<forall>i \<in> set (block_indexes block). i < 32"
  by (simp add: block_indexes_def) (intro conjI; rule five_bits; simp add: bit_simps bit_times_2 u8_bit_ge)

section \<open>Chunk by chunk\<close>

lemma chunks_short: "xs \<noteq> [] \<Longrightarrow> length xs \<le> n \<Longrightarrow> chunks n xs = [xs]"
  using chunks.simps [of n xs] chunks.simps [of n "[]"] by (cases "n = 0") simp_all

lemma chunks_append: "length c = n \<Longrightarrow> 0 < n \<Longrightarrow> chunks n (c @ rest) = c # chunks n rest"
  by (auto simp: chunks.simps [of n "c @ rest"])

lemma chunks_Nil [simp]: "chunks n [] = []"
  by (simp add: chunks.simps)

lemma length_encode_chunk [simp]: "length (encode_chunk c) = 8"
  by (simp add: encode_chunk_def block_indexes_def)

lemma length_encode_chunks: "length (concat (map encode_chunk cs)) = 8 * length cs"
  by (induction cs) simp_all

definition num_extra :: "nat \<Rightarrow> nat" where
  "num_extra n = (if n mod 5 = 0 then 0 else 8 - (n mod 5 * 8 + 4) div 5)"

lemma encode_take:
  "base32_encode data = (let out = concat (map encode_chunk (chunks 5 data)) in take (length out - num_extra (length data)) out)"
  by (simp add: base32_encode_def num_extra_def Let_def)

lemma num_extra_le: "num_extra n \<le> 8"
  by (simp add: num_extra_def)

lemma encode_append:
  assumes "length c = 5"
  shows "base32_encode (c @ rest) = encode_chunk c @ base32_encode rest"
proof -
  let ?out = "concat (map encode_chunk (chunks 5 rest))"
  have "length ?out \<ge> num_extra (length rest)"
  proof (cases "rest = []")
    case False
    then have "chunks 5 rest \<noteq> []" by (simp add: chunks.simps)
    then have "8 \<le> length ?out" by (cases "chunks 5 rest") (simp_all add: length_encode_chunks)
    with num_extra_le [of "length rest"] show ?thesis by linarith
  qed (simp add: num_extra_def)
  moreover have "num_extra (5 + length rest) = num_extra (length rest)" by (simp add: num_extra_def)
  ultimately show ?thesis
    using assms by (simp add: encode_take chunks_append Let_def)
qed

lemma encoded_len_step: "encoded_len (n + 5) = encoded_len n + 8"
  using div_add_self2 [of 5 n] mod_add_self2 [of n 5] by (auto simp: encoded_len_def Let_def)

lemma encoded_len_inverse: "encoded_len n * 5 div 8 = n"
proof -
  define q r where "q = n div 5" and "r = n mod 5"
  have "n = 5 * q + r" "r < 5" by (simp_all add: q_def r_def)
  moreover from this have "r = 0 \<or> r = 1 \<or> r = 2 \<or> r = 3 \<or> r = 4" by linarith
  ultimately show ?thesis by (auto simp: encoded_len_def Let_def)
qed

lemma short_cases:
  assumes "length c < 5" "c \<noteq> []"
  obtains a where "c = [a]" | a b where "c = [a, b]" | a b d where "c = [a, b, d]" | a b d e where "c = [a, b, d, e]"
  using assms by (cases c rule: list.exhaust; cases "tl c"; cases "tl (tl c)"; cases "tl (tl (tl c))") auto

lemma encoded_len_extra: "0 < n \<Longrightarrow> n < 5 \<Longrightarrow> 8 - num_extra n = encoded_len n \<and> 0 < encoded_len n"
proof -
  assume "0 < n" "n < 5"
  then have "n = 1 \<or> n = 2 \<or> n = 3 \<or> n = 4" by linarith
  then show ?thesis by (auto simp: num_extra_def encoded_len_def)
qed

lemma encode_short:
  assumes "length c < 5" "c \<noteq> []"
  shows "base32_encode c = map (\<lambda>i. ALPHABET ! unat i) (take (encoded_len (length c)) (block_indexes (padded 5 c)))"
proof -
  have "chunks 5 c = [c]" using assms by (intro chunks_short) simp_all
  moreover have "8 - num_extra (length c) = encoded_len (length c)" using encoded_len_extra [of "length c"] assms by simp
  ultimately show ?thesis by (simp add: encode_take Let_def) (simp add: encode_chunk_def take_map)
qed

lemma zeros:
  "replicate 6 (0 :: u8) = [0, 0, 0, 0, 0, 0]" "replicate 4 (0 :: u8) = [0, 0, 0, 0]"
  "replicate 3 (0 :: u8) = [0, 0, 0]" "replicate 2 (0 :: u8) = [0, 0]"
  by (simp_all add: eval_nat_numeral)

lemma indexes_zero_tail:
  assumes "length c < 5" "c \<noteq> []"
  shows "padded 8 (take (encoded_len (length c)) (block_indexes (padded 5 c))) = block_indexes (padded 5 c)"
  using assms
  by (cases rule: short_cases) (simp_all add: encoded_len_def block_indexes_def padded_def zeros nth_Cons_numeral)

lemma length_block_indexes: "length (block_indexes b) = 8"
  by (simp add: block_indexes_def)

lemma encoded_len_short: "n < 5 \<Longrightarrow> encoded_len n \<le> 8"
  by (auto simp: encoded_len_def Let_def)

lemma encode_length: "length (base32_encode data) = encoded_len (length data)"
proof (induction "length data" arbitrary: data rule: less_induct)
  case less
  consider "data = []" | "data \<noteq> []" "length data < 5" | "5 \<le> length data" by linarith
  then show ?case
  proof cases
    case 1
    then show ?thesis by (simp add: encode_take encoded_len_def Let_def)
  next
    case 2
    then show ?thesis
      using encode_short [OF 2(2,1)] encoded_len_short [of "length data"] by (simp add: length_block_indexes)
  next
    case 3
    have d: "data = take 5 data @ drop 5 data" by simp
    have "length (base32_encode data) = 8 + encoded_len (length data - 5)"
      using encode_append [of "take 5 data" "drop 5 data"] less [of "drop 5 data"] 3 by simp
    with encoded_len_step [of "length data - 5"] 3 show ?thesis by simp
  qed
qed

lemma decode_encode_loop:
  "\<exists>pad. decode_loop s (chunks 8 (base32_encode data)) = Inr (data @ pad)"
proof (induction "length data" arbitrary: data rule: less_induct)
  case less
  consider "data = []" | "data \<noteq> []" "length data < 5" | "5 \<le> length data" by linarith
  then show ?case
  proof cases
    case 1
    then show ?thesis by (simp add: encode_take)
  next
    case 2
    let ?is = "take (encoded_len (length data)) (block_indexes (padded 5 data))"
    have "encoded_len (length data) \<noteq> 0"
      using 2 encoded_len_extra [of "length data"] by simp
    then have "?is \<noteq> []" using length_block_indexes [of "padded 5 data"] by auto
    then have "chunks 8 (base32_encode data) = [base32_encode data]"
      using encode_length [of data] encoded_len_short [of "length data"] 2 encode_short [OF 2(2,1)]
      by (intro chunks_short) auto
    moreover have "decode_chars s 0 (base32_encode data) = Inr ?is"
      using indexes_less [of "padded 5 data"] unfolding encode_short [OF 2(2,1)]
      by (intro decode_alphabet) (auto dest: in_set_takeD)
    moreover have "regroup (padded 8 ?is) = padded 5 data"
      unfolding indexes_zero_tail [OF 2(2,1)] using 2 by (intro regroup_indexes) (simp add: padded_def)
    ultimately show ?thesis by (simp add: padded_def)
  next
    case 3
    let ?c = "take 5 data"
    have d: "?c @ drop 5 data = data" by simp
    have "length ?c = 5" using 3 by simp
    then have enc: "base32_encode data = encode_chunk ?c @ base32_encode (drop 5 data)"
      using encode_append [of ?c "drop 5 data"] by simp
    obtain pad where pad: "decode_loop s (chunks 8 (base32_encode (drop 5 data))) = Inr (drop 5 data @ pad)"
      using less [of "drop 5 data"] 3 by fastforce
    have "decode_chars s 0 (encode_chunk ?c) = Inr (block_indexes ?c)"
      unfolding encode_chunk_def using indexes_less \<open>length ?c = 5\<close>
      by (simp add: padded_def decode_alphabet)
    moreover have "regroup (padded 8 (block_indexes ?c)) = ?c"
      using regroup_indexes [OF \<open>length ?c = 5\<close>] by (simp add: padded_def length_block_indexes)
    ultimately show ?thesis
      unfolding enc using pad by (simp add: chunks_append flip: append_assoc)
  qed
qed

lemma decode_chars_ok: "is_ok (decode_chars s k bs) \<longleftrightarrow> (\<forall>b \<in> set bs. char_offset b \<noteq> None)"
proof (induction bs arbitrary: k)
  case (Cons b bs)
  from Cons [of "Suc k"] show ?case by (cases "decode_chars s (Suc k) bs") (auto split: option.splits)
qed simp

lemma chunks_concat: "0 < n \<Longrightarrow> concat (chunks n xs) = xs"
proof (induction n xs rule: chunks.induct)
  case (1 n xs)
  then show ?case by (cases "xs = []") (simp_all add: chunks.simps [of n xs])
qed

lemma decode_loop_ok: "is_ok (decode_loop s cs) \<longleftrightarrow> (\<forall>b \<in> set (concat cs). char_offset b \<noteq> None)"
proof (induction cs)
  case (Cons c cs)
  have "is_ok (decode_chars s 0 c) \<longleftrightarrow> (\<forall>b \<in> set c. char_offset b \<noteq> None)" by (rule decode_chars_ok)
  with Cons show ?case
    by (cases "decode_chars s 0 c"; cases "decode_loop s cs") auto
qed simp

lemma decode_encode: "base32_decode (base32_encode data) = Inr data"
proof -
  obtain pad where "decode_loop (base32_encode data) (chunks 8 (base32_encode data)) = Inr (data @ pad)"
    using decode_encode_loop by blast
  then show ?thesis using encode_length [of data] encoded_len_inverse [of "length data"]
    by (simp add: base32_decode_def)
qed

section \<open>Properties\<close>

text \<open>Decoding what \<open>base32::encode\<close> produced gives the data back, and the encoding has the
  length \<open>encoded_len\<close> computes up front.\<close>

lemma base32_roundtrip:
  "base32_decode (base32_encode data) = Inr data \<and> length (base32_encode data) = encoded_len (length data)"
  using decode_encode encode_length by blast

text \<open>\<open>base32::decode\<close> accepts a string exactly when all its characters are in the alphabet; the
  error it returns otherwise counts the position from the start of the eight-character chunk, so a
  bad ninth character is reported as the first one, which is valid.\<close>

lemma base32_decode_errors:
  "(is_ok (base32_decode s) \<longleftrightarrow> list_all (\<lambda>b. char_offset b \<noteq> None) s)
   \<and> base32_decode (ascii ''00000000!'') = Inl (InvalidBase32 48 0 (ascii ''00000000!''))"
proof
  have "is_ok (base32_decode s) \<longleftrightarrow> is_ok (decode_loop s (chunks 8 s))"
    by (cases "decode_loop s (chunks 8 s)") (simp_all add: base32_decode_def)
  then show "is_ok (base32_decode s) \<longleftrightarrow> list_all (\<lambda>b. char_offset b \<noteq> None) s"
    by (simp add: list_all_iff decode_loop_ok chunks_concat)
  show "base32_decode (ascii ''00000000!'') = Inl (InvalidBase32 48 0 (ascii ''00000000!''))"
    by (simp add: base32_decode_def ascii_def chunks.simps char_offset_def)
qed

end
