(* ===== verification/Document_Id.thy ===== *)
theory Document_Id
  imports Base32
begin

text \<open>
  Document ids: \<open>TableNumber\<close> of \<open>value/src/table_name.rs\<close>, the id types of
  \<open>value/src/document_id.rs\<close>, and the string encoding of \<open>value/src/id_v6.rs\<close>: a variable-length
  table number, 16 bytes of internal id and a Fletcher-16 checksum, in Base32.
\<close>

section \<open>Ids\<close>

type_synonym internal_id = bytes
type_synonym tablet_id = internal_id

text \<open>A \<open>TableNumber\<close> is a non-zero \<open>u32\<close>.\<close>

type_synonym table_number = u32

datatype table_number_error = ZeroNumber | NumberOverflow

definition TableNumber_try_from :: "u32 \<Rightarrow> table_number_error + table_number" where
  "TableNumber_try_from value = (if value > 0 then Inr value else Inl ZeroNumber)"

definition TableNumber_increment :: "table_number \<Rightarrow> table_number_error + table_number" where
  "TableNumber_increment n = (if unat n + 1 < 2 ^ 32 then Inr (n + 1) else Inl NumberOverflow)"

record developer_document_id =
  id_table :: table_number
  internal_id :: internal_id

record internal_document_id =
  tablet :: tablet_id
  internal :: internal_id

record resolved_document_id =
  tablet_id :: tablet_id
  developer_id :: developer_document_id

definition InternalId_MAX_SIZE :: nat where "InternalId_MAX_SIZE = 17"

definition InternalId_try_from :: "bytes \<Rightarrow> nat + internal_id" where
  "InternalId_try_from value = (if length value = 16 then Inr value else Inl (length value))"

definition DeveloperDocumentId_size :: "developer_document_id \<Rightarrow> nat" where
  "DeveloperDocumentId_size i = InternalId_MAX_SIZE + 16"

definition ResolvedDocumentId_size :: "resolved_document_id \<Rightarrow> nat" where
  "ResolvedDocumentId_size i = InternalId_MAX_SIZE + DeveloperDocumentId_size (developer_id i)"

definition ResolvedDocumentId_to_internal :: "resolved_document_id \<Rightarrow> internal_document_id" where
  "ResolvedDocumentId_to_internal i = \<lparr>tablet = tablet_id i, internal = internal_id (developer_id i)\<rparr>"

definition InternalDocumentId_to_resolved ::
    "internal_document_id \<Rightarrow> table_number \<Rightarrow> resolved_document_id" where
  "InternalDocumentId_to_resolved i n =
     \<lparr>tablet_id = tablet i, developer_id = \<lparr>id_table = n, internal_id = internal i\<rparr>\<rparr>"

definition DeveloperDocumentId_to_resolved ::
    "developer_document_id \<Rightarrow> (table_number \<Rightarrow> 'e + tablet_id) \<Rightarrow> 'e + resolved_document_id" where
  "DeveloperDocumentId_to_resolved i f =
     bind_result (f (id_table i)) (\<lambda>t. Inr \<lparr>tablet_id = t, developer_id = i\<rparr>)"

section \<open>Variable-length integers\<close>

function vint_encode :: "u32 \<Rightarrow> bytes" where
  "vint_encode n =
     (if n < 0x80 then [ucast n]
      else ucast ((n AND 0x7F) OR 0x80) # vint_encode (drop_bit 7 n))"
  by pat_completeness auto
termination
proof (relation "measure unat")
  fix n :: u32
  assume "\<not> n < 0x80"
  then have "0x80 \<le> unat n" by (simp add: word_less_nat_alt)
  moreover have "unat (drop_bit 7 n) = unat n div 128"
    using unsigned_drop_bit_eq [of 7 n, where 'a = nat] by (simp add: drop_bit_eq_div unat_div)
  ultimately show "(drop_bit 7 n, n) \<in> measure unat" by simp
qed simp

declare vint_encode.simps [simp del]

definition vint_len :: "u32 \<Rightarrow> nat" where
  "vint_len n =
     (if n < 2 ^ 7 then 1 else if n < 2 ^ 14 then 2 else if n < 2 ^ 21 then 3
      else if n < 2 ^ 28 then 4 else 5)"

datatype vint_decode_error = TooLarge | Truncated

text \<open>The loop over \<open>i\<close>: the byte read is at position \<open>i\<close> of the buffer.\<close>

function vint_decode_loop :: "nat \<Rightarrow> u32 \<Rightarrow> bytes \<Rightarrow> vint_decode_error + u32 \<times> nat" where
  "vint_decode_loop i n buf =
     (if i \<ge> 5 then Inl TooLarge
      else if length buf \<le> i then Inl Truncated
      else let byte = (ucast (buf ! i) :: u32);
               n' = n OR push_bit (i * 7) (byte AND 0x7F)
           in if byte < 0x80 then Inr (n', Suc i) else vint_decode_loop (Suc i) n' buf)"
  by pat_completeness auto
termination by (relation "measure (\<lambda>(i, _). 5 - i)") auto

declare vint_decode_loop.simps [simp del]

definition vint_decode :: "bytes \<Rightarrow> vint_decode_error + u32 \<times> nat" where
  "vint_decode buf = vint_decode_loop 0 0 buf"

section \<open>Checksum and string form\<close>

fun fletcher16_loop :: "u8 \<Rightarrow> u8 \<Rightarrow> bytes \<Rightarrow> u8 \<times> u8" where
  "fletcher16_loop c0 c1 [] = (c0, c1)"
| "fletcher16_loop c0 c1 (b # bs) = fletcher16_loop (c0 + b) (c1 + (c0 + b)) bs"

definition fletcher16 :: "bytes \<Rightarrow> u16" where
  "fletcher16 buf =
     (let (c0, c1) = fletcher16_loop 0 0 buf
      in push_bit 8 (ucast c1) OR ucast c0)"

definition VERSION :: u16 where "VERSION = 0"

definition MIN_BASE32_LEN :: nat where "MIN_BASE32_LEN = encoded_len (1 + 16 + 2)"
definition MAX_BASE32_LEN :: nat where "MAX_BASE32_LEN = encoded_len (5 + 16 + 2)"

datatype id_decode_error =
    BadBase32 invalid_base32 | InvalidLength nat | InvalidTableNumber vint_decode_error
  | ZeroTableNumber | InvalidIdVersion u16 u16

text \<open>\<open>u16::to_le_bytes\<close> and back.\<close>

definition le_bytes16 :: "u16 \<Rightarrow> bytes" where
  "le_bytes16 x = [ucast x, ucast (drop_bit 8 x)]"

definition from_le16 :: "bytes \<Rightarrow> u16" where
  "from_le16 bs = ucast (bs ! 0) OR push_bit 8 (ucast (bs ! 1))"

definition DeveloperDocumentId_encoded_len :: "developer_document_id \<Rightarrow> nat" where
  "DeveloperDocumentId_encoded_len i = encoded_len (vint_len (id_table i) + 16 + 2)"

definition DeveloperDocumentId_encode :: "developer_document_id \<Rightarrow> bytes" where
  "DeveloperDocumentId_encode i =
     (let buf = vint_encode (id_table i) @ internal_id i;
          footer = fletcher16 buf XOR VERSION
      in base32_encode (buf @ le_bytes16 footer))"

definition DeveloperDocumentId_decode :: "bytes \<Rightarrow> id_decode_error + developer_document_id" where
  "DeveloperDocumentId_decode s =
     (if length s < MIN_BASE32_LEN \<or> MAX_BASE32_LEN < length s then Inl (InvalidLength (length s))
      else case base32_decode s of Inl e \<Rightarrow> Inl (BadBase32 e) | Inr buf \<Rightarrow>
      case vint_decode buf of Inl e \<Rightarrow> Inl (InvalidTableNumber e) | Inr (n, pos) \<Rightarrow>
      case TableNumber_try_from n of Inl _ \<Rightarrow> Inl ZeroTableNumber | Inr table_number \<Rightarrow>
      if length buf < pos + 16 then Inl (InvalidLength (length s)) else
      let iid = take 16 (drop pos buf);
          expected_footer = fletcher16 (take (pos + 16) buf) XOR VERSION
      in if length buf < pos + 16 + 2 then Inl (InvalidLength (length s)) else
      let footer = from_le16 (take 2 (drop (pos + 16) buf))
      in if expected_footer \<noteq> footer then Inl (InvalidIdVersion footer expected_footer)
      else if pos + 16 + 2 \<noteq> length buf then Inl (InvalidLength (length s))
      else let i = \<lparr>id_table = table_number, internal_id = iid\<rparr>
      in if DeveloperDocumentId_encode i \<noteq> s then Inl (InvalidLength (length s)) else Inr i)"

definition is_noncanonical_id :: "bytes \<Rightarrow> bool" where
  "is_noncanonical_id s =
     (case DeveloperDocumentId_decode s of
        Inl _ \<Rightarrow> False
      | Inr i \<Rightarrow> s \<noteq> DeveloperDocumentId_encode i)"

text \<open>Conversion to and from values.\<close>

definition id_to_value :: "developer_document_id \<Rightarrow> convex_value option" where
  "id_to_value i =
     (case ConvexString_try_from (DeveloperDocumentId_encode i) of Inl _ \<Rightarrow> None | Inr v \<Rightarrow> Some v)"

definition id_from_value :: "convex_value \<Rightarrow> id_decode_error option + developer_document_id" where
  "id_from_value v =
     (case v of
        StringV s \<Rightarrow> (case DeveloperDocumentId_decode s of Inl e \<Rightarrow> Inl (Some e) | Inr i \<Rightarrow> Inr i)
      | _ \<Rightarrow> Inl None)"

section \<open>The integer round trip\<close>

lemma low7: "m AND 0x7F = take_bit 7 m" for m :: u32
  by (simp add: take_bit_eq_mask mask_eq_exp_minus_1)

lemma vint_step: "push_bit k (take_bit 7 m) OR push_bit (k + 7) (drop_bit 7 m) = push_bit k m" for m :: u32
proof (rule bit_word_eqI)
  fix n assume "n < LENGTH(32)"
  then show "bit (push_bit k (take_bit 7 m) OR push_bit (k + 7) (drop_bit 7 m)) n = bit (push_bit k m) n"
    by (cases "n < k + 7") (auto simp: bit_simps)
qed

lemma bit_0x80: "bit (0x80 :: 'a::len word) n \<longleftrightarrow> n = 7 \<and> 7 < LENGTH('a)"
proof -
  have "(0x80 :: 'a word) = 2 ^ 7" by simp
  then show ?thesis by (simp only: bit_exp_iff) (auto simp: bit_simps)
qed

lemma bit_128: "bit (128 :: int) n \<longleftrightarrow> n = 7" "bit (128 :: nat) n \<longleftrightarrow> n = 7"
proof -
  have "(128 :: int) = 2 ^ 7" "(128 :: nat) = 2 ^ 7" by simp_all
  then show "bit (128 :: int) n \<longleftrightarrow> n = 7" "bit (128 :: nat) n \<longleftrightarrow> n = 7"
    by (simp_all only: bit_exp_iff) auto
qed

lemma vint_low: "take_bit 7 (ucast (ucast ((m AND 0x7F) OR 0x80) :: u8) :: u32) = take_bit 7 m" for m :: u32
  by (rule bit_word_eqI) (auto simp: bit_simps low7 bit_0x80 bit_128)

lemma not_less_0x80: "bit x 7 \<Longrightarrow> \<not> x < 0x80" for x :: u32
proof
  assume b: "bit x 7" and "x < 0x80"
  then have "unat x < 2 ^ 7" by (simp add: word_less_nat_alt)
  then have "\<not> bit (unat x) 7" by (simp add: bit_iff_odd)
  with b show False by (simp add: bit_unsigned_iff)
qed

lemma vint_high: "\<not> (ucast (ucast ((m AND 0x7F) OR 0x80) :: u8) :: u32) < 0x80" for m :: u32
  by (rule not_less_0x80) (simp add: bit_simps bit_0x80)

lemma vint_small: "m < 0x80 \<Longrightarrow> (ucast (ucast m :: u8) :: u32) = m" for m :: u32
proof -
  assume "m < 0x80"
  then have "unat m < 128" by (simp add: word_less_nat_alt)
  then have "unat (ucast (ucast m :: u8) :: u32) = unat m"
    by (simp add: unsigned_ucast_eq take_bit_eq_mod unat_mod)
  then show ?thesis by (rule unsigned_word_eqI)
qed

lemma vint_small_low: "m < 0x80 \<Longrightarrow> take_bit 7 m = m" for m :: u32
proof -
  assume "m < 0x80"
  then have "unat m < 128" by (simp add: word_less_nat_alt)
  then have "unat (take_bit 7 m) = unat m" by (simp add: unsigned_take_bit_eq take_bit_eq_mod unat_mod)
  then show ?thesis by (rule unsigned_word_eqI)
qed

lemma or_assoc32: "(a OR b) OR c = a OR (b OR c)" for a :: u32
  by (rule bit_word_eqI) (auto simp: bit_simps)

lemma unat_drop7: "unat (drop_bit 7 m) = unat m div 128" for m :: u32
  using unsigned_drop_bit_eq [of 7 m, where 'a = nat] by (simp add: drop_bit_eq_div unat_div)

lemma vint_loop:
  "unat m < 2 ^ (32 - 7 * i) \<Longrightarrow> i < 5 \<Longrightarrow> length pre = i \<Longrightarrow>
     vint_decode_loop i acc (pre @ vint_encode m @ r) = Inr (acc OR push_bit (i * 7) m, i + length (vint_encode m))"
proof (induction m arbitrary: i acc pre rule: vint_encode.induct)
  case (1 m)
  show ?case
  proof (cases "m < 0x80")
    case True
    have e: "vint_encode m = [ucast m]" using True by (simp add: vint_encode.simps [of m])
    show ?thesis
      using 1(3,4) True vint_small [OF True] vint_small_low [OF True]
      by (simp add: e vint_decode_loop.simps [of i acc] low7 nth_append Let_def)
  next
    case False
    let ?b = "ucast ((m AND 0x7F) OR 0x80) :: u8" and ?m = "drop_bit 7 m"
    have e: "vint_encode m = ?b # vint_encode ?m" using False by (simp add: vint_encode.simps [of m])
    have m: "unat ?m = unat m div 128" by (rule unat_drop7)
    have "128 \<le> unat m" using False by (simp add: word_less_nat_alt)
    then have "(2 :: nat) ^ 7 < 2 ^ (32 - 7 * i)" using 1(2) by simp
    then have "7 < 32 - 7 * i" by (rule power_less_imp_less_exp [rotated]) simp
    then have i: "i < 4" by simp
    define k where "k = 32 - 7 * Suc i"
    have "32 - 7 * i = 7 + k" using i by (simp add: k_def)
    then have "unat m < 2 ^ k * 128" using 1(2) by (simp add: power_add mult.commute)
    then have "unat ?m < 2 ^ k" unfolding m by (rule less_mult_imp_div_less)
    then have "unat ?m < 2 ^ (32 - 7 * Suc i)" by (simp only: k_def)
    with 1(1) [OF False, of "Suc i" "pre @ [?b]" "acc OR push_bit (i * 7) (take_bit 7 m)"] 1(4) i
    have IH: "vint_decode_loop (Suc i) (acc OR push_bit (i * 7) (take_bit 7 m)) ((pre @ [?b]) @ vint_encode ?m @ r)
        = Inr ((acc OR push_bit (i * 7) (take_bit 7 m)) OR push_bit (Suc i * 7) ?m, Suc i + length (vint_encode ?m))"
      by simp
    have "push_bit (i * 7) (take_bit 7 m) OR push_bit (Suc i * 7) ?m = push_bit (i * 7) m"
      using vint_step [of "i * 7" m] by (simp add: add.commute)
    then have acc: "(acc OR push_bit (i * 7) (take_bit 7 m)) OR push_bit (Suc i * 7) ?m = acc OR push_bit (i * 7) m"
      by (simp only: or_assoc32)
    show ?thesis
      using IH [unfolded acc] 1(4) i vint_high [of m] vint_low [of m]
      by (simp add: e vint_decode_loop.simps [of i acc] low7 nth_append Let_def)
  qed
qed

lemma vint_decode_encode: "vint_decode (vint_encode m @ r) = Inr (m, length (vint_encode m))"
  using vint_loop [of m 0 "[]" 0 r] unsigned_less [of m] by (simp add: vint_decode_def)

lemma vint_length_step:
  "length (vint_encode m) = (if unat m < 128 then 1 else Suc (length (vint_encode (drop_bit 7 m))))"
  by (simp add: vint_encode.simps [of m] word_less_nat_alt)

lemma vint_length_le:
  "unat m < 128 * 128 ^ k \<Longrightarrow> length (vint_encode m) \<le> Suc k"
proof (induction k arbitrary: m)
  case (Suc k)
  then have "unat m div 128 < 128 * 128 ^ k" by (intro less_mult_imp_div_less) simp
  then show ?case using Suc.IH [of "drop_bit 7 m"] by (simp add: vint_length_step [of m] unat_drop7)
qed (simp add: vint_length_step)

lemma vint_length_ge:
  "128 ^ k \<le> unat m \<Longrightarrow> k < length (vint_encode m)"
proof (induction k arbitrary: m)
  case (Suc k)
  then have "128 ^ k \<le> unat m div 128" by (simp add: less_eq_div_iff_mult_less_eq mult.commute)
  moreover have "128 \<le> unat m" using Suc.prems by (simp add: order.trans [of _ "128 * 128 ^ k"])
  ultimately show ?case using Suc.IH [of "drop_bit 7 m"] by (simp add: vint_length_step [of m] unat_drop7)
qed (simp add: vint_length_step)

lemma vint_length: "length (vint_encode m) = vint_len m"
proof -
  define l where "l = length (vint_encode m)"
  have "unat m < 128 * 128 ^ 4" using unsigned_less [of m, where 'a = nat] by simp
  then have "l \<le> 5" using vint_length_le [of m 4] by (simp add: l_def)
  moreover have "0 < l" by (simp add: l_def vint_length_step)
  moreover have "unat m < 2 ^ 7 \<Longrightarrow> l \<le> 1" "unat m < 2 ^ 14 \<Longrightarrow> l \<le> 2" "unat m < 2 ^ 21 \<Longrightarrow> l \<le> 3" "unat m < 2 ^ 28 \<Longrightarrow> l \<le> 4"
    using vint_length_le [of m 0] vint_length_le [of m 1] vint_length_le [of m 2] vint_length_le [of m 3]
    by (simp_all add: l_def)
  moreover have "2 ^ 7 \<le> unat m \<Longrightarrow> 1 < l" "2 ^ 14 \<le> unat m \<Longrightarrow> 2 < l" "2 ^ 21 \<le> unat m \<Longrightarrow> 3 < l" "2 ^ 28 \<le> unat m \<Longrightarrow> 4 < l"
    using vint_length_ge [of 1 m] vint_length_ge [of 2 m] vint_length_ge [of 3 m] vint_length_ge [of 4 m]
    by (simp_all add: l_def)
  ultimately have "l = vint_len m"
    unfolding vint_len_def word_less_nat_alt by (auto simp: not_less)
  then show ?thesis by (simp add: l_def)
qed

section \<open>The id round trip\<close>

definition document_id_ok :: "developer_document_id \<Rightarrow> bool" where
  "document_id_ok i = (id_table i \<noteq> 0 \<and> length (internal_id i) = 16)"

lemma le_bytes16_inverse: "from_le16 (le_bytes16 x) = x"
  unfolding from_le16_def le_bytes16_def
  by (rule bit_word_eqI) (auto simp: bit_simps)

lemma length_le_bytes16: "length (le_bytes16 x) = 2"
  by (simp add: le_bytes16_def)

lemma encode_id_length: "document_id_ok i \<Longrightarrow> length (DeveloperDocumentId_encode i) = DeveloperDocumentId_encoded_len i"
  by (simp add: DeveloperDocumentId_encode_def DeveloperDocumentId_encoded_len_def document_id_ok_def
      encode_length length_le_bytes16 vint_length Let_def add.commute)

lemma vint_len_bounds: "1 \<le> vint_len n \<and> vint_len n \<le> 5"
  by (simp add: vint_len_def)

lemma encoded_len_mono: "m \<le> n \<Longrightarrow> encoded_len m \<le> encoded_len n"
proof (rule lift_Suc_mono_le [of encoded_len])
  fix k :: nat
  define q r where "q = k div 5" and "r = k mod 5"
  have "k = 5 * q + r" "r = 0 \<or> r = 1 \<or> r = 2 \<or> r = 3 \<or> r = 4" unfolding q_def r_def by arith+
  then show "encoded_len k \<le> encoded_len (Suc k)" by (auto simp: encoded_len_def Let_def mod_Suc div_Suc)
qed

lemma encode_id_bounds:
  "document_id_ok i \<Longrightarrow> MIN_BASE32_LEN \<le> length (DeveloperDocumentId_encode i)
     \<and> length (DeveloperDocumentId_encode i) \<le> MAX_BASE32_LEN"
  using vint_len_bounds [of "id_table i"]
  by (simp add: encode_id_length DeveloperDocumentId_encoded_len_def MIN_BASE32_LEN_def MAX_BASE32_LEN_def encoded_len_mono)

lemma id_eta: "\<lparr>id_table = id_table i, internal_id = internal_id i\<rparr> = i"
  by (cases i) simp

lemma decode_encode_id:
  assumes "document_id_ok i"
  shows "DeveloperDocumentId_decode (DeveloperDocumentId_encode i) = Inr i"
proof -
  let ?buf = "vint_encode (id_table i) @ internal_id i @ le_bytes16 (fletcher16 (vint_encode (id_table i) @ internal_id i) XOR VERSION)"
  have "base32_decode (DeveloperDocumentId_encode i) = Inr ?buf"
    by (simp add: DeveloperDocumentId_encode_def Let_def decode_encode)
  moreover have "vint_decode ?buf = Inr (id_table i, length (vint_encode (id_table i)))"
    by (rule vint_decode_encode)
  moreover have "TableNumber_try_from (id_table i) = Inr (id_table i)"
    using assms by (simp add: TableNumber_try_from_def document_id_ok_def word_gt_0)
  ultimately show ?thesis
    using assms encode_id_bounds [OF assms]
    by (simp add: DeveloperDocumentId_decode_def document_id_ok_def length_le_bytes16 le_bytes16_inverse Let_def not_less id_eta)
qed

lemma decode_id_ok:
  assumes "DeveloperDocumentId_decode s = Inr i"
  shows "DeveloperDocumentId_encode i = s \<and> document_id_ok i"
  using assms
  by (auto simp: DeveloperDocumentId_decode_def document_id_ok_def TableNumber_try_from_def Let_def
      split: if_splits sum.splits)

text \<open>Encoding a well-formed document id and decoding the string gives the id back, and the
  string has exactly the announced length, which lies between the two length limits the decoder
  enforces.
\<close>

lemma document_id_roundtrip:
  assumes "document_id_ok i"
  shows "DeveloperDocumentId_decode (DeveloperDocumentId_encode i) = Inr i
    \<and> length (DeveloperDocumentId_encode i) = DeveloperDocumentId_encoded_len i
    \<and> MIN_BASE32_LEN \<le> DeveloperDocumentId_encoded_len i
    \<and> DeveloperDocumentId_encoded_len i \<le> MAX_BASE32_LEN"
  using decode_encode_id [OF assms] encode_id_length [OF assms] encode_id_bounds [OF assms] by simp

text \<open>Decoding is canonical: it accepts a string exactly when the string is the encoding of a
  well-formed id, and then returns that id.  In particular the check for non-canonical ids, which
  decodes and compares with the re-encoding, never holds.
\<close>

lemma document_id_canonical:
  "(DeveloperDocumentId_decode s = Inr i \<longleftrightarrow> document_id_ok i \<and> DeveloperDocumentId_encode i = s)
    \<and> \<not> is_noncanonical_id s"
  using decode_id_ok [of s] decode_encode_id [of i]
  by (auto simp: is_noncanonical_id_def split: sum.splits)

lemma vint_loop_bound:
  "vint_decode_loop i n buf = Inr (m, pos) \<Longrightarrow> i < pos \<and> pos \<le> 5 \<and> pos \<le> length buf"
proof (induction i n buf rule: vint_decode_loop.induct)
  case (1 i n buf)
  show ?case
    using 1(2) 1(1) [OF _ _ refl refl]
    by (auto simp: vint_decode_loop.simps [of i] Let_def split: if_splits)
qed

end
