(* ===== verification/Index_Key.thy ===== *)
theory Index_Key
  imports Timestamp Sort_Key Convex_Object Document_Id "HOL-Library.Option_ord"
begin

text \<open>
  Index keys and index rows: \<open>common/src/index.rs\<close> (\<open>SplitKey\<close>, \<open>IndexEntry\<close>, \<open>IndexKey\<close>),
  the list of indexed fields of \<open>bootstrap_model/index/database_index/indexed_fields.rs\<close>, and the
  index names of \<open>common/src/types/index.rs\<close>.
\<close>

section \<open>Indexed fields\<close>

definition MAX_INDEX_FIELDS_SIZE :: nat where "MAX_INDEX_FIELDS_SIZE = 16"

definition ID_FIELD :: field_name where "ID_FIELD = ascii ''_id''"
definition ID_FIELD_PATH :: field_path where "ID_FIELD_PATH = [ID_FIELD]"
definition CREATION_TIME_FIELD :: field_name where "CREATION_TIME_FIELD = ascii ''_creationTime''"

type_synonym indexed_fields = "field_path list"

datatype index_validation_error =
    TooManyIndexFields nat | FieldsContainId | FieldsNotUnique field_path
  | InvalidIndexName identifier_error | NameReserved | NotReserved

definition IndexedFields_by_id :: indexed_fields where
  "IndexedFields_by_id = []"

definition IndexedFields_creation_time :: indexed_fields where
  "IndexedFields_creation_time = [[CREATION_TIME_FIELD]]"

definition IndexedFields_iter_with_id :: "indexed_fields \<Rightarrow> field_path list" where
  "IndexedFields_iter_with_id fs = fs @ [ID_FIELD_PATH]"

fun check_unique :: "field_path list \<Rightarrow> field_path list \<Rightarrow> index_validation_error + unit" where
  "check_unique seen [] = Inr ()"
| "check_unique seen (f # fs) =
     (if f \<in> set seen then Inl (FieldsNotUnique f) else check_unique (f # seen) fs)"

definition IndexedFields_try_from :: "field_path list \<Rightarrow> index_validation_error + indexed_fields" where
  "IndexedFields_try_from fs =
     (if length fs > MAX_INDEX_FIELDS_SIZE then Inl (TooManyIndexFields MAX_INDEX_FIELDS_SIZE)
      else if ID_FIELD_PATH \<in> set fs then Inl FieldsContainId
      else bind_result (check_unique [] fs) (\<lambda>_. Inr fs))"

definition IndexedFields_to_value :: "indexed_fields \<Rightarrow> path_error + convex_value" where
  "IndexedFields_to_value fs = FieldPaths_to_value fs"

definition IndexedFields_from_value :: "convex_value \<Rightarrow> path_error + indexed_fields" where
  "IndexedFields_from_value v =
     (case v of ArrayV a \<Rightarrow> map_result FieldPath_from_value a | _ \<Rightarrow> Inl NotAList)"

section \<open>Index names\<close>

type_synonym index_descriptor = bytes

definition INDEX_BY_ID_DESCRIPTOR :: index_descriptor where
  "INDEX_BY_ID_DESCRIPTOR = ascii ''by_id''"

definition INDEX_BY_CREATION_TIME_DESCRIPTOR :: index_descriptor where
  "INDEX_BY_CREATION_TIME_DESCRIPTOR = ascii ''by_creation_time''"

definition IndexDescriptor_new :: "bytes \<Rightarrow> index_validation_error + index_descriptor" where
  "IndexDescriptor_new s =
     (case check_valid_identifier_inner s of Inl e \<Rightarrow> Inl (InvalidIndexName e) | Inr _ \<Rightarrow> Inr s)"

definition IndexDescriptor_is_reserved :: "index_descriptor \<Rightarrow> bool" where
  "IndexDescriptor_is_reserved d =
     (d = INDEX_BY_ID_DESCRIPTOR \<or> d = INDEX_BY_CREATION_TIME_DESCRIPTOR \<or> (d \<noteq> [] \<and> hd d = 95))"

text \<open>\<open>GenericIndexName\<close> with its derived order: the table decides, then the descriptor.\<close>

type_synonym 't index_name = "'t \<times> index_descriptor"
type_synonym tablet_index_name = "tablet_id index_name"

definition IndexName_new :: "'t \<Rightarrow> index_descriptor \<Rightarrow> index_validation_error + 't index_name" where
  "IndexName_new table descriptor =
     (case check_valid_identifier_inner descriptor of
        Inl e \<Rightarrow> Inl (InvalidIndexName e)
      | Inr _ \<Rightarrow> if IndexDescriptor_is_reserved descriptor then Inl NameReserved else Inr (table, descriptor))"

definition IndexName_new_reserved :: "'t \<Rightarrow> index_descriptor \<Rightarrow> index_validation_error + 't index_name" where
  "IndexName_new_reserved table descriptor =
     (case check_valid_identifier_inner descriptor of
        Inl e \<Rightarrow> Inl (InvalidIndexName e)
      | Inr _ \<Rightarrow> if \<not> IndexDescriptor_is_reserved descriptor then Inl NotReserved else Inr (table, descriptor))"

definition IndexName_by_id :: "'t \<Rightarrow> 't index_name" where
  "IndexName_by_id table = (table, INDEX_BY_ID_DESCRIPTOR)"

definition IndexName_by_creation_time :: "'t \<Rightarrow> 't index_name" where
  "IndexName_by_creation_time table = (table, INDEX_BY_CREATION_TIME_DESCRIPTOR)"

definition IndexName_is_by_id :: "'t index_name \<Rightarrow> bool" where
  "IndexName_is_by_id n = (snd n = INDEX_BY_ID_DESCRIPTOR)"

definition IndexName_is_creation_time :: "'t index_name \<Rightarrow> bool" where
  "IndexName_is_creation_time n = (snd n = INDEX_BY_CREATION_TIME_DESCRIPTOR)"

definition IndexName_is_by_id_or_creation_time :: "'t index_name \<Rightarrow> bool" where
  "IndexName_is_by_id_or_creation_time n = (IndexName_is_by_id n \<or> IndexName_is_creation_time n)"

definition IndexName_map_table :: "('t \<Rightarrow> 'e + 'u) \<Rightarrow> 't index_name \<Rightarrow> 'e + 'u index_name" where
  "IndexName_map_table f n = bind_result (f (fst n)) (\<lambda>t. Inr (t, snd n))"

section \<open>Index keys\<close>

text \<open>The value of an id is its string; the size check of the string never fails (below).\<close>

definition id_value :: "developer_document_id \<Rightarrow> convex_value" where
  "id_value i = StringV (DeveloperDocumentId_encode i)"

record index_key =
  values_with_id :: "convex_value option list"
  key_id :: developer_document_id

definition IndexKey_new_allow_missing ::
    "convex_value option list \<Rightarrow> developer_document_id \<Rightarrow> index_key" where
  "IndexKey_new_allow_missing index_values i =
     \<lparr>values_with_id = index_values @ [Some (id_value i)], key_id = i\<rparr>"

definition IndexKey_new :: "convex_value list \<Rightarrow> developer_document_id \<Rightarrow> index_key" where
  "IndexKey_new index_values i = IndexKey_new_allow_missing (map Some index_values) i"

definition IndexKey_indexed_values :: "index_key \<Rightarrow> convex_value option list" where
  "IndexKey_indexed_values k = take (length (values_with_id k) - 1) (values_with_id k)"

definition IndexKey_into_bytes :: "index_key \<Rightarrow> bytes" where
  "IndexKey_into_bytes k = values_to_bytes (values_with_id k)"

definition IndexKey_size :: "index_key \<Rightarrow> nat" where
  "IndexKey_size k = DeveloperDocumentId_size (key_id k)
     + sum_list (map (\<lambda>v. case v of None \<Rightarrow> 0 | Some v \<Rightarrow> value_size v) (values_with_id k))"

definition IndexKey_into_pair :: "index_key \<Rightarrow> convex_value option list \<times> developer_document_id" where
  "IndexKey_into_pair k = (butlast (values_with_id k), key_id k)"

definition IndexKey_cmp :: "index_key \<Rightarrow> index_key \<Rightarrow> ordering" where
  "IndexKey_cmp a b = list_cmp (option_cmp value_cmp) (values_with_id a) (values_with_id b)"

section \<open>Split keys and index rows\<close>

record split_key =
  split_prefix :: bytes
  split_suffix :: "bytes option"

definition MAX_INDEX_KEY_PREFIX_LEN :: nat where "MAX_INDEX_KEY_PREFIX_LEN = 2500"

definition SplitKey_new :: "bytes \<Rightarrow> split_key" where
  "SplitKey_new key =
     (if length key > MAX_INDEX_KEY_PREFIX_LEN
      then \<lparr>split_prefix = take MAX_INDEX_KEY_PREFIX_LEN key,
            split_suffix = Some (drop MAX_INDEX_KEY_PREFIX_LEN key)\<rparr>
      else \<lparr>split_prefix = key, split_suffix = None\<rparr>)"

record index_entry =
  index_id :: internal_id
  key_prefix :: bytes
  key_sha256 :: bytes
  entry_ts :: timestamp
  key_suffix :: "bytes option"
  deleted :: bool

text \<open>The derived \<open>Ord\<close> compares the fields in their order.\<close>

definition entry_less :: "index_entry \<Rightarrow> index_entry \<Rightarrow> bool" where
  "entry_less a b =
     ((index_id a, key_prefix a, key_sha256 a, entry_ts a, key_suffix a, deleted a)
      < (index_id b, key_prefix b, key_sha256 b, entry_ts b, key_suffix b, deleted b))"

datatype expire_error = OutOfOrder

definition IndexEntry_is_expired ::
    "index_entry \<Rightarrow> timestamp \<Rightarrow> index_entry option \<Rightarrow> expire_error + bool" where
  "IndexEntry_is_expired self min_snapshot_ts next_row =
     (if (case next_row of Some r \<Rightarrow> \<not> entry_less self r | None \<Rightarrow> False) then Inl OutOfOrder
      else Inr
        (if entry_ts self < min_snapshot_ts then
           (if deleted self then True
            else case next_row of
              None \<Rightarrow> False
            | Some r \<Rightarrow>
                if index_id self = index_id r \<and> key_sha256 self = key_sha256 r
                then entry_ts r \<le> min_snapshot_ts
                else False)
         else False))"
section \<open>Laws of index keys\<close>

lemma id_value_ok: "document_id_ok i \<Longrightarrow> id_to_value i = Some (id_value i)"
proof -
  assume "document_id_ok i"
  then have "length (DeveloperDocumentId_encode i) \<le> MAX_BASE32_LEN" using encode_id_bounds by blast
  then show ?thesis
    by (simp add: id_to_value_def id_value_def ConvexString_try_from_def check_system_size_def
        MAX_BASE32_LEN_def encoded_len_def MAX_SIZE_def)
qed

lemma id_value_inject:
  "document_id_ok i \<Longrightarrow> document_id_ok j \<Longrightarrow> id_value i = id_value j \<longleftrightarrow> i = j"
  unfolding id_value_def by (metis decode_encode_id convex_value.inject(4) sum.inject(2))

lemma check_unique_ok: "is_ok (check_unique seen fs) \<longleftrightarrow> distinct fs \<and> set seen \<inter> set fs = {}"
  by (induction seen fs rule: check_unique.induct) auto



lemma split_key_roundtrip:
  "split_prefix (SplitKey_new key) @ (case split_suffix (SplitKey_new key) of None \<Rightarrow> [] | Some s \<Rightarrow> s) = key
    \<and> length (split_prefix (SplitKey_new key)) \<le> MAX_INDEX_KEY_PREFIX_LEN"
  by (simp add: SplitKey_new_def)

section \<open>Retention of index rows\<close>

text \<open>
  What a reader at a snapshot sees of one key: the latest row at or before the snapshot, nothing
  when that row is a tombstone.  The retention job removes every row that is expired with respect
  to its successor.
\<close>

definition same_key :: "index_entry \<Rightarrow> index_entry \<Rightarrow> bool" where
  "same_key a b = (index_id a = index_id b \<and> key_sha256 a = key_sha256 b)"

definition visible_rows :: "index_entry list \<Rightarrow> index_entry \<Rightarrow> timestamp \<Rightarrow> index_entry list" where
  "visible_rows rows k ts = filter (\<lambda>r. same_key r k \<and> entry_ts r \<le> ts) rows"

definition read_key :: "index_entry list \<Rightarrow> index_entry \<Rightarrow> timestamp \<Rightarrow> index_entry option" where
  "read_key rows k ts =
     (let v = visible_rows rows k ts
      in if v = [] \<or> deleted (last v) then None else Some (last v))"

fun next_row :: "index_entry list \<Rightarrow> index_entry option" where
  "next_row [] = None"
| "next_row (r # _) = Some r"

fun retained_rows :: "timestamp \<Rightarrow> index_entry list \<Rightarrow> index_entry list" where
  "retained_rows m [] = []"
| "retained_rows m (r # rs) =
     (if IndexEntry_is_expired r m (next_row rs) = Inr True then retained_rows m rs
      else r # retained_rows m rs)"

text \<open>Rows as the table holds them: ascending in the primary key, and the hash determines the key.\<close>

definition primary_key :: "index_entry \<Rightarrow> internal_id \<times> bytes \<times> bytes \<times> timestamp" where
  "primary_key r = (index_id r, key_prefix r, key_sha256 r, entry_ts r)"

definition rows_ok :: "index_entry list \<Rightarrow> bool" where
  "rows_ok rows = (sorted_wrt (<) (map primary_key rows)
     \<and> list_all (\<lambda>a. list_all (\<lambda>b. key_sha256 a = key_sha256 b \<longrightarrow> key_prefix a = key_prefix b) rows) rows)"

lemma less_extend:
  "(a, b, c, d) < (a', b', c', d') \<Longrightarrow> (a, b, c, d, x) < (a', b', c', d', y)"
  for a a' :: "'a::linorder" and b b' :: "'b::linorder" and c c' :: "'c::linorder" and d d' :: "'d::linorder"
    and x y :: "'e::linorder"
  by auto

lemma between_key:
  fixes a a' :: "'a::linorder" and b b' :: "'b::linorder" and c c' :: "'c::linorder" and d d' e :: "'d::linorder"
  assumes "(a, b, c, d) < (a', b', c', d')" "(a', b', c', d') \<le> (a, b, c, e)"
  shows "a' = a \<and> c' = c \<and> d < d' \<and> d' \<le> e"
  using assms by auto

lemma entry_less_primary: "primary_key a < primary_key b \<Longrightarrow> entry_less a b"
  unfolding primary_key_def entry_less_def by (rule less_extend)

lemma rows_ok_Cons: "rows_ok (r # rs) \<Longrightarrow> rows_ok rs"
  unfolding rows_ok_def list_all_iff list.map sorted_wrt.simps list.set by blast

lemma rows_ok_less: "rows_ok (r # rs) \<Longrightarrow> x \<in> set rs \<Longrightarrow> primary_key r < primary_key x"
  unfolding rows_ok_def by simp

lemma rows_ok_prefix:
  "rows_ok rows \<Longrightarrow> a \<in> set rows \<Longrightarrow> b \<in> set rows \<Longrightarrow> key_sha256 a = key_sha256 b \<Longrightarrow> key_prefix a = key_prefix b"
  unfolding rows_ok_def list_all_iff by blast

lemma rows_ok_next_key:
  assumes ok: "rows_ok (r # n # rs)" and x: "x \<in> set (n # rs)" and k: "same_key x r"
  shows "same_key n r \<and> entry_ts r < entry_ts n \<and> entry_ts n \<le> entry_ts x"
proof -
  have p: "key_prefix x = key_prefix r"
    by (rule rows_ok_prefix [OF ok]) (use x k in \<open>auto simp: same_key_def\<close>)
  have rn: "primary_key r < primary_key n" by (rule rows_ok_less [OF ok]) simp
  have nx: "primary_key n \<le> primary_key x"
    using rows_ok_less [OF rows_ok_Cons [OF ok], of x] x by (cases "x = n") auto
  have x': "primary_key x = (index_id r, key_prefix r, key_sha256 r, entry_ts x)"
    using p k by (simp add: primary_key_def same_key_def)
  show ?thesis
    using between_key [OF rn [unfolded primary_key_def] nx [unfolded x', unfolded primary_key_def]]
    by (simp add: same_key_def)
qed

lemma visible_Cons:
  "visible_rows (r # rs) k ts = (if same_key r k \<and> entry_ts r \<le> ts then r # visible_rows rs k ts else visible_rows rs k ts)"
  by (simp add: visible_rows_def)

lemma retained_subset: "set (visible_rows (retained_rows m rs) k ts) \<subseteq> set (visible_rows rs k ts)"
  by (induction m rs rule: retained_rows.induct) (auto simp: visible_rows_def)

lemma same_key_trans: "same_key a c \<Longrightarrow> same_key b c \<Longrightarrow> same_key a b"
  by (auto simp: same_key_def)

lemma is_expired_True:
  "rows_ok (r # rs) \<Longrightarrow> IndexEntry_is_expired r m (next_row rs) = Inr True \<longleftrightarrow>
     entry_ts r < m \<and> (deleted r \<or> (\<exists>n rs'. rs = n # rs' \<and> same_key r n \<and> entry_ts n \<le> m))"
  by (cases rs) (auto simp: IndexEntry_is_expired_def rows_ok_def same_key_def dest!: entry_less_primary)

lemma visible_next:
  assumes "rows_ok (r # rs)" "same_key r k" "visible_rows rs k ts \<noteq> []"
  obtains n rs' where "rs = n # rs'" "n \<in> set (visible_rows rs k ts)" "entry_ts r < entry_ts n" "same_key r n"
proof -
  obtain x where x: "x \<in> set rs" "same_key x k" "entry_ts x \<le> ts"
    using assms(3) by (auto simp: visible_rows_def filter_empty_conv)
  then obtain n rs' where rs: "rs = n # rs'" by (cases rs) auto
  have "same_key x r" using x(2) assms(2) by (rule same_key_trans)
  with rows_ok_next_key [of r n rs' x] assms(1) x(1) rs
  have "same_key n r" "entry_ts r < entry_ts n" "entry_ts n \<le> entry_ts x" by auto
  with x assms(2) rs that show ?thesis by (auto simp: visible_rows_def same_key_def)
qed

lemma retained_reads:
  assumes "rows_ok rows" and "m \<le> ts"
  shows "read_key (retained_rows m rows) k ts = read_key rows k ts
    \<and> (visible_rows (retained_rows m rows) k ts = [] \<longrightarrow> (\<forall>x \<in> set (visible_rows rows k ts). entry_ts x < m))"
  using assms(1)
proof (induction rows)
  case (Cons r rs)
  note ok = Cons.prems
  note IH = Cons.IH [OF rows_ok_Cons [OF ok]]
  show ?case
  proof (cases "same_key r k \<and> entry_ts r \<le> ts")
    case False
    then have "visible_rows (retained_rows m (r # rs)) k ts = visible_rows (retained_rows m rs) k ts"
      "visible_rows (r # rs) k ts = visible_rows rs k ts"
      by (auto simp: visible_Cons)
    with IH show ?thesis by (simp add: read_key_def)
  next
    case P: True
    show ?thesis
    proof (cases "visible_rows rs k ts = []")
      case True
      then have E: "visible_rows (retained_rows m rs) k ts = []" using retained_subset [of m rs k ts] by auto
      have "deleted r" if "IndexEntry_is_expired r m (next_row rs) = Inr True"
      proof (rule ccontr)
        assume "\<not> deleted r"
        with that obtain n rs' where "rs = n # rs'" "same_key r n" "entry_ts n \<le> m"
          by (auto simp: is_expired_True [OF ok])
        with P assms(2) True show False by (auto simp: visible_rows_def same_key_def)
      qed
      with P True E is_expired_True [OF ok] show ?thesis by (auto simp: read_key_def visible_Cons)
    next
      case False
      from visible_next [OF ok _ False] P
      obtain n rs' where n: "rs = n # rs'" "n \<in> set (visible_rows rs k ts)" "entry_ts r < entry_ts n" "same_key r n"
        by blast
      have "entry_ts r < m \<and> IndexEntry_is_expired r m (next_row rs) = Inr True" if "visible_rows (retained_rows m rs) k ts = []"
      proof -
        have "entry_ts n < m" using IH that n(2) by blast
        with n(1,3,4) show ?thesis unfolding is_expired_True [OF ok] by simp
      qed
      with IH P False show ?thesis by (auto simp: read_key_def visible_Cons Let_def split: if_splits)
    qed
  qed
qed (simp add: read_key_def visible_rows_def)

text \<open>C19. Removing all expired rows of an index changes nothing for a reader: at every snapshot at or
  after \<open>min_snapshot_ts\<close> each key reads the same row, or stays absent.\<close>

theorem retention_preserves_reads:
  assumes "rows_ok rows" and "m \<le> ts"
  shows "read_key (retained_rows m rows) k ts = read_key rows k ts"
  using retained_reads [OF assms] by blast

theorem retention_preserves_reads_witness:
  "let row = (\<lambda>ts d. \<lparr>index_id = [1], key_prefix = [2], key_sha256 = [3], entry_ts = ts, key_suffix = None, deleted = d\<rparr>)
   in retained_rows 10 [row 3 False, row 5 True, row 12 False] = [row 12 False]
     \<and> read_key (retained_rows 10 [row 3 False, row 5 True, row 12 False]) (row 0 False) 11
       = read_key [row 3 False, row 5 True, row 12 False] (row 0 False) 11"
  unfolding Let_def
  by (intro conjI retention_preserves_reads)
    (simp_all add: rows_ok_def primary_key_def IndexEntry_is_expired_def entry_less_def)

end
