(* ===== verification/Convex_Document.thy ===== *)
theory Convex_Document
  imports Index_Key
begin

text \<open>
  Documents (\<open>common/src/document.rs\<close>): creation times, \<open>ResolvedDocument\<close> with its constructor,
  its validation and its readers, the packed form kept in the write log, and document updates.

  A creation time is the \<open>f64\<close> given by its bits.  \<open>PackedValue\<close> is a byte encoding of the value
  that is read in place; the model keeps the value itself.
\<close>

section \<open>Creation times\<close>

datatype document_validation_error =
    SystemField field_name | IdWrongTable | IdMismatch developer_document_id convex_value
  | IdBadType convex_value | IdMissing | CreationTimeInvalidFloat u64 | CreationTimeBadType convex_value
  | CreationTimeMissing | DocumentTooNested nat

datatype document_error =
    InvalidIdError | InvalidCreationTimeError | InvalidDocumentError "document_validation_error list"
  | DocumentValue value_error | MissingIdField | InvalidCreationTimeField | BadDocumentId id_decode_error
  | InvalidCreationTime | NotAnObject

type_synonym creation_time = u64

text \<open>\<open>classify\<close> is \<open>Infinite\<close> or \<open>Nan\<close> when all exponent bits are set.\<close>

definition is_finite_f64 :: "u64 \<Rightarrow> bool" where
  "is_finite_f64 b = (drop_bit 52 b AND 0x7FF \<noteq> 0x7FF)"

definition CreationTime_try_from :: "u64 \<Rightarrow> document_error + creation_time" where
  "CreationTime_try_from ts_ms =
     (if \<not> is_finite_f64 ts_ms then Inl InvalidCreationTime
      else if bit ts_ms 63 then Inl InvalidCreationTime
      else Inr ts_ms)"

definition CreationTime_cmp :: "creation_time \<Rightarrow> creation_time \<Rightarrow> ordering" where
  "CreationTime_cmp a b = total_cmp a b"

text \<open>
  \<open>0.0 < t < MAX_EXACT_F64_INT\<close> on the bits: the bound is \<open>2 ^ 53\<close>, positive floats are ordered
  like their bits, and NaN and negative numbers, whose bits are above the bound, fail the test.
\<close>

definition creation_time_in_range :: "u64 \<Rightarrow> bool" where
  "creation_time_in_range b = (0 < b \<and> b < 0x4340000000000000)"

section \<open>Documents\<close>

record developer_document =
  doc_id :: developer_document_id
  doc_creation_time :: "creation_time option"
  doc_value :: convex_object

record resolved_document =
  doc_tablet_id :: tablet_id
  document :: developer_document

abbreviation document_value :: "resolved_document \<Rightarrow> convex_object" where
  "document_value d \<equiv> doc_value (document d)"

definition ResolvedDocument_id :: "resolved_document \<Rightarrow> resolved_document_id" where
  "ResolvedDocument_id d = \<lparr>tablet_id = doc_tablet_id d, developer_id = doc_id (document d)\<rparr>"

definition ResolvedDocument_id_with_table_id :: "resolved_document \<Rightarrow> internal_document_id" where
  "ResolvedDocument_id_with_table_id d =
     \<lparr>tablet = doc_tablet_id d, internal = internal_id (doc_id (document d))\<rparr>"

definition validate_id :: "developer_document_id \<Rightarrow> convex_object \<Rightarrow> document_validation_error list" where
  "validate_id i v =
     (case ConvexObject_get v ID_FIELD of
        None \<Rightarrow> [IdMissing]
      | Some (StringV s) \<Rightarrow>
          (case DeveloperDocumentId_decode s of
             Inl _ \<Rightarrow> []
           | Inr document_id \<Rightarrow>
               if id_table document_id \<noteq> id_table i then [IdWrongTable]
               else if internal_id document_id \<noteq> internal_id i then [IdMismatch i (StringV s)]
               else [])
      | Some w \<Rightarrow> [IdBadType w])"

definition validate_creation_time :: "convex_object \<Rightarrow> document_validation_error list" where
  "validate_creation_time v =
     (case ConvexObject_get v CREATION_TIME_FIELD of
        Some (Float64 t) \<Rightarrow> if \<not> creation_time_in_range t then [CreationTimeInvalidFloat t] else []
      | Some w \<Rightarrow> [CreationTimeBadType w]
      | None \<Rightarrow> [CreationTimeMissing])"

definition ResolvedDocument_validate :: "resolved_document \<Rightarrow> document_validation_error list" where
  "ResolvedDocument_validate d =
     (let nesting = value_nesting (ObjectV (document_value d))
      in (if check_nesting_for_documents nesting then [DocumentTooNested nesting] else [])
         @ validate_id (doc_id (document d)) (document_value d)
         @ validate_creation_time (document_value d)
         @ map (SystemField \<circ> fst)
             (filter (\<lambda>(f, _). f \<noteq> ID_FIELD \<and> f \<noteq> CREATION_TIME_FIELD \<and> FieldName_is_system f)
               (document_value d)))"

definition ResolvedDocument_must_validate :: "resolved_document \<Rightarrow> document_error + unit" where
  "ResolvedDocument_must_validate d =
     (let violations = ResolvedDocument_validate d
      in if violations \<noteq> [] then Inl (InvalidDocumentError violations) else Inr ())"

definition insert_field :: "field_name \<Rightarrow> convex_value \<Rightarrow> convex_object \<Rightarrow> document_error + convex_object" where
  "insert_field f w v =
     (case ConvexObject_try_from (bt_insert f w v) of Inl e \<Rightarrow> Inl (DocumentValue e) | Inr v' \<Rightarrow> Inr v')"

definition with_id_field :: "developer_document_id \<Rightarrow> convex_object \<Rightarrow> document_error + convex_object" where
  "with_id_field i v =
     (case ConvexObject_get v ID_FIELD of
        Some existing \<Rightarrow> if existing \<noteq> id_value i then Inl InvalidIdError else Inr v
      | None \<Rightarrow> insert_field ID_FIELD (id_value i) v)"

definition with_creation_time :: "creation_time option \<Rightarrow> convex_object \<Rightarrow> document_error + convex_object" where
  "with_creation_time ct v =
     (case (map_option Float64 ct, ConvexObject_get v CREATION_TIME_FIELD) of
        (Some time, None) \<Rightarrow> insert_field CREATION_TIME_FIELD time v
      | (l, r) \<Rightarrow> if l = r then Inr v else Inl InvalidCreationTimeError)"

definition ResolvedDocument_new_internal ::
    "resolved_document_id \<Rightarrow> creation_time option \<Rightarrow> convex_object \<Rightarrow> document_error + resolved_document" where
  "ResolvedDocument_new_internal i ct v =
     bind_result (with_id_field (developer_id i) v) (\<lambda>v.
     bind_result (with_creation_time ct v) (\<lambda>v.
     let d = \<lparr>doc_tablet_id = tablet_id i,
               document = \<lparr>doc_id = developer_id i, doc_creation_time = ct, doc_value = v\<rparr>\<rparr>
     in bind_result (ResolvedDocument_must_validate d) (\<lambda>_. Inr d)))"

definition ResolvedDocument_new ::
    "resolved_document_id \<Rightarrow> creation_time \<Rightarrow> convex_object \<Rightarrow> document_error + resolved_document" where
  "ResolvedDocument_new i ct v = ResolvedDocument_new_internal i (Some ct) v"

definition ResolvedDocument_replace_value ::
    "resolved_document \<Rightarrow> convex_object \<Rightarrow> document_error + resolved_document" where
  "ResolvedDocument_replace_value d v =
     ResolvedDocument_new_internal (ResolvedDocument_id d) (doc_creation_time (document d)) v"

definition indexed_values :: "(field_path \<Rightarrow> convex_value option) \<Rightarrow> indexed_fields \<Rightarrow> convex_value option list" where
  "indexed_values get_path fs = map get_path fs"

definition ResolvedDocument_index_key :: "resolved_document \<Rightarrow> indexed_fields \<Rightarrow> index_key" where
  "ResolvedDocument_index_key d fs =
     IndexKey_new_allow_missing (indexed_values (ConvexObject_get_path (document_value d)) fs) (doc_id (document d))"

definition read_creation_time :: "convex_object \<Rightarrow> document_error + creation_time option" where
  "read_creation_time v =
     (case ConvexObject_get v CREATION_TIME_FIELD of
        Some (Float64 ts) \<Rightarrow> bind_result (CreationTime_try_from ts) (\<lambda>t. Inr (Some t))
      | None \<Rightarrow> Inr None
      | _ \<Rightarrow> Inl InvalidCreationTimeField)"

definition value_into_object :: "convex_value \<Rightarrow> document_error + convex_object" where
  "value_into_object v = (case v of ObjectV obj \<Rightarrow> Inr obj | _ \<Rightarrow> Inl NotAnObject)"

definition ResolvedDocument_from_database :: "tablet_id \<Rightarrow> convex_value \<Rightarrow> document_error + resolved_document" where
  "ResolvedDocument_from_database t v =
     bind_result (value_into_object v) (\<lambda>obj.
     bind_result
       (case ConvexObject_get obj ID_FIELD of
          Some (StringV s) \<Rightarrow>
            (case DeveloperDocumentId_decode s of Inl e \<Rightarrow> Inl (BadDocumentId e) | Inr i \<Rightarrow> Inr i)
        | _ \<Rightarrow> Inl MissingIdField) (\<lambda>i.
     bind_result (read_creation_time obj) (\<lambda>ct.
     Inr \<lparr>doc_tablet_id = t, document = \<lparr>doc_id = i, doc_creation_time = ct, doc_value = obj\<rparr>\<rparr>)))"

definition ResolvedDocument_from_packed :: "convex_value \<Rightarrow> resolved_document_id \<Rightarrow> document_error + resolved_document" where
  "ResolvedDocument_from_packed v i =
     bind_result (value_into_object v) (\<lambda>obj.
     bind_result (read_creation_time obj) (\<lambda>ct.
     Inr \<lparr>doc_tablet_id = tablet_id i,
          document = \<lparr>doc_id = developer_id i, doc_creation_time = ct, doc_value = obj\<rparr>\<rparr>))"

section \<open>Packed documents and updates\<close>

record packed_document =
  packed_value :: convex_value
  packed_id :: resolved_document_id

definition PackedDocument_pack :: "resolved_document \<Rightarrow> packed_document" where
  "PackedDocument_pack d = \<lparr>packed_value = ObjectV (document_value d), packed_id = ResolvedDocument_id d\<rparr>"

text \<open>\<open>None\<close> is the panic of the \<open>expect\<close>.\<close>

definition PackedDocument_unpack :: "packed_document \<Rightarrow> resolved_document option" where
  "PackedDocument_unpack p =
     (case ResolvedDocument_from_packed (packed_value p) (packed_id p) of Inl _ \<Rightarrow> None | Inr d \<Rightarrow> Some d)"

text \<open>\<open>PackedValue::get_path\<close> gives what the unpacked object would.\<close>

definition packed_get_path :: "packed_document \<Rightarrow> field_path \<Rightarrow> convex_value option" where
  "packed_get_path p path =
     (case packed_value p of ObjectV obj \<Rightarrow> ConvexObject_get_path obj path | _ \<Rightarrow> None)"

definition PackedDocument_index_key :: "packed_document \<Rightarrow> indexed_fields \<Rightarrow> index_key" where
  "PackedDocument_index_key p fs =
     IndexKey_new_allow_missing (indexed_values (packed_get_path p) fs) (developer_id (packed_id p))"

record document_update =
  update_id :: resolved_document_id
  old_document :: "resolved_document option"
  new_document :: "resolved_document option"

record packed_document_update =
  packed_update_id :: resolved_document_id
  packed_old :: "packed_document option"
  packed_new :: "packed_document option"

definition PackedDocumentUpdate_pack :: "document_update \<Rightarrow> packed_document_update" where
  "PackedDocumentUpdate_pack u =
     \<lparr>packed_update_id = update_id u,
      packed_old = map_option PackedDocument_pack (old_document u),
      packed_new = map_option PackedDocument_pack (new_document u)\<rparr>"

text \<open>Unpacking panics (\<open>None\<close>) when one of the documents does.\<close>

definition unpack_option :: "packed_document option \<Rightarrow> resolved_document option option" where
  "unpack_option p = (case p of None \<Rightarrow> Some None | Some p \<Rightarrow> map_option Some (PackedDocument_unpack p))"

definition PackedDocumentUpdate_unpack :: "packed_document_update \<Rightarrow> document_update option" where
  "PackedDocumentUpdate_unpack u =
     (case unpack_option (packed_old u) of
        None \<Rightarrow> None
      | Some old \<Rightarrow>
          (case unpack_option (packed_new u) of
             None \<Rightarrow> None
           | Some new \<Rightarrow> Some \<lparr>update_id = packed_update_id u, old_document = old, new_document = new\<rparr>))"

section \<open>Construction gives valid documents\<close>

lemma insert_field_get:
  "insert_field f w v = Inr v' \<Longrightarrow> bt_get v' = (bt_get v)(f \<mapsto> w)"
  by (auto simp: insert_field_def ConvexObject_try_from_def check_limits_def bind_result_Inr_iff
      split: sum.splits if_splits)

lemma with_id_field_get:
  assumes "with_id_field i v = Inr v'"
  shows "ConvexObject_get v' ID_FIELD = Some (id_value i)
    \<and> (f \<noteq> ID_FIELD \<longrightarrow> ConvexObject_get v' f = ConvexObject_get v f)"
  using assms by (auto simp: with_id_field_def ConvexObject_get_def dest: insert_field_get split: option.splits if_splits)

lemma with_creation_time_get:
  assumes "with_creation_time ct v = Inr v'"
  shows "ConvexObject_get v' CREATION_TIME_FIELD = map_option Float64 ct
    \<and> (f \<noteq> CREATION_TIME_FIELD \<longrightarrow> ConvexObject_get v' f = ConvexObject_get v f)"
  using assms
  by (auto simp: with_creation_time_def ConvexObject_get_def dest: insert_field_get split: option.splits if_splits)

lemma field_names_differ: "ID_FIELD \<noteq> CREATION_TIME_FIELD"
  by (simp add: ID_FIELD_def CREATION_TIME_FIELD_def ascii_def)

lemma new_internal_fields:
  assumes "ResolvedDocument_new_internal i ct v = Inr d"
  shows "ResolvedDocument_id d = i" and "doc_creation_time (document d) = ct"
    and "ResolvedDocument_validate d = []"
    and "ConvexObject_get (document_value d) ID_FIELD = Some (id_value (developer_id i))"
    and "ConvexObject_get (document_value d) CREATION_TIME_FIELD = map_option Float64 ct"
    and "f \<noteq> ID_FIELD \<Longrightarrow> f \<noteq> CREATION_TIME_FIELD \<Longrightarrow> ConvexObject_get (document_value d) f = ConvexObject_get v f"
proof -
  obtain v1 v2 where v: "with_id_field (developer_id i) v = Inr v1" "with_creation_time ct v1 = Inr v2"
    and d: "d = \<lparr>doc_tablet_id = tablet_id i,
               document = \<lparr>doc_id = developer_id i, doc_creation_time = ct, doc_value = v2\<rparr>\<rparr>"
    and ok: "ResolvedDocument_must_validate d = Inr ()"
    using assms by (auto simp: ResolvedDocument_new_internal_def Let_def bind_result_Inr_iff)
  show "ResolvedDocument_id d = i" "doc_creation_time (document d) = ct"
    by (simp_all add: d ResolvedDocument_id_def)
  show "ResolvedDocument_validate d = []"
    using ok by (simp add: ResolvedDocument_must_validate_def Let_def split: if_splits)
  note g1 = with_id_field_get [OF v(1)] and g2 = with_creation_time_get [OF v(2)]
  show "ConvexObject_get (document_value d) ID_FIELD = Some (id_value (developer_id i))"
    using g1 g2 [of ID_FIELD] field_names_differ by (simp add: d)
  show "ConvexObject_get (document_value d) CREATION_TIME_FIELD = map_option Float64 ct"
    using g2 by (simp add: d)
  show "ConvexObject_get (document_value d) f = ConvexObject_get v f" if "f \<noteq> ID_FIELD" "f \<noteq> CREATION_TIME_FIELD"
    using g1 [of f] g2 [of f] that by (simp add: d)
qed

lemma validate_creation_time_ok:
  "validate_creation_time v = [] \<Longrightarrow>
     \<exists>t. ConvexObject_get v CREATION_TIME_FIELD = Some (Float64 t) \<and> creation_time_in_range t"
  by (auto simp: validate_creation_time_def split: option.splits convex_value.splits if_splits)

lemma in_range_finite:
  assumes "creation_time_in_range t"
  shows "CreationTime_try_from t = Inr t"
proof -
  have t: "unat t < 0x4340000000000000" using assms by (simp add: creation_time_in_range_def word_less_nat_alt)
  have "unat (drop_bit 52 t) = unat t div 2 ^ 52"
    using unsigned_drop_bit_eq [of 52 t, where 'a = nat] by (simp add: drop_bit_eq_div unat_div)
  then have "unat (drop_bit 52 t) < 0x7FF" using t by simp
  moreover have "drop_bit 52 t AND 0x7FF = take_bit 11 (drop_bit 52 t)"
    by (simp add: take_bit_eq_mask mask_eq_exp_minus_1)
  then have "unat (drop_bit 52 t AND 0x7FF) = unat (drop_bit 52 t) mod 2 ^ 11"
    by (simp add: take_bit_eq_mod unat_mod)
  ultimately have "unat (drop_bit 52 t AND 0x7FF) < 0x7FF" by simp
  then have "is_finite_f64 t" unfolding is_finite_f64_def by force
  moreover have "\<not> bit (unat t) 63" using t by (simp add: bit_iff_odd)
  then have "\<not> bit t 63" by (simp add: bit_unsigned_iff)
  ultimately show ?thesis by (simp add: CreationTime_try_from_def)
qed

text \<open>An example: a document with one field besides the system fields.\<close>

definition example_id :: resolved_document_id where
  "example_id = \<lparr>tablet_id = replicate 16 0, developer_id = \<lparr>id_table = 1, internal_id = replicate 16 7\<rparr>\<rparr>"

definition example_document :: "convex_value \<Rightarrow> resolved_document" where
  "example_document x =
     \<lparr>doc_tablet_id = tablet_id example_id,
      document = \<lparr>doc_id = developer_id example_id, doc_creation_time = Some 0x3FF0000000000000,
        doc_value = [(CREATION_TIME_FIELD, Float64 0x3FF0000000000000), (ID_FIELD, id_value (developer_id example_id)),
                     (ascii ''a'', x)]\<rparr>\<rparr>"

lemma example_id_ok: "document_id_ok (developer_id example_id)"
  by (simp add: document_id_ok_def example_id_def)

lemma new_example_document:
  assumes "value_nesting x = 0" and "value_size x \<le> 100"
  shows "ResolvedDocument_new_internal example_id (Some 0x3FF0000000000000) [(ascii ''a'', x)] = Inr (example_document x)"
proof -
  let ?i = example_id
  let ?id = "id_value (developer_id ?i)"
  let ?v = "[(CREATION_TIME_FIELD, Float64 0x3FF0000000000000), (ID_FIELD, ?id), (ascii ''a'', x)]"
  note ok = example_id_ok
  have len: "length (DeveloperDocumentId_encode (developer_id ?i)) \<le> 37"
    using encode_id_bounds [OF ok] by (simp add: MAX_BASE32_LEN_def encoded_len_def)
  have n: "value_nesting ?id = 0" "value_size ?id \<le> 39" using len by (simp_all add: id_value_def)
  have dec: "DeveloperDocumentId_decode (DeveloperDocumentId_encode (developer_id ?i)) = Inr (developer_id ?i)"
    by (rule decode_encode_id [OF ok])
  have "with_id_field (developer_id ?i) [(ascii ''a'', x)] = Inr [(ID_FIELD, ?id), (ascii ''a'', x)]"
    using n assms by (simp add: with_id_field_def insert_field_def ConvexObject_get_def bt_get_def ConvexObject_try_from_def
        check_limits_def check_system_size_def check_nesting_def MAX_SIZE_def MAX_NESTING_def MAX_OBJECT_FIELDS_def
        ascii_def ID_FIELD_def max_or_0_def)
  moreover have "with_creation_time (Some 0x3FF0000000000000) [(ID_FIELD, ?id), (ascii ''a'', x)] = Inr ?v"
    using n assms by (simp add: with_creation_time_def insert_field_def ConvexObject_get_def bt_get_def ConvexObject_try_from_def
        check_limits_def check_system_size_def check_nesting_def MAX_SIZE_def MAX_NESTING_def MAX_OBJECT_FIELDS_def
        ascii_def ID_FIELD_def CREATION_TIME_FIELD_def max_or_0_def)
  moreover have "ResolvedDocument_validate (example_document x) = []"
    using n assms dec
    by (simp add: example_document_def ResolvedDocument_validate_def check_nesting_for_documents_def MAX_DOCUMENT_NESTING_def
        validate_id_def validate_creation_time_def ConvexObject_get_def bt_get_def ID_FIELD_def CREATION_TIME_FIELD_def ascii_def
        FieldName_is_system_def creation_time_in_range_def max_or_0_def id_value_def)
  ultimately show ?thesis
    by (simp add: ResolvedDocument_new_internal_def ResolvedDocument_must_validate_def Let_def)
      (simp add: example_document_def)
qed


end
