(* ===== verification/Search_Reads.thy ===== *)
theory Search_Reads
  imports Convex_Document
begin

text \<open>
  Reads and subscriptions of text searches (\<open>search/src/query.rs\<close>): the terms and filters a search
  depends on, the tries that hold the terms of one read set or of all subscribers, and the matching
  of a changed document against them.

  The tokenizer (\<open>convex_en\<close>), the Levenshtein automata and SHA-256 are third-party code; together
  with the knob \<open>DISABLE_FUZZY_TEXT_SEARCH\<close> they are the fields of a \<open>search_env\<close>.  A trie
  (\<open>ART\<close>) is a map from strings; intersecting it with an automaton gives the entries whose key the
  automaton accepts.  \<open>BTreeSet\<close> is an ordered map to \<open>unit\<close>.
\<close>

section \<open>Terms and filters\<close>

record search_env =
  tokenize :: "bytes \<Rightarrow> bytes list"
  dfa_accepts :: "bytes \<Rightarrow> nat \<Rightarrow> bytes \<Rightarrow> bool"
  disable_fuzzy :: bool
  sha256 :: "bytes \<Rightarrow> bytes"

definition MAX_FILTER_FIELD_LENGTH :: nat where "MAX_FILTER_FIELD_LENGTH = 32"

definition search_value_to_bytes :: "search_env \<Rightarrow> convex_value option \<Rightarrow> bytes" where
  "search_value_to_bytes env value =
     (let sort_key = (case value of Some v \<Rightarrow> write_sort_key v | None \<Rightarrow> [UNDEFINED_TAG])
      in if length sort_key < MAX_FILTER_FIELD_LENGTH then sort_key else sha256 env sort_key)"

datatype fuzzy_distance = Zero | One | Two

fun FuzzyDistance_deref :: "fuzzy_distance \<Rightarrow> nat" where
  "FuzzyDistance_deref Zero = 0"
| "FuzzyDistance_deref One = 1"
| "FuzzyDistance_deref Two = 2"

definition FuzzyDistance_try_from :: "nat \<Rightarrow> fuzzy_distance option" where
  "FuzzyDistance_try_from value =
     (if value = 0 then Some Zero else if value = 1 then Some One else if value = 2 then Some Two else None)"

datatype text_query_term = Exact bytes | Fuzzy bytes fuzzy_distance bool

fun fuzzy_params :: "text_query_term \<Rightarrow> bytes \<times> nat \<times> bool" where
  "fuzzy_params (Fuzzy token max_distance prefix) = (token, FuzzyDistance_deref max_distance, prefix)"
| "fuzzy_params (Exact token) = (token, 0, False)"

record text_query_term_read =
  term_path :: field_path
  query_term :: text_query_term

datatype filter_condition_read = Must field_path bytes

section \<open>Tries of search terms\<close>

type_synonym 't trie = "(bytes, ('t, nat) btree) btree"
type_synonym 't tries = "(bool \<times> nat, 't trie) btree"
type_synonym 't search_term_tries = "(field_path, 't tries) btree"

definition extend_query :: "'t::linorder \<Rightarrow> text_query_term_read \<Rightarrow> 't search_term_tries \<Rightarrow> 't search_term_tries" where
  "extend_query value text_query terms =
     (let path = term_path text_query;
          (token, max_distance, prefix) = fuzzy_params (query_term text_query);
          tries = get_or [] terms path;
          art = get_or [] tries (prefix, max_distance);
          value_to_count =
            (case bt_get art token of
               Some value_to_count \<Rightarrow> bt_insert value (get_or 0 value_to_count value + 1) value_to_count
             | None \<Rightarrow> [(value, 1)])
      in bt_insert path (bt_insert (prefix, max_distance) (bt_insert token value_to_count art) tries) terms)"

definition SearchTermTries_extend ::
    "'t::linorder \<Rightarrow> text_query_term_read list \<Rightarrow> 't search_term_tries \<Rightarrow> 't search_term_tries" where
  "SearchTermTries_extend value queries terms = fold (extend_query value) queries terms"

text \<open>\<open>None\<close> is one of the panics: a missing trie, token or count, or a count that would underflow.\<close>

definition remove_query :: "'t::linorder \<Rightarrow> text_query_term_read \<Rightarrow> 't search_term_tries \<Rightarrow> 't search_term_tries option" where
  "remove_query value text_query terms =
     (let path = term_path text_query;
          (token, max_distance, prefix) = fuzzy_params (query_term text_query)
      in case bt_get terms path of None \<Rightarrow> None | Some tries \<Rightarrow>
         case bt_get tries (prefix, max_distance) of None \<Rightarrow> None | Some trie \<Rightarrow>
         case bt_get trie token of None \<Rightarrow> None | Some value_to_count \<Rightarrow>
         case bt_get value_to_count value of None \<Rightarrow> None | Some count \<Rightarrow>
         if count = 0 then None
         else let value_to_count' =
                    (if count - 1 = 0 then bt_remove value value_to_count
                     else bt_insert value (count - 1) value_to_count);
                  trie' = (if value_to_count' = [] then bt_remove token trie
                           else bt_insert token value_to_count' trie)
              in Some (bt_insert path (bt_insert (prefix, max_distance) trie' tries) terms))"

definition SearchTermTries_remove ::
    "'t::linorder \<Rightarrow> text_query_term_read list \<Rightarrow> 't search_term_tries \<Rightarrow> 't search_term_tries option" where
  "SearchTermTries_remove value queries terms = fold_option (remove_query value) queries terms"

section \<open>Tokens of a document\<close>

text \<open>A byte that continues a UTF-8 character; every other byte starts one.\<close>

definition is_continuation :: "u8 \<Rightarrow> bool" where
  "is_continuation b = (128 \<le> b \<and> b < 192)"

definition char_prefixes :: "bytes \<Rightarrow> bytes list" where
  "char_prefixes token =
     map (\<lambda>i. take i token) (filter (\<lambda>i. \<not> is_continuation (token ! i)) [1..<length token])"

fun calculate_prefixes_loop :: "bytes list \<Rightarrow> bytes bset \<Rightarrow> bytes bset" where
  "calculate_prefixes_loop [] s = s"
| "calculate_prefixes_loop (token # tokens) s =
     (if bt_get s token \<noteq> None then calculate_prefixes_loop tokens s
      else calculate_prefixes_loop tokens (bs_extend (char_prefixes token) (bt_insert token () s)))"

definition calculate_prefixes :: "bytes list \<Rightarrow> bytes list" where
  "calculate_prefixes tokens = map fst (calculate_prefixes_loop tokens [])"

definition document_tokens :: "search_env \<Rightarrow> packed_document \<Rightarrow> field_path \<Rightarrow> bool \<Rightarrow> bytes list" where
  "document_tokens env doc path prefix =
     (case packed_get_path doc path of
        Some (StringV document_text) \<Rightarrow>
          (let tokens = remdups (tokenize env document_text)
           in if prefix then calculate_prefixes tokens else tokens)
      | _ \<Rightarrow> [])"

definition token_values :: "search_env \<Rightarrow> nat \<Rightarrow> 't trie \<Rightarrow> bytes \<Rightarrow> 't list" where
  "token_values env max_distance trie token =
     (if disable_fuzzy env
      then (case bt_get trie token of Some values \<Rightarrow> map fst values | None \<Rightarrow> [])
      else concat (map (\<lambda>(_, values). map fst values)
             (filter (\<lambda>(term, _). dfa_accepts env token max_distance term) trie)))"

definition matching_values :: "search_env \<Rightarrow> packed_document \<Rightarrow> 't::linorder search_term_tries \<Rightarrow> 't bset" where
  "matching_values env doc terms =
     bs_extend
       (concat (map (\<lambda>(path, tries).
          concat (map (\<lambda>((prefix, max_distance), trie).
            concat (map (token_values env max_distance trie) (document_tokens env doc path prefix))) tries)) terms))
       []"

definition SearchTermTries_overlaps :: "search_env \<Rightarrow> 't::linorder search_term_tries \<Rightarrow> packed_document \<Rightarrow> bool" where
  "SearchTermTries_overlaps env terms doc = (matching_values env doc terms \<noteq> [])"

section \<open>The reads of a search\<close>

record query_reads =
  text_queries :: "text_query_term_read list"
  filter_conditions :: "filter_condition_read list"
  fuzzy_terms :: "unit search_term_tries"

definition QueryReads_new :: "text_query_term_read list \<Rightarrow> filter_condition_read list \<Rightarrow> query_reads" where
  "QueryReads_new qs fcs =
     \<lparr>text_queries = qs, filter_conditions = fcs, fuzzy_terms = SearchTermTries_extend () qs []\<rparr>"

definition QueryReads_empty :: query_reads where
  "QueryReads_empty = \<lparr>text_queries = [], filter_conditions = [], fuzzy_terms = []\<rparr>"

definition QueryReads_merge :: "query_reads \<Rightarrow> query_reads \<Rightarrow> query_reads" where
  "QueryReads_merge self other =
     \<lparr>text_queries = text_queries self @ text_queries other,
      filter_conditions = filter_conditions self @ filter_conditions other,
      fuzzy_terms = SearchTermTries_extend () (text_queries other) (fuzzy_terms self)\<rparr>"

fun filter_matches :: "search_env \<Rightarrow> packed_document \<Rightarrow> filter_condition_read \<Rightarrow> bool" where
  "filter_matches env doc (Must field_path filter_value) =
     (search_value_to_bytes env (packed_get_path doc field_path) = filter_value)"

definition QueryReads_overlaps :: "search_env \<Rightarrow> query_reads \<Rightarrow> packed_document \<Rightarrow> bool" where
  "QueryReads_overlaps env self doc =
     (if list_ex (\<lambda>c. \<not> filter_matches env doc c) (filter_conditions self) then False
      else if text_queries self = [] then True
      else SearchTermTries_overlaps env (fuzzy_terms self) doc)"

section \<open>Text search subscriptions\<close>

type_synonym subscriber_id = nat

record text_search_subscriptions =
  fuzzy_searches :: "(tablet_index_name, subscriber_id search_term_tries) btree"
  filter_subscriptions :: "(tablet_index_name, (subscriber_id, filter_condition_read list) btree) btree"

definition TextSearchSubscriptions_new :: text_search_subscriptions where
  "TextSearchSubscriptions_new = \<lparr>fuzzy_searches = [], filter_subscriptions = []\<rparr>"

definition TextSearchSubscriptions_insert ::
    "subscriber_id \<Rightarrow> tablet_index_name \<Rightarrow> query_reads \<Rightarrow> text_search_subscriptions \<Rightarrow> text_search_subscriptions" where
  "TextSearchSubscriptions_insert i index reads s =
     \<lparr>fuzzy_searches =
        bt_insert index (SearchTermTries_extend i (text_queries reads) (get_or [] (fuzzy_searches s) index))
          (fuzzy_searches s),
      filter_subscriptions =
        (let conditions = get_or [] (filter_subscriptions s) index
         in bt_insert index (bt_insert i (get_or [] conditions i @ filter_conditions reads) conditions)
              (filter_subscriptions s))\<rparr>"

text \<open>\<open>None\<close> is a panic.\<close>

definition TextSearchSubscriptions_remove ::
    "subscriber_id \<Rightarrow> tablet_index_name \<Rightarrow> query_reads \<Rightarrow> text_search_subscriptions \<Rightarrow> text_search_subscriptions option" where
  "TextSearchSubscriptions_remove i index reads s =
     (case bt_get (filter_subscriptions s) index of None \<Rightarrow> None | Some conditions \<Rightarrow>
      case bt_get conditions i of None \<Rightarrow> None | Some _ \<Rightarrow>
      let conditions' = bt_remove i conditions;
          filters' = (if conditions' = [] then bt_remove index (filter_subscriptions s)
                      else bt_insert index conditions' (filter_subscriptions s))
      in case bt_get (fuzzy_searches s) index of None \<Rightarrow> None | Some terms \<Rightarrow>
         case SearchTermTries_remove i (text_queries reads) terms of None \<Rightarrow> None | Some terms' \<Rightarrow>
         Some \<lparr>fuzzy_searches = bt_insert index terms' (fuzzy_searches s), filter_subscriptions = filters'\<rparr>)"

definition add_filter_conditions_matches ::
    "search_env \<Rightarrow> packed_document \<Rightarrow> text_search_subscriptions \<Rightarrow> subscriber_id bset \<Rightarrow> subscriber_id bset" where
  "add_filter_conditions_matches env doc s to_notify =
     bs_extend
       (concat (map (\<lambda>(index, filter_conditions_map).
          if fst index \<noteq> tablet_id (packed_id doc) then []
          else concat (map (\<lambda>(i, fcs). map (\<lambda>_. i) (filter (filter_matches env doc) fcs)) filter_conditions_map))
          (filter_subscriptions s)))
       to_notify"

definition add_fuzzy_matches ::
    "search_env \<Rightarrow> packed_document \<Rightarrow> text_search_subscriptions \<Rightarrow> subscriber_id bset \<Rightarrow> subscriber_id bset" where
  "add_fuzzy_matches env doc s to_notify =
     bs_extend
       (concat (map (\<lambda>(_, terms). map fst (matching_values env doc terms))
          (filter (\<lambda>(index, _). fst index = tablet_id (packed_id doc)) (fuzzy_searches s))))
       to_notify"

definition TextSearchSubscriptions_add_matches ::
    "search_env \<Rightarrow> packed_document \<Rightarrow> text_search_subscriptions \<Rightarrow> subscriber_id bset \<Rightarrow> subscriber_id bset" where
  "TextSearchSubscriptions_add_matches env doc s to_notify =
     add_fuzzy_matches env doc s (add_filter_conditions_matches env doc s to_notify)"

section \<open>Tries count their terms\<close>

text \<open>
  The tries of a set of terms are seen as the number of times each value was entered for a path,
  an automaton and a token.
\<close>

type_synonym term_key = "field_path \<times> (bool \<times> nat) \<times> bytes"

definition query_key :: "text_query_term_read \<Rightarrow> term_key" where
  "query_key q = (case fuzzy_params (query_term q) of (token, d, prefix) \<Rightarrow> (term_path q, (prefix, d), token))"

fun trie_count :: "'t::linorder search_term_tries \<Rightarrow> term_key \<Rightarrow> 't \<Rightarrow> nat" where
  "trie_count terms (path, pd, token) v = get_or 0 (get_or [] (get_or [] (get_or [] terms path) pd) token) v"

abbreviation tries_ok :: "'t::linorder search_term_tries \<Rightarrow> bool" where
  "tries_ok \<equiv> bt_all (bt_all (bt_all (bt_all (\<lambda>n. 0 < (n :: nat)))))"

lemma extend_query_alt:
  assumes "query_key q = (path, pd, token)"
  shows "extend_query v q terms =
    (let tries = get_or [] terms path; art = get_or [] tries pd; c = get_or [] art token
     in bt_insert path (bt_insert pd (bt_insert token (bt_insert v (get_or 0 c v + 1) c) art) tries) terms)"
  using assms
  by (auto simp: query_key_def extend_query_def Let_def get_or_def [of _ _ token] split: prod.splits option.splits)

lemma extend_query_ok: "tries_ok terms \<Longrightarrow> tries_ok (extend_query v q terms)"
  by (cases "query_key q") (simp add: extend_query_alt Let_def bt_all_get_or)

lemma extend_query_count:
  "trie_count (extend_query v q terms) k w = trie_count terms k w + of_bool (query_key q = k \<and> v = w)"
proof (cases "query_key q")
  case (fields path pd token)
  then show ?thesis by (cases k) (auto simp: extend_query_alt Let_def)
qed

lemma extend_ok: "tries_ok terms \<Longrightarrow> tries_ok (SearchTermTries_extend v qs terms)"
  unfolding SearchTermTries_extend_def by (induction qs arbitrary: terms) (simp_all add: extend_query_ok)

lemma extend_count:
  "trie_count (SearchTermTries_extend v qs terms) k w =
     trie_count terms k w + (if v = w then count_list (map query_key qs) k else 0)"
  unfolding SearchTermTries_extend_def
  by (induction qs arbitrary: terms) (simp_all add: extend_query_count)

lemma remove_query_count:
  assumes ok: "tries_ok terms" and pos: "0 < trie_count terms (query_key q) v"
  obtains t where "remove_query v q terms = Some t" and "tries_ok t"
    and "\<And>k w. trie_count t k w = trie_count terms k w - of_bool (query_key q = k \<and> v = w)"
proof -
  obtain path pd token where key: "query_key q = (path, pd, token)" by (cases "query_key q")
  let ?tries = "get_or [] terms path"
  let ?trie = "get_or [] ?tries pd"
  let ?c = "get_or [] ?trie token"
  have some: "bt_get terms path = Some ?tries" "bt_get ?tries pd = Some ?trie" "bt_get ?trie token = Some ?c"
    "bt_get ?c v = Some (get_or 0 ?c v)" "0 < get_or 0 ?c v"
    using pos key by (auto simp: get_or_def bt_get_def split: option.splits)
  have oks: "bt_all (bt_all (bt_all (\<lambda>n. 0 < n))) ?tries" "bt_all (bt_all (\<lambda>n. 0 < n)) ?trie" "bt_all (\<lambda>n. 0 < n) ?c"
    using ok by (simp_all add: bt_all_get_or)
  define c' where "c' = (if get_or 0 ?c v - 1 = 0 then bt_remove v ?c else bt_insert v (get_or 0 ?c v - 1) ?c)"
  define trie' where "trie' = (if c' = [] then bt_remove token ?trie else bt_insert token c' ?trie)"
  have c': "bt_all (\<lambda>n. 0 < n) c'" "get_or 0 c' w = get_or 0 ?c w - of_bool (v = w)" for w
    using oks(3) some(5) bt_all_ok [OF oks(3)] by (auto simp: c'_def)
  have trie': "bt_all (bt_all (\<lambda>n. 0 < n)) trie'"
      "get_or 0 (get_or [] trie' tk) w = (if tk = token then get_or 0 c' w else get_or 0 (get_or [] ?trie tk) w)" for tk w
    using oks(2) c'(1) bt_all_ok [OF oks(2)] by (auto simp: trie'_def)
  show ?thesis
  proof
    show "remove_query v q terms = Some (bt_insert path (bt_insert pd trie' ?tries) terms)"
      using some key unfolding query_key_def remove_query_def Let_def c'_def trie'_def by (auto split: prod.splits)
    show "tries_ok (bt_insert path (bt_insert pd trie' ?tries) terms)"
      using ok oks(1) trie'(1) by simp
    show "trie_count (bt_insert path (bt_insert pd trie' ?tries) terms) k w
        = trie_count terms k w - of_bool (query_key q = k \<and> v = w)" for k w
      using trie'(2) c'(2) unfolding key by (cases k) auto
  qed
qed

lemma remove_count:
  assumes "tries_ok terms" and "\<And>k. count_list (map query_key qs) k \<le> trie_count terms k v"
  shows "\<exists>t. SearchTermTries_remove v qs terms = Some t \<and> tries_ok t
    \<and> (\<forall>k w. trie_count t k w = trie_count terms k w - (if v = w then count_list (map query_key qs) k else 0))"
  using assms
proof (induction qs arbitrary: terms)
  case (Cons q qs)
  have "0 < trie_count terms (query_key q) v" using Cons.prems(2) [of "query_key q"] by simp
  from remove_query_count [OF Cons.prems(1) this]
  obtain t where t: "remove_query v q terms = Some t" "tries_ok t"
    "\<And>k w. trie_count t k w = trie_count terms k w - of_bool (query_key q = k \<and> v = w)" by blast
  have "count_list (map query_key qs) k \<le> trie_count t k v" for k
    using Cons.prems(2) [of k] t(3) [of k v] by (simp del: trie_count.simps split: if_splits)
  from Cons.IH [OF t(2) this] t(1,3) show ?case
    by (auto simp: SearchTermTries_remove_def simp del: trie_count.simps)
qed (simp add: SearchTermTries_remove_def)

section \<open>Matching finds exactly the terms that hit\<close>

text \<open>A term hits a document when some token of the document at its path is accepted.\<close>

fun term_hits :: "search_env \<Rightarrow> packed_document \<Rightarrow> term_key \<Rightarrow> bool" where
  "term_hits env doc (path, (prefix, d), term) =
     list_ex (\<lambda>token. if disable_fuzzy env then token = term else dfa_accepts env token d term)
       (document_tokens env doc path prefix)"

lemma get_or_ex: "bt_ok m \<Longrightarrow> \<not> Q d \<Longrightarrow> Q (get_or d m k) \<longleftrightarrow> (\<exists>x. (k, x) \<in> set m \<and> Q x)"
  by (auto simp: get_or_def bt_get_iff [symmetric] split: option.splits)

lemma trie_count_pos:
  assumes "tries_ok terms"
  shows "0 < trie_count terms (path, pd, token) v \<longleftrightarrow>
    (\<exists>tries trie c n. (path, tries) \<in> set terms \<and> (pd, trie) \<in> set tries \<and> (token, c) \<in> set trie \<and> (v, n) \<in> set c)"
proof -
  have oks: "bt_ok terms" "bt_ok (get_or [] terms path)" "bt_ok (get_or [] (get_or [] terms path) pd)"
      "bt_ok (get_or [] (get_or [] (get_or [] terms path) pd) token)"
    using assms
    by (simp_all add: bt_all_ok [of "bt_all (bt_all (bt_all ((<) 0)))"] bt_all_ok [of "bt_all (bt_all ((<) 0))"]
        bt_all_ok [of "bt_all ((<) 0)"] bt_all_ok [of "(<) 0"] bt_all_get_or)
  have "bt_all (\<lambda>n. 0 < n) (get_or [] (get_or [] (get_or [] terms path) pd) token)"
    using assms by (simp add: bt_all_get_or)
  then have "0 < trie_count terms (path, pd, token) v \<longleftrightarrow> (\<exists>n. (v, n) \<in> set (get_or [] (get_or [] (get_or [] terms path) pd) token))"
    by (auto simp: get_or_ex [OF oks(4), where d = 0 and Q = "(<) 0"] bt_all_def list_all_iff Ball_def)
  also have "\<dots> \<longleftrightarrow> (\<exists>c. (token, c) \<in> set (get_or [] (get_or [] terms path) pd) \<and> (\<exists>n. (v, n) \<in> set c))"
    using get_or_ex [OF oks(3), where d = "[]" and Q = "\<lambda>c. \<exists>n. (v, n) \<in> set c"] by simp
  also have "\<dots> \<longleftrightarrow> (\<exists>trie. (pd, trie) \<in> set (get_or [] terms path) \<and> (\<exists>c. (token, c) \<in> set trie \<and> (\<exists>n. (v, n) \<in> set c)))"
    using get_or_ex [OF oks(2), where d = "[]" and Q = "\<lambda>trie. \<exists>c. (token, c) \<in> set trie \<and> (\<exists>n. (v, n) \<in> set c)"] by simp
  also have "\<dots> \<longleftrightarrow> (\<exists>tries. (path, tries) \<in> set terms \<and> (\<exists>trie. (pd, trie) \<in> set tries \<and> (\<exists>c. (token, c) \<in> set trie \<and> (\<exists>n. (v, n) \<in> set c))))"
    using get_or_ex [OF oks(1), where d = "[]" and Q = "\<lambda>tries. \<exists>trie. (pd, trie) \<in> set tries \<and> (\<exists>c. (token, c) \<in> set trie \<and> (\<exists>n. (v, n) \<in> set c))"]
    by simp
  finally show ?thesis by blast
qed

lemma token_values_set:
  assumes "bt_ok trie"
  shows "v \<in> set (token_values env d trie token) \<longleftrightarrow>
    (\<exists>term c n. (term, c) \<in> set trie \<and> (v, n) \<in> set c
       \<and> (if disable_fuzzy env then token = term else dfa_accepts env token d term))"
proof (cases "disable_fuzzy env")
  case True
  then have "v \<in> set (token_values env d trie token) \<longleftrightarrow> (\<exists>c n. bt_get trie token = Some c \<and> (v, n) \<in> set c)"
    by (cases "bt_get trie token") (force simp: token_values_def)+
  with True show ?thesis by (auto simp: bt_get_iff [OF assms])
next
  case False
  then have "v \<in> set (token_values env d trie token) \<longleftrightarrow>
      (\<exists>e \<in> set trie. dfa_accepts env token d (fst e) \<and> v \<in> fst ` set (snd e))"
    by (auto simp: token_values_def split_beta) force+
  also have "\<dots> \<longleftrightarrow> (\<exists>term c. (term, c) \<in> set trie \<and> v \<in> fst ` set c \<and> dfa_accepts env token d term)"
    by (simp add: Bex_def) blast
  finally show ?thesis using False by (auto simp: image_iff Bex_def)
qed

lemma matching_values_set:
  assumes "tries_ok terms"
  shows "v \<in> fst ` set (matching_values env doc terms) \<longleftrightarrow>
    (\<exists>k. 0 < trie_count terms k v \<and> term_hits env doc k)"
proof -
  have ok: "bt_ok trie" if "(path, tries) \<in> set terms" "(pd, trie) \<in> set tries" for path tries pd trie
    using assms that by (fastforce simp: bt_all_def list_all_iff)
  have "v \<in> fst ` set (matching_values env doc terms) \<longleftrightarrow>
    (\<exists>path tries pre d trie token. (path, tries) \<in> set terms \<and> ((pre, d), trie) \<in> set tries
       \<and> token \<in> set (document_tokens env doc path pre) \<and> v \<in> set (token_values env d trie token))"
    unfolding matching_values_def by (auto simp: split_beta Bex_def)
  also have "\<dots> \<longleftrightarrow> (\<exists>path pre d term token. 0 < trie_count terms (path, (pre, d), term) v
       \<and> token \<in> set (document_tokens env doc path pre)
       \<and> (if disable_fuzzy env then token = term else dfa_accepts env token d term))"
    (is "?L \<longleftrightarrow> ?R")
  proof
    assume ?L
    then obtain path tries pre d trie token where a: "(path, tries) \<in> set terms" "((pre, d), trie) \<in> set tries"
      "token \<in> set (document_tokens env doc path pre)" "v \<in> set (token_values env d trie token)" by blast
    then show ?R
      unfolding trie_count_pos [OF assms] token_values_set [OF ok [OF a(1,2)]] by blast
  next
    assume ?R
    then obtain path pre d tries trie tm c n token where a: "(path, tries) \<in> set terms" "((pre, d), trie) \<in> set tries"
      "(tm, c) \<in> set trie" "(v, n) \<in> set c" "token \<in> set (document_tokens env doc path pre)"
      "if disable_fuzzy env then token = tm else dfa_accepts env token d tm"
      unfolding trie_count_pos [OF assms] by blast
    then have "v \<in> set (token_values env d trie token)"
      unfolding token_values_set [OF ok [OF a(1,2)]] by blast
    with a show ?L by blast
  qed
  also have "\<dots> \<longleftrightarrow> (\<exists>k. 0 < trie_count terms k v \<and> term_hits env doc k)"
    unfolding split_paired_Ex term_hits.simps list_ex_iff by blast
  finally show ?thesis .
qed

text \<open>The tokens of a prefix search: skipping a token already present loses no prefix.\<close>

lemma char_prefixes_trans:
  assumes "p \<in> set (char_prefixes t)" and "q \<in> set (char_prefixes p)"
  shows "q \<in> set (char_prefixes t)"
proof -
  obtain i where i: "1 \<le> i" "i < length t" "p = take i t" using assms(1) by (auto simp: char_prefixes_def)
  obtain j where j: "1 \<le> j" "j < length p" "q = take j p" "\<not> is_continuation (p ! j)"
    using assms(2) by (auto simp: char_prefixes_def)
  have "q = take j t" "\<not> is_continuation (t ! j)" "j < length t" using i j by auto
  with j(1) show ?thesis by (auto simp: char_prefixes_def)
qed

lemma prefixes_loop:
  assumes "\<And>p q. p \<in> fst ` set s \<Longrightarrow> q \<in> set (char_prefixes p) \<Longrightarrow> q \<in> fst ` set s"
    and "bt_ok s"
  shows "fst ` set (calculate_prefixes_loop tokens s)
    = fst ` set s \<union> (\<Union>t \<in> set tokens. insert t (set (char_prefixes t)))"
  using assms
proof (induction tokens s rule: calculate_prefixes_loop.induct)
  case (2 token tokens s)
  show ?case
  proof (cases "bt_get s token = None")
    case False
    then have "token \<in> fst ` set s" using bt_key_get [OF "2.prems"(2)] by auto
    moreover from this have "set (char_prefixes token) \<subseteq> fst ` set s" using "2.prems"(1) by blast
    ultimately show ?thesis using 2 False by auto
  next
    case True
    let ?s = "bs_extend (char_prefixes token) (bt_insert token () s)"
    have "q \<in> fst ` set ?s" if "p \<in> fst ` set ?s" "q \<in> set (char_prefixes p)" for p q
      using that "2.prems"(1) char_prefixes_trans by auto
    from "2.IH"(2) [OF _ this] True "2.prems"(2) show ?thesis by auto
  qed
qed simp

lemma calculate_prefixes_set:
  "set (calculate_prefixes tokens) = (\<Union>t \<in> set tokens. insert t (set (char_prefixes t)))"
  using prefixes_loop [of "[]" tokens] by (simp add: calculate_prefixes_def)

section \<open>The reads of a search overlap what they should\<close>

text \<open>The tries of the reads of a search hold exactly its terms.\<close>

definition query_reads_ok :: "query_reads \<Rightarrow> bool" where
  "query_reads_ok r = (tries_ok (fuzzy_terms r)
     \<and> (\<forall>k. trie_count (fuzzy_terms r) k () = count_list (map query_key (text_queries r)) k))"

abbreviation term_of_reads :: "query_reads \<Rightarrow> term_key \<Rightarrow> bool" where
  "term_of_reads r k \<equiv> k \<in> query_key ` set (text_queries r)"

lemma count_pos: "0 < count_list xs x \<longleftrightarrow> x \<in> set xs"
  using count_list_0_iff [of xs x] by auto

lemma trie_count_Nil: "trie_count [] k v = 0"
  by (cases k) simp

lemma QueryReads_new_ok: "query_reads_ok (QueryReads_new qs fcs)"
  by (simp add: query_reads_ok_def QueryReads_new_def extend_ok extend_count trie_count_Nil)

lemma QueryReads_empty_ok: "query_reads_ok QueryReads_empty"
  by (simp add: query_reads_ok_def QueryReads_empty_def trie_count_Nil)

lemma QueryReads_merge_ok: "query_reads_ok r \<Longrightarrow> query_reads_ok (QueryReads_merge r r')"
  by (simp add: query_reads_ok_def QueryReads_merge_def extend_ok extend_count)

lemma QueryReads_overlaps_iff:
  assumes "query_reads_ok r"
  shows "QueryReads_overlaps env r doc \<longleftrightarrow>
    (\<forall>c \<in> set (filter_conditions r). filter_matches env doc c)
    \<and> (text_queries r = [] \<or> (\<exists>k. term_of_reads r k \<and> term_hits env doc k))"
proof -
  have "SearchTermTries_overlaps env (fuzzy_terms r) doc \<longleftrightarrow> () \<in> fst ` set (matching_values env doc (fuzzy_terms r))"
    by (cases "matching_values env doc (fuzzy_terms r)") (auto simp: SearchTermTries_overlaps_def)
  also have "\<dots> \<longleftrightarrow> (\<exists>k. term_of_reads r k \<and> term_hits env doc k)"
    using assms unfolding query_reads_ok_def
    by (subst matching_values_set) (blast, simp only: count_pos set_map)
  finally show ?thesis by (auto simp: QueryReads_overlaps_def list_ex_iff)
qed

text \<open>The reads of a search overlap a document exactly when the document satisfies every filter
  and, if the search has terms, contains a token one of the terms accepts; the tries built by \<open>new\<close>
  and \<open>merge\<close> decide that without losing a term.\<close>

lemma search_reads_overlap:
  assumes "query_reads_ok r"
  shows "query_reads_ok (QueryReads_merge r (QueryReads_new qs fcs))
    \<and> (QueryReads_overlaps env (QueryReads_merge r (QueryReads_new qs fcs)) doc \<longleftrightarrow>
        list_all (filter_matches env doc) (filter_conditions r @ fcs)
        \<and> (text_queries r @ qs = [] \<or> list_ex (\<lambda>q. term_hits env doc (query_key q)) (text_queries r @ qs)))"
proof -
  have "query_reads_ok (QueryReads_merge r (QueryReads_new qs fcs))" by (rule QueryReads_merge_ok [OF assms])
  from this QueryReads_overlaps_iff [OF this] show ?thesis
    by (auto simp: QueryReads_merge_def QueryReads_new_def list_all_iff list_ex_iff)
qed

text \<open>Merging the reads of two searches can lose an overlap: a document that one of the searches
  depends on does not overlap the merged reads when the other search filters the same field by another
  value, since all filters of both have to match.\<close>

lemma merge_loses_overlap:
  "\<exists>env r s doc. query_reads_ok r \<and> query_reads_ok s \<and> QueryReads_overlaps env r doc
     \<and> \<not> QueryReads_overlaps env (QueryReads_merge r s) doc"
proof -
  define env where "env = \<lparr>tokenize = \<lambda>t. [t], dfa_accepts = \<lambda>t d u. t = u, disable_fuzzy = False, sha256 = id\<rparr>"
  let ?r = "QueryReads_new [] [Must [[97]] [UNDEFINED_TAG]]" and ?s = "QueryReads_new [] [Must [[97]] [NULL_TAG]]"
  define doc where "doc = \<lparr>packed_value = ObjectV [],
    packed_id = \<lparr>tablet_id = [], developer_id = \<lparr>id_table = 1, internal_id = []\<rparr>\<rparr>\<rparr>"
  have v: "search_value_to_bytes env (packed_get_path doc [[97]]) = [UNDEFINED_TAG]"
    by (simp add: doc_def packed_get_path_def ConvexObject_get_path_def bt_get_def search_value_to_bytes_def
        MAX_FILTER_FIELD_LENGTH_def)
  have "QueryReads_overlaps env ?r doc" "\<not> QueryReads_overlaps env (QueryReads_merge ?r ?s) doc"
    using v by (simp_all add: QueryReads_overlaps_def QueryReads_new_def QueryReads_merge_def tag_defs)
  with QueryReads_new_ok show ?thesis by blast
qed

section \<open>Subscriptions to searches\<close>

text \<open>
  The registered reads, by subscriber and index.  The filters of each subscriber are its filter
  list, and the terms are counted per subscriber.
\<close>

type_synonym search_registry = "subscriber_id \<Rightarrow> tablet_index_name \<Rightarrow> query_reads option"

definition search_subs_ok :: "search_registry \<Rightarrow> text_search_subscriptions \<Rightarrow> bool" where
  "search_subs_ok reg s = (bt_all bt_ok (filter_subscriptions s) \<and> bt_all tries_ok (fuzzy_searches s)
     \<and> (\<forall>index i. bt_get (get_or [] (filter_subscriptions s) index) i = map_option filter_conditions (reg i index))
     \<and> (\<forall>index k i. trie_count (get_or [] (fuzzy_searches s) index) k i
          = (case reg i index of None \<Rightarrow> 0 | Some r \<Rightarrow> count_list (map query_key (text_queries r)) k))
     \<and> (\<forall>index i. reg i index \<noteq> None \<longrightarrow> bt_get (fuzzy_searches s) index \<noteq> None))"

lemma search_subs_okI:
  assumes "bt_all bt_ok (filter_subscriptions s)" and "bt_all tries_ok (fuzzy_searches s)"
    and "\<And>index i. bt_get (get_or [] (filter_subscriptions s) index) i = map_option filter_conditions (reg i index)"
    and "\<And>index k i. trie_count (get_or [] (fuzzy_searches s) index) k i
          = (case reg i index of None \<Rightarrow> 0 | Some r \<Rightarrow> count_list (map query_key (text_queries r)) k)"
    and "\<And>index i. reg i index \<noteq> None \<Longrightarrow> bt_get (fuzzy_searches s) index \<noteq> None"
  shows "search_subs_ok reg s"
  unfolding search_subs_ok_def using assms by blast

lemma search_subs_okD:
  assumes "search_subs_ok reg s"
  shows "bt_all bt_ok (filter_subscriptions s)" and "bt_all tries_ok (fuzzy_searches s)"
    and "bt_get (get_or [] (filter_subscriptions s) index) i = map_option filter_conditions (reg i index)"
    and "trie_count (get_or [] (fuzzy_searches s) index) k i
          = (case reg i index of None \<Rightarrow> 0 | Some r \<Rightarrow> count_list (map query_key (text_queries r)) k)"
    and "reg i index \<noteq> None \<Longrightarrow> bt_get (fuzzy_searches s) index \<noteq> None"
  using assms unfolding search_subs_ok_def by blast+

lemma search_subs_new: "search_subs_ok (\<lambda>_ _. None) TextSearchSubscriptions_new"
  by (rule search_subs_okI) (simp_all add: TextSearchSubscriptions_new_def bt_get_def trie_count_Nil)

lemma search_subs_insert:
  assumes "search_subs_ok reg s" and "reg i index = None"
  shows "search_subs_ok (register i index (Some r) reg) (TextSearchSubscriptions_insert i index r s)"
proof (rule search_subs_okI)
  note ok = search_subs_okD [OF assms(1)]
  let ?s = "TextSearchSubscriptions_insert i index r s"
  have none: "get_or [] (get_or [] (filter_subscriptions s) index) i = []"
    using ok(3) [of index i] assms(2) by (simp add: get_or_def [of _ _ i])
  show "bt_all bt_ok (filter_subscriptions ?s)"
    using ok(1) bt_all_get_or [OF ok(1), of "[]" index] by (simp add: TextSearchSubscriptions_insert_def Let_def)
  show "bt_all tries_ok (fuzzy_searches ?s)"
    using ok(2) bt_all_get_or [OF ok(2), of "[]" index] by (simp add: TextSearchSubscriptions_insert_def extend_ok)
  show "bt_get (get_or [] (filter_subscriptions ?s) ix) j = map_option filter_conditions (register i index (Some r) reg j ix)" for ix j
    using ok(3) [of ix j] none by (auto simp: TextSearchSubscriptions_insert_def Let_def register_simp)
  show "trie_count (get_or [] (fuzzy_searches ?s) ix) k j
      = (case register i index (Some r) reg j ix of None \<Rightarrow> 0 | Some r \<Rightarrow> count_list (map query_key (text_queries r)) k)" for ix k j
    using ok(4) [of ix k j] assms(2) by (auto simp: TextSearchSubscriptions_insert_def register_simp extend_count)
  show "bt_get (fuzzy_searches ?s) ix \<noteq> None" if "register i index (Some r) reg j ix \<noteq> None" for ix j
    using that ok(5) [of j ix] by (auto simp: TextSearchSubscriptions_insert_def register_simp split: if_splits)
qed

lemma search_subs_remove:
  assumes ok: "search_subs_ok reg s" and r: "reg i index = Some r"
  shows "\<exists>s'. TextSearchSubscriptions_remove i index r s = Some s' \<and> search_subs_ok (register i index None reg) s'"
proof -
  let ?f = "filter_subscriptions s" and ?z = "fuzzy_searches s"
  note oks = search_subs_okD [OF ok]
  have g: "bt_get (get_or [] ?f index) i = Some (filter_conditions r)" using oks(3) [of index i] r by simp
  then have f: "bt_get ?f index = Some (get_or [] ?f index)"
    by (auto simp: get_or_def bt_get_def split: option.splits)
  obtain terms where z: "bt_get ?z index = Some terms" using oks(5) [of i index] r by auto
  have terms: "tries_ok terms" "get_or [] ?z index = terms"
    using z bt_all_get [OF oks(2)] by (simp_all add: get_or_def)
  have count: "trie_count terms k j = (case reg j index of None \<Rightarrow> 0 | Some r \<Rightarrow> count_list (map query_key (text_queries r)) k)" for k j
    using oks(4) [of index k j] by (simp only: terms(2))
  have "count_list (map query_key (text_queries r)) k \<le> trie_count terms k i" for k by (simp add: count r)
  from remove_count [OF terms(1) this]
  obtain t where t: "SearchTermTries_remove i (text_queries r) terms = Some t" "tries_ok t"
    "\<And>k w. trie_count t k w = trie_count terms k w - (if i = w then count_list (map query_key (text_queries r)) k else 0)"
    by blast
  define c where "c = bt_remove i (get_or [] ?f index)"
  define f' where "f' = (if c = [] then bt_remove index ?f else bt_insert index c ?f)"
  have cok: "bt_ok c" "bt_ok (get_or [] ?f index)" using bt_all_get_or [OF oks(1), of "[]" index] by (simp_all add: c_def)
  have f': "bt_all bt_ok f'" "get_or [] f' ix = (if ix = index then c else get_or [] ?f ix)" for ix
    using oks(1) cok bt_all_ok [OF oks(1)] by (auto simp: f'_def)
  have "TextSearchSubscriptions_remove i index r s = Some \<lparr>fuzzy_searches = bt_insert index t ?z, filter_subscriptions = f'\<rparr>"
    using f g z t(1) by (simp add: TextSearchSubscriptions_remove_def f'_def c_def Let_def)
  moreover have "search_subs_ok (register i index None reg) \<lparr>fuzzy_searches = bt_insert index t ?z, filter_subscriptions = f'\<rparr>"
  proof (rule search_subs_okI)
    let ?s = "\<lparr>fuzzy_searches = bt_insert index t ?z, filter_subscriptions = f'\<rparr>"
    show "bt_all bt_ok (filter_subscriptions ?s)" "bt_all tries_ok (fuzzy_searches ?s)"
      using oks(2) t(2) f'(1) by simp_all
    show "bt_get (get_or [] (filter_subscriptions ?s) ix) j = map_option filter_conditions (register i index None reg j ix)" for ix j
      using oks(3) [of ix j] cok(2) by (auto simp: f'(2) register_simp c_def)
    show "trie_count (get_or [] (fuzzy_searches ?s) ix) k j
        = (case register i index None reg j ix of None \<Rightarrow> 0 | Some r \<Rightarrow> count_list (map query_key (text_queries r)) k)" for ix k j
      using oks(4) [of ix k j] t(3) [of k j] count [of k j] r by (auto simp: register_simp)
    show "bt_get (fuzzy_searches ?s) ix \<noteq> None" if "register i index None reg j ix \<noteq> None" for ix j
      using that oks(5) [of j ix] by (auto simp: register_simp split: if_splits)
  qed
  ultimately show ?thesis by blast
qed

lemma fst_image_pairs: "i \<in> fst ` set m \<longleftrightarrow> (\<exists>v. (i, v) \<in> set m)"
  by force

lemma filter_matches_added:
  assumes "search_subs_ok reg s"
  shows "i \<in> fst ` set (add_filter_conditions_matches env doc s n) \<longleftrightarrow> i \<in> fst ` set n
    \<or> (\<exists>index r. fst index = tablet_id (packed_id doc) \<and> reg i index = Some r
         \<and> (\<exists>c \<in> set (filter_conditions r). filter_matches env doc c))"
proof -
  note ok = search_subs_okD [OF assms]
  have entry: "(\<exists>m. (index, m) \<in> set (filter_subscriptions s) \<and> (i, fcs) \<in> set m)
      \<longleftrightarrow> (\<exists>r. reg i index = Some r \<and> fcs = filter_conditions r)" for index fcs
  proof -
    have "bt_ok (get_or [] (filter_subscriptions s) index)" using bt_all_get_or [OF ok(1)] by simp
    then have "(\<exists>r. reg i index = Some r \<and> fcs = filter_conditions r)
        \<longleftrightarrow> (i, fcs) \<in> set (get_or [] (filter_subscriptions s) index)"
      using ok(3) [of index i] by (cases "reg i index") (auto simp: bt_get_iff [symmetric])
    also have "\<dots> \<longleftrightarrow> (\<exists>m. (index, m) \<in> set (filter_subscriptions s) \<and> (i, fcs) \<in> set m)"
      using get_or_ex [OF bt_all_ok [OF ok(1)], of "\<lambda>m. (i, fcs) \<in> set m" "[]" index] by simp
    finally show ?thesis by blast
  qed
  have "i \<in> fst ` set (add_filter_conditions_matches env doc s n) \<longleftrightarrow> i \<in> fst ` set n
    \<or> (\<exists>e \<in> set (filter_subscriptions s). fst (fst e) = tablet_id (packed_id doc)
         \<and> (\<exists>p \<in> set (snd e). i = fst p \<and> (\<exists>c \<in> set (snd p). filter_matches env doc c)))"
    unfolding add_filter_conditions_matches_def bs_extend_keys by (auto simp: split_beta split: if_splits)
  also have "\<dots> \<longleftrightarrow> i \<in> fst ` set n
    \<or> (\<exists>index fcs. fst index = tablet_id (packed_id doc)
         \<and> (\<exists>m. (index, m) \<in> set (filter_subscriptions s) \<and> (i, fcs) \<in> set m)
         \<and> (\<exists>c \<in> set fcs. filter_matches env doc c))"
    by (intro arg_cong2 [where f = "(\<or>)"] refl, simp only: Bex_def split_paired_Ex fst_conv snd_conv) blast
  finally show ?thesis unfolding entry by blast
qed

lemma fuzzy_matches_added:
  assumes "search_subs_ok reg s"
  shows "i \<in> fst ` set (add_fuzzy_matches env doc s n) \<longleftrightarrow> i \<in> fst ` set n
    \<or> (\<exists>index r. fst index = tablet_id (packed_id doc) \<and> reg i index = Some r
         \<and> (\<exists>k. term_of_reads r k \<and> term_hits env doc k))"
proof -
  note ok = search_subs_okD [OF assms]
  have entry: "(\<exists>terms. (index, terms) \<in> set (fuzzy_searches s) \<and> i \<in> fst ` set (matching_values env doc terms))
      \<longleftrightarrow> (\<exists>r. reg i index = Some r \<and> (\<exists>k. term_of_reads r k \<and> term_hits env doc k))" for index
  proof -
    have "\<not> i \<in> fst ` set (matching_values env doc [])" by (simp add: matching_values_def bs_extend_def)
    from get_or_ex [OF bt_all_ok [OF ok(2)], of "\<lambda>terms. i \<in> fst ` set (matching_values env doc terms)", OF this, of index]
    have "(\<exists>terms. (index, terms) \<in> set (fuzzy_searches s) \<and> i \<in> fst ` set (matching_values env doc terms))
        \<longleftrightarrow> i \<in> fst ` set (matching_values env doc (get_or [] (fuzzy_searches s) index))" by blast
    also have "\<dots> \<longleftrightarrow> (\<exists>k. 0 < trie_count (get_or [] (fuzzy_searches s) index) k i \<and> term_hits env doc k)"
      by (rule matching_values_set) (use bt_all_get_or [OF ok(2)] in simp)
    finally show ?thesis
      unfolding ok(4) by (cases "reg i index") (simp_all only: option.case count_pos set_map, auto)
  qed
  have "i \<in> fst ` set (add_fuzzy_matches env doc s n) \<longleftrightarrow> i \<in> fst ` set n
    \<or> (\<exists>index. fst index = tablet_id (packed_id doc)
         \<and> (\<exists>terms. (index, terms) \<in> set (fuzzy_searches s) \<and> i \<in> fst ` set (matching_values env doc terms)))"
    unfolding add_fuzzy_matches_def bs_extend_keys by (auto simp: split_beta)
  then show ?thesis unfolding entry by blast
qed

lemma search_matches_added:
  assumes "search_subs_ok reg s"
  shows "i \<in> fst ` set (TextSearchSubscriptions_add_matches env doc s n) \<longleftrightarrow> i \<in> fst ` set n
    \<or> (\<exists>index r. fst index = tablet_id (packed_id doc) \<and> reg i index = Some r
         \<and> ((\<exists>c \<in> set (filter_conditions r). filter_matches env doc c)
            \<or> (\<exists>k. term_of_reads r k \<and> term_hits env doc k)))"
  unfolding TextSearchSubscriptions_add_matches_def fuzzy_matches_added [OF assms] filter_matches_added [OF assms]
  by blast

lemma search_matches_ok: "bt_ok n \<Longrightarrow> bt_ok (TextSearchSubscriptions_add_matches env doc s n)"
  by (simp add: TextSearchSubscriptions_add_matches_def add_fuzzy_matches_def add_filter_conditions_matches_def)

text \<open>
  A subscriber is notified of every document its search reads overlap, unless the search has
  neither a term nor a filter.
\<close>

lemma overlap_notifies:
  assumes "search_subs_ok reg s" and "reg i index = Some r" and "query_reads_ok r"
    and "fst index = tablet_id (packed_id doc)" and "QueryReads_overlaps env r doc"
    and "text_queries r \<noteq> [] \<or> filter_conditions r \<noteq> []"
  shows "i \<in> fst ` set (TextSearchSubscriptions_add_matches env doc s n)"
proof -
  have "(\<exists>c \<in> set (filter_conditions r). filter_matches env doc c) \<or> (\<exists>k. term_of_reads r k \<and> term_hits env doc k)"
    using assms(5,6) unfolding QueryReads_overlaps_iff [OF assms(3)] by (cases "filter_conditions r") auto
  with assms(1,2,4) show ?thesis unfolding search_matches_added [OF assms(1)] by blast
qed

end
