(* ===== verification/Read_Set.thy ===== *)
theory Read_Set
  imports Interval_Set Search_Reads
begin

text \<open>
  The read set of a transaction (\<open>database/src/reads.rs\<close>): the index intervals and text searches a
  transaction or subscription depends on, the test whether a write overlaps them, and the recording
  operations with their limits.

  The knobs of the limits and of backtrace capture are a \<open>read_config\<close>; a stack trace is opaque, and
  \<open>current_trace\<close> is the one \<open>StackTrace::new\<close> takes.  Usage tracking is not modelled.  \<open>None\<close>
  as a result of a recording operation is a panic of \<open>IntervalSet::add\<close>, which never happens (below).
\<close>

declare split_paired_All [simp del] split_paired_Ex [simp del]

section \<open>Read sets\<close>

type_synonym stack_trace = bytes
type_synonym write_source = "bytes option"

record read_config =
  capture_backtraces :: bool
  current_trace :: stack_trace
  max_read_size_rows :: nat
  max_read_size_bytes :: nat
  max_read_set_intervals :: nat

record index_reads =
  ir_fields :: indexed_fields
  ir_intervals :: interval_set
  ir_stack_traces :: "(interval \<times> stack_trace) list option"

record read_set =
  rs_indexed :: "(tablet_index_name, index_reads) btree"
  rs_search :: "(tablet_index_name, query_reads) btree"

record conflicting_read =
  conflict_index :: tablet_index_name
  conflict_id :: resolved_document_id
  conflict_stack_traces :: "stack_trace list option"

record conflicting_read_with_write_source =
  conflict_read :: conflicting_read
  conflict_write_source :: write_source

definition ReadSet_empty :: read_set where
  "ReadSet_empty = \<lparr>rs_indexed = [], rs_search = []\<rparr>"

fun overlaps_indexed ::
    "packed_document \<Rightarrow> (tablet_index_name \<times> index_reads) list \<Rightarrow> conflicting_read option" where
  "overlaps_indexed doc [] = None"
| "overlaps_indexed doc ((index, r) # rest) =
     (if fst index = tablet_id (packed_id doc) then
        let index_key = IndexKey_into_bytes (PackedDocument_index_key doc (ir_fields r))
        in if IntervalSet_contains (ir_intervals r) index_key
           then Some \<lparr>conflict_index = index, conflict_id = packed_id doc,
                  conflict_stack_traces =
                    map_option (\<lambda>st. map snd (filter (\<lambda>(interval, _). Interval_contains interval index_key) st))
                      (ir_stack_traces r)\<rparr>
           else overlaps_indexed doc rest
      else overlaps_indexed doc rest)"

fun overlaps_search ::
    "search_env \<Rightarrow> packed_document \<Rightarrow> (tablet_index_name \<times> query_reads) list \<Rightarrow> conflicting_read option" where
  "overlaps_search env doc [] = None"
| "overlaps_search env doc ((index, search_reads) # rest) =
     (if fst index = tablet_id (packed_id doc) \<and> QueryReads_overlaps env search_reads doc
      then Some \<lparr>conflict_index = index, conflict_id = packed_id doc, conflict_stack_traces = None\<rparr>
      else overlaps_search env doc rest)"

definition ReadSet_overlaps :: "search_env \<Rightarrow> read_set \<Rightarrow> packed_document \<Rightarrow> conflicting_read option" where
  "ReadSet_overlaps env self doc =
     (case overlaps_indexed doc (rs_indexed self) of
        Some c \<Rightarrow> Some c
      | None \<Rightarrow> overlaps_search env doc (rs_search self))"

text \<open>One update: the new document is tested first, then the old one.\<close>

definition update_overlaps :: "search_env \<Rightarrow> read_set \<Rightarrow> packed_document_update \<Rightarrow> conflicting_read option" where
  "update_overlaps env self update =
     (case (case packed_new update of None \<Rightarrow> None | Some doc \<Rightarrow> ReadSet_overlaps env self doc) of
        Some c \<Rightarrow> Some c
      | None \<Rightarrow> (case packed_old update of None \<Rightarrow> None | Some doc \<Rightarrow> ReadSet_overlaps env self doc))"

type_synonym log_writes = "(resolved_document_id \<times> packed_document_update) list"
type_synonym log_entry = "timestamp \<times> log_writes \<times> write_source"

fun entry_overlaps ::
    "search_env \<Rightarrow> read_set \<Rightarrow> log_writes \<Rightarrow> conflicting_read option" where
  "entry_overlaps env self [] = None"
| "entry_overlaps env self ((_, update) # updates) =
     (case update_overlaps env self update of
        Some c \<Rightarrow> Some c
      | None \<Rightarrow> entry_overlaps env self updates)"

fun ReadSet_writes_overlap ::
    "search_env \<Rightarrow> read_set \<Rightarrow> log_entry list \<Rightarrow> conflicting_read_with_write_source option" where
  "ReadSet_writes_overlap env self [] = None"
| "ReadSet_writes_overlap env self ((_, updates, source) # rest) =
     (case entry_overlaps env self updates of
        Some c \<Rightarrow> Some \<lparr>conflict_read = c, conflict_write_source = source\<rparr>
      | None \<Rightarrow> ReadSet_writes_overlap env self rest)"

section \<open>The read set of a transaction\<close>

record transaction_read_size =
  total_document_size :: nat
  total_document_count :: nat

record transaction_read_set =
  tx_read_set :: read_set
  num_intervals :: nat
  user_tx_size :: transaction_read_size
  system_tx_size :: transaction_read_size

datatype pagination_limit = TooManyDocumentsRead nat | TooManyBytesRead nat | TooManyReads nat

definition zero_read_size :: transaction_read_size where
  "zero_read_size = \<lparr>total_document_size = 0, total_document_count = 0\<rparr>"

definition add_read_size :: "transaction_read_size \<Rightarrow> transaction_read_size \<Rightarrow> transaction_read_size" where
  "add_read_size a b =
     \<lparr>total_document_size = total_document_size a + total_document_size b,
      total_document_count = total_document_count a + total_document_count b\<rparr>"

definition TransactionReadSet_new :: transaction_read_set where
  "TransactionReadSet_new =
     \<lparr>tx_read_set = ReadSet_empty, num_intervals = 0, user_tx_size = zero_read_size, system_tx_size = zero_read_size\<rparr>"

definition record_indexed_inner ::
    "read_config \<Rightarrow> tablet_index_name \<Rightarrow> indexed_fields \<Rightarrow> interval list \<Rightarrow> read_set \<Rightarrow> ((nat \<times> nat) \<times> read_set) option" where
  "record_indexed_inner cfg index fs is rs =
     (let reads = get_or \<lparr>ir_fields = fs, ir_intervals = IntervalSet_new,
                           ir_stack_traces = (if capture_backtraces cfg then Some [] else None)\<rparr> (rs_indexed rs) index;
          traces = map_option (\<lambda>st. st @ map (\<lambda>i. (i, current_trace cfg)) is) (ir_stack_traces reads)
      in case fold_option (\<lambda>i s. IntervalSet_add s i) is (ir_intervals reads) of
           None \<Rightarrow> None
         | Some range_set \<Rightarrow>
             Some ((IntervalSet_len (ir_intervals reads), IntervalSet_len range_set),
                   rs\<lparr>rs_indexed := bt_insert index
                        (reads\<lparr>ir_intervals := range_set, ir_stack_traces := traces\<rparr>) (rs_indexed rs)\<rparr>))"

definition record_indexed_derived ::
    "read_config \<Rightarrow> tablet_index_name \<Rightarrow> indexed_fields \<Rightarrow> interval \<Rightarrow> transaction_read_set \<Rightarrow> transaction_read_set option" where
  "record_indexed_derived cfg index fs interval tx =
     map_option (\<lambda>(_, rs). tx\<lparr>tx_read_set := rs\<rparr>) (record_indexed_inner cfg index fs [interval] (tx_read_set tx))"

definition record_search :: "tablet_index_name \<Rightarrow> query_reads \<Rightarrow> read_set \<Rightarrow> read_set" where
  "record_search index search_reads rs =
     rs\<lparr>rs_search := bt_insert index (QueryReads_merge (get_or QueryReads_empty (rs_search rs) index) search_reads) (rs_search rs)\<rparr>"

definition TransactionReadSet_record_search ::
    "tablet_index_name \<Rightarrow> query_reads \<Rightarrow> transaction_read_set \<Rightarrow> transaction_read_set" where
  "TransactionReadSet_record_search index search_reads tx =
     tx\<lparr>tx_read_set := record_search index search_reads (tx_read_set tx)\<rparr>"

definition TransactionReadSet_merge ::
    "read_config \<Rightarrow> read_set \<Rightarrow> nat \<Rightarrow> transaction_read_size \<Rightarrow> transaction_read_size \<Rightarrow> transaction_read_set
     \<Rightarrow> transaction_read_set option" where
  "TransactionReadSet_merge cfg reads n user system tx =
     (case fold_option
             (\<lambda>(index, r) rs. map_option snd
                (record_indexed_inner cfg index (ir_fields r) (IntervalSet_iter (ir_intervals r)) rs))
             (rs_indexed reads) (tx_read_set tx) of
        None \<Rightarrow> None
      | Some rs \<Rightarrow>
          Some \<lparr>tx_read_set = fold (\<lambda>(index, r). record_search index r) (rs_search reads) rs,
                num_intervals = num_intervals tx + n,
                user_tx_size = add_read_size (user_tx_size tx) user,
                system_tx_size = add_read_size (system_tx_size tx) system\<rparr>)"

text \<open>The size is counted even when the limit is exceeded.\<close>

definition TableName_is_system :: "bytes \<Rightarrow> bool" where
  "TableName_is_system name = (name \<noteq> [] \<and> hd name = 95)"

definition count_document :: "nat \<Rightarrow> transaction_read_size \<Rightarrow> transaction_read_size" where
  "count_document n s =
     \<lparr>total_document_size = total_document_size s + n, total_document_count = total_document_count s + 1\<rparr>"

definition record_read_document ::
    "read_config \<Rightarrow> bytes \<Rightarrow> nat \<Rightarrow> bool \<Rightarrow> transaction_read_set \<Rightarrow> (pagination_limit + unit) \<times> transaction_read_set" where
  "record_read_document cfg table_name document_size is_virtual_table tx =
     (let is_system_table = TableName_is_system table_name \<and> \<not> is_virtual_table
      in if is_system_table
         then (Inr (), tx\<lparr>system_tx_size := count_document document_size (system_tx_size tx)\<rparr>)
         else let tx_size = count_document document_size (user_tx_size tx);
                  tx' = tx\<lparr>user_tx_size := tx_size\<rparr>
              in (if \<not> total_document_count tx_size \<le> max_read_size_rows cfg
                  then Inl (TooManyDocumentsRead (max_read_size_rows cfg))
                  else if \<not> total_document_size tx_size \<le> max_read_size_bytes cfg
                  then Inl (TooManyBytesRead (max_read_size_bytes cfg))
                  else Inr (), tx'))"

text \<open>The read is recorded even when the limit is exceeded; the subtraction saturates.\<close>

definition record_indexed_directly ::
    "read_config \<Rightarrow> tablet_index_name \<Rightarrow> indexed_fields \<Rightarrow> interval \<Rightarrow> transaction_read_set
     \<Rightarrow> ((pagination_limit + unit) \<times> transaction_read_set) option" where
  "record_indexed_directly cfg index fs interval tx =
     (case record_indexed_inner cfg index fs [interval] (tx_read_set tx) of
        None \<Rightarrow> None
      | Some ((before, after), rs) \<Rightarrow>
          let n = (num_intervals tx - before) + after
          in Some (if \<not> n \<le> max_read_set_intervals cfg then Inl (TooManyReads (max_read_set_intervals cfg)) else Inr (),
                   tx\<lparr>tx_read_set := rs, num_intervals := n\<rparr>))"

section \<open>What a read set covers\<close>

definition index_covers :: "tablet_index_name \<Rightarrow> index_reads \<Rightarrow> packed_document \<Rightarrow> bool" where
  "index_covers index r doc = (fst index = tablet_id (packed_id doc)
     \<and> IndexKey_into_bytes (PackedDocument_index_key doc (ir_fields r)) \<in> IntervalSet_points (ir_intervals r))"

definition search_covers :: "search_env \<Rightarrow> tablet_index_name \<Rightarrow> query_reads \<Rightarrow> packed_document \<Rightarrow> bool" where
  "search_covers env index r doc = (fst index = tablet_id (packed_id doc) \<and> QueryReads_overlaps env r doc)"

definition covers :: "search_env \<Rightarrow> read_set \<Rightarrow> packed_document \<Rightarrow> bool" where
  "covers env rs doc = ((\<exists>(index, r) \<in> set (rs_indexed rs). index_covers index r doc)
     \<or> (\<exists>(index, r) \<in> set (rs_search rs). search_covers env index r doc))"

definition update_documents :: "packed_document_update \<Rightarrow> packed_document list" where
  "update_documents u = (case packed_new u of None \<Rightarrow> [] | Some d \<Rightarrow> [d]) @ (case packed_old u of None \<Rightarrow> [] | Some d \<Rightarrow> [d])"

definition writes_documents :: "log_writes \<Rightarrow> packed_document list" where
  "writes_documents ws = concat (map (update_documents \<circ> snd) ws)"

text \<open>A batch of writes conflicts with a read set when one of its documents, old or new, is covered.\<close>

definition conflicts :: "search_env \<Rightarrow> read_set \<Rightarrow> log_writes \<Rightarrow> bool" where
  "conflicts env rs ws = list_ex (covers env rs) (writes_documents ws)"

definition index_reads_ok :: "index_reads \<Rightarrow> bool" where
  "index_reads_ok r = IntervalSet_ok (ir_intervals r)"

definition read_set_ok :: "read_set \<Rightarrow> bool" where
  "read_set_ok rs = (bt_all index_reads_ok (rs_indexed rs) \<and> bt_all query_reads_ok (rs_search rs))"

lemma overlaps_indexed_iff:
  "\<forall>e \<in> set m. index_reads_ok (snd e) \<Longrightarrow>
     overlaps_indexed doc m \<noteq> None \<longleftrightarrow> (\<exists>(index, r) \<in> set m. index_covers index r doc)"
  by (induction doc m rule: overlaps_indexed.induct)
    (auto simp: index_covers_def index_reads_ok_def interval_set.mem Let_def)

lemma overlaps_search_iff:
  "overlaps_search env doc m \<noteq> None \<longleftrightarrow> (\<exists>(index, r) \<in> set m. search_covers env index r doc)"
  by (induction env doc m rule: overlaps_search.induct) (auto simp: search_covers_def)

lemma ReadSet_overlaps_iff: "read_set_ok rs \<Longrightarrow> ReadSet_overlaps env rs doc \<noteq> None \<longleftrightarrow> covers env rs doc"
  using overlaps_indexed_iff [of "rs_indexed rs" doc] overlaps_search_iff [of env doc "rs_search rs"]
  by (auto simp: ReadSet_overlaps_def covers_def read_set_ok_def bt_all_def list_all_iff split: option.splits)

lemma entry_overlaps_iff: "read_set_ok rs \<Longrightarrow> entry_overlaps env rs ws \<noteq> None \<longleftrightarrow> conflicts env rs ws"
proof (induction env rs ws rule: entry_overlaps.induct)
  case (2 env rs i u ws)
  have "update_overlaps env rs u \<noteq> None \<longleftrightarrow> list_ex (covers env rs) (update_documents u)"
    by (auto simp: ReadSet_overlaps_iff [OF "2.prems", symmetric] update_overlaps_def update_documents_def
        split: option.splits)
  with 2 show ?case by (cases "update_overlaps env rs u") (auto simp: conflicts_def writes_documents_def)
qed (simp add: conflicts_def writes_documents_def)

lemma writes_overlap_iff:
  "read_set_ok rs \<Longrightarrow>
     ReadSet_writes_overlap env rs es \<noteq> None \<longleftrightarrow> (\<exists>(_, ws, _) \<in> set es. conflicts env rs ws)"
proof (induction env rs es rule: ReadSet_writes_overlap.induct)
  case (2 env rs ts ws src es)
  then show ?case
    using entry_overlaps_iff [OF "2.prems", of env ws] by (cases "entry_overlaps env rs ws") auto
qed simp

lemma writes_overlap_None:
  "read_set_ok rs \<Longrightarrow>
     ReadSet_writes_overlap env rs es = None \<longleftrightarrow> (\<forall>(_, ws, _) \<in> set es. \<not> conflicts env rs ws)"
  using writes_overlap_iff [of rs env es] by auto

section \<open>Recording reads\<close>

text \<open>
  A component that tracks reads promises that recording never fails, keeps its state well formed
  and adds exactly what the operation reads.
\<close>

locale read_tracker =
  fixes track :: "'op \<Rightarrow> 'r \<Rightarrow> 'r option"
    and ok :: "'r \<Rightarrow> bool"
    and covered :: "'r \<Rightarrow> 'd \<Rightarrow> bool"
    and reads :: "'op \<Rightarrow> 'd \<Rightarrow> bool"
  assumes track: "ok r \<Longrightarrow> \<exists>r'. track op r = Some r' \<and> ok r' \<and> (\<forall>d. covered r' d \<longleftrightarrow> covered r d \<or> reads op d)"
begin

lemma track_all:
  "ok r \<Longrightarrow> \<exists>r'. fold_option track ops r = Some r' \<and> ok r'
     \<and> (\<forall>d. covered r' d \<longleftrightarrow> covered r d \<or> (\<exists>op \<in> set ops. reads op d))"
proof (induction ops arbitrary: r)
  case (Cons op ops)
  obtain s where s: "track op r = Some s" "ok s" "\<forall>d. covered s d \<longleftrightarrow> covered r d \<or> reads op d"
    using track [OF Cons.prems, of op] by blast
  from Cons.IH [OF s(2)] s show ?case by auto
qed simp

lemma track_all_mono: "ok r \<Longrightarrow> fold_option track ops r = Some r' \<Longrightarrow> covered r d \<Longrightarrow> covered r' d"
  using track_all [of r ops] by auto

end

text \<open>The fields of an index are fixed while a transaction runs: \<open>fs\<close> gives them.\<close>

definition fields_agree :: "(tablet_index_name \<Rightarrow> indexed_fields) \<Rightarrow> read_set \<Rightarrow> bool" where
  "fields_agree fs rs = (\<forall>(index, r) \<in> set (rs_indexed rs). ir_fields r = fs index)"

definition record_reads ::
    "read_config \<Rightarrow> (tablet_index_name \<Rightarrow> indexed_fields) \<Rightarrow> tablet_index_name \<times> interval list \<Rightarrow> read_set \<Rightarrow> read_set option" where
  "record_reads cfg fs op rs = map_option snd (record_indexed_inner cfg (fst op) (fs (fst op)) (snd op) rs)"

definition interval_reads ::
    "(tablet_index_name \<Rightarrow> indexed_fields) \<Rightarrow> tablet_index_name \<times> interval list \<Rightarrow> packed_document \<Rightarrow> bool" where
  "interval_reads fs op doc = (fst (fst op) = tablet_id (packed_id doc)
     \<and> list_ex (\<lambda>i. Interval_contains i (IndexKey_into_bytes (PackedDocument_index_key doc (fs (fst op))))) (snd op))"

lemma covers_get:
  assumes "read_set_ok rs"
  shows "covers env rs doc \<longleftrightarrow> (\<exists>index r. bt_get (rs_indexed rs) index = Some r \<and> index_covers index r doc)
    \<or> (\<exists>index r. bt_get (rs_search rs) index = Some r \<and> search_covers env index r doc)"
proof -
  have "bt_ok (rs_indexed rs)" "bt_ok (rs_search rs)" using assms by (auto simp: read_set_ok_def dest: bt_all_ok)
  then show ?thesis unfolding covers_def by (simp add: bt_get_iff Bex_def split_paired_Ex)
qed

lemma fields_agree_get: "read_set_ok rs \<Longrightarrow> fields_agree fs rs \<longleftrightarrow> (\<forall>index r. bt_get (rs_indexed rs) index = Some r \<longrightarrow> ir_fields r = fs index)"
  unfolding fields_agree_def read_set_ok_def by (auto simp: bt_get_iff dest!: bt_all_ok)

lemma record_indexed_inner_correct:
  assumes ok: "read_set_ok rs" and agree: "fields_agree fs rs"
  obtains n rs' where "record_indexed_inner cfg index (fs index) is rs = Some (n, rs')"
    and "read_set_ok rs'" and "fields_agree fs rs'"
    and "\<And>env doc. covers env rs' doc \<longleftrightarrow> covers env rs doc \<or> interval_reads fs (index, is) doc"
proof -
  define r0 where "r0 = get_or \<lparr>ir_fields = fs index, ir_intervals = IntervalSet_new,
    ir_stack_traces = (if capture_backtraces cfg then Some [] else None)\<rparr> (rs_indexed rs) index"
  have ok0: "IntervalSet_ok (ir_intervals r0)"
    using bt_all_get_or [of index_reads_ok "rs_indexed rs"] ok interval_set.emp(1)
    by (simp add: r0_def read_set_ok_def index_reads_ok_def)
  have fs0: "ir_fields r0 = fs index"
    using agree unfolding fields_agree_get [OF ok] r0_def get_or_def by (cases "bt_get (rs_indexed rs) index") simp_all
  from interval_set.add_all [OF ok0, of "is"] obtain s where s:
    "fold_option (\<lambda>i s. IntervalSet_add s i) is (ir_intervals r0) = Some s" "IntervalSet_ok s"
    "IntervalSet_points s = IntervalSet_points (ir_intervals r0) \<union> (\<Union>i \<in> set is. Interval_points i)" by blast
  define r' where "r' = r0\<lparr>ir_intervals := s,
    ir_stack_traces := map_option (\<lambda>st. st @ map (\<lambda>i. (i, current_trace cfg)) is) (ir_stack_traces r0)\<rparr>"
  define rs' where "rs' = rs\<lparr>rs_indexed := bt_insert index r' (rs_indexed rs)\<rparr>"
  have ok': "read_set_ok rs'"
    using ok s(2) by (simp add: rs'_def read_set_ok_def index_reads_ok_def r'_def)
  have old: "index_covers index r0 doc \<longleftrightarrow> (\<exists>r. bt_get (rs_indexed rs) index = Some r \<and> index_covers index r doc)" for doc
    using interval_set.emp(2) by (auto simp: r0_def get_or_def index_covers_def split: option.splits)
  have new: "index_covers index r' doc \<longleftrightarrow> index_covers index r0 doc \<or> interval_reads fs (index, is) doc" for doc
    using s(3) fs0 by (auto simp: r'_def index_covers_def interval_reads_def list_ex_iff Interval_points_def)
  show ?thesis
  proof
    show "record_indexed_inner cfg index (fs index) is rs =
        Some ((IntervalSet_len (ir_intervals r0), IntervalSet_len s), rs')"
      using s(1) unfolding record_indexed_inner_def r0_def [symmetric] by (simp add: Let_def rs'_def r'_def)
    show "read_set_ok rs'" by (rule ok')
    show "fields_agree fs rs'"
      using agree fs0 unfolding fields_agree_get [OF ok] fields_agree_get [OF ok'] by (auto simp: rs'_def r'_def)
    show "covers env rs' doc \<longleftrightarrow> covers env rs doc \<or> interval_reads fs (index, is) doc" for env doc
    proof -
      have "(\<exists>ix r. bt_get (rs_indexed rs') ix = Some r \<and> index_covers ix r doc)
          \<longleftrightarrow> index_covers index r' doc \<or> (\<exists>ix r. ix \<noteq> index \<and> bt_get (rs_indexed rs) ix = Some r \<and> index_covers ix r doc)"
        by (auto simp: rs'_def)
      also have "\<dots> \<longleftrightarrow> (\<exists>ix r. bt_get (rs_indexed rs) ix = Some r \<and> index_covers ix r doc) \<or> interval_reads fs (index, is) doc"
        unfolding new old by metis
      finally show ?thesis unfolding covers_get [OF ok] covers_get [OF ok'] by (simp add: rs'_def) blast
    qed
  qed
qed

interpretation tracked: read_tracker "record_reads cfg fs" "\<lambda>rs. read_set_ok rs \<and> fields_agree fs rs" "covers env"
    "interval_reads fs"
proof
  fix rs op
  assume "read_set_ok rs \<and> fields_agree fs rs"
  then obtain n rs' where "record_indexed_inner cfg (fst op) (fs (fst op)) (snd op) rs = Some (n, rs')"
    "read_set_ok rs'" "fields_agree fs rs'" "\<And>env doc. covers env rs' doc \<longleftrightarrow> covers env rs doc \<or> interval_reads fs op doc"
    by (metis record_indexed_inner_correct prod.collapse)
  then show "\<exists>rs'. record_reads cfg fs op rs = Some rs' \<and> (read_set_ok rs' \<and> fields_agree fs rs')
      \<and> (\<forall>doc. covers env rs' doc \<longleftrightarrow> covers env rs doc \<or> interval_reads fs op doc)"
    by (auto simp: record_reads_def)
qed

lemma read_set_empty_ok: "read_set_ok ReadSet_empty \<and> fields_agree fs ReadSet_empty \<and> \<not> covers env ReadSet_empty doc"
  by (simp add: ReadSet_empty_def read_set_ok_def fields_agree_def covers_def)

lemma record_search_ok:
  assumes "read_set_ok rs"
  shows "read_set_ok (record_search index r rs)"
  using assms bt_all_get_or [of query_reads_ok "rs_search rs" QueryReads_empty index]
  by (simp add: read_set_ok_def record_search_def QueryReads_merge_ok QueryReads_empty_ok)

text \<open>C18. Recording index reads never panics, and the read set afterwards overlaps exactly the
  documents whose index key lies in one of the recorded intervals; so a batch of log entries
  conflicts exactly when it contains an old or new version of such a document.\<close>

theorem recorded_reads_conflict:
  "case fold_option (record_reads cfg fs) ops ReadSet_empty of
     None \<Rightarrow> False
   | Some rs \<Rightarrow>
       (ReadSet_overlaps env rs doc \<noteq> None \<longleftrightarrow> list_ex (\<lambda>op. interval_reads fs op doc) ops)
       \<and> (ReadSet_writes_overlap env rs es \<noteq> None \<longleftrightarrow>
            list_ex (\<lambda>(_, ws, _). list_ex (\<lambda>d. list_ex (\<lambda>op. interval_reads fs op d) ops) (writes_documents ws)) es)"
proof -
  obtain rs where rs: "fold_option (record_reads cfg fs) ops ReadSet_empty = Some rs" "read_set_ok rs"
    "\<And>doc. covers env rs doc \<longleftrightarrow> (\<exists>op \<in> set ops. interval_reads fs op doc)"
    using tracked.track_all [of ReadSet_empty fs cfg ops env] read_set_empty_ok by blast
  have c: "covers env rs = (\<lambda>d. list_ex (\<lambda>op. interval_reads fs op d) ops)" using rs(3) by (simp add: list_ex_iff fun_eq_iff)
  show ?thesis
    using ReadSet_overlaps_iff [OF rs(2), of env doc] writes_overlap_iff [OF rs(2), of env es]
    by (simp add: rs(1) c conflicts_def list_ex_iff split_beta)
qed

text \<open>Recording one more index read keeps every conflict the transaction already had and adds the
  new interval, whether or not the limit on the number of intervals is then reported as exceeded.\<close>

lemma record_indexed_directly_monotone:
  assumes "read_set_ok (tx_read_set tx)" and "fields_agree fs (tx_read_set tx)"
  shows "case record_indexed_directly cfg index (fs index) interval tx of
     None \<Rightarrow> False
   | Some (result, tx') \<Rightarrow>
       read_set_ok (tx_read_set tx') \<and> fields_agree fs (tx_read_set tx')
       \<and> (covers env (tx_read_set tx') doc \<longleftrightarrow> covers env (tx_read_set tx) doc \<or> interval_reads fs (index, [interval]) doc)
       \<and> (result = Inr () \<longleftrightarrow> num_intervals tx' \<le> max_read_set_intervals cfg)"
proof -
  from record_indexed_inner_correct [OF assms, of cfg index "[interval]"]
  obtain before after rs' where "record_indexed_inner cfg index (fs index) [interval] (tx_read_set tx) = Some ((before, after), rs')"
    "read_set_ok rs'" "fields_agree fs rs'"
    "\<And>env doc. covers env rs' doc \<longleftrightarrow> covers env (tx_read_set tx) doc \<or> interval_reads fs (index, [interval]) doc"
    by (metis surj_pair)
  then show ?thesis by (simp add: record_indexed_directly_def Let_def)
qed

end
