(* ===== verification/Write_Log.thy ===== *)
theory Write_Log
  imports Read_Set "HOL-Library.Multiset"
begin

text \<open>
  The write log (\<open>database/src/write_log.rs\<close>) with its waiters and retention, the tokens that are
  refreshed against it (\<open>database/src/token.rs\<close>), and the pending writes of the committer.

  The mutex is held for each operation, so an operation is a function of the state.  A waiter is its
  target timestamp, the identity of its channel and whether the receiver has gone away.  The knobs and
  the heap size of the log are a \<open>retention_config\<close>.
\<close>

section \<open>The log and its waiters\<close>

record write_log =
  by_ts :: "log_entry list"
  purged_ts :: timestamp

record waiter =
  waiter_ts :: timestamp
  waiter_id :: nat
  waiter_closed :: bool

record write_log_manager =
  manager_log :: write_log
  waiters :: "waiter list"

record retention_config =
  min_retention :: nat
  max_retention :: nat
  soft_max_size :: nat
  log_heap_size :: "log_entry list \<Rightarrow> nat"

datatype log_error =
    LogTimestamp timestamp_error | OutOfRetention timestamp timestamp | RefreshPastMax timestamp timestamp

definition WriteLog_new :: "timestamp \<Rightarrow> write_log" where
  "WriteLog_new initial_timestamp = \<lparr>by_ts = [], purged_ts = initial_timestamp\<rparr>"

definition WriteLog_max_ts :: "write_log \<Rightarrow> timestamp" where
  "WriteLog_max_ts l = (if by_ts l = [] then purged_ts l else fst (last (by_ts l)))"

definition WriteLogManager_new :: "timestamp \<Rightarrow> write_log_manager" where
  "WriteLogManager_new initial_timestamp = \<lparr>manager_log = WriteLog_new initial_timestamp, waiters = []\<rparr>"

text \<open>\<open>VecDeque::swap_remove_back\<close>: the last element takes the place of the removed one.\<close>

definition swap_remove_back :: "nat \<Rightarrow> 'a list \<Rightarrow> 'a list" where
  "swap_remove_back i xs = (if Suc i = length xs then butlast xs else (butlast xs)[i := last xs])"

lemma length_swap_remove_back [simp]: "length (swap_remove_back i xs) = length xs - 1"
  by (simp add: swap_remove_back_def)

function notify_loop :: "timestamp \<Rightarrow> nat \<Rightarrow> waiter list \<Rightarrow> waiter list \<Rightarrow> waiter list \<times> waiter list" where
  "notify_loop ts i ws notified =
     (if i < length ws then
        if waiter_ts (ws ! i) < ts \<or> waiter_closed (ws ! i)
        then notify_loop ts i (swap_remove_back i ws) (notified @ [ws ! i])
        else notify_loop ts (Suc i) ws notified
      else (ws, notified))"
  by pat_completeness auto
termination by (relation "measure (\<lambda>(_, i, ws, _). length ws - i)") auto

declare notify_loop.simps [simp del]

text \<open>The second component is the waiters that were sent the notification.\<close>

definition notify_waiters :: "write_log_manager \<Rightarrow> write_log_manager \<times> waiter list" where
  "notify_waiters m =
     (let (ws, notified) = notify_loop (WriteLog_max_ts (manager_log m)) 0 (waiters m) []
      in (m\<lparr>waiters := ws\<rparr>, notified))"

text \<open>\<open>None\<close> is the failed assertion.\<close>

definition WriteLogManager_append ::
    "timestamp \<Rightarrow> log_writes \<Rightarrow> write_source \<Rightarrow> write_log_manager \<Rightarrow> (write_log_manager \<times> waiter list) option" where
  "WriteLogManager_append ts writes source m =
     (if \<not> WriteLog_max_ts (manager_log m) < ts then None
      else Some (notify_waiters
        (m\<lparr>manager_log := (manager_log m)\<lparr>by_ts := by_ts (manager_log m) @ [(ts, writes, source)]\<rparr>\<rparr>)))"

text \<open>The result says whether the caller has to wait: for the waiter pushed with the given identity.\<close>

definition wait_for_higher_ts ::
    "timestamp \<Rightarrow> nat \<Rightarrow> write_log_manager \<Rightarrow> bool \<times> write_log_manager \<times> waiter list" where
  "wait_for_higher_ts target_ts new_id m =
     (let (m', notified) = notify_waiters m
      in if WriteLog_max_ts (manager_log m') \<le> target_ts
         then (True, m'\<lparr>waiters := waiters m' @ [\<lparr>waiter_ts = target_ts, waiter_id = new_id, waiter_closed = False\<rparr>]\<rparr>, notified)
         else (False, m', notified))"

fun retention_loop :: "retention_config \<Rightarrow> timestamp \<Rightarrow> timestamp \<Rightarrow> log_entry list \<Rightarrow> timestamp \<Rightarrow> write_log" where
  "retention_loop cfg max_ts target_ts [] purged = \<lparr>by_ts = [], purged_ts = purged\<rparr>"
| "retention_loop cfg max_ts target_ts (e # es) purged =
     (if fst e \<ge> max_ts then \<lparr>by_ts = e # es, purged_ts = purged\<rparr>
      else if fst e \<ge> target_ts \<and> log_heap_size cfg (e # es) < soft_max_size cfg
      then \<lparr>by_ts = e # es, purged_ts = purged\<rparr>
      else retention_loop cfg max_ts target_ts es (fst e))"

definition sub_or_min :: "timestamp \<Rightarrow> nat \<Rightarrow> timestamp" where
  "sub_or_min t d = (case Timestamp_sub t d of Inl _ \<Rightarrow> Timestamp_MIN | Inr u \<Rightarrow> u)"

definition enforce_retention :: "retention_config \<Rightarrow> timestamp \<Rightarrow> write_log \<Rightarrow> write_log" where
  "enforce_retention cfg current_ts l =
     retention_loop cfg (sub_or_min current_ts (min_retention cfg)) (sub_or_min current_ts (max_retention cfg))
       (by_ts l) (purged_ts l)"

definition enforce_retention_policy :: "retention_config \<Rightarrow> timestamp \<Rightarrow> write_log_manager \<Rightarrow> write_log_manager" where
  "enforce_retention_policy cfg current_ts m = m\<lparr>manager_log := enforce_retention cfg current_ts (manager_log m)\<rparr>"

text \<open>
  The binary search on the ascending timestamps gives the position of the first entry at or after
  \<open>from\<close>.
\<close>

definition WriteLog_iter :: "write_log \<Rightarrow> timestamp \<Rightarrow> timestamp \<Rightarrow> log_error + log_entry list" where
  "WriteLog_iter l start to =
     (if \<not> purged_ts l < start then Inl (OutOfRetention start (purged_ts l))
      else Inr (takeWhile (\<lambda>e. fst e \<le> to) (dropWhile (\<lambda>e. fst e < start) (by_ts l))))"

definition timestamp_succ :: "timestamp \<Rightarrow> log_error + timestamp" where
  "timestamp_succ t = (case Timestamp_succ t of Inl e \<Rightarrow> Inl (LogTimestamp e) | Inr u \<Rightarrow> Inr u)"

definition WriteLog_is_stale ::
    "search_env \<Rightarrow> write_log \<Rightarrow> read_set \<Rightarrow> timestamp \<Rightarrow> timestamp
     \<Rightarrow> log_error + conflicting_read_with_write_source option" where
  "WriteLog_is_stale env l reads reads_ts ts =
     bind_result (timestamp_succ reads_ts) (\<lambda>start.
     bind_result (WriteLog_iter l start ts) (\<lambda>es. Inr (ReadSet_writes_overlap env reads es)))"

section \<open>Tokens\<close>

record token =
  token_reads :: read_set
  token_ts :: timestamp

definition Token_empty :: "timestamp \<Rightarrow> token" where
  "Token_empty ts = \<lparr>token_reads = ReadSet_empty, token_ts = ts\<rparr>"

text \<open>\<open>None\<close> is the failed assertion.\<close>

definition Token_advance_ts :: "token \<Rightarrow> timestamp \<Rightarrow> token option" where
  "Token_advance_ts t ts = (if token_ts t < ts then Some (t\<lparr>token_ts := ts\<rparr>) else None)"

text \<open>
  Refreshing a token: \<open>Inr None\<close> when it has become stale or the log no longer reaches back to it.
  The assertion of \<open>advance_ts\<close> holds since its caller has tested it.
\<close>

definition WriteLog_refresh_token ::
    "search_env \<Rightarrow> write_log \<Rightarrow> token \<Rightarrow> timestamp \<Rightarrow> log_error + token option" where
  "WriteLog_refresh_token env l t ts =
     (case WriteLog_is_stale env l (token_reads t) (token_ts t) ts of
        Inr (Some _) \<Rightarrow> Inr None
      | Inl (OutOfRetention _ _) \<Rightarrow> Inr None
      | Inl e \<Rightarrow> Inl e
      | Inr None \<Rightarrow> Inr (if token_ts t < ts then Token_advance_ts t ts else Some t))"

definition LogReader_refresh_token ::
    "search_env \<Rightarrow> write_log_manager \<Rightarrow> token \<Rightarrow> timestamp \<Rightarrow> log_error + token option" where
  "LogReader_refresh_token env m t ts =
     (let max_ts = WriteLog_max_ts (manager_log m)
      in if \<not> ts \<le> max_ts then Inl (RefreshPastMax ts max_ts)
         else WriteLog_refresh_token env (manager_log m) t ts)"

definition refresh_reads_until_max_ts ::
    "search_env \<Rightarrow> write_log_manager \<Rightarrow> token \<Rightarrow> log_error + token option" where
  "refresh_reads_until_max_ts env m t =
     WriteLog_refresh_token env (manager_log m) t (WriteLog_max_ts (manager_log m))"

section \<open>Pending writes\<close>

type_synonym pending_writes = "(timestamp, log_writes \<times> write_source) btree"
type_synonym pending_write_handle = "timestamp option"

definition PendingWrites_new :: pending_writes where
  "PendingWrites_new = []"

definition PendingWrites_push_back ::
    "timestamp \<Rightarrow> log_writes \<Rightarrow> write_source \<Rightarrow> pending_writes \<Rightarrow> (pending_write_handle \<times> pending_writes) option" where
  "PendingWrites_push_back ts writes source p =
     (if p \<noteq> [] \<and> \<not> fst (last p) < ts then None
      else Some (Some ts, bt_insert ts (writes, source) p))"

definition PendingWrites_iter :: "pending_writes \<Rightarrow> timestamp \<Rightarrow> timestamp \<Rightarrow> log_entry list" where
  "PendingWrites_iter p start to =
     map (\<lambda>(ts, w, source). (ts, w, source)) (filter (\<lambda>e. start \<le> fst e \<and> fst e \<le> to) p)"

definition PendingWrites_is_stale ::
    "search_env \<Rightarrow> pending_writes \<Rightarrow> read_set \<Rightarrow> timestamp \<Rightarrow> timestamp
     \<Rightarrow> log_error + conflicting_read_with_write_source option" where
  "PendingWrites_is_stale env p reads reads_ts ts =
     bind_result (timestamp_succ reads_ts) (\<lambda>start. Inr (ReadSet_writes_overlap env reads (PendingWrites_iter p start ts)))"

definition PendingWrites_pop_first ::
    "pending_write_handle \<Rightarrow> pending_writes \<Rightarrow> log_entry option \<times> pending_write_handle \<times> pending_writes" where
  "PendingWrites_pop_first handle p =
     (case p of
        [] \<Rightarrow> (None, handle, [])
      | (ts, writes, source) # rest \<Rightarrow>
          (Some (ts, writes, source), if handle = Some ts then None else handle, rest))"

definition PendingWrites_min_ts :: "pending_writes \<Rightarrow> timestamp option" where
  "PendingWrites_min_ts p = (case p of [] \<Rightarrow> None | e # _ \<Rightarrow> Some (fst e))"

definition must_commit_ts :: "pending_write_handle \<Rightarrow> timestamp option" where
  "must_commit_ts h = h"

section \<open>The log represents the committed history\<close>

text \<open>
  The history is the sequence of all entries ever appended.  The log holds those after
  \<open>purged_ts\<close>; retention moves \<open>purged_ts\<close> forward and nothing else.
\<close>

definition ascending :: "log_entry list \<Rightarrow> bool" where
  "ascending es = sorted_wrt (<) (map fst es)"

definition log_represents :: "log_entry list \<Rightarrow> write_log \<Rightarrow> bool" where
  "log_represents H l = (ascending H \<and> by_ts l = filter (\<lambda>e. purged_ts l < fst e) H)"

lemma ascending_simps [simp]:
  "ascending []" "ascending (e # es) \<longleftrightarrow> (\<forall>x \<in> set es. fst e < fst x) \<and> ascending es"
  "ascending (es @ fs) \<longleftrightarrow> ascending es \<and> ascending fs \<and> (\<forall>x \<in> set es. \<forall>y \<in> set fs. fst x < fst y)"
  by (auto simp: ascending_def sorted_wrt_append)

lemma ascending_filter: "ascending es \<Longrightarrow> ascending (filter P es)"
  by (induction es) auto

lemma ascending_range:
  "ascending es \<Longrightarrow> takeWhile (\<lambda>e. fst e \<le> to) (dropWhile (\<lambda>e. fst e < start) es)
     = filter (\<lambda>e. start \<le> fst e \<and> fst e \<le> to) es"
proof (induction es)
  case (Cons e es)
  show ?case
  proof (cases "fst e < start")
    case False
    then have later: "\<forall>x \<in> set es. start \<le> fst x" using Cons.prems by force
    have "takeWhile (\<lambda>e. fst e \<le> to) es = filter (\<lambda>e. fst e \<le> to) es" if "ascending es" for es
      using that by (induction es) (auto simp: filter_empty_conv eq_commute [of "[]"])
    moreover have "filter (\<lambda>e. start \<le> fst e \<and> fst e \<le> to) es = filter (\<lambda>e. fst e \<le> to) es"
      using later by (intro filter_cong) auto
    ultimately show ?thesis using False Cons.prems by (auto simp: filter_empty_conv eq_commute [of "[]"])
  qed (use Cons in auto)
qed simp

lemma log_represents_new: "ascending H \<Longrightarrow> \<forall>e \<in> set H. fst e \<le> t \<Longrightarrow> log_represents H (WriteLog_new t)"
  by (auto simp: log_represents_def WriteLog_new_def filter_empty_conv eq_commute [of "[]"])

lemma log_max_ts:
  assumes "log_represents H l"
  shows "\<forall>e \<in> set H. fst e \<le> WriteLog_max_ts l" and "purged_ts l \<le> WriteLog_max_ts l"
proof -
  have sorted: "ascending (by_ts l)" using assms by (simp add: log_represents_def ascending_filter)
  have elem: "e \<in> set (by_ts l) \<longleftrightarrow> e \<in> set H \<and> purged_ts l < fst e" for e
    using assms by (simp add: log_represents_def)
  have last: "fst e \<le> fst (last es)" if "e \<in> set es" "ascending es" for e and es :: "log_entry list"
    using that by (cases es rule: rev_cases) (auto simp: less_imp_le)
  show "purged_ts l \<le> WriteLog_max_ts l"
    using elem [of "last (by_ts l)"] by (auto simp: WriteLog_max_ts_def less_imp_le)
  then show "\<forall>e \<in> set H. fst e \<le> WriteLog_max_ts l"
    using elem last [OF _ sorted] by (cases "by_ts l = []") (auto simp: WriteLog_max_ts_def not_less, meson not_less order_trans)
qed

lemma log_represents_append:
  assumes "log_represents H l" and "WriteLog_max_ts l < ts"
  shows "log_represents (H @ [(ts, ws, src)]) (l\<lparr>by_ts := by_ts l @ [(ts, ws, src)]\<rparr>)"
proof -
  have "\<forall>e \<in> set H. fst e < ts" "purged_ts l < ts" using log_max_ts [OF assms(1)] assms(2) by (auto intro: le_less_trans)
  then show ?thesis using assms(1) by (simp add: log_represents_def)
qed

lemma filter_after_first:
  assumes "ascending H" and "filter (\<lambda>x. p < fst x) H = e # es"
  shows "filter (\<lambda>x. fst e < fst x) H = es"
proof -
  have "e \<in> set (filter (\<lambda>x. p < fst x) H)" by (simp add: assms(2))
  then have p: "p < fst e" by simp
  have "ascending (e # es)" using ascending_filter [OF assms(1), of "\<lambda>x. p < fst x"] assms(2) by simp
  have "filter (\<lambda>x. fst e < fst x) H = filter (\<lambda>x. fst e < fst x) (filter (\<lambda>x. p < fst x) H)"
    using p by (auto intro!: filter_cong)
  also have "\<dots> = es" using \<open>ascending (e # es)\<close> by (auto simp: assms(2) intro!: filter_True)
  finally show ?thesis .
qed

lemma retention_loop_correct:
  "log_represents H \<lparr>by_ts = es, purged_ts = p\<rparr> \<Longrightarrow>
     log_represents H (retention_loop cfg m t es p)
     \<and> (purged_ts (retention_loop cfg m t es p) = p \<or> purged_ts (retention_loop cfg m t es p) < m)
     \<and> p \<le> purged_ts (retention_loop cfg m t es p)"
proof (induction cfg m t es p rule: retention_loop.induct)
  case (2 cfg m t e es p)
  have es: "filter (\<lambda>x. p < fst x) H = e # es" using "2.prems" by (simp add: log_represents_def)
  then have "e \<in> set (filter (\<lambda>x. p < fst x) H)" by simp
  then have "p < fst e" by simp
  moreover have "log_represents H \<lparr>by_ts = es, purged_ts = fst e\<rparr>"
    using filter_after_first [OF _ es] "2.prems" by (simp add: log_represents_def)
  ultimately show ?case using 2 by auto
qed simp

lemma enforce_retention_represents: "log_represents H l \<Longrightarrow> log_represents H (enforce_retention cfg ts l)"
  using retention_loop_correct [of H "by_ts l" "purged_ts l"] by (simp add: enforce_retention_def log_represents_def)

lemma iter_history:
  assumes "log_represents H l" and "purged_ts l < start"
  shows "WriteLog_iter l start to = Inr (filter (\<lambda>e. start \<le> fst e \<and> fst e \<le> to) H)"
proof -
  have "ascending (by_ts l)" using assms(1) by (simp add: log_represents_def ascending_filter)
  then have "WriteLog_iter l start to = Inr (filter (\<lambda>e. start \<le> fst e \<and> fst e \<le> to) (by_ts l))"
    using assms(2) by (simp add: WriteLog_iter_def ascending_range)
  also have "filter (\<lambda>e. start \<le> fst e \<and> fst e \<le> to) (by_ts l) = filter (\<lambda>e. start \<le> fst e \<and> fst e \<le> to) H"
    using assms by (auto simp: log_represents_def intro!: filter_cong)
  finally show ?thesis .
qed

lemma is_stale_history:
  assumes "log_represents H l" and "t < Timestamp_MAX"
  shows "WriteLog_is_stale env l rs t to =
    (if purged_ts l \<le> t then Inr (ReadSet_writes_overlap env rs (filter (\<lambda>e. t < fst e \<and> fst e \<le> to) H))
     else Inl (OutOfRetention (Suc t) (purged_ts l)))"
  using iter_history [OF assms(1), of "Suc t" to] assms(2)
  by (simp add: WriteLog_is_stale_def timestamp_succ_def Suc_le_eq WriteLog_iter_def)

section \<open>Sources of conflicts\<close>

text \<open>
  The committer and the subscriptions ask two components whether a read set is still valid at a later
  timestamp.  What they rely on: an answer without conflict rules out every entry the component
  stands for in the range, and a reported conflict is real.
\<close>

locale conflict_source =
  fixes stale :: "'l \<Rightarrow> read_set \<Rightarrow> timestamp \<Rightarrow> timestamp \<Rightarrow> log_error + conflicting_read_with_write_source option"
    and stands_for :: "'l \<Rightarrow> log_entry set"
    and ok :: "'l \<Rightarrow> bool"
    and env :: search_env
  assumes no_conflict: "ok l \<Longrightarrow> read_set_ok rs \<Longrightarrow> stale l rs a b = Inr None \<Longrightarrow> e \<in> stands_for l \<Longrightarrow>
      a < fst e \<Longrightarrow> fst e \<le> b \<Longrightarrow> \<not> conflicts env rs (fst (snd e))"
    and conflict: "ok l \<Longrightarrow> read_set_ok rs \<Longrightarrow> stale l rs a b = Inr (Some c) \<Longrightarrow>
      \<exists>e \<in> stands_for l. a < fst e \<and> fst e \<le> b \<and> conflicts env rs (fst (snd e))"
begin

definition valid_until :: "'l \<Rightarrow> read_set \<Rightarrow> timestamp \<Rightarrow> timestamp \<Rightarrow> bool" where
  "valid_until l rs a b = (\<forall>e \<in> stands_for l. a < fst e \<longrightarrow> fst e \<le> b \<longrightarrow> \<not> conflicts env rs (fst (snd e)))"

lemma stale_None: "ok l \<Longrightarrow> read_set_ok rs \<Longrightarrow> stale l rs a b = Inr None \<Longrightarrow> valid_until l rs a b"
  using no_conflict by (auto simp: valid_until_def)

lemma stale_iff: "ok l \<Longrightarrow> read_set_ok rs \<Longrightarrow> stale l rs a b = Inr r \<Longrightarrow> r = None \<longleftrightarrow> valid_until l rs a b"
  by (cases r) (auto simp: valid_until_def dest: no_conflict conflict)

lemma valid_until_trans: "valid_until l rs a b \<Longrightarrow> valid_until l rs b c \<Longrightarrow> valid_until l rs a c"
  unfolding valid_until_def by (meson leI)

lemma valid_until_mono: "valid_until l rs a b \<Longrightarrow> a \<le> a' \<Longrightarrow> b' \<le> b \<Longrightarrow> valid_until l rs a' b'"
  unfolding valid_until_def by force

end

text \<open>The log stands for the whole history it represents, also for what was purged.\<close>

lemma is_stale_Inr:
  assumes "log_represents H l" and "WriteLog_is_stale env l rs a b = Inr r"
  shows "r = ReadSet_writes_overlap env rs (filter (\<lambda>e. a < fst e \<and> fst e \<le> b) H)"
proof -
  have "a < Timestamp_MAX"
    using assms(2) by (auto simp: WriteLog_is_stale_def timestamp_succ_def Timestamp_succ_def split: if_splits)
  with is_stale_history [OF assms(1) this, of env rs b] assms(2) show ?thesis by (simp split: if_splits)
qed

interpretation log: conflict_source "WriteLog_is_stale env" "\<lambda>_. set H" "log_represents H" env for env H
proof
  fix l rs a b e
  assume a: "log_represents H l" "read_set_ok rs" "WriteLog_is_stale env l rs a b = Inr None"
    "e \<in> set H" "a < fst e" "fst e \<le> b"
  from is_stale_Inr [OF a(1,3)]
  have "ReadSet_writes_overlap env rs (filter (\<lambda>e. a < fst e \<and> fst e \<le> b) H) = None" by simp
  with a show "\<not> conflicts env rs (fst (snd e))"
    unfolding writes_overlap_None [OF a(2)] by (cases e) auto
next
  fix l rs a b c
  assume a: "log_represents H l" "read_set_ok rs" "WriteLog_is_stale env l rs a b = Inr (Some c)"
  from is_stale_Inr [OF a(1,3)]
  have "ReadSet_writes_overlap env rs (filter (\<lambda>e. a < fst e \<and> fst e \<le> b) H) \<noteq> None" by (metis option.distinct(1))
  then show "\<exists>e \<in> set H. a < fst e \<and> fst e \<le> b \<and> conflicts env rs (fst (snd e))"
    unfolding writes_overlap_iff [OF a(2)] by force
qed

text \<open>The pending writes stand for themselves.\<close>

lemma pending_iter_set: "set (PendingWrites_iter p start to) = {e \<in> set p. start \<le> fst e \<and> fst e \<le> to}"
  by (auto simp: PendingWrites_iter_def)

lemma pending_is_stale_Inr:
  "PendingWrites_is_stale env p rs a b = Inr r \<Longrightarrow> r = ReadSet_writes_overlap env rs (PendingWrites_iter p (Suc a) b)"
  by (auto simp: PendingWrites_is_stale_def timestamp_succ_def Timestamp_succ_def split: if_splits)

interpretation pending: conflict_source "PendingWrites_is_stale env" "set" bt_ok env for env
proof
  fix p :: pending_writes and rs a b e
  assume a: "bt_ok p" "read_set_ok rs" "PendingWrites_is_stale env p rs a b = Inr None" "e \<in> set p" "a < fst e" "fst e \<le> b"
  from pending_is_stale_Inr [OF a(3)] have "ReadSet_writes_overlap env rs (PendingWrites_iter p (Suc a) b) = None" by simp
  with a show "\<not> conflicts env rs (fst (snd e))"
    unfolding writes_overlap_None [OF a(2)] pending_iter_set by (cases e) (auto simp: Suc_le_eq)
next
  fix p :: pending_writes and rs a b c
  assume a: "bt_ok p" "read_set_ok rs" "PendingWrites_is_stale env p rs a b = Inr (Some c)"
  from pending_is_stale_Inr [OF a(3)] have "ReadSet_writes_overlap env rs (PendingWrites_iter p (Suc a) b) \<noteq> None" by (metis option.distinct(1))
  then show "\<exists>e \<in> set p. a < fst e \<and> fst e \<le> b \<and> conflicts env rs (fst (snd e))"
    unfolding writes_overlap_iff [OF a(2)] pending_iter_set by (force simp: Suc_le_eq)
qed

section \<open>Waiters\<close>

abbreviation due :: "timestamp \<Rightarrow> waiter \<Rightarrow> bool" where
  "due ts w \<equiv> waiter_ts w < ts \<or> waiter_closed w"

lemma swap_remove_nth: "i < length xs \<Longrightarrow> j < i \<Longrightarrow> swap_remove_back i xs ! j = xs ! j"
  by (auto simp: swap_remove_back_def nth_butlast)

lemma swap_remove_mset: "i < length xs \<Longrightarrow> add_mset (xs ! i) (mset (swap_remove_back i xs)) = mset xs"
proof (cases xs rule: rev_cases)
  case (snoc ys y)
  assume "i < length xs"
  with snoc show ?thesis
    by (cases "i = length ys") (simp_all add: swap_remove_back_def nth_append mset_update)
qed simp

lemma notify_loop_correct:
  assumes "\<forall>j < i. \<not> due ts (ws ! j)" and "i \<le> length ws"
  shows "mset (fst (notify_loop ts i ws n)) = filter_mset (\<lambda>w. \<not> due ts w) (mset ws)
    \<and> mset (snd (notify_loop ts i ws n)) = mset n + filter_mset (due ts) (mset ws)"
  using assms
proof (induction ts i ws n rule: notify_loop.induct)
  case (1 ts i ws n)
  show ?case
  proof (cases "i < length ws")
    case False
    then have "\<forall>w \<in> set ws. \<not> due ts w" using "1.prems" by (metis in_set_conv_nth le_antisym not_less)
    then have "filter_mset (\<lambda>w. \<not> due ts w) (mset ws) = mset ws" "filter_mset (due ts) (mset ws) = {#}"
      by (auto simp: filter_mset_eq_conv filter_mset_False intro: multiset_eqI)
    with False show ?thesis by (simp add: notify_loop.simps [of ts i])
  next
    case True
    show ?thesis
    proof (cases "due ts (ws ! i)")
      case due: True
      have "\<forall>j < i. \<not> due ts (swap_remove_back i ws ! j)" using "1.prems" True by (simp add: swap_remove_nth)
      from "1.IH"(1) [OF True due this] True
      show ?thesis unfolding swap_remove_mset [OF True, symmetric] using due
        by (auto simp: notify_loop.simps [of ts i ws])
    next
      case False
      have "\<forall>j < Suc i. \<not> due ts (ws ! j)" using "1.prems" False by (auto simp: less_Suc_eq)
      from "1.IH"(2) [OF True False this] True False show ?thesis by (auto simp: notify_loop.simps [of ts i ws])
    qed
  qed
qed

text \<open>Appending to the log wakes exactly the waiters whose timestamp the log has passed, or whose
  receiver is gone, each once; all others keep waiting for a timestamp the log has not passed.  A
  caller of \<open>wait_for_higher_ts\<close> only waits when the log has not passed its target.\<close>

lemma append_wakes_waiters:
  assumes "WriteLog_max_ts (manager_log m) < ts"
  shows "case WriteLogManager_append ts ws src m of
     None \<Rightarrow> False
   | Some (m', notified) \<Rightarrow>
       WriteLog_max_ts (manager_log m') = ts
       \<and> mset notified = filter_mset (due ts) (mset (waiters m))
       \<and> mset (waiters m') = filter_mset (\<lambda>w. \<not> due ts w) (mset (waiters m))
       \<and> (fst (wait_for_higher_ts target new_id m') \<longleftrightarrow> ts \<le> target)"
proof -
  have max: "WriteLog_max_ts (l\<lparr>by_ts := by_ts l @ [(ts, ws, src)]\<rparr>) = ts" for l
    by (simp add: WriteLog_max_ts_def)
  show ?thesis
    using notify_loop_correct [where i = 0 and ts = ts and ws = "waiters m" and n = "[]"] assms
    by (simp add: WriteLogManager_append_def notify_waiters_def wait_for_higher_ts_def max split_beta)
qed

section \<open>Properties of the log\<close>



text \<open>C4. A token that the log refreshes to a later timestamp is valid there: no entry of the whole
  committed history between the two timestamps overlaps its reads.  A token is refused only when such
  an entry exists or the log no longer reaches back to it.\<close>

theorem refresh_token_sound:
  assumes "log_represents H l" and "read_set_ok (token_reads t)" and "token_ts t < Timestamp_MAX"
  shows "case WriteLog_refresh_token env l t ts of
     Inl _ \<Rightarrow> False
   | Inr (Some t') \<Rightarrow>
       token_reads t' = token_reads t \<and> token_ts t' = max (token_ts t) ts
       \<and> list_all (\<lambda>e. \<not> (token_ts t < fst e \<and> fst e \<le> ts \<and> conflicts env (token_reads t) (fst (snd e)))) H
   | Inr None \<Rightarrow>
       token_ts t < purged_ts l
       \<or> list_ex (\<lambda>e. token_ts t < fst e \<and> fst e \<le> ts \<and> conflicts env (token_reads t) (fst (snd e))) H"
proof -
  note stale = is_stale_history [OF assms(1,3), of env "token_reads t" ts]
  show ?thesis
  proof (cases "purged_ts l \<le> token_ts t")
    case False
    then show ?thesis by (simp add: WriteLog_refresh_token_def stale)
  next
    case True
    then obtain r where r: "WriteLog_is_stale env l (token_reads t) (token_ts t) ts = Inr r" using stale by simp
    show ?thesis
      using log.stale_iff [OF assms(1,2) r] r
      by (cases r) (auto simp: WriteLog_refresh_token_def Token_advance_ts_def log.valid_until_def list_all_iff list_ex_iff)
  qed
qed

theorem refresh_token_sound_witness:
  "case WriteLog_refresh_token \<lparr>tokenize = (\<lambda>t. [t]), dfa_accepts = (\<lambda>t d u. t = u), disable_fuzzy = False, sha256 = id\<rparr>
       \<lparr>by_ts = [(3, [], None)], purged_ts = 1\<rparr> \<lparr>token_reads = ReadSet_empty, token_ts = 2\<rparr> 3 of
     Inr (Some t) \<Rightarrow> token_ts t = 3
   | _ \<Rightarrow> False"
proof -
  let ?env = "\<lparr>tokenize = (\<lambda>t. [t]), dfa_accepts = (\<lambda>t d u. t = u), disable_fuzzy = False, sha256 = id\<rparr>"
  have "log_represents [(3, [], None)] \<lparr>by_ts = [(3, [], None)], purged_ts = 1\<rparr>" by (simp add: log_represents_def)
  from refresh_token_sound [OF this, of "\<lparr>token_reads = ReadSet_empty, token_ts = 2\<rparr>", where env = ?env and ts = 3]
  show ?thesis
    using read_set_empty_ok [of _ ?env]
    by (auto simp: Timestamp_MAX_def conflicts_def writes_documents_def split: sum.splits option.splits)
qed

end
