(* ===== verification/Subscription.thy ===== *)
theory Subscription
  imports Write_Log
begin

text \<open>
  Subscriptions (\<open>database/src/subscription.rs\<close>, with \<open>IntervalMap\<close> of \<open>indexing/src/interval.rs\<close>):
  the manager keeps the read set of every subscriber, follows the write log and invalidates a
  subscription when a logged write overlaps its reads.

  The atomic timestamp and the watch channel that a subscriber shares with the client's
  \<open>Subscription\<close> are cells of a store, addressed by the sequence number of the subscription, which is
  never reused.  \<open>Slab\<close> is a third-party container: the key of its next vacant entry is the parameter
  \<open>vacant\<close>, of which only that it is unused is assumed.
\<close>

declare split_paired_All [simp del] split_paired_Ex [simp del]

section \<open>Interval maps\<close>

type_synonym interval_map = "(subscriber_id, interval_set) btree"

definition IntervalMap_new :: interval_map where
  "IntervalMap_new = []"

definition IntervalMap_is_empty :: "interval_map \<Rightarrow> bool" where
  "IntervalMap_is_empty m = (m = [])"

definition IntervalMap_insert :: "subscriber_id \<Rightarrow> interval_set \<Rightarrow> interval_map \<Rightarrow> interval_set option \<times> interval_map" where
  "IntervalMap_insert i s m = (bt_get m i, bt_insert i s m)"

definition IntervalMap_remove :: "subscriber_id \<Rightarrow> interval_map \<Rightarrow> interval_set option \<times> interval_map" where
  "IntervalMap_remove i m = (bt_get m i, bt_remove i m)"

definition IntervalMap_query :: "interval_map \<Rightarrow> bytes \<Rightarrow> subscriber_id list" where
  "IntervalMap_query m point = map fst (filter (\<lambda>(_, s). IntervalSet_contains s point) m)"

section \<open>The map of subscriptions\<close>

record subscription_map =
  sm_indexed :: "(tablet_index_name, indexed_fields \<times> interval_map) btree"
  sm_search :: text_search_subscriptions

definition SubscriptionMap_new :: subscription_map where
  "SubscriptionMap_new = \<lparr>sm_indexed = [], sm_search = TextSearchSubscriptions_new\<rparr>"

definition insert_indexed ::
    "subscriber_id \<Rightarrow> tablet_index_name \<times> index_reads
     \<Rightarrow> (tablet_index_name, indexed_fields \<times> interval_map) btree \<Rightarrow> (tablet_index_name, indexed_fields \<times> interval_map) btree" where
  "insert_indexed i e m =
     (let (fs, interval_map) = get_or (ir_fields (snd e), IntervalMap_new) m (fst e)
      in bt_insert (fst e) (fs, snd (IntervalMap_insert i (ir_intervals (snd e)) interval_map)) m)"

definition SubscriptionMap_insert :: "subscriber_id \<Rightarrow> read_set \<Rightarrow> subscription_map \<Rightarrow> subscription_map" where
  "SubscriptionMap_insert i reads m =
     \<lparr>sm_indexed = fold (insert_indexed i) (rs_indexed reads) (sm_indexed m),
      sm_search = fold (\<lambda>(index, r). TextSearchSubscriptions_insert i index r) (rs_search reads) (sm_search m)\<rparr>"

text \<open>\<open>None\<close> is a panic: a missing index or a subscriber that was not there.\<close>

definition remove_indexed ::
    "subscriber_id \<Rightarrow> tablet_index_name \<times> index_reads
     \<Rightarrow> (tablet_index_name, indexed_fields \<times> interval_map) btree
     \<Rightarrow> (tablet_index_name, indexed_fields \<times> interval_map) btree option" where
  "remove_indexed i e m =
     (case bt_get m (fst e) of None \<Rightarrow> None | Some (fs, range_map) \<Rightarrow>
      case IntervalMap_remove i range_map of (None, _) \<Rightarrow> None | (Some _, range_map') \<Rightarrow>
      Some (if IntervalMap_is_empty range_map' then bt_remove (fst e) m else bt_insert (fst e) (fs, range_map') m))"

definition SubscriptionMap_remove :: "subscriber_id \<Rightarrow> read_set \<Rightarrow> subscription_map \<Rightarrow> subscription_map option" where
  "SubscriptionMap_remove i reads m =
     (case fold_option (remove_indexed i) (rs_indexed reads) (sm_indexed m) of None \<Rightarrow> None | Some indexed \<Rightarrow>
      case fold_option (\<lambda>(index, r). TextSearchSubscriptions_remove i index r) (rs_search reads) (sm_search m) of
        None \<Rightarrow> None | Some search \<Rightarrow> Some \<lparr>sm_indexed = indexed, sm_search = search\<rparr>)"

section \<open>The subscription manager\<close>

datatype subscription_state = Valid | Invalid

record subscriber =
  sub_reads :: read_set
  sub_seq :: nat

record subscription_key =
  sk_id :: subscriber_id
  sk_seq :: nat

text \<open>The cell of a subscription: \<open>-1\<close> means invalid.\<close>

record subscription_cell =
  valid_ts :: int
  valid_state :: subscription_state

record subscription_manager =
  subscribers :: "(subscriber_id, subscriber) btree"
  subscriptions :: subscription_map
  next_seq :: nat
  sub_log :: write_log_manager
  processed_ts :: timestamp
  sub_cells :: "nat \<Rightarrow> subscription_cell"

definition SubscriptionManager_new :: "write_log_manager \<Rightarrow> (nat \<Rightarrow> subscription_cell) \<Rightarrow> subscription_manager" where
  "SubscriptionManager_new log cells =
     \<lparr>subscribers = [], subscriptions = SubscriptionMap_new, next_seq = 0, sub_log = log,
      processed_ts = WriteLog_max_ts (manager_log log), sub_cells = cells\<rparr>"

text \<open>
  The subscription of the client is its key, or \<open>None\<close> for one that is invalid from the start; an
  outer \<open>None\<close> is the failed assertion.
\<close>

definition SubscriptionManager_subscribe ::
    "search_env \<Rightarrow> ((subscriber_id, subscriber) btree \<Rightarrow> subscriber_id) \<Rightarrow> token \<Rightarrow> subscription_manager
     \<Rightarrow> ((log_error + subscription_key option) \<times> subscription_manager) option" where
  "SubscriptionManager_subscribe env vacant t s =
     (case (if token_ts t < processed_ts s
            then WriteLog_refresh_token env (manager_log (sub_log s)) t (processed_ts s)
            else Inr (Some t)) of
        Inl e \<Rightarrow> Some (Inl e, s)
      | Inr None \<Rightarrow> Some (Inr None, s)
      | Inr (Some t) \<Rightarrow>
          if \<not> processed_ts s \<le> token_ts t then None
          else let subscriber_id = vacant (subscribers s); seq = next_seq s
               in Some (Inr (Some \<lparr>sk_id = subscriber_id, sk_seq = seq\<rparr>),
                    s\<lparr>subscribers := bt_insert subscriber_id \<lparr>sub_reads = token_reads t, sub_seq = seq\<rparr> (subscribers s),
                      subscriptions := SubscriptionMap_insert subscriber_id (token_reads t) (subscriptions s),
                      next_seq := seq + 1,
                      sub_cells := (sub_cells s)(seq := \<lparr>valid_ts = int (token_ts t), valid_state = Valid\<rparr>)\<rparr>))"

definition overlapping :: "search_env \<Rightarrow> subscription_map \<Rightarrow> packed_document \<Rightarrow> subscriber_id bset \<Rightarrow> subscriber_id bset" where
  "overlapping env m doc to_notify =
     TextSearchSubscriptions_add_matches env doc (sm_search m)
       (bs_extend
         (concat (map (\<lambda>(index, fs, range_map).
            if fst index = tablet_id (packed_id doc)
            then IntervalMap_query range_map (IndexKey_into_bytes (PackedDocument_index_key doc fs))
            else []) (sm_indexed m)))
         to_notify)"

text \<open>For each change the old document is looked up first, then the new one.\<close>

definition overlapping_update :: "search_env \<Rightarrow> subscription_map \<Rightarrow> packed_document_update \<Rightarrow> subscriber_id bset \<Rightarrow> subscriber_id bset" where
  "overlapping_update env m u to_notify =
     (let n = (case packed_old u of None \<Rightarrow> to_notify | Some d \<Rightarrow> overlapping env m d to_notify)
      in case packed_new u of None \<Rightarrow> n | Some d \<Rightarrow> overlapping env m d n)"

definition overlapping_entries :: "search_env \<Rightarrow> subscription_map \<Rightarrow> log_entry list \<Rightarrow> subscriber_id bset" where
  "overlapping_entries env m es =
     fold (\<lambda>(_, ws, _). fold (\<lambda>(_, u). overlapping_update env m u) ws) es []"

definition remove_subscriber :: "subscriber_id \<Rightarrow> subscription_manager \<Rightarrow> subscription_manager option" where
  "remove_subscriber i s =
     (case bt_get (subscribers s) i of None \<Rightarrow> None | Some sub \<Rightarrow>
      case SubscriptionMap_remove i (sub_reads sub) (subscriptions s) of None \<Rightarrow> None | Some m \<Rightarrow>
      Some (s\<lparr>subscribers := bt_remove i (subscribers s), subscriptions := m,
              sub_cells := (sub_cells s)(sub_seq sub := \<lparr>valid_ts = -1, valid_state = Invalid\<rparr>)\<rparr>))"

definition advance_valid :: "subscriber_id bset \<Rightarrow> timestamp \<Rightarrow> subscription_manager \<Rightarrow> subscription_manager" where
  "advance_valid to_notify next_ts s =
     s\<lparr>sub_cells := fold
         (\<lambda>(i, sub) cells. if bt_get to_notify i = None
            then cells(sub_seq sub := (cells (sub_seq sub))\<lparr>valid_ts := int next_ts\<rparr>) else cells)
         (subscribers s) (sub_cells s)\<rparr>"

definition advance_log ::
    "search_env \<Rightarrow> retention_config \<Rightarrow> timestamp \<Rightarrow> subscription_manager \<Rightarrow> ((log_error + unit) \<times> subscription_manager) option" where
  "advance_log env cfg next_ts s =
     (case bind_result (timestamp_succ (processed_ts s)) (\<lambda>from_ts. WriteLog_iter (manager_log (sub_log s)) from_ts next_ts) of
        Inl e \<Rightarrow> Some (Inl e, s)
      | Inr es \<Rightarrow>
          let to_notify = overlapping_entries env (subscriptions s) es
          in case fold_option remove_subscriber (map fst to_notify) (advance_valid to_notify next_ts s) of
               None \<Rightarrow> None
             | Some s' \<Rightarrow>
                 if \<not> processed_ts s' \<le> next_ts then None
                 else Some (Inr (), s'\<lparr>processed_ts := next_ts,
                        sub_log := enforce_retention_policy cfg next_ts (sub_log s')\<rparr>))"

text \<open>\<open>None\<close>: the assertion failed; \<open>Some None\<close>: the key is no longer valid.\<close>

definition get_subscriber :: "subscription_key \<Rightarrow> subscription_manager \<Rightarrow> subscriber option option" where
  "get_subscriber key s =
     (case bt_get (subscribers s) (sk_id key) of
        None \<Rightarrow> Some None
      | Some entry \<Rightarrow>
          if sk_seq key < sub_seq entry then Some None
          else if sub_seq entry \<noteq> sk_seq key then None
          else Some (Some entry))"

definition SubscriptionManager_remove :: "subscription_key \<Rightarrow> subscription_manager \<Rightarrow> subscription_manager option" where
  "SubscriptionManager_remove key s =
     (case get_subscriber key s of
        None \<Rightarrow> None
      | Some None \<Rightarrow> Some s
      | Some (Some _) \<Rightarrow> remove_subscriber (sk_id key) s)"

definition Subscription_current_ts :: "subscription_manager \<Rightarrow> subscription_key option \<Rightarrow> timestamp option" where
  "Subscription_current_ts s key =
     (case key of
        None \<Rightarrow> None
      | Some k \<Rightarrow> (let ts = valid_ts (sub_cells s (sk_seq k)) in if ts = -1 then None else Some (nat ts)))"

section \<open>The map of subscriptions is a registry\<close>

text \<open>
  For every subscriber and index the map holds the intervals the subscriber read there, under the
  fields of the index.
\<close>

definition indexed_ok ::
    "(tablet_index_name \<Rightarrow> indexed_fields) \<Rightarrow> (subscriber_id \<Rightarrow> tablet_index_name \<Rightarrow> interval_set option)
     \<Rightarrow> (tablet_index_name, indexed_fields \<times> interval_map) btree \<Rightarrow> bool" where
  "indexed_ok fs reg m = (bt_all (bt_ok \<circ> snd) m
     \<and> (\<forall>index i. bt_get (snd (get_or ([], []) m index)) i = reg i index)
     \<and> (\<forall>index e. bt_get m index = Some e \<longrightarrow> fst e = fs index))"

lemma indexed_okI:
  assumes "bt_all (bt_ok \<circ> snd) m"
    and "\<And>index i. bt_get (snd (get_or ([], []) m index)) i = reg i index"
    and "\<And>index e. bt_get m index = Some e \<Longrightarrow> fst e = fs index"
  shows "indexed_ok fs reg m"
  unfolding indexed_ok_def using assms by blast

lemma indexed_okD:
  assumes "indexed_ok fs reg m"
  shows "bt_all (bt_ok \<circ> snd) m"
    and "bt_get (snd (get_or ([], []) m index)) i = reg i index"
    and "bt_get m index = Some e \<Longrightarrow> fst e = fs index"
    and "bt_ok (snd (get_or ([], []) m index))"
  using assms bt_all_get_or [of "bt_ok \<circ> snd" m "([], [])" index] unfolding indexed_ok_def by auto

lemma insert_indexed_ok:
  assumes "indexed_ok fs reg m" and "ir_fields r = fs index"
  shows "indexed_ok fs (register i index (Some (ir_intervals r)) reg) (insert_indexed i (index, r) m)"
proof (rule indexed_okI)
  note ok = indexed_okD [OF assms(1)]
  define im where "im = snd (get_or ([], []) m index)"
  have ins: "insert_indexed i (index, r) m = bt_insert index (fs index, bt_insert i (ir_intervals r) im) m"
    using ok(3) [of index] assms(2)
    by (cases "bt_get m index")
      (auto simp: insert_indexed_def get_or_def im_def IntervalMap_new_def IntervalMap_insert_def)
  show "bt_all (bt_ok \<circ> snd) (insert_indexed i (index, r) m)" using ok(1) ok(4) [of index] by (simp add: ins im_def)
  show "bt_get (snd (get_or ([], []) (insert_indexed i (index, r) m) ix)) j
      = register i index (Some (ir_intervals r)) reg j ix" for ix j
    using ok(2) [of ix j] by (auto simp: ins im_def register_simp)
  show "fst e = fs ix" if "bt_get (insert_indexed i (index, r) m) ix = Some e" for ix e
    using that ok(3) [of ix e] by (auto simp: ins split: if_splits)
qed

lemma remove_indexed_ok:
  assumes "indexed_ok fs reg m" and "reg i index = Some s"
  shows "\<exists>m'. remove_indexed i (index, r) m = Some m' \<and> indexed_ok fs (register i index None reg) m'"
proof -
  note ok = indexed_okD [OF assms(1)]
  have "bt_get (snd (get_or ([], []) m index)) i = Some s" using ok(2) assms(2) by simp
  then obtain f im where m: "bt_get m index = Some (f, im)" "bt_get im i = Some s"
    by (cases "bt_get m index") (auto simp: get_or_def bt_get_def)
  then have im: "snd (get_or ([], []) m index) = im" by (simp add: get_or_def)
  have mok: "bt_ok m" "bt_ok im" "f = fs index"
    using bt_all_ok [OF ok(1)] ok(4) [of index] ok(3) [OF m(1)] by (simp_all add: im)
  define m' where "m' = (if bt_remove i im = [] then bt_remove index m else bt_insert index (f, bt_remove i im) m)"
  have "indexed_ok fs (register i index None reg) m'"
  proof (rule indexed_okI)
    show "bt_all (bt_ok \<circ> snd) m'" using ok(1) mok by (simp add: m'_def)
    have "snd (get_or ([], []) m' ix) = (if ix = index then bt_remove i im else snd (get_or ([], []) m ix))" for ix
      using mok by (simp add: m'_def)
    then show "bt_get (snd (get_or ([], []) m' ix)) j = register i index None reg j ix" for ix j
      using ok(2) [of ix j] mok im by (auto simp: register_simp)
    show "fst e = fs ix" if "bt_get m' ix = Some e" for ix e
      using that ok(3) [of ix e] mok by (auto simp: m'_def split: if_splits)
  qed
  moreover have "remove_indexed i (index, r) m = Some m'"
    using m by (simp add: remove_indexed_def IntervalMap_remove_def IntervalMap_is_empty_def m'_def)
  ultimately show ?thesis by blast
qed

interpretation indexed: registry insert_indexed remove_indexed "indexed_ok fs" ir_intervals
    "\<lambda>e. ir_fields (snd e) = fs (fst e)" for fs
  by unfold_locales (simp_all add: insert_indexed_ok remove_indexed_ok)

interpretation searched: registry "\<lambda>i (index, r). TextSearchSubscriptions_insert i index r"
    "\<lambda>i (index, r). TextSearchSubscriptions_remove i index r" search_subs_ok "\<lambda>r. r" "\<lambda>_. True"
  by unfold_locales (simp_all add: search_subs_insert search_subs_remove)

section \<open>Invariant of the manager\<close>

definition indexed_reg :: "(subscriber_id, subscriber) btree \<Rightarrow> subscriber_id \<Rightarrow> tablet_index_name \<Rightarrow> interval_set option" where
  "indexed_reg subs i index = (case bt_get subs i of None \<Rightarrow> None
     | Some sub \<Rightarrow> map_option ir_intervals (bt_get (rs_indexed (sub_reads sub)) index))"

definition search_reg :: "(subscriber_id, subscriber) btree \<Rightarrow> subscriber_id \<Rightarrow> tablet_index_name \<Rightarrow> query_reads option" where
  "search_reg subs i index = (case bt_get subs i of None \<Rightarrow> None
     | Some sub \<Rightarrow> bt_get (rs_search (sub_reads sub)) index)"

definition reads_ok :: "(tablet_index_name \<Rightarrow> indexed_fields) \<Rightarrow> read_set \<Rightarrow> bool" where
  "reads_ok fs rs = (read_set_ok rs \<and> fields_agree fs rs)"

definition map_ok ::
    "(tablet_index_name \<Rightarrow> indexed_fields) \<Rightarrow> (subscriber_id, subscriber) btree \<Rightarrow> subscription_map \<Rightarrow> bool" where
  "map_ok fs subs m = (indexed_ok fs (indexed_reg subs) (sm_indexed m) \<and> search_subs_ok (search_reg subs) (sm_search m))"

definition manager_ok :: "(tablet_index_name \<Rightarrow> indexed_fields) \<Rightarrow> subscription_manager \<Rightarrow> bool" where
  "manager_ok fs s = (bt_ok (subscribers s)
     \<and> (\<forall>i sub. bt_get (subscribers s) i = Some sub \<longrightarrow> reads_ok fs (sub_reads sub) \<and> sub_seq sub < next_seq s)
     \<and> (\<forall>i j a b. bt_get (subscribers s) i = Some a \<longrightarrow> bt_get (subscribers s) j = Some b \<longrightarrow> sub_seq a = sub_seq b \<longrightarrow> i = j)
     \<and> map_ok fs (subscribers s) (subscriptions s))"

lemma manager_okD:
  assumes "manager_ok fs s"
  shows "bt_ok (subscribers s)"
    and "bt_get (subscribers s) i = Some sub \<Longrightarrow> reads_ok fs (sub_reads sub)"
    and "bt_get (subscribers s) i = Some sub \<Longrightarrow> sub_seq sub < next_seq s"
    and "bt_get (subscribers s) i = Some a \<Longrightarrow> bt_get (subscribers s) j = Some b \<Longrightarrow> sub_seq a = sub_seq b \<Longrightarrow> i = j"
    and "map_ok fs (subscribers s) (subscriptions s)"
  using assms unfolding manager_ok_def by blast+

lemma map_ok_insert:
  assumes "map_ok fs subs m" and "bt_get subs i = None" and "reads_ok fs rs"
  shows "map_ok fs (bt_insert i \<lparr>sub_reads = rs, sub_seq = q\<rparr> subs) (SubscriptionMap_insert i rs m)"
proof -
  let ?subs = "bt_insert i \<lparr>sub_reads = rs, sub_seq = q\<rparr> subs"
  have ok: "bt_ok (rs_indexed rs)" "bt_ok (rs_search rs)"
    using assms(3) by (auto simp: reads_ok_def read_set_ok_def dest: bt_all_ok)
  have none: "indexed_reg subs i x = None" "search_reg subs i x = None" for x
    using assms(2) by (simp_all add: indexed_reg_def search_reg_def)
  have upd: "(\<lambda>x. case map_of (rs_indexed rs) x of None \<Rightarrow> indexed_reg subs i x | Some r \<Rightarrow> Some (ir_intervals r))
      = (\<lambda>x. map_option ir_intervals (bt_get (rs_indexed rs) x))"
    "(\<lambda>x. case map_of (rs_search rs) x of None \<Rightarrow> search_reg subs i x | Some r \<Rightarrow> Some r) = bt_get (rs_search rs)"
    using none by (auto simp: fun_eq_iff bt_get_def split: option.splits)
  have "\<forall>e \<in> set (rs_indexed rs). ir_fields (snd e) = fs (fst e)"
    using assms(3) by (auto simp: reads_ok_def fields_agree_def)
  from indexed.ins_all [of fs "indexed_reg subs" "sm_indexed m" "rs_indexed rs" i, OF _ bt_distinct [OF ok(1)] this]
  have 1: "indexed_ok fs ((indexed_reg subs)(i := \<lambda>x. map_option ir_intervals (bt_get (rs_indexed rs) x)))
      (fold (insert_indexed i) (rs_indexed rs) (sm_indexed m))"
    using assms(1) none by (simp add: map_ok_def upd)
  from searched.ins_all [of "search_reg subs" "sm_search m" "rs_search rs" i, OF _ bt_distinct [OF ok(2)]]
  have 2: "search_subs_ok ((search_reg subs)(i := \<lambda>x. bt_get (rs_search rs) x))
      (fold (\<lambda>(index, r). TextSearchSubscriptions_insert i index r) (rs_search rs) (sm_search m))"
    using assms(1) none by (simp add: map_ok_def upd)
  have "(indexed_reg subs)(i := \<lambda>x. map_option ir_intervals (bt_get (rs_indexed rs) x)) = indexed_reg ?subs"
    "(search_reg subs)(i := \<lambda>x. bt_get (rs_search rs) x) = search_reg ?subs"
    by (auto simp: indexed_reg_def search_reg_def fun_eq_iff)
  with 1 2 show ?thesis by (simp add: map_ok_def SubscriptionMap_insert_def)
qed

lemma map_ok_remove:
  assumes "map_ok fs subs m" and "bt_ok subs" and "bt_get subs i = Some sub" and "reads_ok fs (sub_reads sub)"
  shows "\<exists>m'. SubscriptionMap_remove i (sub_reads sub) m = Some m' \<and> map_ok fs (bt_remove i subs) m'"
proof -
  let ?rs = "sub_reads sub"
  have ok: "bt_ok (rs_indexed ?rs)" "bt_ok (rs_search ?rs)"
    using assms(4) by (auto simp: reads_ok_def read_set_ok_def dest: bt_all_ok)
  have "\<forall>(x, r) \<in> set (rs_indexed ?rs). indexed_reg subs i x = Some (ir_intervals r)"
    "\<forall>(x, r) \<in> set (rs_search ?rs). search_reg subs i x = Some r"
    using assms(3) ok by (auto simp: indexed_reg_def search_reg_def bt_get_iff [symmetric])
  with indexed.del_all [of fs "indexed_reg subs" "sm_indexed m" "rs_indexed ?rs" i, OF _ bt_distinct [OF ok(1)]]
    searched.del_all [of "search_reg subs" "sm_search m" "rs_search ?rs" i, OF _ bt_distinct [OF ok(2)]] assms(1)
  obtain m1 m2 where "fold_option (remove_indexed i) (rs_indexed ?rs) (sm_indexed m) = Some m1"
    "indexed_ok fs ((indexed_reg subs)(i := \<lambda>x. if x \<in> fst ` set (rs_indexed ?rs) then None else indexed_reg subs i x)) m1"
    "fold_option (\<lambda>(index, r). TextSearchSubscriptions_remove i index r) (rs_search ?rs) (sm_search m) = Some m2"
    "search_subs_ok ((search_reg subs)(i := \<lambda>x. if x \<in> fst ` set (rs_search ?rs) then None else search_reg subs i x)) m2"
    by (auto simp: map_ok_def simp del: fun_upd_apply)
  moreover have "(indexed_reg subs)(i := \<lambda>x. if x \<in> fst ` set (rs_indexed ?rs) then None else indexed_reg subs i x) = indexed_reg (bt_remove i subs)"
    "(search_reg subs)(i := \<lambda>x. if x \<in> fst ` set (rs_search ?rs) then None else search_reg subs i x) = search_reg (bt_remove i subs)"
    using assms(2,3) ok by (auto simp: indexed_reg_def search_reg_def fun_eq_iff bt_key_get)
  ultimately show ?thesis by (simp add: SubscriptionMap_remove_def map_ok_def)
qed

section \<open>Notification\<close>

text \<open>
  What notifies a subscriber of a document: an indexed read that covers it, or a search read with a
  matching filter or a matching term.
\<close>

definition search_notifies :: "search_env \<Rightarrow> query_reads \<Rightarrow> packed_document \<Rightarrow> bool" where
  "search_notifies env r doc = ((\<exists>c \<in> set (filter_conditions r). filter_matches env doc c)
     \<or> (\<exists>k. term_of_reads r k \<and> term_hits env doc k))"

definition notifies :: "search_env \<Rightarrow> read_set \<Rightarrow> packed_document \<Rightarrow> bool" where
  "notifies env rs doc = ((\<exists>(index, r) \<in> set (rs_indexed rs). index_covers index r doc)
     \<or> (\<exists>(index, r) \<in> set (rs_search rs). fst index = tablet_id (packed_id doc) \<and> search_notifies env r doc))"

text \<open>A search with neither a term nor a filter overlaps every document, yet nothing notifies it.\<close>

definition notifiable :: "read_set \<Rightarrow> bool" where
  "notifiable rs = list_all (\<lambda>(_, r). text_queries r \<noteq> [] \<or> filter_conditions r \<noteq> []) (rs_search rs)"

lemma covers_notifies:
  assumes "read_set_ok rs" and "notifiable rs" and "covers env rs doc"
  shows "notifies env rs doc"
proof -
  have "search_notifies env r doc" if "(index, r) \<in> set (rs_search rs)" "search_covers env index r doc" for index r
  proof -
    have "query_reads_ok r" "text_queries r \<noteq> [] \<or> filter_conditions r \<noteq> []"
      using assms(1,2) that(1) by (auto simp: read_set_ok_def bt_all_def notifiable_def list_all_iff)
    with that(2) show ?thesis
      by (cases "filter_conditions r") (auto simp: search_covers_def QueryReads_overlaps_iff search_notifies_def)
  qed
  with assms(3) show ?thesis unfolding covers_def notifies_def search_covers_def by blast
qed

text \<open>Functions that only add keys to a set, and their folds.\<close>

definition adds :: "('s bset \<Rightarrow> 's::linorder bset) \<Rightarrow> ('s \<Rightarrow> bool) \<Rightarrow> bool" where
  "adds f P = (\<forall>n. (bt_ok n \<longrightarrow> bt_ok (f n)) \<and> (\<forall>i. i \<in> fst ` set (f n) \<longleftrightarrow> i \<in> fst ` set n \<or> P i))"

lemma adds_keys: "adds f P \<Longrightarrow> i \<in> fst ` set (f n) \<longleftrightarrow> i \<in> fst ` set n \<or> P i"
  and adds_ok: "adds f P \<Longrightarrow> bt_ok n \<Longrightarrow> bt_ok (f n)"
  unfolding adds_def by blast+

lemma adds_id: "adds (\<lambda>n. n) (\<lambda>_. False)"
  by (simp add: adds_def)

lemma adds_comp: "adds f P \<Longrightarrow> adds g Q \<Longrightarrow> adds (\<lambda>n. g (f n)) (\<lambda>i. P i \<or> Q i)"
  unfolding adds_def by simp

lemma adds_fold:
  assumes "\<And>x. x \<in> set xs \<Longrightarrow> adds (f x) (P x)"
  shows "adds (fold f xs) (\<lambda>i. \<exists>x \<in> set xs. P x i)"
  using assms
proof (induction xs)
  case (Cons x xs)
  from adds_comp [OF Cons.prems Cons.IH] Cons.prems have "adds (\<lambda>n. fold f xs (f x n)) (\<lambda>i. P x i \<or> (\<exists>x \<in> set xs. P x i))" by simp
  then show ?case by (simp add: comp_def)
qed (simp add: adds_id id_def)

abbreviation notified_by :: "search_env \<Rightarrow> (subscriber_id, subscriber) btree \<Rightarrow> packed_document \<Rightarrow> subscriber_id \<Rightarrow> bool" where
  "notified_by env subs doc i \<equiv> \<exists>sub. bt_get subs i = Some sub \<and> notifies env (sub_reads sub) doc"

lemma reads_okD:
  assumes "reads_ok fs rs"
  shows "bt_ok (rs_indexed rs)" and "bt_ok (rs_search rs)"
    and "bt_get (rs_indexed rs) index = Some r \<longleftrightarrow> (index, r) \<in> set (rs_indexed rs)"
    and "(index, r) \<in> set (rs_indexed rs) \<Longrightarrow> IntervalSet_ok (ir_intervals r)"
    and "(index, r) \<in> set (rs_indexed rs) \<Longrightarrow> ir_fields r = fs index"
proof -
  have "bt_all index_reads_ok (rs_indexed rs)" "bt_all query_reads_ok (rs_search rs)" "fields_agree fs rs"
    using assms by (simp_all add: reads_ok_def read_set_ok_def)
  note rs = this
  show ok: "bt_ok (rs_indexed rs)" "bt_ok (rs_search rs)" using rs bt_all_ok by blast+
  show iff: "bt_get (rs_indexed rs) index = Some r \<longleftrightarrow> (index, r) \<in> set (rs_indexed rs)" by (rule bt_get_iff [OF ok(1)])
  show "IntervalSet_ok (ir_intervals r)" if "(index, r) \<in> set (rs_indexed rs)"
    using that iff bt_all_get [OF rs(1)] unfolding index_reads_ok_def by blast
  show "ir_fields r = fs index" if "(index, r) \<in> set (rs_indexed rs)"
    using that rs(3) unfolding fields_agree_def by blast
qed

lemma query_iff: "i \<in> set (IntervalMap_query im k) \<longleftrightarrow> (\<exists>s. (i, s) \<in> set im \<and> IntervalSet_contains s k)"
  by (force simp: IntervalMap_query_def)

lemma indexed_hits:
  assumes "indexed_ok fs (indexed_reg subs) m"
    and reads: "\<forall>i sub. bt_get subs i = Some sub \<longrightarrow> reads_ok fs (sub_reads sub)"
  shows "(\<exists>(index, f, im) \<in> set m. fst index = tablet_id (packed_id doc)
        \<and> i \<in> set (IntervalMap_query im (IndexKey_into_bytes (PackedDocument_index_key doc f))))
    \<longleftrightarrow> (\<exists>sub. bt_get subs i = Some sub \<and> (\<exists>(index, r) \<in> set (rs_indexed (sub_reads sub)). index_covers index r doc))"
    (is "?l \<longleftrightarrow> ?r")
proof
  note ok = indexed_okD [OF assms(1)]
  assume ?l
  then obtain index f im s where e: "(index, f, im) \<in> set m" "fst index = tablet_id (packed_id doc)" "(i, s) \<in> set im"
    "IntervalSet_contains s (IndexKey_into_bytes (PackedDocument_index_key doc f))"
    unfolding query_iff by blast
  then have get: "bt_get m index = Some (f, im)" using bt_get_iff [OF bt_all_ok [OF ok(1)]] by blast
  have f: "f = fs index" using ok(3) [OF get] by simp
  have "bt_ok im" using bt_all_get [OF ok(1) get] by simp
  then have "bt_get im i = Some s" using e(3) by (simp add: bt_get_iff)
  then have "indexed_reg subs i index = Some s" using ok(2) [of index i] get by (simp add: get_or_def)
  then obtain sub r where sub: "bt_get subs i = Some sub" "bt_get (rs_indexed (sub_reads sub)) index = Some r" "ir_intervals r = s"
    unfolding indexed_reg_def by (cases "bt_get subs i") auto
  note rs = reads_okD [OF reads [rule_format, OF sub(1)]]
  have r: "(index, r) \<in> set (rs_indexed (sub_reads sub))" using sub(2) rs(3) by blast
  have "index_covers index r doc"
    using e(2,4) f rs(5) [OF r] rs(4) [OF r] sub(3) by (simp add: index_covers_def interval_set.mem [symmetric])
  with sub(1) r show ?r by blast
next
  note ok = indexed_okD [OF assms(1)]
  assume ?r
  then obtain sub index r where sub: "bt_get subs i = Some sub" "(index, r) \<in> set (rs_indexed (sub_reads sub))" "index_covers index r doc"
    by blast
  note rs = reads_okD [OF reads [rule_format, OF sub(1)]]
  have "bt_get (rs_indexed (sub_reads sub)) index = Some r" using sub(2) rs(3) by blast
  then have "bt_get (snd (get_or ([], []) m index)) i = Some (ir_intervals r)"
    using ok(2) [of index i] sub(1) by (simp add: indexed_reg_def)
  then obtain f im where get: "bt_get m index = Some (f, im)" "bt_get im i = Some (ir_intervals r)"
    by (cases "bt_get m index") (auto simp: get_or_def bt_get_def)
  have "f = fs index" using ok(3) [OF get(1)] by simp
  moreover have "bt_ok im" using bt_all_get [OF ok(1) get(1)] by simp
  moreover have "(index, f, im) \<in> set m" using bt_get_iff [OF bt_all_ok [OF ok(1)]] get(1) by blast
  moreover have "(i, ir_intervals r) \<in> set im" using get(2) \<open>bt_ok im\<close> by (simp add: bt_get_iff)
  moreover have "fst index = tablet_id (packed_id doc)"
    "IntervalSet_contains (ir_intervals r) (IndexKey_into_bytes (PackedDocument_index_key doc (fs index)))"
    using sub(3) rs(4,5) [OF sub(2)] by (simp_all add: index_covers_def interval_set.mem)
  ultimately show ?l unfolding query_iff by blast
qed

lemma overlapping_adds:
  assumes "map_ok fs subs m" and reads: "\<forall>i sub. bt_get subs i = Some sub \<longrightarrow> reads_ok fs (sub_reads sub)"
  shows "adds (overlapping env m doc) (notified_by env subs doc)"
proof -
  have idx: "indexed_ok fs (indexed_reg subs) (sm_indexed m)" and srch: "search_subs_ok (search_reg subs) (sm_search m)"
    using assms(1) by (simp_all add: map_ok_def)
  let ?hits = "concat (map (\<lambda>(index, fs, range_map).
            if fst index = tablet_id (packed_id doc)
            then IntervalMap_query range_map (IndexKey_into_bytes (PackedDocument_index_key doc fs))
            else []) (sm_indexed m))"
  have hits: "i \<in> set ?hits \<longleftrightarrow> (\<exists>sub. bt_get subs i = Some sub
      \<and> (\<exists>(index, r) \<in> set (rs_indexed (sub_reads sub)). index_covers index r doc))" for i
    unfolding indexed_hits [OF idx reads, symmetric] by (auto split: if_splits)
  have search: "(\<exists>index r. fst index = tablet_id (packed_id doc) \<and> search_reg subs i index = Some r \<and> search_notifies env r doc)
      \<longleftrightarrow> (\<exists>sub. bt_get subs i = Some sub
        \<and> (\<exists>(index, r) \<in> set (rs_search (sub_reads sub)). fst index = tablet_id (packed_id doc) \<and> search_notifies env r doc))" for i
  proof (cases "bt_get subs i")
    case (Some sub)
    then show ?thesis unfolding search_reg_def by (auto simp: bt_get_iff [OF reads_okD(2) [OF reads [rule_format, OF Some]]])
  qed (simp add: search_reg_def)
  show ?thesis unfolding adds_def
  proof (intro allI conjI impI)
    fix n :: "subscriber_id bset" and i
    show "bt_ok (overlapping env m doc n)" if "bt_ok n" using that by (simp add: overlapping_def search_matches_ok)
    show "i \<in> fst ` set (overlapping env m doc n) \<longleftrightarrow> i \<in> fst ` set n \<or> notified_by env subs doc i"
      unfolding overlapping_def search_matches_added [OF srch] bs_extend_keys search_notifies_def [symmetric] search
      unfolding Un_iff hits notifies_def by blast
  qed
qed

lemma overlapping_entries_adds:
  assumes "map_ok fs subs m" and reads: "\<forall>i sub. bt_get subs i = Some sub \<longrightarrow> reads_ok fs (sub_reads sub)"
  shows "bt_ok (overlapping_entries env m es)"
    and "i \<in> fst ` set (overlapping_entries env m es)
      \<longleftrightarrow> (\<exists>e \<in> set es. \<exists>doc \<in> set (writes_documents (fst (snd e))). notified_by env subs doc i)"
proof -
  note doc = overlapping_adds [OF assms]
  have update: "adds (overlapping_update env m u) (\<lambda>i. \<exists>doc \<in> set (update_documents u). notified_by env subs doc i)" for u
    using doc adds_comp [OF doc doc] adds_id
    by (cases "packed_old u"; cases "packed_new u")
      (auto simp: overlapping_update_def [abs_def] update_documents_def adds_def)
  have writes: "adds (fold (\<lambda>(_, u). overlapping_update env m u) ws)
      (\<lambda>i. \<exists>doc \<in> set (writes_documents ws). notified_by env subs doc i)" for ws :: log_writes
    using adds_fold [of ws "\<lambda>(_, u). overlapping_update env m u"
        "\<lambda>w i. \<exists>doc \<in> set (update_documents (snd w)). notified_by env subs doc i"] update
    by (simp add: writes_documents_def split_beta)
  have all: "adds (fold (\<lambda>(_, ws, _). fold (\<lambda>(_, u). overlapping_update env m u) ws) es)
      (\<lambda>i. \<exists>e \<in> set es. \<exists>doc \<in> set (writes_documents (fst (snd e))). notified_by env subs doc i)"
    by (rule adds_fold) (use writes in \<open>simp add: split_beta\<close>)
  show "bt_ok (overlapping_entries env m es)"
    unfolding overlapping_entries_def by (rule adds_ok [OF all]) simp
  show "i \<in> fst ` set (overlapping_entries env m es)
      \<longleftrightarrow> (\<exists>e \<in> set es. \<exists>doc \<in> set (writes_documents (fst (snd e))). notified_by env subs doc i)"
    using adds_keys [OF all, of i "[]"] unfolding overlapping_entries_def by simp
qed

section \<open>Removal\<close>

abbreviation invalid_cell :: subscription_cell where
  "invalid_cell \<equiv> \<lparr>valid_ts = -1, valid_state = Invalid\<rparr>"

lemma remove_subscriber_ok:
  assumes "manager_ok fs s" and "bt_get (subscribers s) i = Some sub"
  obtains m where "remove_subscriber i s = Some (s\<lparr>subscribers := bt_remove i (subscribers s), subscriptions := m,
              sub_cells := (sub_cells s)(sub_seq sub := invalid_cell)\<rparr>)"
    and "manager_ok fs (s\<lparr>subscribers := bt_remove i (subscribers s), subscriptions := m,
              sub_cells := (sub_cells s)(sub_seq sub := invalid_cell)\<rparr>)"
proof -
  note ok = manager_okD [OF assms(1)]
  obtain m where m: "SubscriptionMap_remove i (sub_reads sub) (subscriptions s) = Some m"
    "map_ok fs (bt_remove i (subscribers s)) m"
    using map_ok_remove [OF ok(5,1) assms(2) ok(2) [OF assms(2)]] by blast
  have get: "bt_get (bt_remove i (subscribers s)) j = Some a \<longleftrightarrow> j \<noteq> i \<and> bt_get (subscribers s) j = Some a" for j a
    using ok(1) by simp
  have "manager_ok fs (s\<lparr>subscribers := bt_remove i (subscribers s), subscriptions := m,
              sub_cells := (sub_cells s)(sub_seq sub := invalid_cell)\<rparr>)"
    unfolding manager_ok_def using ok m(2) by (simp add: get del: bt_get_remove) blast
  moreover have "remove_subscriber i s = Some (s\<lparr>subscribers := bt_remove i (subscribers s), subscriptions := m,
              sub_cells := (sub_cells s)(sub_seq sub := invalid_cell)\<rparr>)"
    using assms(2) m(1) by (simp add: remove_subscriber_def)
  ultimately show ?thesis using that by blast
qed

lemma remove_subscribers_ok:
  assumes "manager_ok fs s" and "distinct is" and "\<And>i. i \<in> set is \<Longrightarrow> bt_get (subscribers s) i \<noteq> None"
  shows "\<exists>s'. fold_option remove_subscriber is s = Some s' \<and> manager_ok fs s'
    \<and> sub_log s' = sub_log s \<and> processed_ts s' = processed_ts s \<and> next_seq s' = next_seq s
    \<and> (\<forall>j. bt_get (subscribers s') j = (if j \<in> set is then None else bt_get (subscribers s) j))
    \<and> (\<forall>q. sub_cells s' q = (if \<exists>i \<in> set is. \<exists>sub. bt_get (subscribers s) i = Some sub \<and> sub_seq sub = q
                              then invalid_cell else sub_cells s q))"
  using assms
proof (induction "is" arbitrary: s)
  case (Cons i "is")
  obtain sub where sub: "bt_get (subscribers s) i = Some sub" using Cons.prems(3) [of i] by auto
  obtain m where "remove_subscriber i s = Some (s\<lparr>subscribers := bt_remove i (subscribers s), subscriptions := m,
              sub_cells := (sub_cells s)(sub_seq sub := invalid_cell)\<rparr>)"
    "manager_ok fs (s\<lparr>subscribers := bt_remove i (subscribers s), subscriptions := m,
              sub_cells := (sub_cells s)(sub_seq sub := invalid_cell)\<rparr>)"
    using remove_subscriber_ok [OF Cons.prems(1) sub] .
  note m = this
  let ?s = "s\<lparr>subscribers := bt_remove i (subscribers s), subscriptions := m,
              sub_cells := (sub_cells s)(sub_seq sub := invalid_cell)\<rparr>"
  have get: "bt_get (subscribers ?s) j = (if j = i then None else bt_get (subscribers s) j)" for j
    using manager_okD(1) [OF Cons.prems(1)] by simp
  have "bt_get (subscribers ?s) j \<noteq> None" if "j \<in> set is" for j
    using Cons.prems(2) Cons.prems(3) [of j] that unfolding get by auto
  from Cons.IH [OF m(2) _ this] Cons.prems(2)
  obtain s' where s': "fold_option remove_subscriber is ?s = Some s'" "manager_ok fs s'"
    "sub_log s' = sub_log s" "processed_ts s' = processed_ts s" "next_seq s' = next_seq s"
    "\<And>j. bt_get (subscribers s') j = (if j \<in> set is then None else bt_get (subscribers ?s) j)"
    "\<And>q. sub_cells s' q = (if \<exists>i \<in> set is. \<exists>sub. bt_get (subscribers ?s) i = Some sub \<and> sub_seq sub = q
                              then invalid_cell else sub_cells ?s q)"
    by auto
  have "(\<exists>j \<in> set is. \<exists>a. bt_get (subscribers ?s) j = Some a \<and> sub_seq a = q)
      \<longleftrightarrow> (\<exists>j \<in> set is. \<exists>a. bt_get (subscribers s) j = Some a \<and> sub_seq a = q)" for q
    using Cons.prems(2) unfolding get by auto
  note cells = s'(7) [unfolded this]
  show ?case
    using m(1) s'(1-5) sub by (intro exI [of _ s']) (auto simp: s'(6) [unfolded get] cells)
qed simp

section \<open>Following the log\<close>

lemma advance_valid_cells:
  "sub_cells (advance_valid n ts s) q =
     (if \<exists>e \<in> set (subscribers s). bt_get n (fst e) = None \<and> sub_seq (snd e) = q
      then (sub_cells s q)\<lparr>valid_ts := int ts\<rparr> else sub_cells s q)"
proof -
  have "fold (\<lambda>(i, sub) cells. if bt_get n i = None
            then cells(sub_seq sub := (cells (sub_seq sub))\<lparr>valid_ts := int ts\<rparr>) else cells) subs cells q
      = (if \<exists>e \<in> set subs. bt_get n (fst e) = None \<and> sub_seq (snd e) = q
         then (cells q)\<lparr>valid_ts := int ts\<rparr> else cells q)"
    for subs :: "(subscriber_id \<times> subscriber) list" and cells :: "nat \<Rightarrow> subscription_cell"
    by (induction subs arbitrary: cells) auto
  then show ?thesis by (simp add: advance_valid_def)
qed

lemma advance_valid_ok: "manager_ok fs (advance_valid n ts s) = manager_ok fs s"
  by (simp add: manager_ok_def advance_valid_def)

lemma advance_valid_simps [simp]:
  "subscribers (advance_valid n ts s) = subscribers s" "sub_log (advance_valid n ts s) = sub_log s"
  "processed_ts (advance_valid n ts s) = processed_ts s" "next_seq (advance_valid n ts s) = next_seq s"
  by (simp_all add: advance_valid_def)

abbreviation entries_between :: "timestamp \<Rightarrow> timestamp \<Rightarrow> log_entry list \<Rightarrow> log_entry list" where
  "entries_between a b H \<equiv> filter (\<lambda>e. a < fst e \<and> fst e \<le> b) H"

abbreviation entries_notify :: "search_env \<Rightarrow> read_set \<Rightarrow> log_entry list \<Rightarrow> bool" where
  "entries_notify env rs es \<equiv> list_ex (\<lambda>e. list_ex (notifies env rs) (writes_documents (fst (snd e)))) es"

text \<open>The effect of one advance on every subscriber.\<close>

lemma advance_log_effect:
  assumes ok: "manager_ok fs s" and log: "log_represents H (manager_log (sub_log s))"
    and ts: "purged_ts (manager_log (sub_log s)) \<le> processed_ts s" "processed_ts s < Timestamp_MAX" "processed_ts s \<le> next_ts"
  obtains s' where "advance_log env cfg next_ts s = Some (Inr (), s')" and "manager_ok fs s'"
    and "log_represents H (manager_log (sub_log s'))" and "processed_ts s' = next_ts"
    and "\<forall>i sub. bt_get (subscribers s) i = Some sub \<longrightarrow>
      (if entries_notify env (sub_reads sub) (entries_between (processed_ts s) next_ts H)
       then bt_get (subscribers s') i = None \<and> sub_cells s' (sub_seq sub) = invalid_cell
       else bt_get (subscribers s') i = Some sub \<and> valid_ts (sub_cells s' (sub_seq sub)) = int next_ts)"
proof -
  note oks = manager_okD [OF ok]
  let ?es = "entries_between (processed_ts s) next_ts H"
  have iter: "bind_result (timestamp_succ (processed_ts s)) (\<lambda>from_ts. WriteLog_iter (manager_log (sub_log s)) from_ts next_ts) = Inr ?es"
    using iter_history [OF log, of "Suc (processed_ts s)" next_ts] ts
    by (simp add: timestamp_succ_def Timestamp_succ_def Suc_le_eq)
  let ?n = "overlapping_entries env (subscriptions s) ?es"
  have "\<forall>i sub. bt_get (subscribers s) i = Some sub \<longrightarrow> reads_ok fs (sub_reads sub)" using oks(2) by blast
  note n = overlapping_entries_adds [OF oks(5) this, where env = env and es = ?es]
  have keys: "i \<in> set (map fst ?n) \<longleftrightarrow> (\<exists>sub. bt_get (subscribers s) i = Some sub \<and> entries_notify env (sub_reads sub) ?es)" for i
    unfolding set_map n(2) list_ex_iff by blast
  let ?a = "advance_valid ?n next_ts s"
  have "bt_get (subscribers ?a) i \<noteq> None" if "i \<in> set (map fst ?n)" for i using that unfolding keys by auto
  from remove_subscribers_ok [OF _ bt_distinct [OF n(1)] this] ok
  obtain t where t: "fold_option remove_subscriber (map fst ?n) ?a = Some t" "manager_ok fs t"
    "sub_log t = sub_log s" "processed_ts t = processed_ts s" 
    "\<And>j. bt_get (subscribers t) j = (if j \<in> set (map fst ?n) then None else bt_get (subscribers s) j)"
    "\<And>q. sub_cells t q = (if \<exists>i \<in> set (map fst ?n). \<exists>sub. bt_get (subscribers s) i = Some sub \<and> sub_seq sub = q
                              then invalid_cell else sub_cells ?a q)"
    unfolding advance_valid_ok advance_valid_simps by blast
  let ?s = "t\<lparr>processed_ts := next_ts, sub_log := enforce_retention_policy cfg next_ts (sub_log t)\<rparr>"
  have adv: "advance_log env cfg next_ts s = Some (Inr (), ?s)"
    unfolding advance_log_def iter using t(1,4) ts(3) by (simp add: Let_def)
  have ok': "manager_ok fs ?s" using t(2) by (simp add: manager_ok_def)
  have log': "log_represents H (manager_log (sub_log ?s))"
    using log enforce_retention_represents by (simp add: t(3) enforce_retention_policy_def)
  have eff: "if entries_notify env (sub_reads sub) ?es
      then bt_get (subscribers ?s) i = None \<and> sub_cells ?s (sub_seq sub) = invalid_cell
      else bt_get (subscribers ?s) i = Some sub \<and> valid_ts (sub_cells ?s (sub_seq sub)) = int next_ts"
    if sub: "bt_get (subscribers s) i = Some sub" for i sub
  proof -
    have key: "i \<in> set (map fst ?n) \<longleftrightarrow> entries_notify env (sub_reads sub) ?es" using sub unfolding keys by simp
    have "(\<exists>j \<in> set (map fst ?n). \<exists>a. bt_get (subscribers s) j = Some a \<and> sub_seq a = sub_seq sub) \<longleftrightarrow> i \<in> set (map fst ?n)"
      using sub oks(4) keys by blast
    note cell = t(6) [of "sub_seq sub", unfolded this]
    have "\<exists>e \<in> set (subscribers s). bt_get ?n (fst e) = None \<and> sub_seq (snd e) = sub_seq sub" if "i \<notin> set (map fst ?n)"
    proof
      show "(i, sub) \<in> set (subscribers s)" using sub bt_get_iff [OF oks(1)] by simp
      show "bt_get ?n (fst (i, sub)) = None \<and> sub_seq (snd (i, sub)) = sub_seq sub"
        using that bt_key_get [OF n(1)] by (cases "bt_get ?n i") auto
    qed
    with key cell t(5) [of i] sub show ?thesis by (simp add: advance_valid_cells)
  qed
  have "processed_ts ?s = next_ts" by simp
  from that [OF adv ok' log' this] eff show ?thesis by blast
qed

lemma manager_new_ok: "manager_ok fs (SubscriptionManager_new log cells)"
proof -
  have "indexed_ok fs (indexed_reg []) []" by (rule indexed_okI) (simp_all add: indexed_reg_def bt_get_def)
  moreover have "search_subs_ok (search_reg []) TextSearchSubscriptions_new"
    using search_subs_new by (simp add: search_reg_def [abs_def] bt_get_def)
  ultimately show ?thesis
    by (simp add: manager_ok_def SubscriptionManager_new_def SubscriptionMap_new_def map_ok_def bt_get_def [of "[] :: (_, subscriber) btree"])
qed

text \<open>A new subscriber under a free key keeps the invariant.\<close>

lemma add_subscriber_ok:
  assumes "manager_ok fs s" and "bt_get (subscribers s) i = None" and "reads_ok fs rs"
  shows "manager_ok fs (s\<lparr>subscribers := bt_insert i \<lparr>sub_reads = rs, sub_seq = next_seq s\<rparr> (subscribers s),
           subscriptions := SubscriptionMap_insert i rs (subscriptions s), next_seq := next_seq s + 1, sub_cells := cells\<rparr>)"
proof -
  note ok = manager_okD [OF assms(1)]
  have seq: "bt_get (subscribers s) j = Some a \<Longrightarrow> sub_seq a < Suc (next_seq s) \<and> sub_seq a \<noteq> next_seq s" for j a
    using ok(3) [of j a] by auto
  show ?thesis
    unfolding manager_ok_def using ok(1,2,4) map_ok_insert [OF ok(5) assms(2,3)] assms(3) seq by (auto simp: eq_commute)
qed

abbreviation with_subscriber :: "subscriber_id \<Rightarrow> read_set \<Rightarrow> timestamp \<Rightarrow> subscription_manager \<Rightarrow> subscription_manager" where
  "with_subscriber i rs ts s \<equiv>
     s\<lparr>subscribers := bt_insert i \<lparr>sub_reads = rs, sub_seq = next_seq s\<rparr> (subscribers s),
       subscriptions := SubscriptionMap_insert i rs (subscriptions s), next_seq := next_seq s + 1,
       sub_cells := (sub_cells s)(next_seq s := \<lparr>valid_ts = int ts, valid_state = Valid\<rparr>)\<rparr>"

abbreviation conflict_between :: "search_env \<Rightarrow> log_entry list \<Rightarrow> read_set \<Rightarrow> timestamp \<Rightarrow> timestamp \<Rightarrow> bool" where
  "conflict_between env H rs a b \<equiv> list_ex (\<lambda>e. a < fst e \<and> fst e \<le> b \<and> conflicts env rs (fst (snd e))) H"

lemma subscribe_cases:
  assumes "log_represents H (manager_log (sub_log s))" and "read_set_ok (token_reads t)" and "token_ts t < Timestamp_MAX"
  obtains "SubscriptionManager_subscribe env vacant t s = Some (Inr None, s)"
      and "token_ts t < purged_ts (manager_log (sub_log s)) \<or> conflict_between env H (token_reads t) (token_ts t) (processed_ts s)"
  | "SubscriptionManager_subscribe env vacant t s =
       Some (Inr (Some \<lparr>sk_id = vacant (subscribers s), sk_seq = next_seq s\<rparr>),
             with_subscriber (vacant (subscribers s)) (token_reads t) (max (token_ts t) (processed_ts s)) s)"
      and "\<not> conflict_between env H (token_reads t) (token_ts t) (processed_ts s)"
proof (cases "token_ts t < processed_ts s")
  case True
  note stale = is_stale_history [OF assms(1,3), of env "token_reads t" "processed_ts s"]
  show ?thesis
  proof (cases "WriteLog_is_stale env (manager_log (sub_log s)) (token_reads t) (token_ts t) (processed_ts s)")
    case (Inl e)
    with stale that(1) True show ?thesis
      by (auto simp: SubscriptionManager_subscribe_def WriteLog_refresh_token_def split: if_splits)
  next
    case (Inr r)
    note iff = log.stale_iff [OF assms(1,2) Inr, unfolded log.valid_until_def]
    show ?thesis
    proof (cases r)
      case None
      show ?thesis
      proof (rule that(2))
        show "\<not> conflict_between env H (token_reads t) (token_ts t) (processed_ts s)"
          using iff None by (auto simp: list_ex_iff)
      qed (use True Inr None in \<open>simp add: SubscriptionManager_subscribe_def WriteLog_refresh_token_def Token_advance_ts_def Let_def max_def\<close>)
    next
      case (Some c)
      then have "conflict_between env H (token_reads t) (token_ts t) (processed_ts s)" using iff by (auto simp: list_ex_iff)
      with True Inr Some that(1) show ?thesis by (simp add: SubscriptionManager_subscribe_def WriteLog_refresh_token_def)
    qed
  qed
next
  case False
  show ?thesis
  proof (rule that(2))
    show "\<not> conflict_between env H (token_reads t) (token_ts t) (processed_ts s)" using False by (auto simp: list_ex_iff)
  qed (use False in \<open>simp add: SubscriptionManager_subscribe_def Let_def max_def\<close>)
qed



text \<open>Subscribing with a token never panics.  It yields a subscription only when the token is valid
  at the timestamp the manager has processed; the subscription then starts there, under a key that
  finds it, and removing it gives back the previous subscribers.  It is refused only when the token
  is stale or too old for the log.\<close>

lemma subscribe_sound:
  assumes "manager_ok fs s" and "log_represents H (manager_log (sub_log s))" and "reads_ok fs (token_reads t)"
    and "token_ts t < Timestamp_MAX" and "bt_get (subscribers s) (vacant (subscribers s)) = None"
  shows "case SubscriptionManager_subscribe env vacant t s of
      Some (Inr None, s') \<Rightarrow> s' = s
        \<and> (token_ts t < purged_ts (manager_log (sub_log s)) \<or> conflict_between env H (token_reads t) (token_ts t) (processed_ts s))
    | Some (Inr (Some key), s') \<Rightarrow> manager_ok fs s'
        \<and> \<not> conflict_between env H (token_reads t) (token_ts t) (processed_ts s)
        \<and> Subscription_current_ts s' (Some key) = Some (max (token_ts t) (processed_ts s))
        \<and> map_option (map_option sub_reads) (get_subscriber key s') = Some (Some (token_reads t))
        \<and> (case SubscriptionManager_remove key s' of
             None \<Rightarrow> False
           | Some s'' \<Rightarrow> manager_ok fs s'' \<and> bt_get (subscribers s'') = bt_get (subscribers s)
                \<and> Subscription_current_ts s'' (Some key) = None)
    | _ \<Rightarrow> False"
proof -
  have rs: "read_set_ok (token_reads t)" using assms(3) by (simp add: reads_ok_def)
  let ?s = "with_subscriber (vacant (subscribers s)) (token_reads t) (max (token_ts t) (processed_ts s)) s"
  let ?key = "\<lparr>sk_id = vacant (subscribers s), sk_seq = next_seq s\<rparr>"
  have ok: "manager_ok fs ?s" by (rule add_subscriber_ok [OF assms(1,5,3)])
  have sub: "bt_get (subscribers ?s) (vacant (subscribers s)) = Some \<lparr>sub_reads = token_reads t, sub_seq = next_seq s\<rparr>" by simp
  have gone: "bt_get (bt_remove (vacant (subscribers s)) (subscribers ?s)) = bt_get (subscribers s)"
    using manager_okD(1) [OF assms(1)] assms(5) by (simp add: fun_upd_idem)
  obtain m where m: "remove_subscriber (vacant (subscribers s)) ?s = Some m" "manager_ok fs m"
    "bt_get (subscribers m) = bt_get (subscribers s)" "sub_cells m (next_seq s) = invalid_cell"
  proof (rule remove_subscriber_ok [OF ok sub])
    fix m
    let ?m = "?s\<lparr>subscribers := bt_remove (vacant (subscribers s)) (subscribers ?s), subscriptions := m,
        sub_cells := (sub_cells ?s)(sub_seq \<lparr>sub_reads = token_reads t, sub_seq = next_seq s\<rparr> := invalid_cell)\<rparr>"
    assume "remove_subscriber (vacant (subscribers s)) ?s = Some ?m" "manager_ok fs ?m"
    then show ?thesis by (rule that) (use gone in simp_all)
  qed
  have get: "get_subscriber ?key ?s = Some (Some \<lparr>sub_reads = token_reads t, sub_seq = next_seq s\<rparr>)"
    by (simp add: get_subscriber_def)
  have "SubscriptionManager_remove ?key ?s = Some m"
    unfolding SubscriptionManager_remove_def get using m(1) by simp
  with get show ?thesis
    using m ok by (cases rule: subscribe_cases [OF assms(2) rs assms(4), of env vacant])
      (simp_all add: Subscription_current_ts_def)
qed

text \<open>The map of subscriptions keeps the fields with which an index was first read.  A second
  subscriber that read the same index name with other fields, after the index was redefined, is not
  notified of a document that its reads do cover.\<close>

lemma redefined_index_not_notified:
  "\<exists>rs1 rs2 doc. read_set_ok rs1 \<and> read_set_ok rs2 \<and> covers env rs2 doc
     \<and> bt_get (overlapping env (SubscriptionMap_insert 1 rs2 (SubscriptionMap_insert 0 rs1 SubscriptionMap_new)) doc []) 1 = None"
proof -
  define doc :: packed_document where
    "doc = \<lparr>packed_value = Null, packed_id = \<lparr>tablet_id = [], developer_id = \<lparr>id_table = 1, internal_id = []\<rparr>\<rparr>\<rparr>"
  define reads :: "indexed_fields \<Rightarrow> interval_set \<Rightarrow> read_set" where
    "reads = (\<lambda>fs is. \<lparr>rs_indexed = [(([], [97]), \<lparr>ir_fields = fs, ir_intervals = is, ir_stack_traces = None\<rparr>)], rs_search = []\<rparr>)"
  let ?some = "Intervals [(StartIncluded [STRING_TAG], Unbounded)]"
  have ok: "read_set_ok (reads fs (Intervals []))" "read_set_ok (reads fs ?some)" for fs
    by (simp_all add: reads_def read_set_ok_def bt_all_def index_reads_ok_def IntervalSet_ok_def entries_ok_def entry_ok_alt)
  obtain k where key: "IndexKey_into_bytes (PackedDocument_index_key doc fs) = replicate (length fs) UNDEFINED_TAG @ STRING_TAG # k" for fs
  proof (rule that)
    show "IndexKey_into_bytes (PackedDocument_index_key doc fs) = replicate (length fs) UNDEFINED_TAG
        @ STRING_TAG # write_escaped_bytes (DeveloperDocumentId_encode (developer_id (packed_id doc)))" for fs
      by (simp add: IndexKey_into_bytes_def PackedDocument_index_key_def IndexKey_new_allow_missing_def indexed_values_def
          values_to_bytes_def optional_key_def id_value_def packed_get_path_def doc_def map_replicate_const comp_def)
  qed
  have tags: "UNDEFINED_TAG < STRING_TAG" "\<not> STRING_TAG < UNDEFINED_TAG" "STRING_TAG \<noteq> UNDEFINED_TAG" by (simp_all add: tag_defs)
  have "covers env (reads [] ?some) doc"
    using key [of "[]"] by (simp add: covers_def reads_def index_covers_def doc_def IntervalSet_points_def entries_points_def
        Interval_contains_def)
  moreover have "bt_get (overlapping env (SubscriptionMap_insert 1 (reads [] ?some)
      (SubscriptionMap_insert 0 (reads [[[97]]] (Intervals [])) SubscriptionMap_new)) doc []) 1 = None"
    using key [of "[[[97]]]"] tags
    by (simp add: overlapping_def reads_def SubscriptionMap_insert_def SubscriptionMap_new_def insert_indexed_def
        IntervalMap_new_def IntervalMap_insert_def IntervalMap_query_def IntervalSet_contains_def
        IntervalSet_interval_preceding_def TextSearchSubscriptions_add_matches_def TextSearchSubscriptions_new_def
        add_fuzzy_matches_def add_filter_conditions_matches_def bs_extend_def bt_get_def get_or_def)
  ultimately show ?thesis using ok by blast
qed

end
