(* ===== verification/Snapshot_Manager.thy ===== *)
theory Snapshot_Manager
  imports Timestamp
begin

text \<open>
  The snapshot manager (\<open>database/src/snapshot_manager.rs\<close>) keeps the recent versions of the
  snapshot.  The snapshot itself is a type parameter: nothing here looks into it.  \<open>None\<close> is a
  panic; \<open>max_window\<close> is the knob \<open>MAX_TRANSACTION_WINDOW\<close>.
\<close>

section \<open>Operations\<close>

record 's snapshot_manager =
  persisted_max_ts :: timestamp
  versions :: "(timestamp \<times> 's) list"

datatype snapshot_error = TooEarly timestamp | TooRecent timestamp timestamp

definition SnapshotManager_new :: "timestamp \<Rightarrow> 's \<Rightarrow> 's snapshot_manager" where
  "SnapshotManager_new initial_ts initial_snapshot =
     \<lparr>persisted_max_ts = initial_ts, versions = [(initial_ts, initial_snapshot)]\<rparr>"

definition latest :: "'s snapshot_manager \<Rightarrow> (timestamp \<times> 's) option" where
  "latest m = (if versions m = [] then None else Some (last (versions m)))"

definition latest_snapshot :: "'s snapshot_manager \<Rightarrow> 's option" where
  "latest_snapshot m = map_option snd (latest m)"

definition earliest_ts :: "'s snapshot_manager \<Rightarrow> timestamp option" where
  "earliest_ts m = (if versions m = [] then None else Some (fst (hd (versions m))))"

definition latest_ts :: "'s snapshot_manager \<Rightarrow> timestamp option" where
  "latest_ts m = map_option fst (latest m)"

definition persisted_max_repeatable_ts :: "'s snapshot_manager \<Rightarrow> timestamp option" where
  "persisted_max_repeatable_ts m =
     (case latest_ts m of None \<Rightarrow> None
      | Some ts \<Rightarrow> if persisted_max_ts m \<le> ts then Some (persisted_max_ts m) else None)"

text \<open>\<open>binary_search_by_key\<close> of the standard library on strictly ascending keys: \<open>Inr i\<close> is the
  position of the key, \<open>Inl i\<close> the one where it would be inserted.\<close>

definition binary_search_by_key :: "timestamp \<Rightarrow> (timestamp \<times> 's) list \<Rightarrow> nat + nat" where
  "binary_search_by_key ts vs =
     (let i = length (takeWhile (\<lambda>v. fst v < ts) vs)
      in if i < length vs \<and> fst (vs ! i) = ts then Inr i else Inl i)"

definition snapshot :: "timestamp \<Rightarrow> 's snapshot_manager \<Rightarrow> (snapshot_error + 's) option" where
  "snapshot ts m =
     (case earliest_ts m of None \<Rightarrow> None | Some earliest \<Rightarrow>
      if ts < earliest then Some (Inl (TooEarly ts))
      else case latest_ts m of None \<Rightarrow> None | Some l \<Rightarrow>
      if \<not> ts \<le> l then Some (Inl (TooRecent ts l))
      else case binary_search_by_key ts (versions m) of
             Inr i \<Rightarrow> Some (Inr (snd (versions m ! i)))
           | Inl i \<Rightarrow> if i = 0 then None else Some (Inr (snd (versions m ! (i - 1)))))"

definition overwrite_last_snapshot :: "('s \<Rightarrow> 's) \<Rightarrow> 's snapshot_manager \<Rightarrow> 's snapshot_manager option" where
  "overwrite_last_snapshot f m =
     (if versions m = [] then None
      else Some (m\<lparr>versions := butlast (versions m) @ [(fst (last (versions m)), f (snd (last (versions m))))]\<rparr>))"

fun trim_versions :: "nat \<Rightarrow> timestamp \<Rightarrow> (timestamp \<times> 's) list \<Rightarrow> (timestamp \<times> 's) list" where
  "trim_versions max_window ts (v # w # vs) =
     (if ts - fst v > max_window then trim_versions max_window ts (w # vs) else v # w # vs)"
| "trim_versions max_window ts vs = vs"

definition push :: "nat \<Rightarrow> timestamp \<Rightarrow> 's \<Rightarrow> 's snapshot_manager \<Rightarrow> 's snapshot_manager option" where
  "push max_window ts s m =
     (case latest_ts m of None \<Rightarrow> None | Some l \<Rightarrow>
      if \<not> l < ts then None
      else Some (m\<lparr>versions := trim_versions max_window ts (versions m) @ [(ts, s)]\<rparr>))"

definition bump_persisted_max_repeatable_ts ::
    "nat \<Rightarrow> timestamp \<Rightarrow> 's snapshot_manager \<Rightarrow> (bool \<times> 's snapshot_manager) option" where
  "bump_persisted_max_repeatable_ts max_window ts m =
     (case latest m of None \<Rightarrow> None | Some (l, s) \<Rightarrow>
      if l < ts then map_option (\<lambda>m. (True, m\<lparr>persisted_max_ts := ts\<rparr>)) (push max_window ts s m)
      else Some (False, m))"

section \<open>Versions are found by their timestamps\<close>

definition versions_ok :: "'s snapshot_manager \<Rightarrow> bool" where
  "versions_ok m = (versions m \<noteq> [] \<and> sorted_wrt (<) (map fst (versions m))
     \<and> persisted_max_ts m \<le> fst (last (versions m)))"

text \<open>The version in force at a timestamp.\<close>

definition version_at :: "timestamp \<Rightarrow> (timestamp \<times> 's) list \<Rightarrow> (timestamp \<times> 's) option" where
  "version_at ts vs = (let before = filter (\<lambda>v. fst v \<le> ts) vs in if before = [] then None else Some (last before))"

lemma versions_split:
  "bt_ok vs \<Longrightarrow> vs = filter (\<lambda>v. fst v \<le> (ts :: timestamp)) vs @ filter (\<lambda>v. ts < fst v) vs"
proof (induction vs)
  case (Cons v vs)
  have "filter (\<lambda>u. fst u \<le> ts) vs = []" if "ts < fst v" using Cons.prems that by (force simp: filter_empty_conv)
  with Cons show ?case by (cases "fst v \<le> ts") auto
qed simp

lemma takeWhile_versions:
  "bt_ok vs \<Longrightarrow> takeWhile (\<lambda>v. fst v < (ts :: timestamp)) vs = filter (\<lambda>v. fst v < ts) vs"
proof (induction vs)
  case (Cons v vs)
  have "filter (\<lambda>u. fst u < ts) vs = []" if "\<not> fst v < ts" using Cons.prems that by (force simp: filter_empty_conv)
  with Cons show ?case by auto
qed simp

lemma snapshot_version_at:
  assumes "versions_ok m"
  shows "snapshot ts m = Some (if ts < fst (hd (versions m)) then Inl (TooEarly ts)
     else if fst (last (versions m)) < ts then Inl (TooRecent ts (fst (last (versions m))))
     else Inr (snd (the (version_at ts (versions m)))))"
proof -
  let ?vs = "versions m"
  have vs: "?vs \<noteq> []" "sorted_wrt (<) (map fst ?vs)" using assms by (simp_all add: versions_ok_def)
  have "(case binary_search_by_key ts ?vs of Inr i \<Rightarrow> Some (Inr (snd (?vs ! i)))
      | Inl i \<Rightarrow> if i = 0 then None else Some (Inr (snd (?vs ! (i - 1)))))
    = Some (Inr (snd (the (version_at ts ?vs))))" if "fst (hd ?vs) \<le> ts"
  proof -
    let ?b = "filter (\<lambda>v. fst v \<le> ts) ?vs" and ?a = "filter (\<lambda>v. ts < fst v) ?vs"
    have "?b \<noteq> []" using vs(1) that by (cases ?vs) auto
    then obtain b t s where b: "?b = b @ [(t, s)]" by (cases ?b rule: rev_cases) auto
    have split: "?vs = b @ (t, s) # ?a" using versions_split [OF vs(2), of ts] b by simp
    have "(t, s) \<in> set ?b" unfolding b by simp
    then have t: "t \<le> ts" by simp
    have sorted: "sorted_wrt (<) (map fst (b @ (t, s) # ?a))" using vs(2) split by metis
    then have less: "filter (\<lambda>v. fst v < ts) (b @ (t, s) # ?a) = b @ (if t < ts then [(t, s)] else [])"
      using t by (auto simp: sorted_wrt_append filter_id_conv)
    have i: "length (takeWhile (\<lambda>v. fst v < ts) ?vs) = length b + (if t < ts then 1 else 0)"
      unfolding takeWhile_versions [OF vs(2)] using less split by simp
    have at: "version_at ts ?vs = Some (t, s)" by (simp add: version_at_def b)
    show ?thesis
    proof (cases "t < ts")
      case True
      have "\<not> (length b + 1 < length ?vs \<and> fst (?vs ! (length b + 1)) = ts)"
      proof
        assume n: "length b + 1 < length ?vs \<and> fst (?vs ! (length b + 1)) = ts"
        then have "length ?a > 0" by (subst (asm) split) simp
        then have "?a ! 0 \<in> set ?a" by (rule nth_mem)
        moreover have "?vs ! (length b + 1) = ?a ! 0" by (subst split) (simp add: nth_append)
        ultimately show False using n by simp
      qed
      moreover have "?vs ! length b = (t, s)" by (subst split) simp
      ultimately show ?thesis using i True at by (auto simp: binary_search_by_key_def Let_def)
    next
      case False
      then have "?vs ! length b = (t, s)" "length b < length ?vs" by (subst split, simp)+
      moreover have "t = ts" using False t by simp
      ultimately show ?thesis using i at by (auto simp: binary_search_by_key_def Let_def)
    qed
  qed
  then show ?thesis using vs(1) by (auto simp: snapshot_def earliest_ts_def latest_ts_def latest_def)
qed

lemma trim_versions_suffix:
  "\<exists>pre. vs = pre @ trim_versions w ts vs \<and> (\<forall>v \<in> set pre. w < ts - fst v) \<and> (trim_versions w ts vs = [] \<longleftrightarrow> vs = [])"
proof (induction w ts vs rule: trim_versions.induct)
  case (1 w ts v u vs)
  show ?case
  proof (cases "ts - fst v > w")
    case True
    with 1 obtain pre where "u # vs = pre @ trim_versions w ts (u # vs)" "\<forall>v \<in> set pre. w < ts - fst v"
      "trim_versions w ts (u # vs) \<noteq> []" by auto
    with True show ?thesis by (intro exI [of _ "v # pre"]) auto
  qed simp
qed simp_all

lemma version_at_append:
  "version_at u (vs @ ws) = (case version_at u ws of Some v \<Rightarrow> Some v | None \<Rightarrow> version_at u vs)"
  by (simp add: version_at_def Let_def)

lemma push_ok:
  assumes "versions_ok m" and "fst (last (versions m)) < ts"
  obtains m' pre kept where "push w ts s m = Some m'" and "versions_ok m'"
    and "versions m = pre @ kept" and "kept \<noteq> []" and "versions m' = kept @ [(ts, s)]"
    and "\<forall>v \<in> set pre. w < ts - fst v" and "persisted_max_ts m' = persisted_max_ts m"
proof -
  have vs: "versions m \<noteq> []" "bt_ok (versions m)" "persisted_max_ts m \<le> fst (last (versions m))"
    using assms(1) by (simp_all add: versions_ok_def)
  define kept where "kept = trim_versions w ts (versions m)"
  obtain pre where pre: "versions m = pre @ kept" "\<forall>v \<in> set pre. w < ts - fst v" "kept \<noteq> []"
    using trim_versions_suffix [of "versions m" w ts] vs(1) unfolding kept_def by blast
  have max: "\<forall>v \<in> set (versions m). fst v \<le> fst (last (versions m))"
    using vs(1,2) by (cases "versions m" rule: rev_cases) (auto simp: sorted_wrt_append less_imp_le)
  let ?m = "m\<lparr>versions := kept @ [(ts, s)]\<rparr>"
  show ?thesis
  proof (rule that)
    show "push w ts s m = Some ?m" using assms(2) vs(1) by (simp add: push_def latest_ts_def latest_def kept_def)
    have "bt_ok kept" using vs(2) pre(1) by (simp add: sorted_wrt_append)
    moreover have "\<forall>v \<in> set kept. fst v < ts" using max le_less_trans [OF _ assms(2)] pre(1) by simp
    ultimately show "versions_ok ?m" using vs(3) assms(2) by (simp add: versions_ok_def sorted_wrt_append)
  qed (use pre in simp_all)
qed

section \<open>Versioned state\<close>

text \<open>
  What the committer relies on: publishing a state at a later timestamp makes it the latest one and
  keeps the manager well formed.
\<close>

locale versioned =
  fixes publish :: "timestamp \<Rightarrow> 's \<Rightarrow> 'm \<Rightarrow> 'm option"
    and current :: "'m \<Rightarrow> timestamp \<times> 's"
    and ok :: "'m \<Rightarrow> bool"
  assumes publish_next: "ok m \<Longrightarrow> fst (current m) < ts \<Longrightarrow> \<exists>m'. publish ts s m = Some m' \<and> ok m' \<and> current m' = (ts, s)"
begin

lemma publish_all:
  assumes "ok m" and "sorted_wrt (<) (fst (current m) # map fst vs)"
  shows "\<exists>m'. fold_option (\<lambda>v. publish (fst v) (snd v)) vs m = Some m' \<and> ok m' \<and> current m' = last (current m # vs)"
  using assms
proof (induction vs arbitrary: m)
  case (Cons v vs)
  then obtain m' where m': "publish (fst v) (snd v) m = Some m'" "ok m'" "current m' = v"
    using publish_next [of m "fst v" "snd v"] by auto
  then have "sorted_wrt (<) (fst (current m') # map fst vs)" using Cons.prems(2) by simp
  from Cons.IH [OF m'(2) this] m' show ?case by auto
qed simp

lemma publish_twice:
  assumes "ok m" and "fst (current m) < t" and "t < u"
  shows "\<exists>m'. Option.bind (publish t a m) (publish u b) = Some m' \<and> ok m' \<and> current m' = (u, b)"
  using publish_next [OF assms(1,2), of a] publish_next [of _ u b] assms(3) by force

end

interpretation snapshots: versioned "push w" "\<lambda>m. last (versions m)" versions_ok for w
proof
  fix m :: "'s snapshot_manager" and ts s
  assume "versions_ok m" "fst (last (versions m)) < ts"
  then obtain m' pre kept where "push w ts s m = Some m'" "versions_ok m'" "versions m' = kept @ [(ts, s)]"
    using push_ok by metis
  then show "\<exists>m'. push w ts s m = Some m' \<and> versions_ok m' \<and> last (versions m') = (ts, s)" by simp
qed

section \<open>Properties\<close>

text \<open>C16. Publishing a snapshot never panics; afterwards its timestamp gives the new snapshot, and a
  reader at an older timestamp gets exactly what it got before, or is told that the timestamp is
  too early.  It still gets it when the version it reads is within the window.\<close>

theorem push_keeps_recent_snapshots:
  assumes "versions_ok m" and "fst (last (versions m)) < ts" and "u < ts"
  shows "case push w ts s m of
     None \<Rightarrow> False
   | Some m' \<Rightarrow> versions_ok m' \<and> snapshot ts m' = Some (Inr s)
       \<and> (case version_at u (versions m) of
            None \<Rightarrow> snapshot u m' = Some (Inl (TooEarly u))
          | Some (t, x) \<Rightarrow> snapshot u m' = Some (Inr x) \<or> w < ts - t \<and> snapshot u m' = Some (Inl (TooEarly u)))"
proof -
  obtain m' pre kept where m': "push w ts s m = Some m'" "versions_ok m'" "versions m = pre @ kept" "kept \<noteq> []"
    "versions m' = kept @ [(ts, s)]" "\<forall>v \<in> set pre. w < ts - fst v"
    using push_ok [OF assms(1,2)] by metis
  have sorted: "bt_ok (versions m)" using assms(1) by (simp add: versions_ok_def)
  have old: "version_at u (versions m') = version_at u kept" using assms(3) by (simp add: m'(5) version_at_def Let_def)
  have snap: "snapshot u m' = Some (if u < fst (hd kept) then Inl (TooEarly u) else Inr (snd (the (version_at u kept))))"
    using assms(3) m'(4) by (simp add: snapshot_version_at [OF m'(2)] old) (simp add: m'(5))
  have "\<not> ts < fst (hd kept)" using m'(2,4) by (cases kept) (auto simp: versions_ok_def m'(5))
  then have new: "snapshot ts m' = Some (Inr s)"
    using m'(4) by (simp add: snapshot_version_at [OF m'(2)] m'(5) version_at_def)
  show ?thesis
  proof (cases "version_at u kept")
    case (Some v)
    then have "fst (hd kept) \<le> u"
      using sorted m'(3,4) by (cases kept) (auto simp: version_at_def Let_def sorted_wrt_append filter_empty_conv split: if_splits)
    then show ?thesis using m' new snap Some by (simp add: version_at_append split_beta)
  next
    case None
    have "u < fst (hd kept)" using None m'(4) by (cases kept) (auto simp: version_at_def Let_def filter_empty_conv split: if_splits)
    moreover have "w < ts - fst v" if "version_at u pre = Some v" for v
    proof -
      have "v \<in> set (filter (\<lambda>v. fst v \<le> u) pre)" using that last_in_set by (fastforce simp: version_at_def Let_def split: if_splits)
      with m'(6) show ?thesis by simp
    qed
    ultimately show ?thesis using m' new snap None by (auto simp: version_at_append split: option.splits)
  qed
qed

theorem push_keeps_recent_snapshots_witness:
  "case push 10 12 ''c'' \<lparr>persisted_max_ts = 1, versions = [(1, ''a''), (7, ''b'')]\<rparr> of
     None \<Rightarrow> False
   | Some m' \<Rightarrow> snapshot 8 m' = Some (Inr ''b'')"
  using push_keeps_recent_snapshots [of "\<lparr>persisted_max_ts = 1, versions = [(1, ''a''), (7, ''b'')]\<rparr>" 12 8, where w = 10 and s = "''c''"]
  by (simp add: versions_ok_def version_at_def split: option.splits)


end
