(* ===== verification/Transaction_Writes.thy ===== *)
theory Transaction_Writes
  imports Read_Set
begin

text \<open>
  The writes of a transaction (\<open>database/src/writes.rs\<close>): the coalesced updates with their limits, the
  read dependencies a write takes, and the nesting of subtransactions.

  The knobs are a \<open>write_config\<close>; it also holds \<open>encode_urlsafe\<close>, the Base64 form of an id, which a
  third-party crate computes.  An operation returns its result together with the read set and the
  writes as they are then, also when the result is an error.
\<close>

declare split_paired_All [simp del] split_paired_Ex [simp del]

section \<open>The order of document ids\<close>

text \<open>The derived order: the fields decide one after the other.\<close>

instantiation developer_document_id_ext :: (linorder) linorder
begin

definition less_eq_developer_document_id_ext :: "'a developer_document_id_ext \<Rightarrow> 'a developer_document_id_ext \<Rightarrow> bool" where
  "less_eq_developer_document_id_ext a b =
     ((id_table a, internal_id a, developer_document_id.more a) \<le> (id_table b, internal_id b, developer_document_id.more b))"

definition less_developer_document_id_ext :: "'a developer_document_id_ext \<Rightarrow> 'a developer_document_id_ext \<Rightarrow> bool" where
  "less_developer_document_id_ext a b =
     ((id_table a, internal_id a, developer_document_id.more a) < (id_table b, internal_id b, developer_document_id.more b))"

instance
proof
  fix x y z :: "'a developer_document_id_ext"
  show "x < y \<longleftrightarrow> x \<le> y \<and> \<not> y \<le> x"
    unfolding less_eq_developer_document_id_ext_def less_developer_document_id_ext_def by (rule less_le_not_le)
  show "x \<le> x" unfolding less_eq_developer_document_id_ext_def by (rule order_refl)
  show "x \<le> z" if "x \<le> y" "y \<le> z"
    using that unfolding less_eq_developer_document_id_ext_def by (rule order_trans)
  show "x = y" if "x \<le> y" "y \<le> x"
    using order_antisym [OF that [unfolded less_eq_developer_document_id_ext_def]] by simp
  show "x \<le> y \<or> y \<le> x" unfolding less_eq_developer_document_id_ext_def by (rule linear)
qed

end

instantiation resolved_document_id_ext :: (linorder) linorder
begin

definition less_eq_resolved_document_id_ext :: "'a resolved_document_id_ext \<Rightarrow> 'a resolved_document_id_ext \<Rightarrow> bool" where
  "less_eq_resolved_document_id_ext a b =
     ((tablet_id a, developer_id a, resolved_document_id.more a) \<le> (tablet_id b, developer_id b, resolved_document_id.more b))"

definition less_resolved_document_id_ext :: "'a resolved_document_id_ext \<Rightarrow> 'a resolved_document_id_ext \<Rightarrow> bool" where
  "less_resolved_document_id_ext a b =
     ((tablet_id a, developer_id a, resolved_document_id.more a) < (tablet_id b, developer_id b, resolved_document_id.more b))"

instance
proof
  fix x y z :: "'a resolved_document_id_ext"
  show "x < y \<longleftrightarrow> x \<le> y \<and> \<not> y \<le> x"
    unfolding less_eq_resolved_document_id_ext_def less_resolved_document_id_ext_def by (rule less_le_not_le)
  show "x \<le> x" unfolding less_eq_resolved_document_id_ext_def by (rule order_refl)
  show "x \<le> z" if "x \<le> y" "y \<le> z"
    using that unfolding less_eq_resolved_document_id_ext_def by (rule order_trans)
  show "x = y" if "x \<le> y" "y \<le> x"
    using order_antisym [OF that [unfolded less_eq_resolved_document_id_ext_def]] by simp
  show "x \<le> y \<or> y \<le> x" unfolding less_eq_resolved_document_id_ext_def by (rule linear)
qed

end

section \<open>Nested writes\<close>

text \<open>The token is a \<open>u32\<close>.\<close>

datatype 'w nested_writes = NestedWrites (nw_parent: "'w nested_writes option") (nw_pending: 'w) (nw_token: u32)

datatype nested_error = TokenMismatch u32 u32 | NoNested | NestedInProgress

definition NestedWrites_new :: "'w \<Rightarrow> 'w nested_writes" where
  "NestedWrites_new writes = NestedWrites None writes 0"

definition begin_nested :: "'w nested_writes \<Rightarrow> u32 \<times> 'w nested_writes" where
  "begin_nested self =
     (let nested_token = nw_token self + 1
      in (nested_token, NestedWrites (Some self) (nw_pending self) nested_token))"

definition commit_nested :: "u32 \<Rightarrow> 'w nested_writes \<Rightarrow> nested_error + 'w nested_writes" where
  "commit_nested t self =
     (if nw_token self \<noteq> t then Inl (TokenMismatch (nw_token self) t)
      else case nw_parent self of
             None \<Rightarrow> Inl NoNested
           | Some parent \<Rightarrow> Inr (NestedWrites (nw_parent parent) (nw_pending self) (nw_token parent)))"

definition rollback_nested :: "u32 \<Rightarrow> 'w nested_writes \<Rightarrow> nested_error + 'w nested_writes" where
  "rollback_nested t self =
     (if nw_token self \<noteq> t then Inl (TokenMismatch (nw_token self) t)
      else case nw_parent self of None \<Rightarrow> Inl NoNested | Some parent \<Rightarrow> Inr parent)"

definition require_not_nested :: "'w nested_writes \<Rightarrow> nested_error + unit" where
  "require_not_nested self = (if nw_parent self = None then Inr () else Inl NestedInProgress)"

definition into_flat :: "'w nested_writes \<Rightarrow> nested_error + 'w" where
  "into_flat self = bind_result (require_not_nested self) (\<lambda>_. Inr (nw_pending self))"

section \<open>The write set\<close>

datatype write_timestamp = Committed timestamp | Pending

record document_update_with_prev_ts =
  upd_id :: resolved_document_id
  upd_old :: "(resolved_document \<times> timestamp option) option"
  upd_new :: "resolved_document option"

definition DocumentUpdate_from :: "document_update_with_prev_ts \<Rightarrow> document_update" where
  "DocumentUpdate_from u = \<lparr>update_id = upd_id u, old_document = map_option fst (upd_old u), new_document = upd_new u\<rparr>"

record transaction_write_size =
  num_writes :: nat
  write_size :: nat

record writes =
  updates :: "(resolved_document_id, document_update_with_prev_ts) btree"
  user_write_size :: transaction_write_size
  system_write_size :: transaction_write_size

record write_config =
  max_user_writes :: nat
  max_user_bytes :: nat
  max_system_writes :: nat
  max_system_bytes :: nat
  encode_urlsafe :: "bytes \<Rightarrow> bytes"

record bootstrap_table_ids =
  tables_id :: "tablet_id \<times> table_number"
  index_id :: "tablet_id \<times> table_number"

datatype writes_error =
    DuplicateInsert | TooManySystemWrites nat | TooManySystemBytes nat
  | TooManyWrites nat | TooManyBytesWritten nat
  | OldDocumentMismatch | OldTimestampNotPending | PendingWithoutWrite
  | BadIndexName index_validation_error | BadValue value_error

definition Writes_new :: writes where
  "Writes_new = \<lparr>updates = [], user_write_size = \<lparr>num_writes = 0, write_size = 0\<rparr>,
                  system_write_size = \<lparr>num_writes = 0, write_size = 0\<rparr>\<rparr>"

definition Writes_is_empty :: "writes \<Rightarrow> bool" where
  "Writes_is_empty w = (updates w = [])"

definition is_index_table :: "bootstrap_table_ids \<Rightarrow> tablet_id \<Rightarrow> bool" where
  "is_index_table b t = (fst (index_id b) = t)"

definition is_tables_table :: "bootstrap_table_ids \<Rightarrow> tablet_id \<Rightarrow> bool" where
  "is_tables_table b t = (fst (tables_id b) = t)"

definition TABLE_ID_FIELD_PATH :: field_path where
  "TABLE_ID_FIELD_PATH = [ascii ''table_id'']"

definition index_metadata_serialize_tablet_id :: "write_config \<Rightarrow> tablet_id \<Rightarrow> value_error + convex_value" where
  "index_metadata_serialize_tablet_id cfg t = ConvexString_try_from (encode_urlsafe cfg t)"

text \<open>The index \<open>by_table_id\<close> of \<open>_index\<close>, and the prefix of its keys for one table.\<close>

definition table_id_index ::
    "write_config \<Rightarrow> bootstrap_table_ids \<Rightarrow> tablet_id \<Rightarrow> writes_error + tablet_index_name \<times> indexed_fields \<times> interval" where
  "table_id_index cfg b t =
     (case index_metadata_serialize_tablet_id cfg t of Inl e \<Rightarrow> Inl (BadValue e) | Inr v \<Rightarrow>
      case IndexDescriptor_new (ascii ''by_table_id'') of Inl e \<Rightarrow> Inl (BadIndexName e) | Inr d \<Rightarrow>
      case IndexName_new (fst (index_id b)) d of Inl e \<Rightarrow> Inl (BadIndexName e) | Inr index \<Rightarrow>
      case IndexedFields_try_from [TABLE_ID_FIELD_PATH] of Inl e \<Rightarrow> Inl (BadIndexName e) | Inr fs \<Rightarrow>
      Inr (index, fs, Interval_prefix (values_to_bytes [Some v])))"

definition record_reads_for_write ::
    "write_config \<Rightarrow> read_config \<Rightarrow> bootstrap_table_ids \<Rightarrow> tablet_id \<Rightarrow> transaction_read_set
     \<Rightarrow> ((writes_error + unit) \<times> transaction_read_set) option" where
  "record_reads_for_write cfg rcfg b t reads =
     (if is_index_table b t \<or> is_tables_table b t then
        case record_indexed_derived rcfg (IndexName_by_id (fst (tables_id b))) IndexedFields_by_id Interval_all reads of
          None \<Rightarrow> None
        | Some reads \<Rightarrow>
            map_option (Pair (Inr ()))
              (record_indexed_derived rcfg (IndexName_by_id (fst (index_id b))) IndexedFields_by_id Interval_all reads)
      else
        let table_id_bytes = IndexKey_into_bytes (IndexKey_new [] \<lparr>id_table = snd (tables_id b), internal_id = t\<rparr>)
        in case record_indexed_derived rcfg (IndexName_by_id (fst (tables_id b))) IndexedFields_by_id
                  (Interval_prefix table_id_bytes) reads of
             None \<Rightarrow> None
           | Some reads \<Rightarrow>
               case table_id_index cfg b t of
                 Inl e \<Rightarrow> Some (Inl e, reads)
               | Inr (index, fs, interval) \<Rightarrow> map_option (Pair (Inr ())) (record_indexed_derived rcfg index fs interval reads))"

definition register_new_id ::
    "read_config \<Rightarrow> resolved_document_id \<Rightarrow> transaction_read_set \<Rightarrow> transaction_read_set option" where
  "register_new_id rcfg i reads =
     (let id_bytes = IndexKey_into_bytes (IndexKey_new [] (developer_id i))
      in record_indexed_derived rcfg (IndexName_by_id (tablet_id i)) IndexedFields_by_id (Interval_prefix id_bytes) reads)"

definition count_write :: "nat \<Rightarrow> transaction_write_size \<Rightarrow> transaction_write_size" where
  "count_write n s = \<lparr>num_writes = num_writes s + 1, write_size = write_size s + n\<rparr>"

text \<open>The size is counted even when the limit is exceeded.\<close>

definition count_update ::
    "write_config \<Rightarrow> bool \<Rightarrow> resolved_document_id \<Rightarrow> resolved_document option \<Rightarrow> writes \<Rightarrow> (writes_error + unit) \<times> writes" where
  "count_update cfg is_system_document i new w =
     (let n = ResolvedDocumentId_size i + (case new of None \<Rightarrow> 0 | Some d \<Rightarrow> value_size (ObjectV (document_value d)))
      in if is_system_document then
           let s = count_write n (system_write_size w)
           in (if \<not> num_writes s \<le> max_system_writes cfg then Inl (TooManySystemWrites (num_writes s))
               else if \<not> write_size s \<le> max_system_bytes cfg then Inl (TooManySystemBytes (write_size s))
               else Inr (), w\<lparr>system_write_size := s\<rparr>)
         else
           let s = count_write n (user_write_size w)
           in (if \<not> num_writes s \<le> max_user_writes cfg then Inl (TooManyWrites (max_user_writes cfg))
               else if \<not> write_size s \<le> max_user_bytes cfg then Inl (TooManyBytesWritten (max_user_bytes cfg))
               else Inr (), w\<lparr>user_write_size := s\<rparr>))"

definition coalesce ::
    "resolved_document_id \<Rightarrow> (resolved_document \<times> write_timestamp option) option \<Rightarrow> resolved_document option
     \<Rightarrow> writes \<Rightarrow> writes_error + writes" where
  "coalesce i old new w =
     (case bt_get (updates w) i of
        Some old_update \<Rightarrow>
          if upd_new old_update \<noteq> map_option fst old then Inl OldDocumentMismatch
          else if Option.bind old snd \<notin> {None, Some Pending} then Inl OldTimestampNotPending
          else Inr (w\<lparr>updates := bt_insert i (old_update\<lparr>upd_new := new\<rparr>) (updates w)\<rparr>)
      | None \<Rightarrow>
          (case old of
             Some (_, Some Pending) \<Rightarrow> Inl PendingWithoutWrite
           | _ \<Rightarrow>
               Inr (w\<lparr>updates := bt_insert i
                   \<lparr>upd_id = i,
                    upd_old = map_option (\<lambda>(d, ts). (d, case ts of Some (Committed t) \<Rightarrow> Some t | _ \<Rightarrow> None)) old,
                    upd_new = new\<rparr> (updates w)\<rparr>)))"

definition Writes_update ::
    "write_config \<Rightarrow> read_config \<Rightarrow> bootstrap_table_ids \<Rightarrow> bool \<Rightarrow> resolved_document_id
     \<Rightarrow> (resolved_document \<times> write_timestamp option) option \<Rightarrow> resolved_document option
     \<Rightarrow> transaction_read_set \<times> writes \<Rightarrow> ((writes_error + unit) \<times> transaction_read_set \<times> writes) option" where
  "Writes_update cfg rcfg b is_system_document i old new s =
     (case s of (reads, w) \<Rightarrow>
        if old = None \<and> bt_get (updates w) i \<noteq> None then Some (Inl DuplicateInsert, reads, w)
        else case (if old = None then register_new_id rcfg i reads else Some reads) of
          None \<Rightarrow> None
        | Some reads \<Rightarrow>
            case record_reads_for_write cfg rcfg b (tablet_id i) reads of
              None \<Rightarrow> None
            | Some (Inl e, reads) \<Rightarrow> Some (Inl e, reads, w)
            | Some (Inr _, reads) \<Rightarrow>
                case count_update cfg is_system_document i new w of
                  (Inl e, w) \<Rightarrow> Some (Inl e, reads, w)
                | (Inr _, w) \<Rightarrow>
                    (case coalesce i old new w of
                       Inl e \<Rightarrow> Some (Inl e, reads, w)
                     | Inr w \<Rightarrow> Some (Inr (), reads, w)))"

definition coalesced_writes :: "writes \<Rightarrow> (resolved_document_id \<times> document_update_with_prev_ts) list" where
  "coalesced_writes w = updates w"

definition generated_ids :: "writes \<Rightarrow> resolved_document_id list" where
  "generated_ids w = map fst (filter (\<lambda>(_, u). upd_old u = None) (updates w))"

section \<open>Writes overlay the documents of the snapshot\<close>

text \<open>
  Seen from the transaction a document is the last version it wrote, or else the one \<open>base\<close> of its
  snapshot.  The updates keep the version of the snapshot as the old document.
\<close>

type_synonym document_store = "resolved_document_id \<Rightarrow> resolved_document option"

definition view :: "document_store \<Rightarrow> writes \<Rightarrow> document_store" where
  "view base w i = (case bt_get (updates w) i of None \<Rightarrow> base i | Some u \<Rightarrow> upd_new u)"

definition writes_ok :: "document_store \<Rightarrow> writes \<Rightarrow> bool" where
  "writes_ok base w = (bt_ok (updates w)
     \<and> (\<forall>i u. bt_get (updates w) i = Some u \<longrightarrow> upd_id u = i \<and> map_option fst (upd_old u) = base i))"

text \<open>The fields of the indexes a write depends on.\<close>

definition system_fields_ok :: "(tablet_index_name \<Rightarrow> indexed_fields) \<Rightarrow> bool" where
  "system_fields_ok fs = ((\<forall>t. fs (IndexName_by_id t) = IndexedFields_by_id)
     \<and> (\<forall>t. fs (t, ascii ''by_table_id'') = [TABLE_ID_FIELD_PATH]))"

definition reads_good :: "(tablet_index_name \<Rightarrow> indexed_fields) \<Rightarrow> transaction_read_set \<Rightarrow> bool" where
  "reads_good fs tx = (read_set_ok (tx_read_set tx) \<and> fields_agree fs (tx_read_set tx))"

lemma record_derived:
  assumes "reads_good fs tx"
  obtains tx' where "record_indexed_derived rcfg index (fs index) interval tx = Some tx'" and "reads_good fs tx'"
    and "\<forall>env doc. covers env (tx_read_set tx') doc \<longleftrightarrow> covers env (tx_read_set tx) doc \<or> interval_reads fs (index, [interval]) doc"
proof -
  obtain n rs' where rs': "record_indexed_inner rcfg index (fs index) [interval] (tx_read_set tx) = Some (n, rs')"
    "read_set_ok rs'" "fields_agree fs rs'"
    "\<And>env doc. covers env rs' doc \<longleftrightarrow> covers env (tx_read_set tx) doc \<or> interval_reads fs (index, [interval]) doc"
    using record_indexed_inner_correct [of "tx_read_set tx" fs rcfg index "[interval]"] assms unfolding reads_good_def by metis
  show ?thesis
    by (rule that [of "tx\<lparr>tx_read_set := rs'\<rparr>"]) (use rs' in \<open>simp_all add: record_indexed_derived_def reads_good_def\<close>)
qed

lemma by_id_interval:
  assumes "fs (IndexName_by_id t) = IndexedFields_by_id" and "packed_id doc = \<lparr>tablet_id = t, developer_id = d\<rparr>"
  shows "interval_reads fs (IndexName_by_id t, [Interval_prefix (IndexKey_into_bytes (IndexKey_new [] d))]) doc"
  using assms by (simp add: interval_reads_def prefix_points PackedDocument_index_key_def IndexKey_new_def
      indexed_values_def IndexedFields_by_id_def IndexName_by_id_def)

definition protects :: "read_set \<Rightarrow> resolved_document_id \<Rightarrow> bool" where
  "protects rs i = (\<forall>env doc. packed_id doc = i \<longrightarrow> covers env rs doc)"

lemma register_new_id_correct:
  assumes "reads_good fs tx" and "system_fields_ok fs"
  obtains tx' where "register_new_id rcfg i tx = Some tx'" and "reads_good fs tx'" and "protects (tx_read_set tx') i"
    and "\<forall>env doc. covers env (tx_read_set tx) doc \<longrightarrow> covers env (tx_read_set tx') doc"
proof -
  have fs: "fs (IndexName_by_id t) = IndexedFields_by_id" for t using assms(2) by (simp add: system_fields_ok_def)
  let ?interval = "Interval_prefix (IndexKey_into_bytes (IndexKey_new [] (developer_id i)))"
  obtain tx' where tx': "record_indexed_derived rcfg (IndexName_by_id (tablet_id i)) (fs (IndexName_by_id (tablet_id i))) ?interval tx = Some tx'"
    "reads_good fs tx'"
    "\<forall>env doc. covers env (tx_read_set tx') doc \<longleftrightarrow> covers env (tx_read_set tx) doc
        \<or> interval_reads fs (IndexName_by_id (tablet_id i), [?interval]) doc"
    using record_derived [OF assms(1)] by metis
  have "protects (tx_read_set tx') i" unfolding protects_def tx'(3) [rule_format] using by_id_interval [of fs, OF fs] by simp
  with tx' show ?thesis by (intro that [of tx']) (simp_all add: register_new_id_def fs)
qed

lemma table_id_index_ok:
  assumes "ConvexString_try_from (encode_urlsafe cfg t) = Inr v"
  shows "table_id_index cfg b t = Inr ((fst (index_id b), ascii ''by_table_id''), [TABLE_ID_FIELD_PATH], Interval_prefix (values_to_bytes [Some v]))"
proof -
  have "IndexDescriptor_new (ascii ''by_table_id'') = Inr (ascii ''by_table_id'')" by code_simp
  moreover have "check_valid_identifier_inner (ascii ''by_table_id'') = Inr ()" by code_simp
  moreover have "\<not> IndexDescriptor_is_reserved (ascii ''by_table_id'')" by code_simp
  moreover have "IndexedFields_try_from [TABLE_ID_FIELD_PATH] = Inr [TABLE_ID_FIELD_PATH]" by code_simp
  ultimately show ?thesis
    using assms by (simp add: table_id_index_def index_metadata_serialize_tablet_id_def IndexName_new_def)
qed

definition table_document_id :: "bootstrap_table_ids \<Rightarrow> tablet_id \<Rightarrow> resolved_document_id" where
  "table_document_id b t = \<lparr>tablet_id = fst (tables_id b), developer_id = \<lparr>id_table = snd (tables_id b), internal_id = t\<rparr>\<rparr>"

lemma all_interval: "fst index = tablet_id (packed_id doc) \<Longrightarrow> interval_reads fs (index, [Interval_all]) doc"
  by (simp add: interval_reads_def Interval_all_def Interval_contains_def BinaryKey_min_def)

lemma record_reads_for_write_correct:
  assumes "reads_good fs tx" and "system_fields_ok fs" and "ConvexString_try_from (encode_urlsafe cfg t) = Inr v"
  obtains tx' where "record_reads_for_write cfg rcfg b t tx = Some (Inr (), tx')" and "reads_good fs tx'"
    and "protects (tx_read_set tx') (table_document_id b t)"
    and "\<forall>env doc. covers env (tx_read_set tx) doc \<longrightarrow> covers env (tx_read_set tx') doc"
proof -
  have fs: "fs (IndexName_by_id t) = IndexedFields_by_id" "fs (t, ascii ''by_table_id'') = [TABLE_ID_FIELD_PATH]" for t
    using assms(2) by (simp_all add: system_fields_ok_def)
  define first where "first = (if is_index_table b t \<or> is_tables_table b t then Interval_all
    else Interval_prefix (IndexKey_into_bytes (IndexKey_new [] \<lparr>id_table = snd (tables_id b), internal_id = t\<rparr>)))"
  let ?tables = "IndexName_by_id (fst (tables_id b))"
  obtain tx1 where tx1: "record_indexed_derived rcfg ?tables (fs ?tables) first tx = Some tx1" "reads_good fs tx1"
    "\<forall>env doc. covers env (tx_read_set tx1) doc \<longleftrightarrow> covers env (tx_read_set tx) doc \<or> interval_reads fs (?tables, [first]) doc"
    using record_derived [OF assms(1)] by metis
  have "interval_reads fs (?tables, [first]) doc" if "packed_id doc = table_document_id b t" for doc
    using that by_id_interval [of fs "fst (tables_id b)" doc, OF fs(1)] all_interval [of ?tables doc]
    by (simp add: first_def table_document_id_def IndexName_by_id_def)
  then have protect: "protects (tx_read_set tx1) (table_document_id b t)" by (simp add: protects_def tx1(3))
  define second where "second = (if is_index_table b t \<or> is_tables_table b t then (IndexName_by_id (fst (index_id b)), Interval_all)
    else ((fst (index_id b), ascii ''by_table_id''), Interval_prefix (values_to_bytes [Some v])))"
  obtain tx2 where tx2: "record_indexed_derived rcfg (fst second) (fs (fst second)) (snd second) tx1 = Some tx2" "reads_good fs tx2"
    "\<forall>env doc. covers env (tx_read_set tx2) doc \<longleftrightarrow> covers env (tx_read_set tx1) doc \<or> interval_reads fs (fst second, [snd second]) doc"
    using record_derived [OF tx1(2)] by metis
  show ?thesis
  proof (rule that)
    show "record_reads_for_write cfg rcfg b t tx = Some (Inr (), tx2)"
      using tx1(1) tx2(1) table_id_index_ok [OF assms(3), of b]
      by (auto simp: record_reads_for_write_def first_def second_def fs Let_def split: if_splits)
    show "reads_good fs tx2" by (rule tx2(2))
    show "protects (tx_read_set tx2) (table_document_id b t)" using protect by (simp add: protects_def tx2(3))
    show "\<forall>env doc. covers env (tx_read_set tx) doc \<longrightarrow> covers env (tx_read_set tx2) doc" by (simp add: tx1(3) tx2(3))
  qed
qed

lemma count_update_updates: "updates (snd (count_update cfg sys i new w)) = updates w"
  by (simp add: count_update_def Let_def)

lemma view_cong: "updates w = updates w' \<Longrightarrow> view base w = view base w' \<and> writes_ok base w = writes_ok base w'"
  by (simp add: view_def [abs_def] writes_ok_def)

lemma coalesce_correct:
  assumes "writes_ok base w" and "map_option fst old = view base w i" and "coalesce i old new w = Inr w'"
  shows "writes_ok base w' \<and> view base w' = (view base w)(i := new)"
proof (cases "bt_get (updates w) i")
  case None
  then have "w' = w\<lparr>updates := bt_insert i \<lparr>upd_id = i,
      upd_old = map_option (\<lambda>(d, ts). (d, case ts of Some (Committed t) \<Rightarrow> Some t | _ \<Rightarrow> None)) old, upd_new = new\<rparr> (updates w)\<rparr>"
    using assms(3) by (auto simp: coalesce_def split: option.splits write_timestamp.splits)
  moreover have "map_option fst old = base i" using assms(2) None by (simp add: view_def)
  ultimately show ?thesis
    using assms(1) by (auto simp: writes_ok_def view_def fun_eq_iff option.map_comp comp_def split_beta)
next
  case (Some u)
  then have "w' = w\<lparr>updates := bt_insert i (u\<lparr>upd_new := new\<rparr>) (updates w)\<rparr>"
    using assms(3) by (auto simp: coalesce_def split: if_splits)
  with assms(1) Some show ?thesis by (auto simp: writes_ok_def view_def fun_eq_iff)
qed

text \<open>C5. The coalesced writes of a transaction are an overlay of its snapshot: a successful update
  changes exactly the version of its document that the transaction sees, every update keeps the
  snapshot's version as its old document, and a failed one leaves the view as it was.  Every update
  takes a read dependency on the document of its table, and an insertion one on its own id, so
  that another commit that touches them is a conflict; no dependency is lost.\<close>

theorem Writes_update_refines_overlay:
  assumes "writes_ok base w" and "reads_good fs tx" and "system_fields_ok fs"
    and "is_ok (ConvexString_try_from (encode_urlsafe cfg (tablet_id i)))" and "map_option fst old = view base w i"
  shows "case Writes_update cfg rcfg b sys i old new (tx, w) of
     None \<Rightarrow> False
   | Some (result, tx', w') \<Rightarrow>
       writes_ok base w' \<and> reads_good fs tx'
       \<and> (if covers env (tx_read_set tx) doc then covers env (tx_read_set tx') doc else True)
       \<and> (case result of
            Inl _ \<Rightarrow> view base w' = view base w
          | Inr _ \<Rightarrow> view base w' = (view base w)(i := new)
              \<and> protects (tx_read_set tx') (table_document_id b (tablet_id i))
              \<and> (if old = None then protects (tx_read_set tx') i else True))"
proof (cases "old = None \<and> bt_get (updates w) i \<noteq> None")
  case True
  with assms(1,2) show ?thesis by (auto simp: Writes_update_def)
next
  case False
  obtain v where v: "ConvexString_try_from (encode_urlsafe cfg (tablet_id i)) = Inr v"
    using assms(4) by (cases "ConvexString_try_from (encode_urlsafe cfg (tablet_id i))") auto
  obtain tx1 where tx1: "(if old = None then register_new_id rcfg i tx else Some tx) = Some tx1" "reads_good fs tx1"
    "old = None \<Longrightarrow> protects (tx_read_set tx1) i" "\<forall>env doc. covers env (tx_read_set tx) doc \<longrightarrow> covers env (tx_read_set tx1) doc"
  proof (cases "old = None")
    case True
    then show ?thesis using register_new_id_correct [OF assms(2,3), of rcfg i] that by auto
  qed (use that [of tx] assms(2) in simp)
  obtain tx2 where tx2: "record_reads_for_write cfg rcfg b (tablet_id i) tx1 = Some (Inr (), tx2)" "reads_good fs tx2"
    "protects (tx_read_set tx2) (table_document_id b (tablet_id i))"
    "\<forall>env doc. covers env (tx_read_set tx1) doc \<longrightarrow> covers env (tx_read_set tx2) doc"
    using record_reads_for_write_correct [OF tx1(2) assms(3) v] by metis
  have own: "old = None \<Longrightarrow> protects (tx_read_set tx2) i" using tx1(3) tx2(4) by (auto simp: protects_def)
  obtain r w1 where w1: "count_update cfg sys i new w = (r, w1)" by (cases "count_update cfg sys i new w")
  then have "updates w1 = updates w" using count_update_updates by (metis snd_conv)
  note w = view_cong [OF this, of base]
  have step: "Writes_update cfg rcfg b sys i old new (tx, w) = (case r of Inl e \<Rightarrow> Some (Inl e, tx2, w1)
      | Inr _ \<Rightarrow> (case coalesce i old new w1 of Inl e \<Rightarrow> Some (Inl e, tx2, w1) | Inr w \<Rightarrow> Some (Inr (), tx2, w)))"
    using False tx1(1) tx2(1) w1 unfolding Writes_update_def by (simp only: if_False prod.case option.case sum.case)
  have good: "reads_good fs tx2 \<and> (if covers env (tx_read_set tx) doc then covers env (tx_read_set tx2) doc else True)"
    using tx2(2,4) tx1(4) by simp
  show ?thesis
  proof (cases "r = Inr () \<and> (\<exists>w'. coalesce i old new w1 = Inr w')")
    case True
    then obtain w' where "r = Inr ()" "coalesce i old new w1 = Inr w'" by blast
    with coalesce_correct [of base w1 old i new w'] assms(1,5) w good tx2(3) own step show ?thesis by simp
  next
    case no: False
    then obtain e where "Writes_update cfg rcfg b sys i old new (tx, w) = Some (Inl e, tx2, w1)"
      unfolding step by (cases r; cases "coalesce i old new w1") auto
    with assms(1) w good show ?thesis by simp
  qed
qed

theorem Writes_update_refines_overlay_witness:
  "let i = \<lparr>tablet_id = [5], developer_id = \<lparr>id_table = 7, internal_id = [6]\<rparr>\<rparr>
   in case Writes_update
       \<lparr>max_user_writes = 10, max_user_bytes = 1000, max_system_writes = 10, max_system_bytes = 1000, encode_urlsafe = (\<lambda>_. [])\<rparr>
       \<lparr>capture_backtraces = False, current_trace = [], max_read_size_rows = 10, max_read_size_bytes = 10, max_read_set_intervals = 10\<rparr>
       \<lparr>tables_id = ([0], 1), index_id = ([1], 2)\<rparr> False i None None (TransactionReadSet_new, Writes_new) of
        Some (result, tx, w) \<Rightarrow> writes_ok (\<lambda>_. None) w
          \<and> (case result of Inl _ \<Rightarrow> view (\<lambda>_. None) w = view (\<lambda>_. None) Writes_new | Inr _ \<Rightarrow> protects (tx_read_set tx) i)
      | None \<Rightarrow> False"
proof -
  define fs :: "tablet_index_name \<Rightarrow> indexed_fields" where
    "fs = (\<lambda>n. if snd n = ascii ''by_table_id'' then [TABLE_ID_FIELD_PATH] else [])"
  have "INDEX_BY_ID_DESCRIPTOR \<noteq> ascii ''by_table_id''" by code_simp
  then have fs: "system_fields_ok fs" by (simp add: system_fields_ok_def fs_def IndexName_by_id_def IndexedFields_by_id_def)
  have good: "reads_good fs TransactionReadSet_new"
    using read_set_empty_ok by (simp add: reads_good_def TransactionReadSet_new_def)
  have w: "writes_ok (\<lambda>_. None) Writes_new" "view (\<lambda>_. None) Writes_new i = None" for i
    by (simp_all add: writes_ok_def view_def Writes_new_def bt_get_def)
  show ?thesis
    unfolding Let_def
    using Writes_update_refines_overlay [OF w(1) good fs, where old = None and new = None
        and cfg = "\<lparr>max_user_writes = 10, max_user_bytes = 1000, max_system_writes = 10, max_system_bytes = 1000, encode_urlsafe = (\<lambda>_. [])\<rparr>"
        and rcfg = "\<lparr>capture_backtraces = False, current_trace = [], max_read_size_rows = 10, max_read_size_bytes = 10, max_read_set_intervals = 10\<rparr>"
        and b = "\<lparr>tables_id = ([0], 1), index_id = ([1], 2)\<rparr>" and sys = False
        and i = "\<lparr>tablet_id = [5], developer_id = \<lparr>id_table = 7, internal_id = [6]\<rparr>\<rparr>"]
    by (fastforce simp: w(2) ConvexString_try_from_def check_system_size_def MAX_SIZE_def split: option.splits sum.splits)
qed

text \<open>A subtransaction that is rolled back leaves no trace, and one that is committed leaves its
  writes to the enclosing transaction; with any other token nothing happens.\<close>

lemma nested_rollback_commit:
  "case begin_nested s of (token, s') \<Rightarrow>
     rollback_nested token (NestedWrites (nw_parent s') w (nw_token s')) = Inr s
     \<and> commit_nested token (NestedWrites (nw_parent s') w (nw_token s')) = Inr (NestedWrites (nw_parent s) w (nw_token s))
     \<and> \<not> is_ok (into_flat s')
     \<and> (if t = token then True
        else \<not> is_ok (rollback_nested t s') \<and> \<not> is_ok (commit_nested t s'))"
  by (simp add: begin_nested_def rollback_nested_def commit_nested_def into_flat_def require_not_nested_def Let_def)

end
