(* ===== verification/Committer.thy ===== *)
theory Committer
  imports Write_Log Snapshot_Manager Transaction_Writes
begin

text \<open>
  The committer (\<open>database/src/committer.rs\<close>): it assigns commit timestamps, validates transactions
  against the log and the pending writes, queues their writes to persistence and publishes them in
  order.

  The loop \<open>go\<close> is a step relation: receiving a transaction, bumping the repeatable timestamp and
  the completion of the first write in the queue, in any order, with the subscription worker
  trimming the shared log in between.  A \<open>committer_env\<close> holds what the committer is given: the
  update of a snapshot by one document (its registries and indexes are not modelled; the snapshot
  is a type parameter and \<open>None\<close> an error), the \<open>serde\<close> reader of a table's metadata and the knobs.
  \<open>None\<close> as a result is a panic.  Tracing, metrics and usage counters are left out.
\<close>

declare split_paired_All [simp del] split_paired_Ex [simp del]

section \<open>State\<close>

datatype table_state = Active | Hidden | Deleting

record table_metadata =
  tm_name :: bytes
  tm_state :: table_state

record ('s, 'i) committer_env =
  snapshot_update :: "document_update \<Rightarrow> timestamp \<Rightarrow> 's \<Rightarrow> ('s \<times> 'i list) option"
  table_metadata_of :: "resolved_document \<Rightarrow> table_metadata option"
  max_window :: nat
  commit_search_env :: search_env

record final_transaction =
  ft_begin_timestamp :: timestamp
  ft_bootstrap :: bootstrap_table_ids
  ft_reads :: transaction_read_set
  ft_writes :: writes

record document_log_entry =
  entry_ts :: timestamp
  entry_id :: internal_document_id
  entry_value :: "resolved_document option"
  entry_prev_ts :: "timestamp option"

record 'i validated_commit =
  vc_index_writes :: "(timestamp \<times> 'i) list"
  vc_document_writes :: "document_log_entry list"
  vc_pending_write :: pending_write_handle

datatype 'i persistence_write =
    WriteCommit "'i validated_commit" timestamp
  | WriteMaxRepeatable timestamp

record ('s, 'i) committer =
  cm_pending_writes :: pending_writes
  cm_log :: write_log_manager
  cm_snapshot_manager :: "'s snapshot_manager"
  last_assigned_ts :: timestamp
  persistence_writes :: "'i persistence_write list"
  cm_shutdown :: bool

datatype commit_error =
    CommitLog log_error | ClockError | Conflict conflicting_read_with_write_source | UpdateFailed
  | MinPendingAfterLast

definition Committer_start :: "write_log_manager \<Rightarrow> 's snapshot_manager \<Rightarrow> ('s, 'i) committer" where
  "Committer_start log sm =
     \<lparr>cm_pending_writes = PendingWrites_new, cm_log = log, cm_snapshot_manager = sm, last_assigned_ts = Timestamp_MIN,
      persistence_writes = [], cm_shutdown = False\<rparr>"

section \<open>Timestamps\<close>

definition commit_succ :: "timestamp \<Rightarrow> commit_error + timestamp" where
  "commit_succ t = (case timestamp_succ t of Inl e \<Rightarrow> Inl (CommitLog e) | Inr u \<Rightarrow> Inr u)"

text \<open>\<open>now\<close> is what the clock of the runtime gives, or its error.\<close>

definition next_commit_ts ::
    "timestamp option \<Rightarrow> ('s, 'i) committer \<Rightarrow> ((commit_error + timestamp) \<times> ('s, 'i) committer) option" where
  "next_commit_ts now c =
     (case latest_ts (cm_snapshot_manager c) of None \<Rightarrow> None | Some l \<Rightarrow>
      Some (case bind_result (commit_succ l) (\<lambda>a.
                 bind_result (case now of None \<Rightarrow> Inl ClockError | Some t \<Rightarrow> Inr t) (\<lambda>t.
                 bind_result (commit_succ (last_assigned_ts c)) (\<lambda>b. Inr (max a (max t b))))) of
              Inl e \<Rightarrow> (Inl e, c)
            | Inr m \<Rightarrow> (Inr m, c\<lparr>last_assigned_ts := m\<rparr>)))"

definition next_max_repeatable_ts ::
    "timestamp option \<Rightarrow> ('s, 'i) committer \<Rightarrow> ((commit_error + timestamp) \<times> ('s, 'i) committer) option" where
  "next_max_repeatable_ts now c =
     (case PendingWrites_min_ts (cm_pending_writes c) of
        Some min_pending \<Rightarrow>
          Some (if \<not> min_pending \<le> last_assigned_ts c then Inl MinPendingAfterLast
                else (case Timestamp_pred min_pending of Inl e \<Rightarrow> Inl (CommitLog (LogTimestamp e)) | Inr t \<Rightarrow> Inr t), c)
      | None \<Rightarrow> next_commit_ts now c)"

definition bump_max_repeatable_ts :: "timestamp option \<Rightarrow> ('s, 'i) committer \<Rightarrow> ('s, 'i) committer option" where
  "bump_max_repeatable_ts now c =
     (case next_max_repeatable_ts now c of
        Some (Inr ts, c) \<Rightarrow> Some (c\<lparr>persistence_writes := persistence_writes c @ [WriteMaxRepeatable ts]\<rparr>)
      | _ \<Rightarrow> None)"

definition publish_max_repeatable_ts :: "('s, 'i) committer_env \<Rightarrow> timestamp \<Rightarrow> ('s, 'i) committer \<Rightarrow> ('s, 'i) committer option" where
  "publish_max_repeatable_ts env ts c =
     (case bump_persisted_max_repeatable_ts (max_window env) ts (cm_snapshot_manager c) of
        None \<Rightarrow> None
      | Some (False, sm) \<Rightarrow> Some (c\<lparr>cm_snapshot_manager := sm\<rparr>)
      | Some (True, sm) \<Rightarrow>
          (case WriteLogManager_append ts [] (Some (ascii ''publish_max_repeatable_ts'')) (cm_log c) of
             None \<Rightarrow> None
           | Some (log, _) \<Rightarrow> Some (c\<lparr>cm_snapshot_manager := sm, cm_log := log\<rparr>)))"

section \<open>Validation\<close>

definition commit_has_conflict ::
    "search_env \<Rightarrow> read_set \<Rightarrow> timestamp \<Rightarrow> timestamp \<Rightarrow> ('s, 'i) committer
     \<Rightarrow> log_error + conflicting_read_with_write_source option" where
  "commit_has_conflict env reads reads_ts commit_ts c =
     bind_result (WriteLog_is_stale env (manager_log (cm_log c)) reads reads_ts commit_ts) (\<lambda>r.
       case r of
         Some conflict \<Rightarrow> Inr (Some conflict)
       | None \<Rightarrow> PendingWrites_is_stale env (cm_pending_writes c) reads reads_ts commit_ts)"

text \<open>The order in which the documents of one transaction are written; \<open>None\<close> is the panic on invalid
  table metadata.\<close>

definition TABLES_TABLE :: bytes where "TABLES_TABLE = ascii ''_tables''"

definition table_dependency_sort_key ::
    "(resolved_document \<Rightarrow> table_metadata option) \<Rightarrow> bootstrap_table_ids \<Rightarrow> internal_document_id \<Rightarrow> resolved_document option
     \<Rightarrow> (nat \<times> tablet_id \<times> internal_id) option" where
  "table_dependency_sort_key metadata b i update =
     map_option (\<lambda>k. (k, tablet i, internal i))
       (if tablet i = fst (tables_id b) then
          (case update of
             Some insertion \<Rightarrow>
               map_option (\<lambda>m. case tm_state m of
                   Active \<Rightarrow> if tm_name m = TABLES_TABLE then 2 else 3
                 | Hidden \<Rightarrow> 3
                 | Deleting \<Rightarrow> 1) (metadata insertion)
           | None \<Rightarrow> Some 1)
        else if tablet i = fst (index_id b) then Some (if update = None then 0 else 4)
        else Some 5)"

text \<open>\<open>sort_by_key\<close> is stable, and does not ask for keys when there are fewer than two elements.\<close>

definition order_updates ::
    "(resolved_document \<Rightarrow> table_metadata option) \<Rightarrow> bootstrap_table_ids
     \<Rightarrow> (resolved_document_id \<times> document_update_with_prev_ts) list
     \<Rightarrow> (resolved_document_id \<times> document_update_with_prev_ts) list option" where
  "order_updates metadata b us =
     (if length us < 2 then Some us
      else map_option (\<lambda>ks. map snd (sort_key fst ks))
        (those (map (\<lambda>(i, u). map_option (\<lambda>k. (k, i, u))
           (table_dependency_sort_key metadata b (ResolvedDocumentId_to_internal i) (upd_new u))) us)))"

fun compute_writes ::
    "('s, 'i) committer_env \<Rightarrow> timestamp \<Rightarrow> (resolved_document_id \<times> document_update_with_prev_ts) list \<Rightarrow> 's
     \<Rightarrow> (document_log_entry list \<times> (timestamp \<times> 'i) list) option" where
  "compute_writes env commit_ts [] s = Some ([], [])"
| "compute_writes env commit_ts ((i, u) # us) s =
     (case snapshot_update env (DocumentUpdate_from u) commit_ts s of
        None \<Rightarrow> None
      | Some (s', index_updates) \<Rightarrow>
          map_option (\<lambda>(ds, is).
             (\<lparr>entry_ts = commit_ts, entry_id = ResolvedDocumentId_to_internal i, entry_value = upd_new u,
               entry_prev_ts = Option.bind (upd_old u) snd\<rparr> # ds,
              map (Pair commit_ts) index_updates @ is))
            (compute_writes env commit_ts us s'))"

definition pack_updates :: "(resolved_document_id \<times> document_update_with_prev_ts) list \<Rightarrow> log_writes" where
  "pack_updates us = map (\<lambda>(i, u). (i, PackedDocumentUpdate_pack (DocumentUpdate_from u))) us"

text \<open>The end of the validation, once the timestamp is assigned and there is no conflict.\<close>

definition stage_commit ::
    "('s, 'i) committer_env \<Rightarrow> timestamp \<Rightarrow> final_transaction \<Rightarrow> write_source \<Rightarrow> ('s, 'i) committer
     \<Rightarrow> ((commit_error + 'i validated_commit) \<times> ('s, 'i) committer) option" where
  "stage_commit env commit_ts tx source c =
     (case order_updates (table_metadata_of env) (ft_bootstrap tx) (coalesced_writes (ft_writes tx)) of None \<Rightarrow> None | Some us \<Rightarrow>
      case latest_snapshot (cm_snapshot_manager c) of None \<Rightarrow> None | Some s \<Rightarrow>
      case compute_writes env commit_ts us s of
        None \<Rightarrow> Some (Inl UpdateFailed, c)
      | Some (document_writes, index_writes) \<Rightarrow>
          (case PendingWrites_push_back commit_ts (pack_updates us) source (cm_pending_writes c) of
             None \<Rightarrow> None
           | Some (pending_write, p) \<Rightarrow>
               Some (Inr \<lparr>vc_index_writes = index_writes, vc_document_writes = document_writes, vc_pending_write = pending_write\<rparr>,
                     c\<lparr>cm_pending_writes := p\<rparr>)))"

definition validate_commit ::
    "('s, 'i) committer_env \<Rightarrow> timestamp option \<Rightarrow> final_transaction \<Rightarrow> write_source \<Rightarrow> ('s, 'i) committer
     \<Rightarrow> ((commit_error + 'i validated_commit) \<times> ('s, 'i) committer) option" where
  "validate_commit env now tx source c =
     (case next_commit_ts now c of
        None \<Rightarrow> None
      | Some (Inl e, c) \<Rightarrow> Some (Inl e, c)
      | Some (Inr commit_ts, c) \<Rightarrow>
          (case commit_has_conflict (commit_search_env env) (tx_read_set (ft_reads tx)) (ft_begin_timestamp tx) commit_ts c of
             Inl e \<Rightarrow> Some (Inl (CommitLog e), c)
           | Inr (Some conflict) \<Rightarrow> Some (Inl (Conflict conflict), c)
           | Inr None \<Rightarrow> stage_commit env commit_ts tx source c))"

text \<open>The answer to the client: at once for a read-only transaction or an error, else later.\<close>

datatype commit_answer = Answer "commit_error + timestamp" | Later

definition start_commit ::
    "('s, 'i) committer_env \<Rightarrow> timestamp option \<Rightarrow> final_transaction \<Rightarrow> write_source \<Rightarrow> ('s, 'i) committer
     \<Rightarrow> (commit_answer \<times> ('s, 'i) committer) option" where
  "start_commit env now tx source c =
     (if Writes_is_empty (ft_writes tx) then Some (Answer (Inr (ft_begin_timestamp tx)), c)
      else case validate_commit env now tx source c of
             None \<Rightarrow> None
           | Some (Inl e, c) \<Rightarrow> Some (Answer (Inl e), c)
           | Some (Inr v, c) \<Rightarrow>
               Some (Later, c\<lparr>persistence_writes := persistence_writes c @ [WriteCommit v (ft_begin_timestamp tx)]\<rparr>))"

section \<open>Publication\<close>

fun apply_updates :: "('s, 'i) committer_env \<Rightarrow> timestamp \<Rightarrow> log_writes \<Rightarrow> 's \<Rightarrow> 's option" where
  "apply_updates env commit_ts [] s = Some s"
| "apply_updates env commit_ts ((_, u) # us) s =
     (case PackedDocumentUpdate_unpack u of None \<Rightarrow> None | Some du \<Rightarrow>
      case snapshot_update env du commit_ts s of None \<Rightarrow> None | Some (s', _) \<Rightarrow> apply_updates env commit_ts us s')"

definition publish_commit :: "('s, 'i) committer_env \<Rightarrow> pending_write_handle \<Rightarrow> ('s, 'i) committer \<Rightarrow> ('s, 'i) committer option" where
  "publish_commit env pending_write c =
     (case must_commit_ts pending_write of None \<Rightarrow> None | Some commit_ts \<Rightarrow>
      case PendingWrites_pop_first pending_write (cm_pending_writes c) of
        (None, _, _) \<Rightarrow> None
      | (Some (ts, ordered_updates, source), _, p) \<Rightarrow>
          if ts \<noteq> commit_ts then None
          else case latest_snapshot (cm_snapshot_manager c) of None \<Rightarrow> None | Some s \<Rightarrow>
               case apply_updates env commit_ts ordered_updates s of None \<Rightarrow> None | Some new_snapshot \<Rightarrow>
               case WriteLogManager_append commit_ts ordered_updates source (cm_log c) of None \<Rightarrow> None | Some (log, _) \<Rightarrow>
               case push (max_window env) commit_ts new_snapshot (cm_snapshot_manager c) of None \<Rightarrow> None | Some sm \<Rightarrow>
               Some (c\<lparr>cm_pending_writes := p, cm_log := log, cm_snapshot_manager := sm\<rparr>))"

text \<open>The first write of the queue has completed, or failed.\<close>

definition complete_write :: "('s, 'i) committer_env \<Rightarrow> bool \<Rightarrow> ('s, 'i) committer \<Rightarrow> ('s, 'i) committer option" where
  "complete_write env success c =
     (case persistence_writes c of
        [] \<Rightarrow> Some c
      | w # ws \<Rightarrow>
          if \<not> success then Some (c\<lparr>persistence_writes := ws, cm_shutdown := True\<rparr>)
          else (case w of
                  WriteCommit v _ \<Rightarrow> publish_commit env (vc_pending_write v) (c\<lparr>persistence_writes := ws\<rparr>)
                | WriteMaxRepeatable ts \<Rightarrow> publish_max_repeatable_ts env ts (c\<lparr>persistence_writes := ws\<rparr>)))"

section \<open>Invariant\<close>

text \<open>
  The log stands for the published history \<open>H\<close> and ends at the timestamp of the latest snapshot; the
  pending writes come later and are, in order, the commits in the queue; a repeatable timestamp in
  the queue is below every commit queued after it.
\<close>

fun is_commit :: "'i persistence_write \<Rightarrow> bool" where
  "is_commit (WriteCommit _ _) = True"
| "is_commit (WriteMaxRepeatable _) = False"

fun write_ts :: "'i persistence_write \<Rightarrow> timestamp" where
  "write_ts (WriteCommit v _) = (case vc_pending_write v of Some t \<Rightarrow> t | None \<Rightarrow> 0)"
| "write_ts (WriteMaxRepeatable t) = t"

fun queued_commits :: "'i persistence_write list \<Rightarrow> pending_write_handle list" where
  "queued_commits [] = []"
| "queued_commits (WriteCommit v _ # ws) = vc_pending_write v # queued_commits ws"
| "queued_commits (WriteMaxRepeatable _ # ws) = queued_commits ws"

lemma queued_commits_append [simp]: "queued_commits (ws @ ws') = queued_commits ws @ queued_commits ws'"
  by (induction ws rule: queued_commits.induct) simp_all

abbreviation log_max :: "('s, 'i) committer \<Rightarrow> timestamp" where
  "log_max c \<equiv> WriteLog_max_ts (manager_log (cm_log c))"

definition queue_ok :: "('s, 'i) committer \<Rightarrow> bool" where
  "queue_ok c = (queued_commits (persistence_writes c) = map (Some \<circ> fst) (cm_pending_writes c)
     \<and> (\<forall>w \<in> set (persistence_writes c). write_ts w \<le> last_assigned_ts c)
     \<and> sorted_wrt (\<lambda>a b. is_commit b \<longrightarrow> write_ts a < write_ts b) (persistence_writes c))"

definition committer_ok :: "log_entry list \<Rightarrow> ('s, 'i) committer \<Rightarrow> bool" where
  "committer_ok H c = (log_represents H (manager_log (cm_log c))
     \<and> versions_ok (cm_snapshot_manager c) \<and> fst (last (versions (cm_snapshot_manager c))) = log_max c
     \<and> bt_ok (cm_pending_writes c)
     \<and> (\<forall>e \<in> set (cm_pending_writes c). log_max c < fst e \<and> fst e \<le> last_assigned_ts c)
     \<and> (cm_shutdown c \<or> queue_ok c))"

lemma committer_okD:
  assumes "committer_ok H c"
  shows "log_represents H (manager_log (cm_log c))" and "versions_ok (cm_snapshot_manager c)"
    and "fst (last (versions (cm_snapshot_manager c))) = log_max c" and "bt_ok (cm_pending_writes c)"
    and "e \<in> set (cm_pending_writes c) \<Longrightarrow> log_max c < fst e" and "e \<in> set (cm_pending_writes c) \<Longrightarrow> fst e \<le> last_assigned_ts c"
    and "\<not> cm_shutdown c \<Longrightarrow> queue_ok c"
  using assms unfolding committer_ok_def by blast+

text \<open>The latest snapshot exists.\<close>

lemma latest_ok: "versions_ok sm \<Longrightarrow> latest sm = Some (last (versions sm))"
  by (simp add: versions_ok_def latest_def)

lemma append_ok:
  assumes "log_represents H (manager_log m)" and "WriteLog_max_ts (manager_log m) < ts"
  obtains m' n where "WriteLogManager_append ts ws src m = Some (m', n)"
    and "log_represents (H @ [(ts, ws, src)]) (manager_log m')" and "WriteLog_max_ts (manager_log m') = ts"
    and "last (by_ts (manager_log m')) = (ts, ws, src)"
proof -
  let ?m = "m\<lparr>manager_log := (manager_log m)\<lparr>by_ts := by_ts (manager_log m) @ [(ts, ws, src)]\<rparr>\<rparr>"
  obtain m' n where n: "notify_waiters ?m = (m', n)" by (cases "notify_waiters ?m")
  then have "manager_log m' = manager_log ?m" by (auto simp: notify_waiters_def split_beta Let_def)
  then show ?thesis
    using assms(2) n log_represents_append [OF assms]
    by (intro that [of m' n]) (simp_all add: WriteLogManager_append_def WriteLog_max_ts_def)
qed

lemma retention_max_ts: "WriteLog_max_ts (retention_loop cfg m t es p) = WriteLog_max_ts \<lparr>by_ts = es, purged_ts = p\<rparr>"
  by (induction cfg m t es p rule: retention_loop.induct) (auto simp: WriteLog_max_ts_def)

lemma next_commit_ts_ok:
  assumes "committer_ok H c"
  obtains e where "next_commit_ts now c = Some (Inl e, c)"
  | t where "next_commit_ts now c = Some (Inr t, c\<lparr>last_assigned_ts := t\<rparr>)" and "log_max c < t" and "last_assigned_ts c < t"
proof -
  note ok = committer_okD [OF assms]
  have l: "latest_ts (cm_snapshot_manager c) = Some (log_max c)" using ok(2,3) by (simp add: latest_ts_def latest_ok)
  show ?thesis
  proof (cases "bind_result (commit_succ (log_max c)) (\<lambda>a.
      bind_result (case now of None \<Rightarrow> Inl ClockError | Some t \<Rightarrow> Inr t) (\<lambda>t.
      bind_result (commit_succ (last_assigned_ts c)) (\<lambda>b. Inr (max a (max t b)))))")
    case (Inl e)
    then show ?thesis using that(1) by (simp add: next_commit_ts_def l)
  next
    case (Inr t)
    then have "log_max c < t" "last_assigned_ts c < t"
      by (auto simp: bind_result_Inr_iff commit_succ_def timestamp_succ_def Timestamp_succ_def split: sum.splits if_splits)
    with Inr show ?thesis using that(2) by (simp add: next_commit_ts_def l)
  qed
qed

lemma committer_ok_assign: "committer_ok H c \<Longrightarrow> last_assigned_ts c \<le> t \<Longrightarrow> committer_ok H (c\<lparr>last_assigned_ts := t\<rparr>)"
  unfolding committer_ok_def queue_ok_def by (auto intro: order_trans)

text \<open>Queueing a repeatable timestamp that is not above the last one assigned.\<close>

lemma committer_ok_queue_bump:
  "committer_ok H c \<Longrightarrow> t \<le> last_assigned_ts c \<Longrightarrow>
     committer_ok H (c\<lparr>persistence_writes := persistence_writes c @ [WriteMaxRepeatable t]\<rparr>)"
  unfolding committer_ok_def queue_ok_def by (auto simp: sorted_wrt_append)

lemma bump_ok:
  assumes "committer_ok H c" and "bump_max_repeatable_ts now c = Some c'"
  shows "committer_ok H c'"
proof (cases "cm_pending_writes c")
  case Nil
  then have max: "next_max_repeatable_ts now c = next_commit_ts now c" by (simp add: next_max_repeatable_ts_def PendingWrites_min_ts_def)
  show ?thesis
  proof (cases rule: next_commit_ts_ok [OF assms(1), of now])
    case (1 e)
    then show ?thesis using assms(2) by (simp add: bump_max_repeatable_ts_def max)
  next
    case (2 t)
    then have c': "c' = c\<lparr>last_assigned_ts := t, persistence_writes := persistence_writes c @ [WriteMaxRepeatable t]\<rparr>"
      using assms(2) by (auto simp: bump_max_repeatable_ts_def max)
    show ?thesis using committer_ok_queue_bump [OF committer_ok_assign [OF assms(1), of t]] 2 by (simp add: c')
  qed
next
  case (Cons e es)
  then have "c' = c\<lparr>persistence_writes := persistence_writes c @ [WriteMaxRepeatable (fst e - 1)]\<rparr>"
    using assms(2) by (auto simp: bump_max_repeatable_ts_def next_max_repeatable_ts_def PendingWrites_min_ts_def
        Timestamp_pred_def split: if_splits sum.splits)
  moreover have "fst e - 1 \<le> last_assigned_ts c" using committer_okD(6) [OF assms(1), of e] Cons by simp
  ultimately show ?thesis using committer_ok_queue_bump [OF assms(1)] by simp
qed

section \<open>Publication keeps the invariant\<close>

text \<open>A new entry later than the log and before all pending writes, published with its snapshot.\<close>

lemma committer_ok_publish:
  assumes ok: "committer_ok H c" and "log_max c < t" and "\<And>e. e \<in> set p \<Longrightarrow> t < fst e" and "set p \<subseteq> set (cm_pending_writes c)"
    and "bt_ok p" and "cm_shutdown c \<or> queue_ok (c\<lparr>cm_pending_writes := p, persistence_writes := q\<rparr>)"
    and "log_represents (H @ [e]) (manager_log log)" and "WriteLog_max_ts (manager_log log) = t"
    and "versions_ok sm" and "fst (last (versions sm)) = t"
  shows "committer_ok (H @ [e]) (c\<lparr>cm_pending_writes := p, persistence_writes := q, cm_log := log, cm_snapshot_manager := sm\<rparr>)"
  using assms committer_okD(6) [OF ok] unfolding committer_ok_def queue_ok_def by auto

abbreviation bump_entry :: "timestamp \<Rightarrow> log_entry" where
  "bump_entry t \<equiv> (t, [], Some (ascii ''publish_max_repeatable_ts''))"

lemma queue_okD:
  assumes "queue_ok c" and "persistence_writes c = w # ws"
  shows "\<And>u. u \<in> set ws \<Longrightarrow> is_commit u \<Longrightarrow> write_ts w < write_ts u"
    and "w = WriteMaxRepeatable t \<Longrightarrow> queue_ok (c\<lparr>persistence_writes := ws\<rparr>)"
    and "w = WriteMaxRepeatable t \<Longrightarrow> e \<in> set (cm_pending_writes c) \<Longrightarrow> t < fst e"
proof -
  have q: "queued_commits (w # ws) = map (Some \<circ> fst) (cm_pending_writes c)"
    "\<forall>u \<in> set (w # ws). write_ts u \<le> last_assigned_ts c"
    "sorted_wrt (\<lambda>a b. is_commit b \<longrightarrow> write_ts a < write_ts b) (w # ws)"
    using assms by (simp_all add: queue_ok_def)
  show sorted: "\<And>u. u \<in> set ws \<Longrightarrow> is_commit u \<Longrightarrow> write_ts w < write_ts u" using q(3) by simp
  show "w = WriteMaxRepeatable t \<Longrightarrow> queue_ok (c\<lparr>persistence_writes := ws\<rparr>)" using q by (simp add: queue_ok_def)
  have commits: "Some t \<in> set (queued_commits ws) \<Longrightarrow> \<exists>u \<in> set ws. is_commit u \<and> write_ts u = t" for t and ws :: "'b persistence_write list"
    by (induction ws rule: queued_commits.induct) (auto split: option.split)
  show "t < fst e" if "w = WriteMaxRepeatable t" "e \<in> set (cm_pending_writes c)"
  proof -
    have "Some (fst e) \<in> set (queued_commits ws)" using q(1) that by auto
    from commits [OF this] obtain u where "u \<in> set ws" "is_commit u" "write_ts u = fst e" by blast
    then show ?thesis using sorted [of u] that(1) by simp
  qed
qed

lemma publish_max_ok:
  assumes ok: "committer_ok H c" and run: "\<not> cm_shutdown c" and q: "persistence_writes c = WriteMaxRepeatable t # ws"
  obtains c' where "complete_write env True c = Some c'"
    and "committer_ok (H @ (if log_max c < t then [bump_entry t] else [])) c'"
    and "cm_pending_writes c' = cm_pending_writes c" and "cm_shutdown c' = cm_shutdown c"
    and "persistence_writes c' = ws"
    and "if log_max c < t then log_max c' = t \<and> last (by_ts (manager_log (cm_log c'))) = bump_entry t else log_max c' = log_max c"
proof -
  note oks = committer_okD [OF ok]
  note qok = queue_okD [OF oks(7) [OF run] q]
  have queue: "queue_ok (c\<lparr>persistence_writes := ws\<rparr>)" using qok(2) by simp
  have l: "latest (cm_snapshot_manager c) = Some (last (versions (cm_snapshot_manager c)))" by (rule latest_ok [OF oks(2)])
  show ?thesis
  proof (cases "log_max c < t")
    case True
    obtain sm where sm: "push (max_window env) t (snd (last (versions (cm_snapshot_manager c)))) (cm_snapshot_manager c) = Some sm"
      "versions_ok sm" "last (versions sm) = (t, snd (last (versions (cm_snapshot_manager c))))"
      using snapshots.publish_next [OF oks(2)] oks(3) True by metis
    obtain log n where log: "WriteLogManager_append t [] (Some (ascii ''publish_max_repeatable_ts'')) (cm_log c) = Some (log, n)"
      "log_represents (H @ [bump_entry t]) (manager_log log)" "WriteLog_max_ts (manager_log log) = t"
      "last (by_ts (manager_log log)) = bump_entry t"
      using append_ok [OF oks(1) True] by metis
    let ?sm = "sm\<lparr>persisted_max_ts := t\<rparr>"
    let ?c = "c\<lparr>cm_pending_writes := cm_pending_writes c, persistence_writes := ws, cm_log := log, cm_snapshot_manager := ?sm\<rparr>"
    have bump: "bump_persisted_max_repeatable_ts (max_window env) t (cm_snapshot_manager c) = Some (True, ?sm)"
      using sm(1) True oks(3) l by (simp add: bump_persisted_max_repeatable_ts_def split_beta)
    have "committer_ok (H @ [bump_entry t]) ?c"
      by (rule committer_ok_publish [OF ok True])
        (use qok(3) oks(4) queue sm(2,3) log(2,3) in \<open>simp_all add: versions_ok_def\<close>)
    then show ?thesis
      using True by (intro that [of ?c]) (simp_all add: complete_write_def q publish_max_repeatable_ts_def bump log)
  next
    case False
    then have bump: "bump_persisted_max_repeatable_ts (max_window env) t (cm_snapshot_manager c) = Some (False, cm_snapshot_manager c)"
      using oks(3) l by (simp add: bump_persisted_max_repeatable_ts_def split_beta)
    have "committer_ok H (c\<lparr>persistence_writes := ws\<rparr>)" using ok queue by (simp add: committer_ok_def)
    then show ?thesis
      using False
      by (intro that [of "c\<lparr>persistence_writes := ws\<rparr>"]) (simp_all add: complete_write_def q publish_max_repeatable_ts_def bump)
  qed
qed

lemma publish_commit_ok:
  assumes ok: "committer_ok H c" and run: "\<not> cm_shutdown c" and q: "persistence_writes c = WriteCommit v b # ws"
  obtains t us src p where "cm_pending_writes c = (t, us, src) # p"
    and "complete_write env True c \<noteq> None \<longleftrightarrow>
      apply_updates env t us (snd (last (versions (cm_snapshot_manager c)))) \<noteq> None"
    and "\<And>c'. complete_write env True c = Some c' \<Longrightarrow> committer_ok (H @ [(t, us, src)]) c'
      \<and> cm_pending_writes c' = p \<and> cm_shutdown c' = cm_shutdown c \<and> persistence_writes c' = ws
      \<and> log_max c' = t \<and> last (by_ts (manager_log (cm_log c'))) = (t, us, src)" and "log_max c < t"
proof -
  note oks = committer_okD [OF ok]
  have qs: "queued_commits (persistence_writes c) = map (Some \<circ> fst) (cm_pending_writes c)"
    "\<forall>w \<in> set (persistence_writes c). write_ts w \<le> last_assigned_ts c"
    "sorted_wrt (\<lambda>a b. is_commit b \<longrightarrow> write_ts a < write_ts b) (persistence_writes c)"
    using oks(7) [OF run] by (simp_all add: queue_ok_def)
  obtain t us src p where p: "cm_pending_writes c = (t, us, src) # p" "vc_pending_write v = Some t"
    "queued_commits ws = map (Some \<circ> fst) p"
    using qs(1) q by (cases "cm_pending_writes c") auto
  have later: "\<And>e. e \<in> set p \<Longrightarrow> t < fst e" using oks(4) p(1) by auto
  have t: "log_max c < t" using oks(5) [of "(t, us, src)"] p(1) by simp
  obtain log n where log: "WriteLogManager_append t us src (cm_log c) = Some (log, n)"
    "log_represents (H @ [(t, us, src)]) (manager_log log)" "WriteLog_max_ts (manager_log log) = t"
    "last (by_ts (manager_log log)) = (t, us, src)"
    using append_ok [OF oks(1) t] by metis
  let ?s = "snd (last (versions (cm_snapshot_manager c)))"
  have snap: "latest_snapshot (cm_snapshot_manager c) = Some ?s" by (simp add: latest_snapshot_def latest_ok [OF oks(2)])
  have push: "\<exists>sm. push (max_window env) t s (cm_snapshot_manager c) = Some sm \<and> versions_ok sm \<and> last (versions sm) = (t, s)" for s
    using snapshots.publish_next [OF oks(2)] oks(3) t by metis
  have step: "complete_write env True c = (case apply_updates env t us ?s of None \<Rightarrow> None | Some s \<Rightarrow>
      map_option (\<lambda>sm. c\<lparr>cm_pending_writes := p, persistence_writes := ws, cm_log := log, cm_snapshot_manager := sm\<rparr>)
        (push (max_window env) t s (cm_snapshot_manager c)))"
    by (simp add: complete_write_def q publish_commit_def p must_commit_ts_def PendingWrites_pop_first_def snap log(1)
        split: option.splits)
  show ?thesis
  proof (rule that [OF p(1)])
    show "complete_write env True c \<noteq> None \<longleftrightarrow> apply_updates env t us ?s \<noteq> None"
      using push by (cases "apply_updates env t us ?s") (auto simp: step)
    fix c'
    assume c': "complete_write env True c = Some c'"
    then obtain s sm where s: "push (max_window env) t s (cm_snapshot_manager c) = Some sm"
      "c' = c\<lparr>cm_pending_writes := p, persistence_writes := ws, cm_log := log, cm_snapshot_manager := sm\<rparr>"
      by (auto simp: step split: option.splits)
    have sm: "versions_ok sm" "fst (last (versions sm)) = t" using push [of s] s(1) by auto
    have "queue_ok (c\<lparr>cm_pending_writes := p, persistence_writes := ws\<rparr>)" using p(3) qs(2,3) q by (simp add: queue_ok_def)
    then have "committer_ok (H @ [(t, us, src)]) c'" unfolding s(2)
      by (intro committer_ok_publish [OF ok t later]) (use p(1) oks(4) log sm in auto)
    then show "committer_ok (H @ [(t, us, src)]) c' \<and> cm_pending_writes c' = p \<and> cm_shutdown c' = cm_shutdown c
        \<and> persistence_writes c' = ws \<and> log_max c' = t \<and> last (by_ts (manager_log (cm_log c'))) = (t, us, src)"
      by (simp add: s(2) log(3,4))
  qed (rule t)
qed

section \<open>Validation keeps the invariant\<close>

text \<open>No entry of the history, published or pending, lies between the reads and the commit and
  conflicts with the reads.\<close>

definition valid_between :: "search_env \<Rightarrow> log_entry list \<Rightarrow> read_set \<Rightarrow> timestamp \<Rightarrow> timestamp \<Rightarrow> bool" where
  "valid_between env E rs a b = (\<forall>e \<in> set E. a < fst e \<longrightarrow> fst e < b \<longrightarrow> \<not> conflicts env rs (fst (snd e)))"

lemma no_conflict_valid:
  assumes "committer_ok H c" and "read_set_ok rs" and "commit_has_conflict env rs a b c = Inr None"
  shows "valid_between env (H @ cm_pending_writes c) rs a b"
proof -
  note ok = committer_okD [OF assms(1)]
  have "WriteLog_is_stale env (manager_log (cm_log c)) rs a b = Inr None"
    "PendingWrites_is_stale env (cm_pending_writes c) rs a b = Inr None"
    using assms(3) by (auto simp: commit_has_conflict_def bind_result_Inr_iff split: option.splits)
  from log.stale_None [OF ok(1) assms(2) this(1)] pending.stale_None [OF ok(4) assms(2) this(2)]
  show ?thesis unfolding valid_between_def log.valid_until_def pending.valid_until_def by auto
qed

lemma committer_ok_stage:
  assumes ok: "committer_ok H c" and "log_max c < t" and "last_assigned_ts c < t" and "vc_pending_write v = Some t"
  shows "committer_ok H (c\<lparr>last_assigned_ts := t, cm_pending_writes := cm_pending_writes c @ [(t, us, src)],
           persistence_writes := persistence_writes c @ [WriteCommit v b]\<rparr>)"
proof -
  note oks = committer_okD [OF ok]
  have p: "\<forall>e \<in> set (cm_pending_writes c). fst e < t" using oks(6) assms(3) by (meson le_less_trans)
  have "queue_ok c \<Longrightarrow> queue_ok (c\<lparr>last_assigned_ts := t, cm_pending_writes := cm_pending_writes c @ [(t, us, src)],
           persistence_writes := persistence_writes c @ [WriteCommit v b]\<rparr>)"
    using assms(3,4) unfolding queue_ok_def by (auto simp: sorted_wrt_append)
  with ok p assms(2) show ?thesis unfolding committer_ok_def by (auto simp: sorted_wrt_append less_imp_le)
qed

text \<open>A transaction is answered at once, or staged at a later timestamp than anything before.\<close>

lemma start_commit_ok:
  assumes ok: "committer_ok H c" and reads: "read_set_ok (tx_read_set (ft_reads tx))"
    and order: "order_updates (table_metadata_of env) (ft_bootstrap tx) (coalesced_writes (ft_writes tx)) = Some us"
  obtains (answer) a t where "start_commit env now tx src c = Some (Answer a, c\<lparr>last_assigned_ts := t\<rparr>)"
      and "committer_ok H (c\<lparr>last_assigned_ts := t\<rparr>)"
  | (later) t v where "start_commit env now tx src c =
        Some (Later, c\<lparr>last_assigned_ts := t, cm_pending_writes := cm_pending_writes c @ [(t, pack_updates us, src)],
           persistence_writes := persistence_writes c @ [WriteCommit v (ft_begin_timestamp tx)]\<rparr>)"
      and "log_max c < t" and "last_assigned_ts c < t" and "vc_pending_write v = Some t"
      and "valid_between (commit_search_env env) (H @ cm_pending_writes c) (tx_read_set (ft_reads tx)) (ft_begin_timestamp tx) t"
proof (cases "Writes_is_empty (ft_writes tx)")
  case True
  then show ?thesis using answer [of _ "last_assigned_ts c"] ok by (simp add: start_commit_def)
next
  case False
  note oks = committer_okD [OF ok]
  let ?rs = "tx_read_set (ft_reads tx)" and ?b = "ft_begin_timestamp tx" and ?env = "commit_search_env env"
  show ?thesis
  proof (cases rule: next_commit_ts_ok [OF ok, of now])
    case (1 e)
    then show ?thesis using False answer [of _ "last_assigned_ts c"] ok by (simp add: start_commit_def validate_commit_def)
  next
    case (2 t)
    let ?c = "c\<lparr>last_assigned_ts := t\<rparr>"
    have ok': "committer_ok H ?c" using committer_ok_assign [OF ok] 2(3) by simp
    have snap: "latest_snapshot (cm_snapshot_manager c) = Some (snd (last (versions (cm_snapshot_manager c))))"
      by (simp add: latest_snapshot_def latest_ok [OF oks(2)])
    have p: "\<forall>e \<in> set (cm_pending_writes c). fst e < t" using oks(6) 2(3) by (meson le_less_trans)
    have validate: "validate_commit env now tx src c = (case commit_has_conflict ?env ?rs ?b t ?c of
        Inl e \<Rightarrow> Some (Inl (CommitLog e), ?c) | Inr (Some x) \<Rightarrow> Some (Inl (Conflict x), ?c) | Inr None \<Rightarrow> stage_commit env t tx src ?c)"
      using 2(1) by (simp add: validate_commit_def)
    show ?thesis
    proof (cases "commit_has_conflict ?env ?rs ?b t ?c = Inr None \<and> compute_writes env t us (snd (last (versions (cm_snapshot_manager c)))) \<noteq> None")
      case True
      then obtain dw iw where w: "compute_writes env t us (snd (last (versions (cm_snapshot_manager c)))) = Some (dw, iw)" by auto
      let ?v = "\<lparr>vc_index_writes = iw, vc_document_writes = dw, vc_pending_write = Some t\<rparr>"
      have "cm_pending_writes c = [] \<or> fst (last (cm_pending_writes c)) < t" using p last_in_set by blast
      then have "PendingWrites_push_back t (pack_updates us) src (cm_pending_writes c)
          = Some (Some t, cm_pending_writes c @ [(t, pack_updates us, src)])"
        using p by (simp add: PendingWrites_push_back_def bt_insert_last)
      then have "stage_commit env t tx src ?c = Some (Inr ?v, ?c\<lparr>cm_pending_writes := cm_pending_writes c @ [(t, pack_updates us, src)]\<rparr>)"
        using w order snap by (simp add: stage_commit_def)
      moreover have "valid_between ?env (H @ cm_pending_writes c) ?rs ?b t"
        using no_conflict_valid [OF ok' reads, of ?env ?b t] True by simp
      ultimately show ?thesis
        using False True 2 by (intro later [where t = t and v = ?v]) (simp_all add: start_commit_def validate)
    next
      case no: False
      have "\<exists>e. validate_commit env now tx src c = Some (Inl e, ?c)"
        using no order snap
        by (cases "commit_has_conflict ?env ?rs ?b t ?c"; cases "projr (commit_has_conflict ?env ?rs ?b t ?c)")
          (auto simp: validate stage_commit_def)
      then obtain e where "validate_commit env now tx src c = Some (Inl e, ?c)" by blast
      then show ?thesis using answer [OF _ ok'] False by (simp add: start_commit_def)
    qed
  qed
qed

text \<open>Ordering the updates only permutes them.\<close>

lemma those_keyed: "those (map (\<lambda>(i, u). map_option (\<lambda>k. (k, i, u)) (g i u)) xs) = Some ks \<Longrightarrow> map snd ks = xs"
  by (induction xs arbitrary: ks) (auto split: option.splits)

lemma order_updates_mset: "order_updates metadata b us = Some us' \<Longrightarrow> mset us' = mset us"
proof (cases "length us < 2")
  case False
  assume "order_updates metadata b us = Some us'"
  with False obtain ks where ks: "us' = map snd (sort_key fst ks)"
    "those (map (\<lambda>(i, u). map_option (\<lambda>k. (k, i, u))
       (table_dependency_sort_key metadata b (ResolvedDocumentId_to_internal i) (upd_new u))) us) = Some ks"
    by (auto simp: order_updates_def)
  have "mset us' = image_mset snd (mset ks)" by (simp add: ks(1))
  also have "\<dots> = mset (map snd ks)" by simp
  also have "map snd ks = us" by (rule those_keyed [OF ks(2)])
  finally show ?thesis .
qed (simp add: order_updates_def)

end
