(* ===== verification/Serializability.thy ===== *)
theory Serializability
  imports Committer
begin

text \<open>
  Runs of the committer, and that the transactions it commits are serializable in the order of their
  commit timestamps.

  A run interleaves the committer's steps with the subscription worker trimming the shared log.
  Beside the committer's state it carries the history \<open>H\<close> of all published log entries and a record
  of every transaction that was staged for commit.
\<close>

declare split_paired_All [simp del] split_paired_Ex [simp del]

section \<open>Replaying the history\<close>

type_synonym packed_store = "resolved_document_id \<Rightarrow> packed_document option"

definition apply_writes :: "log_writes \<Rightarrow> packed_store \<Rightarrow> packed_store" where
  "apply_writes ws st = fold (\<lambda>(i, u) st. st(i := packed_new u)) ws st"

fun replay :: "log_entry list \<Rightarrow> packed_store \<Rightarrow> packed_store" where
  "replay [] st = st"
| "replay (e # es) st = replay es (apply_writes (fst (snd e)) st)"

text \<open>The documents at a timestamp.\<close>

definition store_at :: "packed_store \<Rightarrow> log_entry list \<Rightarrow> timestamp \<Rightarrow> packed_store" where
  "store_at base E t = replay (filter (\<lambda>e. fst e \<le> t) E) base"

text \<open>
  The writes of a transaction as \<open>Writes\<close> builds them: one update per document, of documents with
  that id, the old one the version in the given store.
\<close>

definition writes_on :: "packed_store \<Rightarrow> log_writes \<Rightarrow> bool" where
  "writes_on st ws = (distinct (map fst ws)
     \<and> (\<forall>(i, u) \<in> set ws. packed_old u = st i \<and> (\<forall>d. packed_new u = Some d \<longrightarrow> packed_id d = i)))"

definition store_ids_ok :: "packed_store \<Rightarrow> bool" where
  "store_ids_ok st = (\<forall>i d. st i = Some d \<longrightarrow> packed_id d = i)"

record commit_record =
  cr_reads :: read_set
  cr_begin :: timestamp
  cr_ts :: timestamp
  cr_writes :: log_writes

section \<open>Runs\<close>

text \<open>
  What the committer's clients guarantee: the transaction began at a published timestamp, its reads
  are well formed and cover every document it writes, and its updates overlay the documents at its
  begin timestamp, the way \<open>Writes\<close> builds them.  The metadata of the tables it writes can be read.
\<close>

definition transaction_ok :: "('s, 'i) committer_env \<Rightarrow> packed_store \<Rightarrow> log_entry list \<Rightarrow> ('s, 'i) committer \<Rightarrow> final_transaction \<Rightarrow> bool" where
  "transaction_ok env base H c tx =
     (ft_begin_timestamp tx \<le> log_max c
      \<and> read_set_ok (tx_read_set (ft_reads tx))
      \<and> order_updates (table_metadata_of env) (ft_bootstrap tx) (coalesced_writes (ft_writes tx)) \<noteq> None
      \<and> (\<exists>docs. writes_ok docs (ft_writes tx)
           \<and> (\<forall>i. store_at base H (ft_begin_timestamp tx) i = map_option PackedDocument_pack (docs i)))
      \<and> (\<forall>i u. bt_get (updates (ft_writes tx)) i = Some u \<longrightarrow>
           protects (tx_read_set (ft_reads tx)) i \<and> (\<forall>d. upd_new u = Some d \<longrightarrow> ResolvedDocument_id d = i)))"

definition ordered_writes :: "('s, 'i) committer_env \<Rightarrow> final_transaction \<Rightarrow> log_writes" where
  "ordered_writes env tx =
     (case order_updates (table_metadata_of env) (ft_bootstrap tx) (coalesced_writes (ft_writes tx)) of
        None \<Rightarrow> [] | Some us \<Rightarrow> pack_updates us)"

text \<open>What a step of the committer appended to the log.\<close>

definition published :: "('s, 'i) committer \<Rightarrow> ('s, 'i) committer \<Rightarrow> log_entry list" where
  "published c c' = (if log_max c' = log_max c then [] else [last (by_ts (manager_log (cm_log c')))])"

inductive reachable ::
    "('s, 'i) committer_env \<Rightarrow> packed_store \<Rightarrow> ('s, 'i) committer \<Rightarrow> log_entry list \<Rightarrow> commit_record list \<Rightarrow> bool"
  for env :: "('s, 'i) committer_env" and base :: packed_store where
  start: "store_ids_ok base \<Longrightarrow>
    reachable env base (Committer_start (WriteLogManager_new t) (SnapshotManager_new t s)) [] []"
| readonly_or_failed: "reachable env base c H crs \<Longrightarrow> \<not> cm_shutdown c \<Longrightarrow> transaction_ok env base H c tx \<Longrightarrow>
    start_commit env now tx src c = Some (Answer a, c') \<Longrightarrow> reachable env base c' H crs"
| staged: "reachable env base c H crs \<Longrightarrow> \<not> cm_shutdown c \<Longrightarrow> transaction_ok env base H c tx \<Longrightarrow>
    start_commit env now tx src c = Some (Later, c') \<Longrightarrow>
    reachable env base c' H (crs @ [\<lparr>cr_reads = tx_read_set (ft_reads tx), cr_begin = ft_begin_timestamp tx,
       cr_ts = last_assigned_ts c', cr_writes = ordered_writes env tx\<rparr>])"
| bump: "reachable env base c H crs \<Longrightarrow> \<not> cm_shutdown c \<Longrightarrow>
    bump_max_repeatable_ts now c = Some c' \<Longrightarrow> reachable env base c' H crs"
| complete: "reachable env base c H crs \<Longrightarrow> \<not> cm_shutdown c \<Longrightarrow>
    complete_write env True c = Some c' \<Longrightarrow> reachable env base c' (H @ published c c') crs"
| failed: "reachable env base c H crs \<Longrightarrow> \<not> cm_shutdown c \<Longrightarrow>
    complete_write env False c = Some c' \<Longrightarrow> reachable env base c' H crs"
| retention: "reachable env base c H crs \<Longrightarrow>
    reachable env base (c\<lparr>cm_log := enforce_retention_policy cfg now_ts (cm_log c)\<rparr>) H crs"

section \<open>Invariant of the runs\<close>

text \<open>
  Every entry, published or pending, was written on the documents just before it; every staged
  transaction is such an entry, and its reads are still valid there.
\<close>

fun accurate :: "packed_store \<Rightarrow> log_entry list \<Rightarrow> bool" where
  "accurate st [] = True"
| "accurate st (e # es) = (writes_on st (fst (snd e)) \<and> accurate (apply_writes (fst (snd e)) st) es)"

definition record_ok :: "search_env \<Rightarrow> log_entry list \<Rightarrow> commit_record \<Rightarrow> bool" where
  "record_ok env E r = (read_set_ok (cr_reads r) \<and> cr_begin r < cr_ts r
     \<and> (\<exists>e \<in> set E. fst e = cr_ts r \<and> fst (snd e) = cr_writes r)
     \<and> valid_between env E (cr_reads r) (cr_begin r) (cr_ts r))"

definition run_ok :: "('s, 'i) committer_env \<Rightarrow> packed_store \<Rightarrow> ('s, 'i) committer \<Rightarrow> log_entry list \<Rightarrow> commit_record list \<Rightarrow> bool" where
  "run_ok env base c H crs = (committer_ok H c \<and> store_ids_ok base \<and> accurate base (H @ cm_pending_writes c)
     \<and> (\<forall>r \<in> set crs. record_ok (commit_search_env env) (H @ cm_pending_writes c) r))"

section \<open>Replay and conflicts\<close>

lemma replay_append: "replay (es @ fs) st = replay fs (replay es st)"
  by (induction es st rule: replay.induct) simp_all

lemma accurate_append: "accurate st (es @ fs) \<longleftrightarrow> accurate st es \<and> accurate (replay es st) fs"
  by (induction es st rule: replay.induct) simp_all

lemma apply_writes_notin: "i \<notin> fst ` set ws \<Longrightarrow> apply_writes ws st i = st i"
  by (induction ws arbitrary: st) (auto simp: apply_writes_def)

lemma apply_writes_in: "distinct (map fst ws) \<Longrightarrow> (i, u) \<in> set ws \<Longrightarrow> apply_writes ws st i = packed_new u"
proof (induction ws arbitrary: st)
  case (Cons w ws)
  then show ?case using apply_writes_notin [of i ws "st(i := packed_new u)"] by (force simp: apply_writes_def)
qed simp

lemma apply_writes_Nil [simp]: "apply_writes [] st = st"
  by (simp add: apply_writes_def)

lemma writes_onD:
  assumes "writes_on st ws" and "(i, u) \<in> set ws"
  shows "packed_old u = st i" and "packed_new u = Some d \<Longrightarrow> packed_id d = i" and "apply_writes ws st i = packed_new u"
  using assms apply_writes_in [of ws i u st] unfolding writes_on_def by auto

lemma no_conflict_update:
  assumes "\<not> conflicts env rs ws" and "(i, u) \<in> set ws"
  shows "packed_old u = Some d \<Longrightarrow> \<not> covers env rs d" and "packed_new u = Some d \<Longrightarrow> \<not> covers env rs d"
  using assms by (force simp: conflicts_def writes_documents_def update_documents_def list_ex_iff)+

lemma apply_touched: "apply_writes ws st i \<noteq> st i \<Longrightarrow> \<exists>u. (i, u) \<in> set ws"
  using apply_writes_notin [of i ws st] by force

lemma apply_store_ids: "writes_on st ws \<Longrightarrow> store_ids_ok st \<Longrightarrow> store_ids_ok (apply_writes ws st)"
  using apply_touched [of ws st] writes_onD(2,3) [of st ws] unfolding store_ids_ok_def by (metis (no_types))

lemma replay_store_ids: "accurate st es \<Longrightarrow> store_ids_ok st \<Longrightarrow> store_ids_ok (replay es st)"
  by (induction es st rule: replay.induct) (simp_all add: apply_store_ids)

text \<open>Writes that do not conflict with some reads leave the documents that the reads cover alone.\<close>

lemma apply_no_conflict:
  assumes "writes_on st ws" and "\<not> conflicts env rs ws" and "store_ids_ok st"
  shows "covers env rs d \<Longrightarrow> apply_writes ws st i = Some d \<longleftrightarrow> st i = Some d"
    and "protects rs i \<Longrightarrow> apply_writes ws st i = st i"
proof -
  show "apply_writes ws st i = Some d \<longleftrightarrow> st i = Some d" if "covers env rs d"
    using apply_touched [of ws st i] writes_onD [OF assms(1)] no_conflict_update [OF assms(2)] that by metis
  show "apply_writes ws st i = st i" if "protects rs i"
  proof (rule ccontr)
    assume ne: "apply_writes ws st i \<noteq> st i"
    then obtain u where u: "(i, u) \<in> set ws" using apply_touched by blast
    have "packed_new u = None"
      using writes_onD(2) [OF assms(1) u] no_conflict_update(2) [OF assms(2) u] that by (cases "packed_new u") (auto simp: protects_def)
    moreover have "st i = None"
      using writes_onD(1) [OF assms(1) u] no_conflict_update(1) [OF assms(2) u] that assms(3)
      by (cases "st i") (auto simp: protects_def store_ids_ok_def)
    ultimately show False using ne writes_onD(3) [OF assms(1) u] by simp
  qed
qed

lemma replay_no_conflict:
  assumes "accurate st es" and "\<forall>e \<in> set es. \<not> conflicts env rs (fst (snd e))" and "store_ids_ok st"
  shows "covers env rs d \<Longrightarrow> replay es st i = Some d \<longleftrightarrow> st i = Some d"
    and "protects rs i \<Longrightarrow> replay es st i = st i"
  using assms
proof (induction es st rule: replay.induct)
  case (2 e es st)
  { case 1
    then show ?case using "2.IH"(1) apply_no_conflict(1) [of st "fst (snd e)" env rs d i] apply_store_ids by simp
  next
    case 2
    then show ?case using "2.IH"(2) apply_no_conflict(2) [of st "fst (snd e)" env rs i] apply_store_ids by simp }
qed simp_all

section \<open>Timestamps cut the history\<close>

lemma ascending_cut:
  "ascending E \<Longrightarrow> a \<le> b \<Longrightarrow> filter (\<lambda>e. fst e \<le> b) E = filter (\<lambda>e. fst e \<le> a) E @ filter (\<lambda>e. a < fst e \<and> fst e \<le> b) E"
proof (induction E)
  case (Cons e E)
  have "filter (\<lambda>x. fst x \<le> a) E = []" if "a < fst e" using Cons.prems that by (fastforce simp: filter_empty_conv)
  then show ?case using Cons by (cases "fst e \<le> a") auto
qed simp

lemma store_at_cut:
  "ascending E \<Longrightarrow> a \<le> b \<Longrightarrow> store_at base E b = replay (filter (\<lambda>e. a < fst e \<and> fst e \<le> b) E) (store_at base E a)"
  by (simp add: store_at_def ascending_cut [of E a b] replay_append)

lemma ascending_prefix: "ascending E \<Longrightarrow> E = filter (\<lambda>e. fst e \<le> a) E @ filter (\<lambda>e. a < fst e) E"
proof (induction E)
  case (Cons e E)
  have "filter (\<lambda>x. fst x \<le> a) E = []" if "a < fst e" using Cons.prems that by (fastforce simp: filter_empty_conv)
  then show ?case using Cons by (cases "fst e \<le> a") auto
qed simp

lemma accurate_cut:
  assumes "ascending E" and "accurate base E" and "a \<le> b"
  shows "accurate base (filter (\<lambda>e. fst e \<le> a) E)"
    and "accurate (store_at base E a) (filter (\<lambda>e. a < fst e \<and> fst e \<le> b) E)"
proof -
  have "accurate base (filter (\<lambda>e. fst e \<le> b) E)" for b
    using assms(2) accurate_append [of base "filter (\<lambda>e. fst e \<le> b) E" "filter (\<lambda>e. b < fst e) E"]
    by (simp add: ascending_prefix [OF assms(1), symmetric])
  from this [of a] this [of b] show "accurate base (filter (\<lambda>e. fst e \<le> a) E)"
    "accurate (store_at base E a) (filter (\<lambda>e. a < fst e \<and> fst e \<le> b) E)"
    by (simp_all add: ascending_cut [OF assms(1,3)] accurate_append store_at_def)
qed

text \<open>Reads that are valid between two timestamps see the same documents at both.\<close>

lemma valid_between_reads:
  assumes "ascending E" and "accurate base E" and "store_ids_ok base" and "a < t" and "valid_between env E rs a t"
  shows "covers env rs d \<Longrightarrow> store_at base E (t - 1) i = Some d \<longleftrightarrow> store_at base E a i = Some d"
    and "protects rs i \<Longrightarrow> store_at base E (t - 1) i = store_at base E a i"
proof -
  have le: "a \<le> t - 1" using assms(4) by simp
  have "\<forall>e \<in> set (filter (\<lambda>e. a < fst e \<and> fst e \<le> t - 1) E). \<not> conflicts env rs (fst (snd e))"
    using assms(4,5) by (auto simp: valid_between_def)
  note r = replay_no_conflict [OF accurate_cut(2) [OF assms(1,2) le] this]
  have "store_ids_ok (store_at base E a)"
    unfolding store_at_def by (rule replay_store_ids [OF accurate_cut(1) [OF assms(1,2) le] assms(3)])
  with r show "covers env rs d \<Longrightarrow> store_at base E (t - 1) i = Some d \<longleftrightarrow> store_at base E a i = Some d"
    "protects rs i \<Longrightarrow> store_at base E (t - 1) i = store_at base E a i"
    unfolding store_at_cut [OF assms(1) le, of base] by blast+
qed

section \<open>Every step keeps the invariant\<close>

lemma committer_ascending:
  assumes "committer_ok H c"
  shows "ascending (H @ cm_pending_writes c)"
proof -
  note ok = committer_okD [OF assms]
  have "\<forall>x \<in> set H. fst x \<le> log_max c" "ascending H" using log_max_ts(1) [OF ok(1)] ok(1) by (simp_all add: log_represents_def)
  moreover have "ascending (cm_pending_writes c)" using ok(4) by (simp add: ascending_def)
  ultimately show ?thesis using ok(5) by (auto intro: le_less_trans)
qed

lemma pack_updates_on:
  assumes "writes_ok docs w" and "order_updates metadata b (coalesced_writes w) = Some us"
    and "\<And>i. st i = map_option PackedDocument_pack (docs i)"
    and "\<And>i u d. bt_get (updates w) i = Some u \<Longrightarrow> upd_new u = Some d \<Longrightarrow> ResolvedDocument_id d = i"
  shows "writes_on st (pack_updates us)" and "i \<in> fst ` set (pack_updates us) \<longleftrightarrow> (\<exists>u. bt_get (updates w) i = Some u)"
proof -
  have w: "bt_ok (updates w)" "\<And>i u. bt_get (updates w) i = Some u \<Longrightarrow> map_option fst (upd_old u) = docs i"
    using assms(1) by (auto simp: writes_ok_def)
  have us: "mset us = mset (updates w)" using order_updates_mset [OF assms(2)] by (simp add: coalesced_writes_def)
  then have set: "(i, u) \<in> set us \<longleftrightarrow> bt_get (updates w) i = Some u" for i u
    using bt_get_iff [OF w(1)] by (metis set_mset_mset)
  have "mset (map fst us) = mset (map fst (updates w))" using us by simp
  then have "distinct (map fst us)" using bt_distinct [OF w(1)] by (metis mset_eq_imp_distinct_iff)
  moreover have "map fst (pack_updates us) = map fst us" by (simp add: pack_updates_def comp_def split_beta)
  moreover have "packed_old x = st i \<and> (\<forall>d. packed_new x = Some d \<longrightarrow> packed_id d = i)" if mem: "(i, x) \<in> set (pack_updates us)" for i x
  proof -
    obtain u where x: "(i, u) \<in> set us" "x = PackedDocumentUpdate_pack (DocumentUpdate_from u)"
      using mem by (auto simp: pack_updates_def)
    note u = x(1) [unfolded set] x(2)
    then show ?thesis
      using w(2) [OF u(1)] assms(3) [of i] assms(4) [OF u(1)]
      by (auto simp: PackedDocumentUpdate_pack_def DocumentUpdate_from_def PackedDocument_pack_def)
  qed
  ultimately show "writes_on st (pack_updates us)" unfolding writes_on_def by auto
  show "i \<in> fst ` set (pack_updates us) \<longleftrightarrow> (\<exists>u. bt_get (updates w) i = Some u)"
    using set by (force simp: pack_updates_def)
qed

lemma record_ok_insert:
  assumes "record_ok env (E @ F) r" and "fst e < cr_ts r \<longrightarrow> \<not> conflicts env (cr_reads r) (fst (snd e))"
  shows "record_ok env (E @ e # F) r"
  using assms unfolding record_ok_def valid_between_def by auto

lemma run_ok_start:
  assumes "store_ids_ok base"
  shows "run_ok env base (Committer_start (WriteLogManager_new t) (SnapshotManager_new t s)) [] []"
  using assms
  by (simp add: run_ok_def committer_ok_def queue_ok_def Committer_start_def WriteLogManager_new_def WriteLog_new_def
      log_represents_def versions_ok_def SnapshotManager_new_def WriteLog_max_ts_def PendingWrites_new_def)

lemma run_ok_staged:
  assumes ok: "run_ok env base c H crs" and tx: "transaction_ok env base H c tx"
    and step: "start_commit env now tx src c = Some (Later, c')"
  shows "run_ok env base c' H (crs @ [\<lparr>cr_reads = tx_read_set (ft_reads tx), cr_begin = ft_begin_timestamp tx,
       cr_ts = last_assigned_ts c', cr_writes = ordered_writes env tx\<rparr>])"
proof -
  let ?E = "H @ cm_pending_writes c" and ?rs = "tx_read_set (ft_reads tx)" and ?b = "ft_begin_timestamp tx"
  have c: "committer_ok H c" and base: "store_ids_ok base" and acc: "accurate base ?E"
    and recs: "\<forall>r \<in> set crs. record_ok (commit_search_env env) ?E r" using ok by (simp_all add: run_ok_def)
  obtain us docs where us: "order_updates (table_metadata_of env) (ft_bootstrap tx) (coalesced_writes (ft_writes tx)) = Some us"
    and docs: "writes_ok docs (ft_writes tx)" "\<And>i. store_at base H ?b i = map_option PackedDocument_pack (docs i)"
    and b: "?b \<le> log_max c" and rs: "read_set_ok ?rs"
    and upd: "\<And>i u. bt_get (updates (ft_writes tx)) i = Some u \<Longrightarrow> protects ?rs i"
      "\<And>i u d. bt_get (updates (ft_writes tx)) i = Some u \<Longrightarrow> upd_new u = Some d \<Longrightarrow> ResolvedDocument_id d = i"
    using tx unfolding transaction_ok_def by auto
  note packed = pack_updates_on [OF docs(1) us docs(2) upd(2)]
  from start_commit_ok [OF c rs us, of now src] step obtain t v where
    c': "c' = c\<lparr>last_assigned_ts := t, cm_pending_writes := cm_pending_writes c @ [(t, pack_updates us, src)],
           persistence_writes := persistence_writes c @ [WriteCommit v ?b]\<rparr>"
    and t: "log_max c < t" "last_assigned_ts c < t" "vc_pending_write v = Some t"
    and valid: "valid_between (commit_search_env env) ?E ?rs ?b t"
    by (cases) auto
  have asc: "ascending ?E" by (rule committer_ascending [OF c])
  have early: "fst e < t" if "e \<in> set ?E" for e
    using that log_max_ts(1) [OF committer_okD(1) [OF c]] committer_okD(6) [OF c, of e] t by (auto intro: le_less_trans)
  have begun: "store_at base ?E ?b = store_at base H ?b"
    using le_less_trans [OF b committer_okD(5) [OF c]] by (simp add: store_at_def filter_empty_conv not_le)
  have "\<forall>e \<in> set ?E. fst e \<le> t - 1" using early by fastforce
  then have "filter (\<lambda>e. fst e \<le> t - 1) ?E = ?E" by (rule filter_True)
  then have now: "store_at base ?E (t - 1) = replay ?E base" unfolding store_at_def by (rule arg_cong)
  have "replay ?E base i = store_at base H ?b i" if "i \<in> fst ` set (pack_updates us)" for i
    using valid_between_reads(2) [OF asc acc base _ valid, of i] that packed(2) upd(1) b t(1) now begun by auto
  then have on: "writes_on (replay ?E base) (pack_updates us)"
    using packed(1) unfolding writes_on_def by (force simp: split_beta)
  have "committer_ok H c'" unfolding c' by (rule committer_ok_stage [OF c t])
  moreover have "accurate base (?E @ [(t, pack_updates us, src)])" using acc on by (simp add: accurate_append del: append_assoc)
  moreover have "record_ok (commit_search_env env) (?E @ [(t, pack_updates us, src)]) r" if "r \<in> set crs" for r
  proof (rule record_ok_insert)
    show "record_ok (commit_search_env env) (?E @ []) r" using recs that by simp
    then obtain e where "e \<in> set ?E" "fst e = cr_ts r" unfolding record_ok_def by auto
    then have "cr_ts r < t" using early [of e] by simp
    then show "fst (t, pack_updates us, src) < cr_ts r \<longrightarrow>
        \<not> conflicts (commit_search_env env) (cr_reads r) (fst (snd (t, pack_updates us, src)))" by simp
  qed
  moreover have "record_ok (commit_search_env env) (?E @ [(t, pack_updates us, src)])
      \<lparr>cr_reads = ?rs, cr_begin = ?b, cr_ts = t, cr_writes = pack_updates us\<rparr>"
    using rs b t(1) valid by (auto simp: record_ok_def valid_between_def)
  ultimately show ?thesis using base by (auto simp: run_ok_def c' ordered_writes_def us)
qed

lemma run_ok_complete:
  assumes ok: "run_ok env base c H crs" and run: "\<not> cm_shutdown c" and step: "complete_write env True c = Some c'"
  shows "run_ok env base c' (H @ published c c') crs"
proof (cases "persistence_writes c")
  case Nil
  with ok step show ?thesis by (auto simp: complete_write_def published_def)
next
  case (Cons w ws)
  have c: "committer_ok H c" and base: "store_ids_ok base" and acc: "accurate base (H @ cm_pending_writes c)"
    and recs: "\<forall>r \<in> set crs. record_ok (commit_search_env env) (H @ cm_pending_writes c) r" using ok by (simp_all add: run_ok_def)
  show ?thesis
  proof (cases w)
    case (WriteCommit v b)
    with Cons have q: "persistence_writes c = WriteCommit v b # ws" by simp
    obtain t us src p where p: "cm_pending_writes c = (t, us, src) # p" "log_max c < t"
      "\<And>c'. complete_write env True c = Some c' \<Longrightarrow> committer_ok (H @ [(t, us, src)]) c'
      \<and> cm_pending_writes c' = p \<and> cm_shutdown c' = cm_shutdown c \<and> persistence_writes c' = ws
      \<and> log_max c' = t \<and> last (by_ts (manager_log (cm_log c'))) = (t, us, src)"
      by (rule publish_commit_ok [OF c run q, of env]) blast
    have "H @ published c c' @ cm_pending_writes c' = H @ cm_pending_writes c"
      using p(1,2) p(3) [OF step] by (simp add: published_def)
    then show ?thesis using p(2) p(3) [OF step] base acc recs by (simp add: run_ok_def published_def)
  next
    case (WriteMaxRepeatable t)
    with Cons have q: "persistence_writes c = WriteMaxRepeatable t # ws" by simp
    obtain d where d: "complete_write env True c = Some d"
      "committer_ok (H @ (if log_max c < t then [bump_entry t] else [])) d" "cm_pending_writes d = cm_pending_writes c"
      "if log_max c < t then log_max d = t \<and> last (by_ts (manager_log (cm_log d))) = bump_entry t else log_max d = log_max c"
      by (rule publish_max_ok [OF c run q, of env]) blast
    then have pub: "c' = d" "published c c' = (if log_max c < t then [bump_entry t] else [])"
      using step by (auto simp: published_def split: if_splits)
    have "\<forall>r \<in> set crs. record_ok (commit_search_env env) (H @ bump_entry t # cm_pending_writes c) r"
      using recs by (auto intro!: record_ok_insert simp: conflicts_def writes_documents_def)
    moreover have "accurate base (H @ bump_entry t # cm_pending_writes c)"
      using acc by (simp add: accurate_append writes_on_def)
    ultimately show ?thesis using d(2,3) base acc recs unfolding run_ok_def pub(2) by (simp add: pub(1))
  qed
qed

lemma run_ok_step:
  assumes "run_ok env base c H crs" and "committer_ok H c'" and "cm_pending_writes c' = cm_pending_writes c"
  shows "run_ok env base c' H crs"
  using assms by (simp add: run_ok_def)

lemma bump_pending: "bump_max_repeatable_ts now c = Some c' \<Longrightarrow> cm_pending_writes c' = cm_pending_writes c"
  by (auto simp: bump_max_repeatable_ts_def next_max_repeatable_ts_def next_commit_ts_def
      split: option.splits sum.splits if_splits prod.splits)

lemma reachable_run_ok: "reachable env base c H crs \<Longrightarrow> run_ok env base c H crs"
proof (induction rule: reachable.induct)
  case (start t s)
  then show ?case by (rule run_ok_start)
next
  case (readonly_or_failed c H crs tx now src a c')
  have c: "committer_ok H c" using readonly_or_failed.IH by (simp add: run_ok_def)
  obtain us where us: "order_updates (table_metadata_of env) (ft_bootstrap tx) (coalesced_writes (ft_writes tx)) = Some us"
    and rs: "read_set_ok (tx_read_set (ft_reads tx))"
    using readonly_or_failed.hyps unfolding transaction_ok_def by auto
  from start_commit_ok [OF c rs us, of now src] readonly_or_failed.hyps(4)
  obtain t where "c' = c\<lparr>last_assigned_ts := t\<rparr>" "committer_ok H c'" by cases auto
  then show ?case using run_ok_step [OF readonly_or_failed.IH] by simp
next
  case (staged c H crs tx now src c')
  then show ?case using run_ok_staged by blast
next
  case (bump c H crs now c')
  have "committer_ok H c" using bump.IH by (simp add: run_ok_def)
  from run_ok_step [OF bump.IH bump_ok [OF this bump.hyps(3)] bump_pending [OF bump.hyps(3)]] show ?case .
next
  case (complete c H crs c')
  then show ?case using run_ok_complete by blast
next
  case (failed c H crs c')
  have "committer_ok H c" using failed.IH by (simp add: run_ok_def)
  then have "committer_ok H c' \<and> cm_pending_writes c' = cm_pending_writes c"
    using failed.hyps(3) by (cases "persistence_writes c") (fastforce simp: complete_write_def committer_ok_def)+
  then show ?case using run_ok_step [OF failed.IH] by blast
next
  case (retention c H crs cfg now_ts)
  have "log_represents H (enforce_retention cfg now_ts (manager_log (cm_log c)))"
    "WriteLog_max_ts (enforce_retention cfg now_ts (manager_log (cm_log c))) = log_max c"
    using retention.IH enforce_retention_represents
    by (simp_all add: run_ok_def committer_ok_def enforce_retention_def retention_max_ts WriteLog_max_ts_def [of "\<lparr>by_ts = _, purged_ts = _\<rparr>"])
      (simp add: WriteLog_max_ts_def)
  then show ?case
    using retention.IH by (simp add: run_ok_def committer_ok_def queue_ok_def enforce_retention_policy_def)
qed

section \<open>A sample run\<close>

text \<open>One transaction that inserts a document; its reads cover the table.\<close>

definition sample_env :: "(unit, unit) committer_env" where
  "sample_env = \<lparr>snapshot_update = (\<lambda>_ _ s. Some (s, [])), table_metadata_of = (\<lambda>_. None), max_window = 10,
     commit_search_env = \<lparr>tokenize = (\<lambda>t. [t]), dfa_accepts = (\<lambda>t d u. t = u), disable_fuzzy = False, sha256 = id\<rparr>\<rparr>"

definition sample_id :: resolved_document_id where
  "sample_id = \<lparr>tablet_id = [5], developer_id = \<lparr>id_table = 7, internal_id = [6]\<rparr>\<rparr>"

definition sample_document :: resolved_document where
  "sample_document = \<lparr>doc_tablet_id = [5],
     document = \<lparr>doc_id = developer_id sample_id, doc_creation_time = None, doc_value = []\<rparr>\<rparr>"

definition sample_transaction :: final_transaction where
  "sample_transaction =
     \<lparr>ft_begin_timestamp = 5, ft_bootstrap = \<lparr>tables_id = ([0], 1), index_id = ([1], 2)\<rparr>,
      ft_reads = TransactionReadSet_new\<lparr>tx_read_set := \<lparr>rs_indexed =
          [(IndexName_by_id [5], \<lparr>ir_fields = [], ir_intervals = All, ir_stack_traces = None\<rparr>)], rs_search = []\<rparr>\<rparr>,
      ft_writes = Writes_new\<lparr>updates := [(sample_id, \<lparr>upd_id = sample_id, upd_old = None, upd_new = Some sample_document\<rparr>)]\<rparr>\<rparr>"

abbreviation sample_start :: "(unit, unit) committer" where
  "sample_start \<equiv> Committer_start (WriteLogManager_new 5) (SnapshotManager_new 5 ())"

lemma sample_transaction_ok: "transaction_ok sample_env (\<lambda>_. None) [] sample_start sample_transaction"
proof -
  have "bt_get (updates (ft_writes sample_transaction)) = [sample_id \<mapsto> \<lparr>upd_id = sample_id, upd_old = None, upd_new = Some sample_document\<rparr>]"
    by (auto simp: sample_transaction_def bt_get_def fun_eq_iff)
  moreover have "protects (tx_read_set (ft_reads sample_transaction)) sample_id"
    by (auto simp: protects_def covers_def index_covers_def sample_transaction_def sample_id_def IndexName_by_id_def IntervalSet_points_def)
  moreover have "read_set_ok (tx_read_set (ft_reads sample_transaction))"
    by (simp add: sample_transaction_def read_set_ok_def bt_all_def index_reads_ok_def IntervalSet_ok_def)
  moreover have "writes_ok (\<lambda>_. None) (ft_writes sample_transaction)"
    by (auto simp: writes_ok_def calculation(1)) (simp add: sample_transaction_def)
  moreover have "ResolvedDocument_id sample_document = sample_id"
    by (simp add: ResolvedDocument_id_def sample_document_def sample_id_def)
  moreover have "ft_begin_timestamp sample_transaction \<le> log_max sample_start"
    by (simp add: sample_transaction_def Committer_start_def WriteLogManager_new_def WriteLog_new_def WriteLog_max_ts_def)
  moreover have "order_updates (table_metadata_of sample_env) (ft_bootstrap sample_transaction) (coalesced_writes (ft_writes sample_transaction)) \<noteq> None"
    by (simp add: order_updates_def coalesced_writes_def sample_transaction_def)
  moreover have "store_at (\<lambda>_. None) [] (ft_begin_timestamp sample_transaction) i = map_option PackedDocument_pack ((\<lambda>_. None) i)" for i
    by (simp add: store_at_def)
  ultimately show ?thesis unfolding transaction_ok_def by (metis fun_upd_apply option.distinct(1) option.sel document_update_with_prev_ts.select_convs(3))
qed

lemma sample_staged:
  obtains c where "start_commit sample_env (Some 9) sample_transaction None sample_start = Some (Later, c)"
    and "last_assigned_ts c = 9"
  by (simp add: start_commit_def sample_transaction_def Writes_is_empty_def validate_commit_def next_commit_ts_def
      Committer_start_def SnapshotManager_new_def latest_ts_def latest_def commit_succ_def timestamp_succ_def Timestamp_succ_def
      Timestamp_MAX_def Timestamp_MIN_def commit_has_conflict_def WriteLog_is_stale_def WriteLog_iter_def WriteLogManager_new_def WriteLog_new_def
      PendingWrites_is_stale_def PendingWrites_new_def PendingWrites_iter_def stage_commit_def order_updates_def coalesced_writes_def
      latest_snapshot_def PendingWrites_push_back_def sample_env_def)

lemma sample_reachable:
  obtains c where "reachable sample_env (\<lambda>_. None) c []
      [\<lparr>cr_reads = tx_read_set (ft_reads sample_transaction), cr_begin = 5, cr_ts = 9,
        cr_writes = ordered_writes sample_env sample_transaction\<rparr>]"
proof (rule sample_staged)
  fix c
  assume c: "start_commit sample_env (Some 9) sample_transaction None sample_start = Some (Later, c)"
    "last_assigned_ts c = 9"
  have "reachable sample_env (\<lambda>_. None) sample_start [] []"
    by (rule reachable.start) (simp add: store_ids_ok_def)
  from reachable.staged [OF this _ sample_transaction_ok c(1)] c
  show ?thesis by (intro that) (simp_all add: Committer_start_def sample_transaction_def)
qed

section \<open>Properties\<close>

text \<open>C1. Transactions commit serializably in the order of their timestamps.  In every reachable state,
  for every transaction staged for commit: a document its reads cover is the same at its begin
  timestamp as just before its commit timestamp, so running it there would have read the same; its
  updates start from the documents just before the commit; and the store at the commit timestamp is
  that store with its writes applied.\<close>

theorem commits_serializable:
  assumes "reachable env base c H crs" and "r \<in> set crs"
  shows "let E = H @ cm_pending_writes c in
     cr_begin r < cr_ts r
     \<and> (if covers (commit_search_env env) (cr_reads r) d
        then store_at base E (cr_begin r) i = Some d \<longleftrightarrow> store_at base E (cr_ts r - 1) i = Some d else True)
     \<and> writes_on (store_at base E (cr_ts r - 1)) (cr_writes r)
     \<and> store_at base E (cr_ts r) = apply_writes (cr_writes r) (store_at base E (cr_ts r - 1))"
proof -
  let ?E = "H @ cm_pending_writes c"
  have run: "run_ok env base c H crs" by (rule reachable_run_ok [OF assms(1)])
  then have base: "store_ids_ok base" and acc: "accurate base ?E" and asc: "ascending ?E"
    and rec: "record_ok (commit_search_env env) ?E r"
    using assms(2) committer_ascending by (auto simp: run_ok_def)
  from rec obtain e where "e \<in> set ?E" "fst e = cr_ts r" "fst (snd e) = cr_writes r" unfolding record_ok_def by blast
  then obtain src where "(cr_ts r, cr_writes r, src) \<in> set ?E" by (metis prod.collapse)
  with rec have r: "cr_begin r < cr_ts r" "(cr_ts r, cr_writes r, src) \<in> set ?E"
    "valid_between (commit_search_env env) ?E (cr_reads r) (cr_begin r) (cr_ts r)" by (simp_all add: record_ok_def)
  note reads = valid_between_reads(1) [OF asc acc base r(1,3)]
  have le: "cr_ts r - 1 \<le> cr_ts r" by simp
  have "filter (\<lambda>e. cr_ts r - 1 < fst e \<and> fst e \<le> cr_ts r) ?E = filter (\<lambda>e. fst e = cr_ts r) ?E"
    using r(1) by (intro filter_cong) auto
  also have "\<dots> = [(cr_ts r, cr_writes r, src)]"
  proof -
    obtain pre post where E: "?E = pre @ (cr_ts r, cr_writes r, src) # post" using r(2) by (metis split_list)
    then have "\<forall>x \<in> set pre. fst x < cr_ts r" "\<forall>x \<in> set post. cr_ts r < fst x" using asc by auto
    then have "filter (\<lambda>e. fst e = cr_ts r) pre = []" "filter (\<lambda>e. fst e = cr_ts r) post = []"
      by (auto simp: filter_empty_conv)
    then show ?thesis by (simp only: E filter.simps filter_append) simp
  qed
  finally have "accurate (store_at base ?E (cr_ts r - 1)) [(cr_ts r, cr_writes r, src)]"
    "store_at base ?E (cr_ts r) = replay [(cr_ts r, cr_writes r, src)] (store_at base ?E (cr_ts r - 1))"
    using accurate_cut(2) [OF asc acc le] store_at_cut [OF asc le, of base] by simp_all
  then show ?thesis using r(1) reads [of d i] by (simp add: Let_def)
qed

theorem commits_serializable_witness:
  "\<exists>c H r. reachable sample_env (\<lambda>_. None) c H [r] \<and> cr_ts r = 9
     \<and> store_at (\<lambda>_. None) (H @ cm_pending_writes c) 9 = apply_writes (cr_writes r) (store_at (\<lambda>_. None) (H @ cm_pending_writes c) 8)"
proof -
  obtain c where c: "reachable sample_env (\<lambda>_. None) c []
      [\<lparr>cr_reads = tx_read_set (ft_reads sample_transaction), cr_begin = 5, cr_ts = 9,
        cr_writes = ordered_writes sample_env sample_transaction\<rparr>]" using sample_reachable by blast
  from commits_serializable [OF this list.set_intros(1)] c show ?thesis
    by (intro exI [of _ c] exI [of _ "[]"] exI [of _ "\<lparr>cr_reads = tx_read_set (ft_reads sample_transaction), cr_begin = 5, cr_ts = 9,
        cr_writes = ordered_writes sample_env sample_transaction\<rparr>"]) (simp add: Let_def)
qed

text \<open>C2. In every reachable state the first write of the queue can be published: no assertion on the
  order of timestamps, of the log or of the snapshots fails, the commit is the one that is pending,
  and the write leaves the queue with the log and the latest snapshot at or beyond its timestamp.  Only
  a failing update of the snapshot stops it.\<close>

theorem publication_in_order:
  assumes "reachable env base c H crs" and "\<not> cm_shutdown c" and "persistence_writes c = w # ws"
  shows "case complete_write env True c of
     None \<Rightarrow> is_commit w \<and> (case cm_pending_writes c of
         [] \<Rightarrow> False
       | (t, us, _) # _ \<Rightarrow> t = write_ts w \<and> apply_updates env t us (snd (last (versions (cm_snapshot_manager c)))) = None)
   | Some c' \<Rightarrow> persistence_writes c' = ws \<and> \<not> cm_shutdown c' \<and> write_ts w \<le> log_max c'
       \<and> latest_ts (cm_snapshot_manager c') = Some (log_max c')"
proof -
  have c: "committer_ok H c" using reachable_run_ok [OF assms(1)] by (simp add: run_ok_def)
  have latest: "committer_ok H' c' \<Longrightarrow> latest_ts (cm_snapshot_manager c') = Some (log_max c')" for H' c'
    using latest_ok [OF committer_okD(2)] committer_okD(3) by (fastforce simp: latest_ts_def)
  show ?thesis
  proof (cases w)
    case (WriteCommit v b)
    with assms(3) have q: "persistence_writes c = WriteCommit v b # ws" by simp
    obtain t us src p where p: "cm_pending_writes c = (t, us, src) # p"
      "complete_write env True c \<noteq> None \<longleftrightarrow> apply_updates env t us (snd (last (versions (cm_snapshot_manager c)))) \<noteq> None"
      "\<And>c'. complete_write env True c = Some c' \<Longrightarrow> committer_ok (H @ [(t, us, src)]) c'
      \<and> cm_pending_writes c' = p \<and> cm_shutdown c' = cm_shutdown c \<and> persistence_writes c' = ws
      \<and> log_max c' = t \<and> last (by_ts (manager_log (cm_log c'))) = (t, us, src)"
      by (rule publish_commit_ok [OF c assms(2) q, of env]) blast
    have t: "write_ts w = t" using committer_okD(7) [OF c assms(2)] p(1) q WriteCommit by (simp add: queue_ok_def)
    show ?thesis
    proof (cases "complete_write env True c")
      case None
      then show ?thesis using p(1,2) t WriteCommit by simp
    next
      case (Some c')
      then show ?thesis using p(3) [OF Some] latest [of _ c'] t assms(2) by auto
    qed
  next
    case (WriteMaxRepeatable t)
    with assms(3) have q: "persistence_writes c = WriteMaxRepeatable t # ws" by simp
    obtain d where d: "complete_write env True c = Some d"
      "committer_ok (H @ (if log_max c < t then [bump_entry t] else [])) d"
      "cm_shutdown d = cm_shutdown c" "persistence_writes d = ws"
      "if log_max c < t then log_max d = t \<and> last (by_ts (manager_log (cm_log d))) = bump_entry t else log_max d = log_max c"
      by (rule publish_max_ok [OF c assms(2) q, of env]) blast
    then show ?thesis using latest [OF d(2)] WriteMaxRepeatable assms(2) by (auto split: if_splits)
  qed
qed

theorem publication_in_order_witness:
  "\<exists>c c'. persistence_writes c = [WriteMaxRepeatable 9] \<and> complete_write sample_env True c = Some c'
     \<and> persistence_writes c' = [] \<and> 9 \<le> log_max c'"
proof -
  have start: "reachable sample_env (\<lambda>_. None) sample_start [] []"
    by (rule reachable.start) (simp add: store_ids_ok_def)
  obtain c where c: "bump_max_repeatable_ts (Some 9) sample_start = Some c" "persistence_writes c = [WriteMaxRepeatable 9]"
    "\<not> cm_shutdown c"
    by (simp add: bump_max_repeatable_ts_def next_max_repeatable_ts_def PendingWrites_min_ts_def next_commit_ts_def
      Committer_start_def SnapshotManager_new_def latest_ts_def latest_def commit_succ_def timestamp_succ_def Timestamp_succ_def
      Timestamp_MAX_def Timestamp_MIN_def PendingWrites_new_def)
  have "reachable sample_env (\<lambda>_. None) c [] []"
    by (rule reachable.bump [OF start _ c(1)]) (simp add: Committer_start_def)
  from publication_in_order [OF this c(3,2)] c(2) show ?thesis by (auto split: option.splits)
qed

end
