(* ===== verification/Query_Range.thy ===== *)
theory Query_Range
  imports Byte_Interval Convex_Document "HOL-Library.Signed_Division"
begin

text \<open>
  Queries (\<open>common/src/query.rs\<close>): filter expressions and their evaluation, index ranges and their
  compilation to an interval of index keys, query operators and the query builder.

  Integer arithmetic is that of a build with overflow checks, which the release profile turns on:
  an overflow or a division by zero is a panic.  The floating-point operations are parameters
  (\<open>float_ops\<close>) on the bits of a double; negation flips the sign bit.  Error texts are the
  constructors of the error types.
\<close>

declare split_paired_All [simp del] split_paired_Ex [simp del]

section \<open>Expressions\<close>

datatype expression =
    EqE expression expression | NeqE expression expression
  | LtE expression expression | LteE expression expression
  | GtE expression expression | GteE expression expression
  | AddE expression expression | SubE expression expression | MulE expression expression
  | DivE expression expression | ModE expression expression | NegE expression
  | AndE "expression list" | OrE "expression list" | NotE expression
  | FieldE field_path | LiteralE "convex_value option"

datatype arithmetic = Add | Subtract | Multiply | Divide | Remainder

datatype eval_error = CannotCompute arithmetic | CannotNegate | NotABoolean | ArithmeticPanic

record float_ops =
  float_op :: "arithmetic \<Rightarrow> u64 \<Rightarrow> u64 \<Rightarrow> u64"

definition into_boolean :: "convex_value option \<Rightarrow> eval_error + bool" where
  "into_boolean v = (case v of Some (Boolean b) \<Rightarrow> Inr b | _ \<Rightarrow> Inl NotABoolean)"

definition checked_i64 :: "int \<Rightarrow> eval_error + i64" where
  "checked_i64 n = (if - (2 ^ 63) \<le> n \<and> n < 2 ^ 63 then Inr (word_of_int n) else Inl ArithmeticPanic)"

definition do_ints :: "arithmetic \<Rightarrow> i64 \<Rightarrow> i64 \<Rightarrow> eval_error + i64" where
  "do_ints a l r =
     (case a of
        Add \<Rightarrow> checked_i64 (sint l + sint r)
      | Subtract \<Rightarrow> checked_i64 (sint l - sint r)
      | Multiply \<Rightarrow> checked_i64 (sint l * sint r)
      | Divide \<Rightarrow> if r = 0 then Inl ArithmeticPanic else checked_i64 (sint l sdiv sint r)
      | Remainder \<Rightarrow>
          if r = 0 then Inl ArithmeticPanic
          else bind_result (checked_i64 (sint l sdiv sint r)) (\<lambda>_. checked_i64 (sint l smod sint r)))"

definition binary_arithmetic ::
    "float_ops \<Rightarrow> arithmetic \<Rightarrow> convex_value option \<Rightarrow> convex_value option \<Rightarrow> eval_error + convex_value option" where
  "binary_arithmetic fl a l r =
     (case (l, r) of
        (Some (Int64 l), Some (Int64 r)) \<Rightarrow> bind_result (do_ints a l r) (\<lambda>n. Inr (Some (Int64 n)))
      | (Some (Float64 l), Some (Float64 r)) \<Rightarrow> Inr (Some (Float64 (float_op fl a l r)))
      | _ \<Rightarrow> Inl (CannotCompute a))"

definition negate :: "convex_value option \<Rightarrow> eval_error + convex_value option" where
  "negate v =
     (case v of
        Some (Int64 x) \<Rightarrow> bind_result (checked_i64 (- sint x)) (\<lambda>n. Inr (Some (Int64 n)))
      | Some (Float64 x) \<Rightarrow> Inr (Some (Float64 (x XOR 0x8000000000000000)))
      | _ \<Rightarrow> Inl CannotNegate)"

text \<open>The comparisons are those of \<open>Option<ConvexValue>\<close>: a missing value comes first.\<close>

definition compared :: "(ordering \<Rightarrow> bool) \<Rightarrow> convex_value option \<Rightarrow> convex_value option \<Rightarrow> eval_error + convex_value option" where
  "compared p l r = Inr (Some (Boolean (p (option_cmp value_cmp l r))))"

fun eval :: "float_ops \<Rightarrow> convex_object \<Rightarrow> expression \<Rightarrow> eval_error + convex_value option"
  and eval_and :: "float_ops \<Rightarrow> convex_object \<Rightarrow> expression list \<Rightarrow> eval_error + convex_value option"
  and eval_or :: "float_ops \<Rightarrow> convex_object \<Rightarrow> expression list \<Rightarrow> eval_error + convex_value option" where
  "eval fl environ (FieldE field_path) = Inr (ConvexObject_get_path environ field_path)"
| "eval fl environ (LiteralE v) = Inr v"
| "eval fl environ (EqE l r) =
     bind_result (eval fl environ l) (\<lambda>l. bind_result (eval fl environ r) (compared (\<lambda>c. c = Equal) l))"
| "eval fl environ (NeqE l r) =
     bind_result (eval fl environ l) (\<lambda>l. bind_result (eval fl environ r) (compared (\<lambda>c. c \<noteq> Equal) l))"
| "eval fl environ (LtE l r) =
     bind_result (eval fl environ l) (\<lambda>l. bind_result (eval fl environ r) (compared (\<lambda>c. c = Less) l))"
| "eval fl environ (LteE l r) =
     bind_result (eval fl environ l) (\<lambda>l. bind_result (eval fl environ r) (compared (\<lambda>c. c \<noteq> Greater) l))"
| "eval fl environ (GtE l r) =
     bind_result (eval fl environ l) (\<lambda>l. bind_result (eval fl environ r) (compared (\<lambda>c. c = Greater) l))"
| "eval fl environ (GteE l r) =
     bind_result (eval fl environ l) (\<lambda>l. bind_result (eval fl environ r) (compared (\<lambda>c. c \<noteq> Less) l))"
| "eval fl environ (AddE l r) =
     bind_result (eval fl environ l) (\<lambda>l. bind_result (eval fl environ r) (binary_arithmetic fl Add l))"
| "eval fl environ (SubE l r) =
     bind_result (eval fl environ l) (\<lambda>l. bind_result (eval fl environ r) (binary_arithmetic fl Subtract l))"
| "eval fl environ (MulE l r) =
     bind_result (eval fl environ l) (\<lambda>l. bind_result (eval fl environ r) (binary_arithmetic fl Multiply l))"
| "eval fl environ (DivE l r) =
     bind_result (eval fl environ l) (\<lambda>l. bind_result (eval fl environ r) (binary_arithmetic fl Divide l))"
| "eval fl environ (ModE l r) =
     bind_result (eval fl environ l) (\<lambda>l. bind_result (eval fl environ r) (binary_arithmetic fl Remainder l))"
| "eval fl environ (NegE x) = bind_result (eval fl environ x) negate"
| "eval fl environ (AndE vs) = eval_and fl environ vs"
| "eval fl environ (OrE vs) = eval_or fl environ vs"
| "eval fl environ (NotE x) =
     bind_result (eval fl environ x) (\<lambda>x. bind_result (into_boolean x) (\<lambda>b. Inr (Some (Boolean (\<not> b)))))"
| "eval_and fl environ [] = Inr (Some (Boolean True))"
| "eval_and fl environ (v # vs) =
     bind_result (eval fl environ v) (\<lambda>x. bind_result (into_boolean x) (\<lambda>b.
       if \<not> b then Inr (Some (Boolean False)) else eval_and fl environ vs))"
| "eval_or fl environ [] = Inr (Some (Boolean False))"
| "eval_or fl environ (v # vs) =
     bind_result (eval fl environ v) (\<lambda>x. bind_result (into_boolean x) (\<lambda>b.
       if b then Inr (Some (Boolean True)) else eval_or fl environ vs))"

definition Expression_field_eq_literal :: "field_path \<Rightarrow> convex_value \<Rightarrow> expression" where
  "Expression_field_eq_literal field literal = EqE (FieldE field) (LiteralE (Some literal))"

definition Expression_and :: "expression \<Rightarrow> expression \<Rightarrow> expression" where
  "Expression_and left right = AndE [left, right]"

section \<open>Index ranges\<close>

datatype index_range_expression =
    EqR field_path "convex_value option"
  | GtR field_path convex_value | GteR field_path convex_value
  | LtR field_path convex_value | LteR field_path convex_value

datatype value_bound = UnboundedB | IncludedB convex_value | ExcludedB convex_value

datatype bound_type = EqualityBound | UpperBound | LowerBound | InequalityBound

datatype range_error =
    AlreadyDefinedBound bound_type field_path
  | BoundsOnMultipleFields field_path field_path
  | InvalidIndexRange field_path
  | FieldNotInIndex field_path
  | DuplicateIndexFields
  | NoIncrement

record index_inequality =
  inequality_field_path :: field_path
  inequality_start :: value_bound
  inequality_end :: value_bound

type_synonym equalities = "(field_path, convex_value option) btree"

record split_index_range =
  split_equalities :: equalities
  split_inequality :: "index_inequality option"

text \<open>An inequality: field, value, \<open>is_less\<close> and \<open>is_equals\<close>; none for an equality.\<close>

fun inequality_parts :: "index_range_expression \<Rightarrow> (field_path \<times> convex_value \<times> bool \<times> bool) option" where
  "inequality_parts (EqR f v) = None"
| "inequality_parts (GtR f v) = Some (f, v, False, False)"
| "inequality_parts (GteR f v) = Some (f, v, False, True)"
| "inequality_parts (LtR f v) = Some (f, v, True, False)"
| "inequality_parts (LteR f v) = Some (f, v, True, True)"

fun split_loop :: "index_range_expression list \<Rightarrow> equalities \<Rightarrow> field_path option \<Rightarrow> value_bound \<Rightarrow> value_bound
    \<Rightarrow> range_error + equalities \<times> field_path option \<times> value_bound \<times> value_bound" where
  "split_loop [] eqs path start end = Inr (eqs, path, start, end)"
| "split_loop (EqR f v # exprs) eqs path start end =
     (case bt_get eqs f of
        Some _ \<Rightarrow> Inl (AlreadyDefinedBound EqualityBound f)
      | None \<Rightarrow> split_loop exprs (bt_insert f v eqs) path start end)"
| "split_loop (expr # exprs) eqs path start end =
     (case inequality_parts expr of
        None \<Rightarrow> split_loop exprs eqs path start end
      | Some (f, v, is_less, is_equals) \<Rightarrow>
          if (if is_less then end else start) \<noteq> UnboundedB
          then Inl (AlreadyDefinedBound (if is_less then UpperBound else LowerBound) f)
          else if (case path of Some p \<Rightarrow> p \<noteq> f | None \<Rightarrow> False)
          then Inl (BoundsOnMultipleFields (the path) f)
          else let b = (if is_equals then IncludedB v else ExcludedB v)
               in if is_less then split_loop exprs eqs (Some f) start b
                  else split_loop exprs eqs (Some f) b end)"

definition IndexRange_split :: "index_range_expression list \<Rightarrow> range_error + split_index_range" where
  "IndexRange_split exprs =
     bind_result (split_loop exprs [] None UnboundedB UnboundedB) (\<lambda>(eqs, path, start, end).
       case path of
         None \<Rightarrow> Inr \<lparr>split_equalities = eqs, split_inequality = None\<rparr>
       | Some p \<Rightarrow>
           (case bt_get eqs p of
              Some _ \<Rightarrow> Inl (AlreadyDefinedBound InequalityBound p)
            | None \<Rightarrow>
                Inr \<lparr>split_equalities = eqs,
                     split_inequality = Some \<lparr>inequality_field_path = p, inequality_start = start,
                                             inequality_end = end\<rparr>\<rparr>))"

definition index_rank :: "indexed_fields \<Rightarrow> (field_path, nat) btree" where
  "index_rank fs =
     fold (\<lambda>(i, f). bt_insert f i) (enumerate 0 (IndexedFields_iter_with_id fs)) []"

text \<open>The used paths must be the first indexed fields, in order.\<close>

fun check_used_paths :: "field_path list \<Rightarrow> field_path list \<Rightarrow> range_error + unit" where
  "check_used_paths [] fs = Inr ()"
| "check_used_paths (p # ps) [] = Inl (InvalidIndexRange p)"
| "check_used_paths (p # ps) (f # fs) =
     (if p \<noteq> f then Inl (InvalidIndexRange p) else check_used_paths ps fs)"

definition compile_start :: "convex_value option list \<Rightarrow> value_bound \<Rightarrow> range_error + binary_key" where
  "compile_start pre start =
     (case start of
        UnboundedB \<Rightarrow> Inr (values_to_bytes pre)
      | IncludedB v \<Rightarrow> Inr (values_to_bytes (pre @ [Some v]))
      | ExcludedB v \<Rightarrow>
          (case BinaryKey_increment (values_to_bytes (pre @ [Some v])) of
             None \<Rightarrow> Inl NoIncrement
           | Some k \<Rightarrow> Inr k))"

definition compile_end :: "convex_value option list \<Rightarrow> value_bound \<Rightarrow> end_bound" where
  "compile_end pre end =
     (case end of
        UnboundedB \<Rightarrow> End_after_prefix (values_to_bytes pre)
      | IncludedB v \<Rightarrow> End_after_prefix (values_to_bytes (pre @ [Some v]))
      | ExcludedB v \<Rightarrow> Excluded (values_to_bytes (pre @ [Some v])))"

definition compile_interval ::
    "convex_value option list \<Rightarrow> index_inequality option \<Rightarrow> range_error + interval" where
  "compile_interval pre inequality =
     (case inequality of
        None \<Rightarrow> Inr (Interval_prefix (values_to_bytes pre))
      | Some i \<Rightarrow>
          bind_result (compile_start pre (inequality_start i)) (\<lambda>start.
            Inr \<lparr>start_bound = StartIncluded start, end_bound = compile_end pre (inequality_end i)\<rparr>))"

definition IndexRange_compile :: "index_range_expression list \<Rightarrow> indexed_fields \<Rightarrow> range_error + interval" where
  "IndexRange_compile exprs fs =
     bind_result (IndexRange_split exprs) (\<lambda>split.
     let rank = index_rank fs; inequality = split_inequality split
     in if length rank \<noteq> length (IndexedFields_iter_with_id fs) then Inl DuplicateIndexFields
        else
          bind_result (map_result (\<lambda>(f, v). case bt_get rank f of
                                       Some r \<Rightarrow> Inr (f, v, r)
                                     | None \<Rightarrow> Inl (FieldNotInIndex f)) (split_equalities split)) (\<lambda>eqs.
          let eqs = sort_key (\<lambda>(_, _, r). r) eqs
          in if (case inequality of Some i \<Rightarrow> bt_get rank (inequality_field_path i) = None | None \<Rightarrow> False)
             then Inl (FieldNotInIndex (inequality_field_path (the inequality)))
             else
               let used_paths = map fst eqs
                     @ (case inequality of Some i \<Rightarrow> [inequality_field_path i] | None \<Rightarrow> [])
               in bind_result (check_used_paths used_paths (IndexedFields_iter_with_id fs)) (\<lambda>_.
                    compile_interval (map (\<lambda>(_, v, _). v) eqs) inequality)))"

section \<open>Queries\<close>

type_synonym table_name = bytes

record index_range =
  range_index_name :: "table_name index_name"
  range_exprs :: "index_range_expression list"
  range_order :: order

record full_table_scan =
  scan_table_name :: table_name
  scan_order :: order

datatype search_filter_expression = SearchF field_path bytes | EqF field_path "convex_value option"

record search =
  search_index_name :: "table_name index_name"
  search_table :: table_name
  search_filters :: "search_filter_expression list"

datatype query_source = FullTableScan full_table_scan | IndexRangeSource index_range | SearchSource search

datatype query_operator = Filter expression | Limit nat

record query =
  query_source :: query_source
  operators :: "query_operator list"

definition Query_full_table_scan :: "table_name \<Rightarrow> order \<Rightarrow> query" where
  "Query_full_table_scan table ord =
     \<lparr>query_source = FullTableScan \<lparr>scan_table_name = table, scan_order = ord\<rparr>, operators = []\<rparr>"

definition Query_index_range :: "index_range \<Rightarrow> query" where
  "Query_index_range r = \<lparr>query_source = IndexRangeSource r, operators = []\<rparr>"

definition Query_get :: "table_name \<Rightarrow> developer_document_id \<Rightarrow> query" where
  "Query_get table i =
     Query_index_range
       \<lparr>range_index_name = IndexName_by_id table,
        range_exprs = [EqR ID_FIELD_PATH (Some (id_value i))], range_order = Asc\<rparr>"

definition Query_search :: "search \<Rightarrow> query" where
  "Query_search s = \<lparr>query_source = SearchSource s, operators = []\<rparr>"

definition Query_filter :: "expression \<Rightarrow> query \<Rightarrow> query" where
  "Query_filter e q = q\<lparr>operators := operators q @ [Filter e]\<rparr>"

definition Query_limit :: "nat \<Rightarrow> query \<Rightarrow> query" where
  "Query_limit n q = q\<lparr>operators := operators q @ [Limit n]\<rparr>"

section \<open>Keys that begin with the bytes of given values\<close>

text \<open>
  The bytes of a string are a prefix of the bytes of another string that continues it with a zero
  byte: the terminator of the shorter one reads as the escaped zero byte of the longer one.
\<close>

fun zero_extends :: "convex_value option \<Rightarrow> convex_value option \<Rightarrow> bool" where
  "zero_extends (Some (StringV s)) (Some (StringV t)) = prefix (s @ [0]) t"
| "zero_extends (Some (BytesV s)) (Some (BytesV t)) = prefix (s @ [0]) t"
| "zero_extends _ _ = False"

lemma escaped_continues:
  "write_escaped_bytes a @ ESCAPE_BYTE # r = write_escaped_bytes b @ s \<Longrightarrow> unescaped s \<Longrightarrow> prefix (a @ [0]) b"
proof (induction a arbitrary: b)
  case Nil
  then show ?case by (cases b) (auto simp: write_escaped_bytes_def tag_defs split: if_splits)
next
  case (Cons c a)
  then obtain b' where "b = c # b'" "write_escaped_bytes a @ ESCAPE_BYTE # r = write_escaped_bytes b' @ s"
    by (cases b) (auto simp: write_escaped_bytes_def tag_defs split: if_splits)
  with Cons show ?case by simp
qed

lemma key_continues:
  assumes "optional_ok x" and "optional_ok y" and eq: "optional_key x @ ESCAPE_BYTE # r = optional_key y @ s"
    and s: "unescaped s"
  shows "zero_extends x y"
proof (cases x)
  case None
  with eq s show ?thesis using undefined_below [of "ESCAPE_BYTE # r" _ s]
    by (cases y) (auto simp: optional_key_def)
next
  case (Some v)
  with eq obtain w where y: "y = Some w"
    using undefined_below [of s v "ESCAPE_BYTE # r"] by (cases y) (auto simp: optional_key_def)
  have e: "write_sort_key v @ ESCAPE_BYTE # r = write_sort_key w @ s" using eq Some y by (simp add: optional_key_def)
  have esc: "is_escaped v \<and> is_escaped w"
  proof (rule ccontr)
    assume "\<not> (is_escaped v \<and> is_escaped w)"
    with closed_key_order [of v w "ESCAPE_BYTE # r" s] assms(1,2) Some y e
    have "then_cmp (value_cmp v w) (cmp (ESCAPE_BYTE # r) s) = Equal" by (simp del: cmp_Cons)
    with s show False by (auto simp: then_cmp_iff simp del: cmp_Cons)
  qed
  moreover have "type_tag v = type_tag w"
    using diff_tag_order [of v w "ESCAPE_BYTE # r" s] e value_cmp_Equal [of v w] by (metis cmp_refl)
  ultimately show ?thesis
    using e s Some y by (cases v; cases w) (auto simp: type_tag_def dest: escaped_continues)
qed

lemma values_to_bytes_Cons [simp]: "values_to_bytes (v # vs) = optional_key v @ values_to_bytes vs"
  by (simp add: values_to_bytes_def)

lemma values_to_bytes_Nil [simp]: "values_to_bytes [] = []"
  by (simp add: values_to_bytes_def)

lemma values_to_bytes_append [simp]: "values_to_bytes (vs @ ws) = values_to_bytes vs @ values_to_bytes ws"
  by (simp add: values_to_bytes_def)

abbreviation values_ok :: "convex_value option list \<Rightarrow> bool" where
  "values_ok vs \<equiv> \<forall>v \<in> set vs. optional_ok v"

lemma unescaped_values: "values_ok vs \<Longrightarrow> unescaped (values_to_bytes vs)"
  using optional.unescaped_concat [of vs "[]"] by (auto simp: values_to_bytes_def)

lemma optional_key_inject:
  assumes "optional_key x @ r = optional_key y @ s" and "optional_ok x" "optional_ok y" "unescaped r" "unescaped s"
  shows "x = y"
proof -
  have "then_cmp (option_cmp value_cmp x y) (cmp r s) = Equal"
    using optional.order [of x y r s] assms by simp
  then show ?thesis
    by (auto simp: then_cmp_iff option_cmp_def value_cmp_Equal split: option.splits)
qed

lemma prefix_values:
  assumes "values_ok p" and "values_ok k" and "length p \<le> length k"
    and "list_all2 (\<lambda>x y. \<not> zero_extends x y) p (take (length p) k)"
  shows "prefix (values_to_bytes p) (values_to_bytes k) \<longleftrightarrow> prefix p k"
  using assms
proof (induction p arbitrary: k)
  case (Cons x p)
  then obtain y l where k: "k = y # l" by (cases k) auto
  note prems = Cons.prems [unfolded k, simplified]
  have IH: "prefix (values_to_bytes p) (values_to_bytes l) \<longleftrightarrow> prefix p l"
    using Cons.IH [of l] prems by simp
  have "x = y" if p: "prefix (optional_key x @ values_to_bytes p) (optional_key y @ values_to_bytes l)"
  proof -
    obtain t where t: "optional_key x @ values_to_bytes p @ t = optional_key y @ values_to_bytes l"
      using p by (metis prefixE append.assoc)
    show ?thesis
    proof (cases "unescaped (values_to_bytes p @ t)")
      case True
      with optional_key_inject [OF t] unescaped_values [of l] prems show ?thesis by auto
    next
      case False
      moreover have "p = []"
      proof (cases p)
        case (Cons z zs)
        with prems(1) optional.start [of z] have "unescaped (values_to_bytes p @ t)" by (auto simp: ESCAPE_BYTE_def)
        with False show ?thesis by simp
      qed simp
      ultimately obtain t' where "t = ESCAPE_BYTE # t'" by (cases t) auto
      with key_continues [of x y t' "values_to_bytes l"] t \<open>p = []\<close> unescaped_values [of l] prems
      show ?thesis by auto
    qed
  qed
  with IH show ?case by (auto simp: k)
qed simp

section \<open>The compiled interval\<close>

lemma option_cmp_cmp [simp]: "option_cmp value_cmp x y = cmp x y"
  by (cases x; cases y) (auto simp: option_cmp_def cmp_def simp flip: cmp_value)

lemma values_to_bytes_less:
  assumes "values_ok vs" and "values_ok ws"
  shows "values_to_bytes vs < values_to_bytes ws \<longleftrightarrow> vs < ws" (is ?less)
    and "values_to_bytes vs \<le> values_to_bytes ws \<longleftrightarrow> vs \<le> ws"
proof -
  have "option_cmp value_cmp = cmp" by (simp add: fun_eq_iff)
  then have *: "cmp (values_to_bytes vs) (values_to_bytes ws) = cmp vs ws"
    using optional.sequence [of vs ws] assms by (auto simp: values_to_bytes_def)
  then show ?less by (metis cmp_iff(1))
  from * show "values_to_bytes vs \<le> values_to_bytes ws \<longleftrightarrow> vs \<le> ws" by (metis cmp_iff(3) not_less)
qed

lemma same_length_less:
  "length a = length p \<Longrightarrow> a @ x < p @ y \<longleftrightarrow> a < p \<or> a = p \<and> x < (y :: 'a::linorder list)"
  "length a = length p \<Longrightarrow> a @ x \<le> p @ y \<longleftrightarrow> a < p \<or> a = p \<and> x \<le> (y :: 'a::linorder list)"
  by (induction a p rule: list_induct2) auto

fun above :: "value_bound \<Rightarrow> convex_value option \<Rightarrow> bool" where
  "above UnboundedB x = True"
| "above (IncludedB v) x = (Some v \<le> x)"
| "above (ExcludedB v) x = (Some v < x)"

fun below :: "value_bound \<Rightarrow> convex_value option \<Rightarrow> bool" where
  "below UnboundedB x = True"
| "below (IncludedB v) x = (x \<le> Some v)"
| "below (ExcludedB v) x = (x < Some v)"

fun bound_value :: "value_bound \<Rightarrow> convex_value option" where
  "bound_value UnboundedB = None"
| "bound_value (IncludedB v) = Some v"
| "bound_value (ExcludedB v) = Some v"

text \<open>
  A key splits into the values at the equalities, the value at the inequality and the rest; the
  bounds are compared with it.
\<close>

definition comparable_key ::
    "convex_value option list \<Rightarrow> convex_value option list \<Rightarrow> convex_value option \<Rightarrow> convex_value option list \<Rightarrow> bool" where
  "comparable_key p a x r =
     (values_ok p \<and> values_ok (a @ x # r) \<and> list_all2 (\<lambda>x y. \<not> zero_extends x y) p a)"

lemma comparable_length: "comparable_key p a x r \<Longrightarrow> length p = length a"
  by (auto simp: comparable_key_def dest: list_all2_lengthD)

lemma bound_prefix:
  assumes "comparable_key p a x r" and "optional_ok (Some v)" and "\<not> zero_extends (Some v) x"
  shows "prefix (values_to_bytes (p @ [Some v])) (values_to_bytes (a @ x # r)) \<longleftrightarrow> p = a \<and> x = Some v"
proof -
  have len: "length p = length a" by (rule comparable_length) (rule assms)
  have "prefix (values_to_bytes (p @ [Some v])) (values_to_bytes (a @ x # r)) \<longleftrightarrow> prefix (p @ [Some v]) (a @ x # r)"
    using assms len by (intro prefix_values) (auto simp: comparable_key_def list_all2_append)
  with len show ?thesis by (auto simp: prefix_def)
qed

lemma bound_less:
  assumes "comparable_key p a x r" and "optional_ok (Some v)"
  shows "values_to_bytes (p @ [Some v]) < values_to_bytes (a @ x # r) \<longleftrightarrow> p < a \<or> p = a \<and> [Some v] < x # r"
    and "values_to_bytes (p @ [Some v]) \<le> values_to_bytes (a @ x # r) \<longleftrightarrow> p < a \<or> p = a \<and> Some v \<le> x"
    and "values_to_bytes (a @ x # r) < values_to_bytes (p @ [Some v]) \<longleftrightarrow> a < p \<or> a = p \<and> x < Some v"
proof -
  have ok: "values_ok (p @ [Some v])" "values_ok (a @ x # r)" using assms by (auto simp: comparable_key_def)
  have len: "length p = length a" by (rule comparable_length) (rule assms)
  show "values_to_bytes (p @ [Some v]) < values_to_bytes (a @ x # r) \<longleftrightarrow> p < a \<or> p = a \<and> [Some v] < x # r"
    using len by (simp only: values_to_bytes_less [OF ok] same_length_less)
  show "values_to_bytes (p @ [Some v]) \<le> values_to_bytes (a @ x # r) \<longleftrightarrow> p < a \<or> p = a \<and> Some v \<le> x"
    using len by (simp only: values_to_bytes_less [OF ok] same_length_less) auto
  show "values_to_bytes (a @ x # r) < values_to_bytes (p @ [Some v]) \<longleftrightarrow> a < p \<or> a = p \<and> x < Some v"
    using len by (simp only: values_to_bytes_less [OF ok(2,1)] same_length_less) auto
qed

lemma prefix_only:
  assumes "comparable_key p a x r"
  shows "prefix (values_to_bytes p) (values_to_bytes (a @ x # r)) \<longleftrightarrow> p = a"
    and "values_to_bytes p \<le> values_to_bytes (a @ x # r) \<longleftrightarrow> p \<le> a"
    and "values_to_bytes (a @ x # r) < values_to_bytes p \<longleftrightarrow> a < p"
proof -
  have ok: "values_ok p" "values_ok (a @ x # r)" using assms by (auto simp: comparable_key_def)
  have len: "length p = length a" by (rule comparable_length) (rule assms)
  have "prefix (values_to_bytes p) (values_to_bytes (a @ x # r)) \<longleftrightarrow> prefix p (a @ x # r)"
    using assms len by (intro prefix_values) (auto simp: comparable_key_def)
  with len show "prefix (values_to_bytes p) (values_to_bytes (a @ x # r)) \<longleftrightarrow> p = a" by (auto simp: prefix_def)
  show "values_to_bytes p \<le> values_to_bytes (a @ x # r) \<longleftrightarrow> p \<le> a"
    using same_length_less(2) [OF len, of "[]" "x # r"] by (simp only: values_to_bytes_less [OF ok]) auto
  show "values_to_bytes (a @ x # r) < values_to_bytes p \<longleftrightarrow> a < p"
    using same_length_less(1) [of a p "x # r" "[]"] len by (simp only: values_to_bytes_less [OF ok(2,1)]) auto
qed

lemma compile_start_le:
  assumes "comparable_key p a x r" and "compile_start p b = Inr s"
    and "optional_ok (bound_value b)" and "\<not> zero_extends (bound_value b) x"
  shows "s \<le> values_to_bytes (a @ x # r) \<longleftrightarrow> p < a \<or> p = a \<and> above b x"
proof (cases b)
  case UnboundedB
  with assms prefix_only [OF assms(1)] show ?thesis by (auto simp: compile_start_def)
next
  case (IncludedB v)
  with assms bound_less(2) [OF assms(1), of v] show ?thesis by (auto simp: compile_start_def)
next
  case (ExcludedB v)
  with assms(2) have s: "BinaryKey_increment (values_to_bytes (p @ [Some v])) = Some s"
    by (auto simp: compile_start_def split: option.splits)
  have "optional_ok (Some v)" "\<not> zero_extends (Some v) x" using assms(3,4) ExcludedB by simp_all
  then show ?thesis
    unfolding incremented_le [OF s] bound_prefix [OF assms(1) \<open>optional_ok (Some v)\<close> \<open>\<not> zero_extends (Some v) x\<close>]
      bound_less(1) [OF assms(1) \<open>optional_ok (Some v)\<close>] ExcludedB by auto
qed

lemma compile_end_gt:
  assumes "comparable_key p a x r" and "optional_ok (bound_value b)" and "\<not> zero_extends (bound_value b) x"
  shows "\<not> End_is_disjoint (compile_end p b) (StartIncluded (values_to_bytes (a @ x # r))) \<longleftrightarrow> a < p \<or> a = p \<and> below b x"
proof (cases b)
  case UnboundedB
  then show ?thesis
    using prefix_only [OF assms(1)] by (auto simp: compile_end_def after_prefix_disjoint)
next
  case (IncludedB v)
  have "optional_ok (Some v)" "\<not> zero_extends (Some v) x" using assms(2,3) IncludedB by simp_all
  then show ?thesis
    unfolding compile_end_def IncludedB value_bound.simps after_prefix_disjoint
      bound_less(3) [OF assms(1) \<open>optional_ok (Some v)\<close>]
      bound_prefix [OF assms(1) \<open>optional_ok (Some v)\<close> \<open>\<not> zero_extends (Some v) x\<close>] by auto
next
  case (ExcludedB v)
  then show ?thesis
    using assms(2) bound_less(3) [OF assms(1), of v] by (auto simp: compile_end_def)
qed

lemma compile_interval_contains:
  assumes "comparable_key p a x r" and "compile_interval p (Some i) = Inr iv"
    and "optional_ok (bound_value (inequality_start i))" "\<not> zero_extends (bound_value (inequality_start i)) x"
    and "optional_ok (bound_value (inequality_end i))" "\<not> zero_extends (bound_value (inequality_end i)) x"
  shows "Interval_contains iv (values_to_bytes (a @ x # r))
    \<longleftrightarrow> p = a \<and> above (inequality_start i) x \<and> below (inequality_end i) x"
proof -
  obtain s where s: "compile_start p (inequality_start i) = Inr s"
    and iv: "iv = \<lparr>start_bound = StartIncluded s, end_bound = compile_end p (inequality_end i)\<rparr>"
    using assms(2) by (auto simp: compile_interval_def bind_result_Inr_iff)
  show ?thesis
    unfolding contains_bounds iv interval.simps compile_end_gt [OF assms(1,5,6)]
    using compile_start_le [OF assms(1) s assms(3,4)] by auto
qed

section \<open>Index ranges select what their filters select\<close>

fun range_filter :: "index_range_expression \<Rightarrow> expression" where
  "range_filter (EqR f v) = EqE (FieldE f) (LiteralE v)"
| "range_filter (GtR f v) = GtE (FieldE f) (LiteralE (Some v))"
| "range_filter (GteR f v) = GteE (FieldE f) (LiteralE (Some v))"
| "range_filter (LtR f v) = LtE (FieldE f) (LiteralE (Some v))"
| "range_filter (LteR f v) = LteE (FieldE f) (LiteralE (Some v))"

fun range_field :: "index_range_expression \<Rightarrow> field_path" where
  "range_field (EqR f v) = f" | "range_field (GtR f v) = f" | "range_field (GteR f v) = f"
| "range_field (LtR f v) = f" | "range_field (LteR f v) = f"

fun range_literal :: "index_range_expression \<Rightarrow> convex_value option" where
  "range_literal (EqR f v) = v" | "range_literal (GtR f v) = Some v" | "range_literal (GteR f v) = Some v"
| "range_literal (LtR f v) = Some v" | "range_literal (LteR f v) = Some v"

fun range_holds :: "(field_path \<Rightarrow> convex_value option) \<Rightarrow> index_range_expression \<Rightarrow> bool" where
  "range_holds G (EqR f v) = (G f = v)"
| "range_holds G (GtR f v) = above (ExcludedB v) (G f)"
| "range_holds G (GteR f v) = above (IncludedB v) (G f)"
| "range_holds G (LtR f v) = below (ExcludedB v) (G f)"
| "range_holds G (LteR f v) = below (IncludedB v) (G f)"

lemma eval_range_filter:
  "eval fl env (range_filter e) = Inr (Some (Boolean (range_holds (ConvexObject_get_path env) e)))"
  by (cases e) (auto simp: compared_def cmp_def)

text \<open>What the loop of \<open>split\<close> has collected stands for the expressions it has read.\<close>

definition collected :: "(field_path \<Rightarrow> convex_value option) \<Rightarrow> equalities \<Rightarrow> field_path option
    \<Rightarrow> value_bound \<Rightarrow> value_bound \<Rightarrow> bool" where
  "collected G eqs path s e =
     ((\<forall>x \<in> set eqs. G (fst x) = snd x)
      \<and> (case path of None \<Rightarrow> True | Some p \<Rightarrow> above s (G p) \<and> below e (G p)))"

definition literals :: "(field_path \<Rightarrow> convex_value option \<Rightarrow> bool) \<Rightarrow> equalities \<Rightarrow> field_path option
    \<Rightarrow> value_bound \<Rightarrow> value_bound \<Rightarrow> bool" where
  "literals Q eqs path s e =
     ((\<forall>x \<in> set eqs. Q (fst x) (snd x))
      \<and> (case path of None \<Rightarrow> s = UnboundedB \<and> e = UnboundedB
         | Some p \<Rightarrow> Q p (bound_value s) \<and> Q p (bound_value e)))"

lemma bt_insert_fresh: "bt_get m k = None \<Longrightarrow> set (bt_insert k v m) = insert (k, v) (set m)"
  by (induction k v m rule: bt_insert.induct) (auto simp: bt_get_def split: if_splits)

lemma split_inequality_step:
  assumes "split_loop (x # xs) eqs path s e = Inr res" and x: "inequality_parts x = Some (f, v, le, eq)"
  defines "b \<equiv> if eq then IncludedB v else ExcludedB v"
  shows "split_loop xs eqs (Some f) (if le then s else b) (if le then b else e) = Inr res"
    and "(if le then e else s) = UnboundedB" and "path = None \<or> path = Some f"
proof -
  have "split_loop (x # xs) eqs path s e =
      (if (if le then e else s) \<noteq> UnboundedB
       then Inl (AlreadyDefinedBound (if le then UpperBound else LowerBound) f)
       else if (case path of Some p \<Rightarrow> p \<noteq> f | None \<Rightarrow> False)
       then Inl (BoundsOnMultipleFields (the path) f)
       else split_loop xs eqs (Some f) (if le then s else b) (if le then b else e))"
    using x by (cases x) (auto simp: b_def)
  with assms(1) show "split_loop xs eqs (Some f) (if le then s else b) (if le then b else e) = Inr res"
    and "(if le then e else s) = UnboundedB" and "path = None \<or> path = Some f"
    by (auto split: if_splits option.splits)
qed

lemma split_equality_step:
  assumes "split_loop (EqR f v # xs) eqs path s e = Inr res"
  shows "bt_get eqs f = None" and "split_loop xs (bt_insert f v eqs) path s e = Inr res"
  using assms by (auto split: option.splits)

lemma inequality_holds:
  assumes "inequality_parts x = Some (f, v, le, eq)"
  shows "range_field x = f" and "range_literal x = Some v"
    and "range_holds G x \<longleftrightarrow> (if le then below else above) (if eq then IncludedB v else ExcludedB v) (G f)"
  using assms by (cases x; force)+

lemma split_loop_collects:
  assumes "split_loop exprs eqs path s e = Inr (eqs', path', s', e')" and "bt_ok eqs"
    and "literals Q eqs path s e" and "\<forall>x \<in> set exprs. Q (range_field x) (range_literal x)" and Q: "\<forall>f. Q f None"
  shows "bt_ok eqs' \<and> literals Q eqs' path' s' e'
    \<and> (collected G eqs' path' s' e' \<longleftrightarrow> collected G eqs path s e \<and> (\<forall>x \<in> set exprs. range_holds G x))"
  using assms(1-4)
proof (induction exprs arbitrary: eqs path s e)
  case (Cons x xs)
  show ?case
  proof (cases "inequality_parts x")
    case None
    then obtain f v where x: "x = EqR f v" by (cases x) auto
    note step = split_equality_step [OF Cons.prems(1) [unfolded x]]
    have "literals Q (bt_insert f v eqs) path s e"
      using Cons.prems(3,4) by (auto simp: literals_def bt_insert_fresh [OF step(1)] x)
    with Cons.IH [OF step(2)] Cons.prems(2,4)
    show ?thesis by (auto simp: collected_def bt_insert_fresh [OF step(1)] x)
  next
    case (Some t)
    obtain f v le eq where t: "t = (f, v, le, eq)" by (cases t)
    let ?b = "if eq then IncludedB v else ExcludedB v"
    note step = split_inequality_step [OF Cons.prems(1) Some [unfolded t]]
    note x = inequality_holds [OF Some [unfolded t]]
    have "literals Q eqs (Some f) (if le then s else ?b) (if le then ?b else e)"
      using Cons.prems(3,4) step(2,3) x Q by (auto simp: literals_def split: if_splits)
    moreover have "collected G eqs (Some f) (if le then s else ?b) (if le then ?b else e)
        \<longleftrightarrow> collected G eqs path s e \<and> range_holds G x"
      using Cons.prems(3) step(2,3) x(3) by (auto simp: literals_def collected_def split: if_splits)
    ultimately show ?thesis using Cons.IH [OF step(1)] Cons.prems(2,4) by auto
  qed
qed simp

lemma check_used_paths_ok: "check_used_paths ps fs = Inr () \<longleftrightarrow> prefix ps fs"
  by (induction ps fs rule: check_used_paths.induct) auto

lemma get_path_loop_ok: "get_path_loop w fs = Some v \<Longrightarrow> key_ok w \<Longrightarrow> key_ok v"
  by (induction w fs rule: get_path_loop.induct)
    (fastforce simp: bt_get_def dest: map_of_SomeD split: convex_value.splits option.splits)+

lemma get_path_ok: "key_ok (ObjectV obj) \<Longrightarrow> optional_ok (ConvexObject_get_path obj f)"
  by (auto simp: ConvexObject_get_path_def bt_get_def dest!: map_of_SomeD
      intro: get_path_loop_ok split: list.splits option.splits)

lemma map_result_inverse:
  "map_result g xs = Inr ys \<Longrightarrow> (\<And>x y. g x = Inr y \<Longrightarrow> h y = x) \<Longrightarrow> map h ys = xs"
  by (induction xs arbitrary: ys) (auto simp: bind_result_Inr_iff)

text \<open>A successful compilation has turned the used fields into a prefix of the indexed fields.\<close>

lemma compile_cases:
  assumes "IndexRange_compile exprs fs = Inr iv"
  obtains eqs path s e es where
    "split_loop exprs [] None UnboundedB UnboundedB = Inr (eqs, path, s, e)"
    and "set es = set eqs"
    and "prefix (map fst es @ (case path of None \<Rightarrow> [] | Some p \<Rightarrow> [p])) (IndexedFields_iter_with_id fs)"
    and "compile_interval (map snd es) (map_option (\<lambda>p. \<lparr>inequality_field_path = p, inequality_start = s, inequality_end = e\<rparr>) path) = Inr iv"
proof -
  obtain split where split: "IndexRange_split exprs = Inr split"
    using assms by (auto simp: IndexRange_compile_def bind_result_Inr_iff)
  then obtain eqs path s e where loop: "split_loop exprs [] None UnboundedB UnboundedB = Inr (eqs, path, s, e)"
    and sp: "split = \<lparr>split_equalities = eqs, split_inequality =
        map_option (\<lambda>p. \<lparr>inequality_field_path = p, inequality_start = s, inequality_end = e\<rparr>) path\<rparr>"
    by (auto simp: IndexRange_split_def bind_result_Inr_iff split: option.splits)
  define rank where "rank = index_rank fs"
  obtain ranked where ranked: "map_result (\<lambda>(f, v). case bt_get rank f of
        Some r \<Rightarrow> Inr (f, v, r) | None \<Rightarrow> Inl (FieldNotInIndex f)) eqs = Inr ranked"
    and used: "prefix (map fst (sort_key (\<lambda>(_, _, r). r) ranked) @ (case path of None \<Rightarrow> [] | Some p \<Rightarrow> [p])) (IndexedFields_iter_with_id fs)"
    and iv: "compile_interval (map (\<lambda>(_, v, _). v) (sort_key (\<lambda>(_, _, r). r) ranked))
        (map_option (\<lambda>p. \<lparr>inequality_field_path = p, inequality_start = s, inequality_end = e\<rparr>) path) = Inr iv"
    using assms split
    by (auto simp: IndexRange_compile_def bind_result_Inr_iff sp Let_def check_used_paths_ok rank_def
        split: if_splits option.splits)
  let ?es = "map (\<lambda>(f, v, r). (f, v)) (sort_key (\<lambda>(_, _, r). r) ranked)"
  have "map (\<lambda>(f, v, r). (f, v)) ranked = eqs"
    by (rule map_result_inverse [OF ranked]) (auto split: option.splits)
  then have "set ?es = set eqs" by (metis (no_types) set_map set_sort)
  moreover have "map fst ?es = map fst (sort_key (\<lambda>(_, _, r). r) ranked)"
    "map snd ?es = map (\<lambda>(_, v, _). v) (sort_key (\<lambda>(_, _, r). r) ranked)" by (auto simp: comp_def case_prod_unfold)
  ultimately show ?thesis using that [OF loop, of ?es] used iv by (simp only:)
qed

lemma eval_filters:
  "eval_and fl env (map range_filter exprs) = Inr (Some (Boolean (\<forall>x \<in> set exprs. range_holds (ConvexObject_get_path env) x)))"
  by (induction exprs) (simp_all add: eval_range_filter into_boolean_def)

lemma equalities_map: "(\<forall>x \<in> set es. G (fst x) = snd x) \<longleftrightarrow> map snd es = map G (map fst es)"
  by (induction es) auto

lemma compile_selects:
  assumes "IndexRange_compile exprs fs = Inr iv"
    and G: "\<forall>f. optional_ok (G f)"
    and lit: "\<forall>x \<in> set exprs. optional_ok (range_literal x) \<and> \<not> zero_extends (range_literal x) (G (range_field x))"
  shows "Interval_contains iv (values_to_bytes (map G (IndexedFields_iter_with_id fs))) \<longleftrightarrow> (\<forall>x \<in> set exprs. range_holds G x)"
proof -
  obtain eqs path s e es where loop: "split_loop exprs [] None UnboundedB UnboundedB = Inr (eqs, path, s, e)"
    and es: "set es = set eqs"
    and used: "prefix (map fst es @ (case path of None \<Rightarrow> [] | Some p \<Rightarrow> [p])) (IndexedFields_iter_with_id fs)"
    and iv: "compile_interval (map snd es) (map_option (\<lambda>p. \<lparr>inequality_field_path = p, inequality_start = s, inequality_end = e\<rparr>) path) = Inr iv"
    using compile_cases [OF assms(1)] .
  let ?Q = "\<lambda>f v. optional_ok v \<and> \<not> zero_extends v (G f)"
  have lits: "literals ?Q eqs path s e"
    and holds: "collected G eqs path s e \<longleftrightarrow> (\<forall>x \<in> set exprs. range_holds G x)"
    using split_loop_collects [OF loop, of ?Q G] lit by (auto simp: literals_def collected_def)
  let ?a = "map G (map fst es)" and ?p = "map snd es"
  obtain rest where rest: "IndexedFields_iter_with_id fs = map fst es @ (case path of None \<Rightarrow> [] | Some p \<Rightarrow> [p]) @ rest"
    using used by (auto simp: prefix_def)
  have p: "values_ok ?p" "list_all2 (\<lambda>x y. \<not> zero_extends x y) ?p ?a"
    using lits es by (force simp: literals_def list_all2_conv_all_nth)+
  show ?thesis
  proof (cases path)
    case None
    have "prefix (values_to_bytes ?p) (values_to_bytes (?a @ map G rest)) \<longleftrightarrow> prefix ?p (?a @ map G rest)"
      using p G by (intro prefix_values) auto
    also have "\<dots> \<longleftrightarrow> ?p = ?a" by (auto simp: prefix_def append_eq_append_conv)
    also have "\<dots> \<longleftrightarrow> collected G eqs path s e"
      unfolding collected_def es [symmetric] equalities_map None by simp
    finally show ?thesis
      using iv None holds by (auto simp: compile_interval_def prefix_points rest)
  next
    case (Some f)
    have "comparable_key ?p ?a (G f) (map G rest)" using p G by (auto simp: comparable_key_def)
    from compile_interval_contains [OF this] iv Some lits
    have "Interval_contains iv (values_to_bytes (?a @ G f # map G rest)) \<longleftrightarrow> ?p = ?a \<and> above s (G f) \<and> below e (G f)"
      by (auto simp: literals_def)
    also have "\<dots> \<longleftrightarrow> collected G eqs path s e"
      unfolding collected_def es [symmetric] equalities_map Some by simp
    finally show ?thesis using holds Some by (simp add: rest)
  qed
qed

section \<open>Properties\<close>

lemma document_key_values:
  assumes "ResolvedDocument_new_internal i ct v = Inr d"
  shows "IndexKey_into_bytes (ResolvedDocument_index_key d fs)
    = values_to_bytes (map (ConvexObject_get_path (document_value d)) (IndexedFields_iter_with_id fs))"
proof -
  note d = new_internal_fields [OF assms]
  have "ConvexObject_get_path (document_value d) ID_FIELD_PATH = Some (id_value (doc_id (document d)))"
    using d(1,4) by (auto simp: ConvexObject_get_path_def ID_FIELD_PATH_def ConvexObject_get_def ResolvedDocument_id_def)
  then show ?thesis
    by (simp add: IndexKey_into_bytes_def ResolvedDocument_index_key_def IndexKey_new_allow_missing_def
        indexed_values_def IndexedFields_iter_with_id_def)
qed



lemma escaped_loop_append: "write_escaped_loop (a @ b) = write_escaped_loop a @ write_escaped_loop b"
  by (induction a) auto

lemmas compile_simps = IndexRange_compile_def IndexRange_split_def index_rank_def enumerate_eq_zip
  IndexedFields_iter_with_id_def ID_FIELD_PATH_def ID_FIELD_def ascii_def bt_get_def compile_interval_def
  compile_start_def compile_end_def

text \<open>C33. The exception is real: the range for equality with a string also contains every document
  whose string continues it with a zero byte, and the range above the string misses that document,
  while the filters say the opposite.\<close>

theorem index_range_zero_byte:
  "(\<exists>iv. IndexRange_compile [EqR [[97]] (Some (StringV s))] [[[97]]] = Inr iv
      \<and> Interval_contains iv (IndexKey_into_bytes (IndexKey_new_allow_missing [Some (StringV (s @ 0 # t))] i)))
    \<and> eval fl [([97], StringV (s @ 0 # t))] (range_filter (EqR [[97]] (Some (StringV s)))) = Inr (Some (Boolean False))
    \<and> (\<exists>iv. IndexRange_compile [GtR [[97]] (StringV s)] [[[97]]] = Inr iv
      \<and> \<not> Interval_contains iv (IndexKey_into_bytes (IndexKey_new_allow_missing [Some (StringV (s @ 0 # t))] i)))
    \<and> eval fl [([97], StringV (s @ 0 # t))] (range_filter (GtR [[97]] (StringV s))) = Inr (Some (Boolean True))"
proof -
  define q where "q = IndexKey_into_bytes (IndexKey_new_allow_missing [Some (StringV (s @ 0 # t))] i)"
  define k where "k = values_to_bytes [Some (StringV s)]"
  have pre: "prefix k q"
    by (simp add: k_def q_def IndexKey_into_bytes_def IndexKey_new_allow_missing_def optional_key_def
        write_escaped_bytes_def escaped_loop_append TERMINATOR_BYTE_def)
  have "BinaryKey_increment k \<noteq> None"
    by (auto simp: k_def increment_None_iff optional_key_def tag_defs)
  then obtain n where n: "BinaryKey_increment k = Some n" by blast
  have "IndexRange_compile [EqR [[97]] (Some (StringV s))] [[[97]]] = Inr (Interval_prefix k)"
    by (simp add: compile_simps k_def)
  moreover have "IndexRange_compile [GtR [[97]] (StringV s)] [[[97]]]
      = Inr \<lparr>start_bound = StartIncluded n, end_bound = End_after_prefix []\<rparr>"
    using n by (simp add: compile_simps k_def [simplified])
  moreover have "\<not> n \<le> q" using pre incremented_le [OF n] by simp
  moreover have "s < s @ 0 # t" "s \<noteq> s @ 0 # t" by (induction s) auto
  then have "cmp (Some (StringV (s @ 0 # t))) (Some (StringV s)) = Greater"
    by (simp flip: cmp_value) (simp add: cmp_def less_convex_value_def)
  ultimately show ?thesis
    unfolding q_def [symmetric] using pre
    by (auto simp: prefix_points compared_def ConvexObject_get_path_def bt_get_def) (simp add: Interval_contains_def)
qed

lemma checked_i64_exact:
  "checked_i64 n = (if sint (word_of_int n :: i64) = n then Inr (word_of_int n) else Inl ArithmeticPanic)"
  using signed_take_bit_int_eq_self_iff [of 63 n] by (simp add: checked_i64_def sint_sbintrunc')

lemma divide_panics:
  "do_ints Divide l r = Inl ArithmeticPanic \<longleftrightarrow> r = 0 \<or> sint l = - (2 ^ 63) \<and> r = - 1"
proof (cases "r = 0")
  case False
  have l: "- (2 ^ 63) \<le> sint l" "sint l < 2 ^ 63" using sint_ge [of l] sint_lt [of l] by simp_all
  let ?q = "sint l sdiv sint r"
  have q: "- \<bar>sint l\<bar> \<le> ?q" "?q \<le> \<bar>sint l\<bar>" using sdiv_int_range [of "sint l" "sint r"] by auto
  have "do_ints Divide l r = Inl ArithmeticPanic \<longleftrightarrow> \<not> (- (2 ^ 63) \<le> ?q \<and> ?q < 2 ^ 63)"
    using False by (simp add: do_ints_def checked_i64_def)
  also have "\<dots> \<longleftrightarrow> sint l = - (2 ^ 63) \<and> ?q = - sint l"
    using l q by (auto simp: abs_if simp del: int_sdiv_negated_is_minus1 split: if_splits)
  also have "\<dots> \<longleftrightarrow> sint l = - (2 ^ 63) \<and> sint r = - 1"
    by (rule conj_cong [OF refl], rule int_sdiv_negated_is_minus1) simp
  also have "sint r = - 1 \<longleftrightarrow> r = - 1" using signed_word_eqI [of r "- 1"] by (auto simp: sint_n1)
  finally show ?thesis using False by simp
qed (simp add: do_ints_def)

text \<open>Integer arithmetic in a filter is exact or panics: no result is ever wrapped, and a division
  by zero, or of the least integer by minus one, panics instead of failing the query.\<close>

lemma filter_arithmetic_exact:
  "eval fl environ (AddE (LiteralE (Some (Int64 l))) (LiteralE (Some (Int64 r)))) =
     (if sint (l + r) = sint l + sint r then Inr (Some (Int64 (l + r))) else Inl ArithmeticPanic)
   \<and> eval fl environ (SubE (LiteralE (Some (Int64 l))) (LiteralE (Some (Int64 r)))) =
     (if sint (l - r) = sint l - sint r then Inr (Some (Int64 (l - r))) else Inl ArithmeticPanic)
   \<and> eval fl environ (MulE (LiteralE (Some (Int64 l))) (LiteralE (Some (Int64 r)))) =
     (if sint (l * r) = sint l * sint r then Inr (Some (Int64 (l * r))) else Inl ArithmeticPanic)
   \<and> (eval fl environ (DivE (LiteralE (Some (Int64 l))) (LiteralE (Some (Int64 r)))) = Inl ArithmeticPanic
      \<longleftrightarrow> r = 0 \<or> sint l = - (2 ^ 63) \<and> r = - 1)"
  using checked_i64_exact [of "sint l + sint r"] checked_i64_exact [of "sint l - sint r"]
    checked_i64_exact [of "sint l * sint r"] divide_panics [of l r]
  by (simp add: binary_arithmetic_def do_ints_def bind_result_Inl_iff of_int_add of_int_diff of_int_mult)

end
