(* ===== verification/Index_Registry.thy ===== *)
theory Index_Registry
  imports Query_Range Transaction_Writes
begin

text \<open>
  The index registry (\<open>indexing/src/index_registry.rs\<close>) with the index metadata of
  \<open>common/src/bootstrap_model/index\<close>: which indexes exist, which of them may be queried, and which
  index entries a change of a document changes.

  The serde reader of an \<open>_index\<close> document is a parameter (\<open>parse\<close>); the contents of a text or
  vector index state are opaque (the type variable \<open>'x\<close>).  There is one persistence version.  Where
  the code panics the model returns \<open>None\<close>.
\<close>

declare split_paired_All [simp del] split_paired_Ex [simp del]

section \<open>Index metadata\<close>

datatype database_index_state = Backfilling timestamp bool | Backfilled | Enabled

datatype 'x search_index_state = SearchBackfilling 'x | SearchBackfilled 'x | SnapshottedAt 'x

datatype developer_index_config =
    DevDatabase indexed_fields
  | DevSearch field_path "field_path list"
  | DevVector u32 field_path "field_path list"

datatype 'x index_config =
    DatabaseConfig indexed_fields database_index_state
  | TextConfig field_path "field_path list" "'x search_index_state"
  | VectorConfig u32 field_path "field_path list" "'x search_index_state"

definition search_state_is_enabled :: "'x search_index_state \<Rightarrow> bool" where
  "search_state_is_enabled s = (case s of SnapshottedAt _ \<Rightarrow> True | _ \<Rightarrow> False)"

definition IndexConfig_is_enabled :: "'x index_config \<Rightarrow> bool" where
  "IndexConfig_is_enabled c =
     (case c of
        DatabaseConfig _ on_disk_state \<Rightarrow> on_disk_state = Enabled
      | TextConfig _ _ s \<Rightarrow> search_state_is_enabled s
      | VectorConfig _ _ _ s \<Rightarrow> search_state_is_enabled s)"

definition IndexConfig_is_backfilling :: "'x index_config \<Rightarrow> bool" where
  "IndexConfig_is_backfilling c =
     (case c of
        DatabaseConfig _ s \<Rightarrow> (case s of Backfilling _ _ \<Rightarrow> True | _ \<Rightarrow> False)
      | TextConfig _ _ s \<Rightarrow> (case s of SearchBackfilling _ \<Rightarrow> True | _ \<Rightarrow> False)
      | VectorConfig _ _ _ s \<Rightarrow> (case s of SearchBackfilling _ \<Rightarrow> True | _ \<Rightarrow> False))"

fun developer_config :: "'x index_config \<Rightarrow> developer_index_config" where
  "developer_config (DatabaseConfig fs _) = DevDatabase fs"
| "developer_config (TextConfig f fs _) = DevSearch f fs"
| "developer_config (VectorConfig n f fs _) = DevVector n f fs"

fun IndexConfig_same_config :: "'x index_config \<Rightarrow> 'x index_config \<Rightarrow> bool" where
  "IndexConfig_same_config (DatabaseConfig fs _) (DatabaseConfig gs _) = (fs = gs)"
| "IndexConfig_same_config (TextConfig f fs _) (TextConfig g gs _) = (f = g \<and> fs = gs)"
| "IndexConfig_same_config (VectorConfig n f fs _) (VectorConfig m g gs _) = (n = m \<and> f = g \<and> fs = gs)"
| "IndexConfig_same_config _ _ = False"

record 'x index_metadata =
  index_name_of :: tablet_index_name
  index_config_of :: "'x index_config"

definition IndexMetadata_new_backfilling :: "timestamp \<Rightarrow> tablet_index_name \<Rightarrow> indexed_fields \<Rightarrow> 'x index_metadata" where
  "IndexMetadata_new_backfilling created name fs =
     \<lparr>index_name_of = name, index_config_of = DatabaseConfig fs (Backfilling created False)\<rparr>"

definition IndexMetadata_new_enabled :: "tablet_index_name \<Rightarrow> indexed_fields \<Rightarrow> 'x index_metadata" where
  "IndexMetadata_new_enabled name fs = \<lparr>index_name_of = name, index_config_of = DatabaseConfig fs Enabled\<rparr>"

fun is_database_config :: "'x index_config \<Rightarrow> bool" where
  "is_database_config (DatabaseConfig _ _) = True"
| "is_database_config _ = False"

fun is_text_config :: "'x index_config \<Rightarrow> bool" where
  "is_text_config (TextConfig _ _ _) = True"
| "is_text_config _ = False"

fun is_vector_config :: "'x index_config \<Rightarrow> bool" where
  "is_vector_config (VectorConfig _ _ _ _) = True"
| "is_vector_config _ = False"

section \<open>The registry\<close>

text \<open>\<open>Index\<close>: its id, and the parsed document it comes from (the id of the document and the metadata).\<close>

record 'x index =
  ix_id :: internal_id
  ix_document_id :: resolved_document_id
  ix_metadata :: "'x index_metadata"

abbreviation ix_name :: "'x index \<Rightarrow> tablet_index_name" where
  "ix_name ix \<equiv> index_name_of (ix_metadata ix)"

abbreviation ix_config :: "'x index \<Rightarrow> 'x index_config" where
  "ix_config ix \<equiv> index_config_of (ix_metadata ix)"

record 'x index_registry =
  index_table :: tablet_id
  index_table_number :: table_number
  enabled_indexes :: "(tablet_index_name, 'x index) btree"
  pending_indexes :: "(tablet_index_name, 'x index) btree"
  indexes_by_table :: "tablet_index_name bset"

type_synonym 'x index_parser = "resolved_document \<Rightarrow> 'x index_metadata option"

datatype registry_error =
    DifferentDocuments | ParseIndex | ChangedIndexedTable | RenamedSystemIndex | ChangedDeveloperConfig
  | UpdatingNonexistentIndex | NotInIndex | MissingById | IndexOnIndexTable | ByIdNotEnabled | ByIdNotDatabase
  | SecondEnabledIndex | SecondPendingIndex | IndexBackfilling | IndexNotFound
  | NotAnIndexDocument | DuplicateMetaIndex | MissingMetaIndex

definition Index_new :: "'x index_metadata \<Rightarrow> resolved_document_id \<Rightarrow> 'x index" where
  "Index_new m i = \<lparr>ix_id = internal_id (developer_id i), ix_document_id = i, ix_metadata = m\<rparr>"

definition get_enabled :: "'x index_registry \<Rightarrow> tablet_index_name \<Rightarrow> 'x index option" where
  "get_enabled r n = bt_get (enabled_indexes r) n"

definition get_pending :: "'x index_registry \<Rightarrow> tablet_index_name \<Rightarrow> 'x index option" where
  "get_pending r n = bt_get (pending_indexes r) n"

definition require_enabled :: "'x index_registry \<Rightarrow> tablet_index_name \<Rightarrow> registry_error + 'x index" where
  "require_enabled r n =
     (case get_enabled r n of
        Some ix \<Rightarrow> Inr ix
      | None \<Rightarrow> (case get_pending r n of Some _ \<Rightarrow> Inl IndexBackfilling | None \<Rightarrow> Inl IndexNotFound))"

definition must_get_by_id :: "'x index_registry \<Rightarrow> tablet_id \<Rightarrow> registry_error + 'x index" where
  "must_get_by_id r t =
     (case get_enabled r (IndexName_by_id t) of Some ix \<Rightarrow> Inr ix | None \<Rightarrow> Inl MissingById)"

definition registry_insert :: "'x index \<Rightarrow> 'x index_registry \<Rightarrow> 'x index_registry" where
  "registry_insert ix r =
     (let r = r\<lparr>indexes_by_table := bt_insert (ix_name ix) () (indexes_by_table r)\<rparr>
      in if IndexConfig_is_enabled (ix_config ix)
         then r\<lparr>enabled_indexes := bt_insert (ix_name ix) ix (enabled_indexes r)\<rparr>
         else r\<lparr>pending_indexes := bt_insert (ix_name ix) ix (pending_indexes r)\<rparr>)"

definition registry_remove :: "'x index_metadata \<Rightarrow> resolved_document_id \<Rightarrow> 'x index_registry \<Rightarrow> 'x index_registry option" where
  "registry_remove m i r =
     (let name = index_name_of m;
          enabled = IndexConfig_is_enabled (index_config_of m);
          (remove_from, other) = (if enabled then (enabled_indexes r, pending_indexes r)
                                  else (pending_indexes r, enabled_indexes r))
      in case bt_get remove_from name of
           None \<Rightarrow> None
         | Some removed \<Rightarrow>
             if ix_id removed \<noteq> internal_id (developer_id i) then None
             else
               let r = (if enabled then r\<lparr>enabled_indexes := bt_remove name remove_from\<rparr>
                        else r\<lparr>pending_indexes := bt_remove name remove_from\<rparr>)
               in if bt_get other name \<noteq> None then Some r
                  else if bt_get (indexes_by_table r) name = None then None
                  else Some (r\<lparr>indexes_by_table := bt_remove name (indexes_by_table r)\<rparr>))"

definition existing_is_none_or_equal :: "'x index option \<Rightarrow> resolved_document_id \<Rightarrow> bool" where
  "existing_is_none_or_equal existing updated =
     (case existing of None \<Rightarrow> True | Some ix \<Rightarrow> ix_id ix = internal_id (developer_id updated))"

definition verify_index_state ::
    "'x index option \<Rightarrow> 'x index option \<Rightarrow> 'x index_metadata \<Rightarrow> resolved_document_id \<Rightarrow> registry_error + unit" where
  "verify_index_state enabled_index pending_index m i =
     (if IndexConfig_is_enabled (index_config_of m)
      then if existing_is_none_or_equal enabled_index i then Inr () else Inl SecondEnabledIndex
      else if existing_is_none_or_equal pending_index i then Inr () else Inl SecondPendingIndex)"

abbreviation require :: "bool \<Rightarrow> 'e \<Rightarrow> 'e + unit" where
  "require b e \<equiv> if b then Inr () else Inl e"

definition parse_index :: "'x index_parser \<Rightarrow> resolved_document \<Rightarrow> registry_error + 'x index_metadata" where
  "parse_index parse d = (case parse d of Some m \<Rightarrow> Inr m | None \<Rightarrow> Inl ParseIndex)"

definition verify_replace ::
    "'x index_parser \<Rightarrow> resolved_document \<Rightarrow> resolved_document \<Rightarrow> 'x index_registry \<Rightarrow> registry_error + unit" where
  "verify_replace parse old new r =
     bind_result (require (ResolvedDocument_id old = ResolvedDocument_id new) DifferentDocuments) (\<lambda>_.
       if doc_tablet_id old = index_table r then
         bind_result (parse_index parse old) (\<lambda>old_metadata.
         bind_result (parse_index parse new) (\<lambda>new_metadata.
         bind_result (require (fst (index_name_of old_metadata) = fst (index_name_of new_metadata)) ChangedIndexedTable) (\<lambda>_.
         bind_result (require (IndexName_is_by_id_or_creation_time (index_name_of old_metadata)
             \<longrightarrow> index_name_of old_metadata = index_name_of new_metadata) RenamedSystemIndex) (\<lambda>_.
           require (developer_config (index_config_of old_metadata) = developer_config (index_config_of new_metadata))
             ChangedDeveloperConfig))))
       else Inr ())"

definition verify_removed :: "'x index_parser \<Rightarrow> resolved_document \<Rightarrow> 'x index_registry \<Rightarrow> registry_error + unit" where
  "verify_removed parse old r =
     bind_result
       (if doc_tablet_id old = index_table r then
          bind_result (parse_index parse old) (\<lambda>m.
            require (bt_get (enabled_indexes r) (index_name_of m) \<noteq> None
                \<or> bt_get (pending_indexes r) (index_name_of m) \<noteq> None) UpdatingNonexistentIndex)
        else Inr ())
       (\<lambda>_. require (bt_get (indexes_by_table r) (doc_tablet_id old, INDEX_BY_ID_DESCRIPTOR) \<noteq> None) NotInIndex)"

definition verify_added :: "'x index_parser \<Rightarrow> resolved_document \<Rightarrow> 'x index_registry \<Rightarrow> registry_error + unit" where
  "verify_added parse new r =
     bind_result (require (bt_get (enabled_indexes r) (IndexName_by_id (doc_tablet_id new)) \<noteq> None) MissingById) (\<lambda>_.
       if doc_tablet_id new = index_table r then
         bind_result (parse_index parse new) (\<lambda>m.
         bind_result (require (fst (index_name_of m) = index_table r \<longrightarrow> IndexName_is_by_id (index_name_of m)) IndexOnIndexTable) (\<lambda>_.
         bind_result
           (if IndexName_is_by_id (index_name_of m) then
              (case index_config_of m of
                 DatabaseConfig _ s \<Rightarrow> require (s = Enabled) ByIdNotEnabled
               | _ \<Rightarrow> Inl ByIdNotDatabase)
            else Inr ()) (\<lambda>_.
           verify_index_state (bt_get (enabled_indexes r) (index_name_of m)) (bt_get (pending_indexes r) (index_name_of m))
             m (ResolvedDocument_id new))))
       else Inr ())"

definition verify_update ::
    "'x index_parser \<Rightarrow> resolved_document option \<Rightarrow> resolved_document option \<Rightarrow> 'x index_registry \<Rightarrow> registry_error + unit" where
  "verify_update parse old new r =
     bind_result (case (old, new) of (Some o', Some n) \<Rightarrow> verify_replace parse o' n r | _ \<Rightarrow> Inr ()) (\<lambda>_.
     bind_result (case old of Some o' \<Rightarrow> verify_removed parse o' r | None \<Rightarrow> Inr ()) (\<lambda>_.
       case new of Some n \<Rightarrow> verify_added parse n r | None \<Rightarrow> Inr ()))"

definition remove_deleted ::
    "'x index_parser \<Rightarrow> resolved_document option \<Rightarrow> 'x index_registry \<Rightarrow> (bool \<times> 'x index_registry) option" where
  "remove_deleted parse deletion r =
     (case deletion of
        Some old \<Rightarrow>
          if doc_tablet_id old = index_table r then
            (case parse old of
               None \<Rightarrow> None
             | Some m \<Rightarrow> map_option (Pair True) (registry_remove m (ResolvedDocument_id old) r))
          else Some (False, r)
      | None \<Rightarrow> Some (False, r))"

definition apply_verified_update ::
    "'x index_parser \<Rightarrow> resolved_document option \<Rightarrow> resolved_document option \<Rightarrow> 'x index_registry
     \<Rightarrow> (bool \<times> 'x index_registry) option" where
  "apply_verified_update parse deletion insertion r =
     (case remove_deleted parse deletion r of
        None \<Rightarrow> None
      | Some (modified, r) \<Rightarrow>
          (case insertion of
             Some new \<Rightarrow>
               if doc_tablet_id new = index_table r then
                 (case parse new of
                    None \<Rightarrow> None
                  | Some m \<Rightarrow> Some (True, registry_insert (Index_new m (ResolvedDocument_id new)) r))
               else Some (modified, r)
           | None \<Rightarrow> Some (modified, r)))"

definition registry_update ::
    "'x index_parser \<Rightarrow> resolved_document option \<Rightarrow> resolved_document option \<Rightarrow> 'x index_registry
     \<Rightarrow> (registry_error + 'x index_registry) option" where
  "registry_update parse deletion insertion r =
     (case verify_update parse deletion insertion r of
        Inl e \<Rightarrow> Some (Inl e)
      | Inr _ \<Rightarrow> map_option (Inr \<circ> snd) (apply_verified_update parse deletion insertion r))"

definition MIN_IDENTIFIER :: bytes where "MIN_IDENTIFIER = ascii ''A''"

text \<open>The indexes of a table: names from the set of indexed tables, then the enabled and the pending
  index of each name.\<close>

definition table_index_name :: "tablet_index_name \<Rightarrow> tablet_index_name option" where
  "table_index_name n =
     (let (t, d) = n
      in if d = INDEX_BY_ID_DESCRIPTOR then Some (IndexName_by_id t)
         else if d = INDEX_BY_CREATION_TIME_DESCRIPTOR then Some (IndexName_by_creation_time t)
         else case (if IndexDescriptor_is_reserved d then IndexName_new_reserved t d else IndexName_new t d) of
                Inl _ \<Rightarrow> None
              | Inr name \<Rightarrow> Some name)"

definition named_indexes :: "'x index_registry \<Rightarrow> tablet_index_name \<Rightarrow> 'x index list option" where
  "named_indexes r n =
     (case table_index_name n of
        None \<Rightarrow> None
      | Some name \<Rightarrow>
          (let found = List.map_filter (\<lambda>m. bt_get m name) [enabled_indexes r, pending_indexes r]
           in if found = [] then None else Some found))"

definition table_indexes :: "'x index_registry \<Rightarrow> tablet_id \<Rightarrow> 'x index list option" where
  "table_indexes r t =
     map_option concat
       (those (map (named_indexes r)
         (takeWhile (\<lambda>n. fst n = t) (dropWhile (\<lambda>n. n < (t, MIN_IDENTIFIER)) (map fst (indexes_by_table r))))))"

definition has_no_indexes :: "'x index_registry \<Rightarrow> tablet_id \<Rightarrow> bool option" where
  "has_no_indexes r t = map_option (\<lambda>ixs. ixs = []) (table_indexes r t)"

definition text_indexes_by_table :: "'x index_registry \<Rightarrow> tablet_id \<Rightarrow> 'x index list option" where
  "text_indexes_by_table r t = map_option (filter (\<lambda>ix. is_text_config (ix_config ix))) (table_indexes r t)"

definition vector_indexes_by_table :: "'x index_registry \<Rightarrow> tablet_id \<Rightarrow> 'x index list option" where
  "vector_indexes_by_table r t = map_option (filter (\<lambda>ix. is_vector_config (ix_config ix))) (table_indexes r t)"

definition index_keys :: "'x index_registry \<Rightarrow> resolved_document \<Rightarrow> ('x index \<times> index_key) list option" where
  "index_keys r d =
     map_option (List.map_filter (\<lambda>ix. case ix_config ix of
         DatabaseConfig fs _ \<Rightarrow> Some (ix, ResolvedDocument_index_key d fs)
       | _ \<Rightarrow> None)) (table_indexes r (doc_tablet_id d))"

datatype database_index_value = Deleted | NonClustered resolved_document_id

record database_index_update =
  up_index_id :: internal_id
  up_key :: index_key
  up_value :: database_index_value
  is_system_index :: bool

text \<open>The updates are collected in a map from the index and the key, where \<open>IndexKey\<close> is ordered by its values.\<close>

definition add_index_updates ::
    "database_index_value \<Rightarrow> ('x index \<times> index_key) list
     \<Rightarrow> (internal_id \<times> convex_value option list, database_index_update) btree
     \<Rightarrow> (internal_id \<times> convex_value option list, database_index_update) btree" where
  "add_index_updates v keys us =
     fold (\<lambda>(ix, key). bt_insert (ix_id ix, values_with_id key)
        \<lparr>up_index_id = ix_id ix, up_key = key, up_value = v,
         is_system_index = IndexDescriptor_is_reserved (snd (ix_name ix))\<rparr>) keys us"

definition index_updates ::
    "'x index_registry \<Rightarrow> resolved_document option \<Rightarrow> resolved_document option \<Rightarrow> database_index_update list option" where
  "index_updates r deletion insertion =
     (case (case deletion of None \<Rightarrow> Some [] | Some old \<Rightarrow>
              map_option (\<lambda>keys. add_index_updates Deleted keys []) (index_keys r old)) of
        None \<Rightarrow> None
      | Some us \<Rightarrow>
          map_option (map snd)
            (case insertion of None \<Rightarrow> Some us | Some new \<Rightarrow>
               map_option (\<lambda>keys. add_index_updates (NonClustered (ResolvedDocument_id new)) keys us) (index_keys r new)))"

definition all_indexes :: "'x index_registry \<Rightarrow> 'x index list" where
  "all_indexes r = map snd (enabled_indexes r) @ map snd (pending_indexes r)"

definition all_enabled_indexes :: "'x index_registry \<Rightarrow> 'x index list" where
  "all_enabled_indexes r = map snd (enabled_indexes r)"

definition all_text_indexes :: "'x index_registry \<Rightarrow> 'x index list" where
  "all_text_indexes r = filter (\<lambda>ix. is_text_config (ix_config ix)) (all_indexes r)"

definition all_vector_indexes :: "'x index_registry \<Rightarrow> 'x index list" where
  "all_vector_indexes r = filter (\<lambda>ix. is_vector_config (ix_config ix)) (all_indexes r)"

definition all_tables_with_indexes :: "'x index_registry \<Rightarrow> tablet_id list" where
  "all_tables_with_indexes r = remdups_adj (sort (map (\<lambda>ix. fst (ix_name ix)) (all_indexes r)))"

definition enabled_index_by_index_id :: "'x index_registry \<Rightarrow> internal_id \<Rightarrow> 'x index option" where
  "enabled_index_by_index_id r i = List.find (\<lambda>ix. i = ix_id ix) (all_enabled_indexes r)"

definition by_id_indexes :: "'x index_registry \<Rightarrow> (tablet_id, internal_id) btree" where
  "by_id_indexes r =
     fold (\<lambda>ix. bt_insert (fst (ix_name ix)) (internal_id (developer_id (ix_document_id ix))))
       (filter (\<lambda>ix. IndexName_is_by_id (ix_name ix)) (all_enabled_indexes r)) []"

definition index_ids :: "'x index_registry \<Rightarrow> internal_id bset" where
  "index_ids r = bs_extend (map ix_id (all_indexes r)) []"

definition same_indexes :: "'x index_registry \<Rightarrow> 'x index_registry \<Rightarrow> bool" where
  "same_indexes r s = (index_ids r = index_ids s)"

text \<open>Bootstrapping: the \<open>by_id\<close> index of the index table itself first, then all others.\<close>

fun bootstrap_partition ::
    "'x index_parser \<Rightarrow> tablet_id \<Rightarrow> resolved_document list \<Rightarrow> resolved_document option \<Rightarrow> resolved_document list
     \<Rightarrow> registry_error + resolved_document option \<times> resolved_document list" where
  "bootstrap_partition parse t [] meta regular = Inr (meta, regular)"
| "bootstrap_partition parse t (d # ds) meta regular =
     bind_result (require (doc_tablet_id d = t) NotAnIndexDocument) (\<lambda>_.
     bind_result (parse_index parse d) (\<lambda>m.
       if index_name_of m = IndexName_by_id t then
         bind_result (require (meta = None) DuplicateMetaIndex) (\<lambda>_. bootstrap_partition parse t ds (Some d) regular)
       else bootstrap_partition parse t ds meta (regular @ [d])))"

fun bootstrap_feed ::
    "'x index_parser \<Rightarrow> resolved_document list \<Rightarrow> 'x index_registry \<Rightarrow> (registry_error + 'x index_registry) option" where
  "bootstrap_feed parse [] r = Some (Inr r)"
| "bootstrap_feed parse (d # ds) r =
     (case registry_update parse None (Some d) r of
        Some (Inr r) \<Rightarrow> bootstrap_feed parse ds r
      | res \<Rightarrow> res)"

definition registry_bootstrap ::
    "'x index_parser \<Rightarrow> tablet_id \<Rightarrow> table_number \<Rightarrow> resolved_document list \<Rightarrow> (registry_error + 'x index_registry) option" where
  "registry_bootstrap parse t n ds =
     (case bootstrap_partition parse t ds None [] of
        Inl e \<Rightarrow> Some (Inl e)
      | Inr (None, _) \<Rightarrow> Some (Inl MissingMetaIndex)
      | Inr (Some d, regular) \<Rightarrow>
          (case parse d of
             None \<Rightarrow> Some (Inl ParseIndex)
           | Some m \<Rightarrow>
               bootstrap_feed parse regular
                 (registry_insert (Index_new m (ResolvedDocument_id d))
                   \<lparr>index_table = t, index_table_number = n, enabled_indexes = [], pending_indexes = [],
                    indexes_by_table = []\<rparr>)))"

section \<open>The registry is a view of the index table\<close>

text \<open>
  An index of the registry comes from a document of the \<open>_index\<close> table; \<open>registered b n ix\<close> says
  which, for the enabled (\<open>b\<close>) or pending indexes.  A registry represents the documents of a store
  when its two maps hold exactly these indexes and its set of names is that of the two maps.
\<close>

definition registered :: "'x index_parser \<Rightarrow> tablet_id \<Rightarrow> document_store \<Rightarrow> bool \<Rightarrow> tablet_index_name \<Rightarrow> 'x index \<Rightarrow> bool" where
  "registered parse t S b n ix =
     (\<exists>d. S (ix_document_id ix) = Some d \<and> tablet_id (ix_document_id ix) = t \<and> parse d = Some (ix_metadata ix)
        \<and> ix_name ix = n \<and> IndexConfig_is_enabled (ix_config ix) = b \<and> ix = Index_new (ix_metadata ix) (ix_document_id ix))"

definition index_documents_ok :: "'x index_parser \<Rightarrow> tablet_id \<Rightarrow> table_number \<Rightarrow> document_store \<Rightarrow> bool" where
  "index_documents_ok parse t n S =
     (\<forall>i d. S i = Some d \<and> tablet_id i = t \<longrightarrow>
        ResolvedDocument_id d = i \<and> id_table (developer_id i) = n \<and> parse d \<noteq> None)"

definition represents :: "'x index_parser \<Rightarrow> 'x index_registry \<Rightarrow> document_store \<Rightarrow> bool" where
  "represents parse r S =
     (bt_ok (enabled_indexes r) \<and> bt_ok (pending_indexes r) \<and> bt_ok (indexes_by_table r)
      \<and> (\<forall>n ix. bt_get (enabled_indexes r) n = Some ix \<longleftrightarrow> registered parse (index_table r) S True n ix)
      \<and> (\<forall>n ix. bt_get (pending_indexes r) n = Some ix \<longleftrightarrow> registered parse (index_table r) S False n ix)
      \<and> (\<forall>n. bt_get (indexes_by_table r) n \<noteq> None
           \<longleftrightarrow> bt_get (enabled_indexes r) n \<noteq> None \<or> bt_get (pending_indexes r) n \<noteq> None)
      \<and> index_documents_ok parse (index_table r) (index_table_number r) S)"

text \<open>The map an index belongs to.\<close>

definition state_indexes :: "bool \<Rightarrow> 'x index_registry \<Rightarrow> (tablet_index_name, 'x index) btree" where
  "state_indexes b r = (if b then enabled_indexes r else pending_indexes r)"

lemma represents_alt:
  "represents parse r S \<longleftrightarrow>
     (\<forall>b. bt_ok (state_indexes b r)) \<and> bt_ok (indexes_by_table r)
      \<and> (\<forall>b n ix. bt_get (state_indexes b r) n = Some ix \<longleftrightarrow> registered parse (index_table r) S b n ix)
      \<and> (\<forall>n. bt_get (indexes_by_table r) n \<noteq> None \<longleftrightarrow> (\<exists>b. bt_get (state_indexes b r) n \<noteq> None))
      \<and> index_documents_ok parse (index_table r) (index_table_number r) S"
  unfolding represents_def all_bool_eq ex_bool_eq state_indexes_def by simp

lemma same_internal_id:
  assumes "index_documents_ok parse t n S" and "S i = Some d" "tablet_id i = t" and "S j = Some e" "tablet_id j = t"
    and "internal_id (developer_id i) = internal_id (developer_id j)"
  shows "i = j"
proof -
  have "id_table (developer_id i) = id_table (developer_id j)"
    using assms(1-5) by (auto simp: index_documents_ok_def)
  with assms(3,5,6) show ?thesis
    by (cases i; cases j; cases "developer_id i"; cases "developer_id j") auto
qed

lemma registered_remove:
  "registered parse t (S(i := None)) b n ix \<longleftrightarrow> registered parse t S b n ix \<and> ix_document_id ix \<noteq> i"
  by (auto simp: registered_def)

lemma represents_remove:
  assumes rep: "represents parse r S" and i: "S i = Some d" "tablet_id i = index_table r"
  obtains m r' where "parse d = Some m" and "registry_remove m i r = Some r'" and "represents parse r' (S(i := None))"
    and "index_table r' = index_table r" and "index_table_number r' = index_table_number r"
    and "\<And>b n. bt_get (state_indexes b r') n
        = (if b = IndexConfig_is_enabled (index_config_of m) \<and> n = index_name_of m then None else bt_get (state_indexes b r) n)"
proof -
  note rep' = rep [unfolded represents_alt]
  have "parse d \<noteq> None" using i rep' by (simp add: index_documents_ok_def)
  then obtain m where m: "parse d = Some m" by blast
  let ?n = "index_name_of m" and ?b = "IndexConfig_is_enabled (index_config_of m)"
  have reg: "registered parse (index_table r) S ?b ?n (Index_new m i)"
    using i m by (simp add: registered_def Index_new_def)
  then have get: "bt_get (state_indexes ?b r) ?n = Some (Index_new m i)" using rep' by blast
  then have byt: "bt_get (indexes_by_table r) ?n \<noteq> None" using rep' by auto
  define r' where "r' = (let r'' = (if ?b then r\<lparr>enabled_indexes := bt_remove ?n (enabled_indexes r)\<rparr>
        else r\<lparr>pending_indexes := bt_remove ?n (pending_indexes r)\<rparr>)
      in if bt_get (state_indexes (\<not> ?b) r) ?n \<noteq> None then r''
         else r''\<lparr>indexes_by_table := bt_remove ?n (indexes_by_table r)\<rparr>)"
  have rem: "registry_remove m i r = Some r'"
    using get byt by (auto simp: registry_remove_def r'_def state_indexes_def Index_new_def Let_def)
  have st: "state_indexes b r' = (if b = ?b then bt_remove ?n (state_indexes b r) else state_indexes b r)" for b
    by (auto simp: r'_def state_indexes_def Let_def)
  have byt': "indexes_by_table r' = (if bt_get (state_indexes (\<not> ?b) r) ?n \<noteq> None then indexes_by_table r
      else bt_remove ?n (indexes_by_table r))" by (simp add: r'_def Let_def)
  have tabs: "index_table r' = index_table r" "index_table_number r' = index_table_number r"
    by (simp_all add: r'_def Let_def)
  have g: "bt_get (state_indexes b r') n = (if b = ?b \<and> n = ?n then None else bt_get (state_indexes b r) n)" for b n
    using rep' by (simp add: st bt_get_remove)
  have "registered parse (index_table r) (S(i := None)) b n ix
      \<longleftrightarrow> registered parse (index_table r) S b n ix \<and> \<not> (b = ?b \<and> n = ?n)" for b n ix
  proof -
    have "ix_document_id ix = i" if "registered parse (index_table r) S ?b ?n ix"
    proof -
      have "bt_get (state_indexes ?b r) ?n = Some ix" using that rep' by blast
      with get show ?thesis by (simp add: Index_new_def)
    qed
    moreover have "b = ?b \<and> n = ?n" if "registered parse (index_table r) S b n ix" "ix_document_id ix = i"
      using that m i by (auto simp: registered_def)
    ultimately show ?thesis unfolding registered_remove by blast
  qed
  moreover have "bt_get (indexes_by_table r') n \<noteq> None \<longleftrightarrow> (\<exists>b. bt_get (state_indexes b r') n \<noteq> None)" for n
  proof -
    have "bt_get (indexes_by_table r) n \<noteq> None \<longleftrightarrow> (\<exists>b. bt_get (state_indexes b r) n \<noteq> None)" and "bt_ok (indexes_by_table r)"
      using rep' by blast+
    then show ?thesis by (cases ?b) (auto simp: byt' g ex_bool_eq split: if_splits)
  qed
  ultimately have "represents parse r' (S(i := None))"
    using rep' unfolding represents_alt tabs by (auto simp: g st byt' bt_remove_ok index_documents_ok_def)
  from that [OF m rem this tabs g] show ?thesis .
qed

lemma represents_insert:
  assumes rep: "represents parse r S" and i: "S i = None" "tablet_id i = index_table r"
    and d: "parse d = Some m" "ResolvedDocument_id d = i" "id_table (developer_id i) = index_table_number r"
    and new: "bt_get (state_indexes (IndexConfig_is_enabled (index_config_of m)) r) (index_name_of m) = None"
  shows "represents parse (registry_insert (Index_new m i) r) (S(i := Some d))"
proof -
  note rep' = rep [unfolded represents_alt]
  let ?n = "index_name_of m" and ?b = "IndexConfig_is_enabled (index_config_of m)" and ?ix = "Index_new m i"
  let ?r = "registry_insert ?ix r"
  have ix [simp]: "ix_name ?ix = ?n" "ix_config ?ix = index_config_of m" "ix_document_id ?ix = i" "ix_metadata ?ix = m"
    by (simp_all add: Index_new_def)
  have st: "state_indexes b ?r = (if b = ?b then bt_insert ?n ?ix (state_indexes b r) else state_indexes b r)" for b
    by (simp add: registry_insert_def state_indexes_def Let_def)
  have tabs: "index_table ?r = index_table r" "index_table_number ?r = index_table_number r"
      "indexes_by_table ?r = bt_insert ?n () (indexes_by_table r)"
    by (simp_all add: registry_insert_def Let_def)
  have g: "bt_get (state_indexes b ?r) n = (if b = ?b \<and> n = ?n then Some ?ix else bt_get (state_indexes b r) n)" for b n
    by (auto simp: st)
  have reg: "bt_get (state_indexes b r) n = Some ix \<longleftrightarrow> registered parse (index_table r) S b n ix" for b n ix
    using rep' by blast
  have "bt_get (state_indexes b ?r) n = Some ix \<longleftrightarrow> registered parse (index_table r) (S(i := Some d)) b n ix" for b n ix
  proof (cases "ix_document_id ix = i")
    case True
    then have "\<not> registered parse (index_table r) S b n ix" using i by (simp add: registered_def)
    then have "bt_get (state_indexes b ?r) n = Some ix \<longleftrightarrow> b = ?b \<and> n = ?n \<and> ix = ?ix"
      using reg [of b n ix] new by (auto simp: g)
    also have "\<dots> \<longleftrightarrow> registered parse (index_table r) (S(i := Some d)) b n ix"
      using True i(2) d(1) by (cases ix) (auto simp: registered_def Index_new_def)
    finally show ?thesis .
  next
    case False
    then have "registered parse (index_table r) (S(i := Some d)) b n ix \<longleftrightarrow> registered parse (index_table r) S b n ix"
      by (simp add: registered_def)
    moreover have "bt_get (state_indexes b ?r) n = Some ix \<longleftrightarrow> bt_get (state_indexes b r) n = Some ix"
      using new False by (auto simp: g)
    ultimately show ?thesis using reg by simp
  qed
  moreover have "bt_get (indexes_by_table ?r) n \<noteq> None \<longleftrightarrow> (\<exists>b. bt_get (state_indexes b ?r) n \<noteq> None)" for n
  proof -
    have "bt_get (indexes_by_table r) n \<noteq> None \<longleftrightarrow> (\<exists>b. bt_get (state_indexes b r) n \<noteq> None)" using rep' by blast
    then show ?thesis by (cases ?b) (auto simp: tabs(3) g ex_bool_eq)
  qed
  ultimately show ?thesis
    using rep' d unfolding represents_alt tabs(1,2) by (auto simp: st tabs(3) index_documents_ok_def)
qed

lemma represents_other:
  assumes "represents parse r S" and "tablet_id i \<noteq> index_table r"
  shows "represents parse r (S(i := d))"
proof -
  have "registered parse (index_table r) (S(i := d)) b n ix = registered parse (index_table r) S b n ix" for b n ix
    using assms(2) by (auto simp: registered_def)
  with assms show ?thesis by (auto simp: represents_def index_documents_ok_def)
qed

lemma verify_added_index:
  assumes "verify_added parse new r = Inr ()" and "doc_tablet_id new = index_table r"
  obtains m where "parse new = Some m"
    and "\<And>ix. bt_get (state_indexes (IndexConfig_is_enabled (index_config_of m)) r) (index_name_of m) = Some ix
          \<Longrightarrow> ix_id ix = internal_id (developer_id (ResolvedDocument_id new))"
proof -
  obtain m where m: "parse new = Some m"
    and v: "verify_index_state (bt_get (enabled_indexes r) (index_name_of m)) (bt_get (pending_indexes r) (index_name_of m))
        m (ResolvedDocument_id new) = Inr ()"
    using assms by (auto simp: verify_added_def parse_index_def bind_result_Inr_iff split: option.splits)
  from v have "ix_id ix = internal_id (developer_id (ResolvedDocument_id new))"
    if "bt_get (state_indexes (IndexConfig_is_enabled (index_config_of m)) r) (index_name_of m) = Some ix" for ix
    using that by (auto simp: verify_index_state_def existing_is_none_or_equal_def state_indexes_def split: if_splits)
  with m show ?thesis by (rule that)
qed

lemma remove_deleted_correct:
  assumes rep: "represents parse r S" and old: "S i = old" and ids: "\<forall>d. old = Some d \<longrightarrow> ResolvedDocument_id d = i"
    and i: "tablet_id i = index_table r"
  obtains r1 where "remove_deleted parse old r = Some (old \<noteq> None, r1)" and "represents parse r1 (S(i := None))"
    and "index_table r1 = index_table r" and "index_table_number r1 = index_table_number r"
    and "\<forall>b n ix. bt_get (state_indexes b r1) n = Some ix \<longrightarrow> bt_get (state_indexes b r) n = Some ix"
    and "old = None \<longrightarrow> r1 = r"
proof (cases old)
  case None
  then have "S(i := None) = S" using old by (auto simp: fun_eq_iff)
  with None rep show ?thesis using that [of r] by (simp add: remove_deleted_def)
next
  case (Some d)
  obtain m r1 where m: "parse d = Some m" "registry_remove m i r = Some r1" "represents parse r1 (S(i := None))"
      "index_table r1 = index_table r" "index_table_number r1 = index_table_number r"
    and g: "bt_get (state_indexes b r1) n
      = (if b = IndexConfig_is_enabled (index_config_of m) \<and> n = index_name_of m then None else bt_get (state_indexes b r) n)" for b n
    using represents_remove [OF rep old [unfolded Some] i] by blast
  have d: "ResolvedDocument_id d = i" using ids Some by blast
  moreover have "doc_tablet_id d = index_table r" using d i by (auto simp: ResolvedDocument_id_def)
  ultimately have "remove_deleted parse old r = Some (old \<noteq> None, r1)" using m Some by (simp add: remove_deleted_def)
  from that [OF this m(3-5)] g Some show ?thesis by (auto split: if_splits)
qed

lemma no_other_index:
  assumes "represents parse r S" and "S i = None" and "tablet_id i = index_table r"
    and "id_table (developer_id i) = index_table_number r"
    and "bt_get (state_indexes b r) n = Some ix"
  shows "ix_id ix \<noteq> internal_id (developer_id i)"
proof
  let ?j = "ix_document_id ix"
  assume ix: "ix_id ix = internal_id (developer_id i)"
  obtain d where d: "S ?j = Some d" "tablet_id ?j = index_table r" "ix = Index_new (ix_metadata ix) ?j"
    using assms(1,5) by (auto simp: represents_alt registered_def)
  have "internal_id (developer_id ?j) = internal_id (developer_id i)"
    using ix d(3) by (metis Index_new_def index.select_convs(1))
  moreover have "id_table (developer_id ?j) = id_table (developer_id i)" "tablet_id ?j = tablet_id i"
    using d assms(1,3,4) by (auto simp: represents_def index_documents_ok_def)
  ultimately have "?j = i" by (cases ?j; cases i; cases "developer_id ?j"; cases "developer_id i") auto
  with d(1) assms(2) show False by simp
qed

lemma registry_update_correct:
  assumes rep: "represents parse r S" and old: "S i = old" and ids: "\<forall>d. old = Some d \<or> new = Some d \<longrightarrow> ResolvedDocument_id d = i"
    and num: "tablet_id i = index_table r \<longrightarrow> id_table (developer_id i) = index_table_number r"
    and ver: "verify_update parse old new r = Inr ()"
  obtains b r' where "apply_verified_update parse old new r = Some (b, r')" and "represents parse r' (S(i := new))"
    and "index_table r' = index_table r" and "index_table_number r' = index_table_number r" and "\<not> b \<longrightarrow> r' = r"
proof (cases "tablet_id i = index_table r")
  case False
  then have "doc_tablet_id d \<noteq> index_table r" if "old = Some d \<or> new = Some d" for d
    using ids that by (auto simp: ResolvedDocument_id_def)
  then have "apply_verified_update parse old new r = Some (False, r)"
    by (auto simp: apply_verified_update_def remove_deleted_def split: option.splits)
  then show ?thesis using represents_other [OF rep False] by (rule that) simp_all
next
  case True
  have tab: "doc_tablet_id d = index_table r" if "old = Some d \<or> new = Some d" for d
    using ids that True by (auto simp: ResolvedDocument_id_def)
  obtain r1 where rem: "remove_deleted parse old r = Some (old \<noteq> None, r1)" "represents parse r1 (S(i := None))"
      "index_table r1 = index_table r" "index_table_number r1 = index_table_number r"
      "\<forall>b n ix. bt_get (state_indexes b r1) n = Some ix \<longrightarrow> bt_get (state_indexes b r) n = Some ix" "old = None \<longrightarrow> r1 = r"
    using remove_deleted_correct [OF rep old _ True] ids by blast
  show ?thesis
  proof (cases new)
    case None
    then have "apply_verified_update parse old new r = Some (old \<noteq> None, r1)" by (simp add: apply_verified_update_def rem(1))
    from that [OF this] rem None show ?thesis by simp
  next
    case (Some d)
    have "verify_added parse d r = Inr ()" using ver Some by (auto simp: verify_update_def bind_result_Inr_iff)
    then obtain m where m: "parse d = Some m"
      and ex: "\<And>ix. bt_get (state_indexes (IndexConfig_is_enabled (index_config_of m)) r) (index_name_of m) = Some ix
          \<Longrightarrow> ix_id ix = internal_id (developer_id (ResolvedDocument_id d))"
      using verify_added_index tab Some by metis
    have di: "ResolvedDocument_id d = i" using ids Some by blast
    have "bt_get (state_indexes (IndexConfig_is_enabled (index_config_of m)) r1) (index_name_of m) = None"
    proof (rule ccontr)
      assume "\<not> ?thesis"
      then obtain ix where ix: "bt_get (state_indexes (IndexConfig_is_enabled (index_config_of m)) r1) (index_name_of m) = Some ix"
        by blast
      have "ix_id ix \<noteq> internal_id (developer_id i)"
        using True num rem(3,4) by (intro no_other_index [OF rem(2) _ _ _ ix]) simp_all
      moreover have "ix_id ix = internal_id (developer_id i)" using ex ix rem(5) unfolding di by blast
      ultimately show False by blast
    qed
    then have rep1: "represents parse (registry_insert (Index_new m i) r1) ((S(i := None))(i := Some d))"
      using rem(2-4) True m di num by (intro represents_insert) auto
    have "apply_verified_update parse old new r = Some (True, registry_insert (Index_new m i) r1)"
      using tab Some m di rem(3) by (simp add: apply_verified_update_def rem(1))
    from that [OF this] rep1 Some show ?thesis using rem(3,4) by (simp add: registry_insert_def Let_def)
  qed
qed

section \<open>The indexes of a table\<close>

text \<open>What the code relies on of the reader of index documents: \<open>TryFrom\<close> of the serialized metadata
  checks the descriptor.\<close>

definition parser_ok :: "'x index_parser \<Rightarrow> bool" where
  "parser_ok parse = (\<forall>d m. parse d = Some m \<longrightarrow> is_ok (check_valid_identifier_inner (snd (index_name_of m))))"

lemma valid_identifier_min:
  assumes "is_ok (check_valid_identifier_inner d)"
  shows "MIN_IDENTIFIER \<le> d"
proof -
  obtain c cs where d: "d = c # cs" and c: "is_ascii_alphabetic c \<or> c = 95"
    using assms by (auto simp: check_valid_identifier_inner_def split: list.splits if_splits)
  have "65 \<le> c" using c by (auto simp: is_ascii_alphabetic_def word_le_nat_alt)
  then show ?thesis by (cases cs) (auto simp: d MIN_IDENTIFIER_def ascii_def le_less)
qed

lemma table_index_name_id: "is_ok (check_valid_identifier_inner (snd n)) \<Longrightarrow> table_index_name n = Some n"
  by (cases n; cases "check_valid_identifier_inner (snd n)")
    (auto simp: table_index_name_def IndexName_by_id_def IndexName_by_creation_time_def IndexName_new_reserved_def
      IndexName_new_def)

lemma dropWhile_less: "sorted_wrt (<) ns \<Longrightarrow> dropWhile (\<lambda>n. n < x) ns = filter (\<lambda>n. x \<le> n) ns"
  for x :: "'a::linorder"
proof (induction ns)
  case (Cons n ns)
  show ?case
  proof (cases "n < x")
    case False
    with Cons.prems have "filter (\<lambda>n. x \<le> n) ns = ns" by (auto simp: filter_id_conv)
    with False show ?thesis by simp
  qed (use Cons in simp)
qed simp

lemma fst_mono: "m < n \<Longrightarrow> fst m \<le> fst n" for m :: "'a::linorder \<times> 'b::linorder"
  by (auto simp: less_prod_def)

lemma takeWhile_group:
  "sorted_wrt (<) ns \<Longrightarrow> \<forall>n \<in> set ns. t \<le> fst n \<Longrightarrow> takeWhile (\<lambda>n. fst n = t) ns = filter (\<lambda>n. fst n = t) ns"
  for ns :: "('a::linorder \<times> 'b::linorder) list"
proof (induction ns)
  case (Cons n ns)
  show ?case
  proof (cases "fst n = t")
    case False
    have "fst m \<noteq> t" if "m \<in> set ns" for m
    proof -
      have "fst n \<le> fst m" using Cons.prems(1) that by (intro fst_mono) simp
      with False Cons.prems(2) show ?thesis by fastforce
    qed
    with False show ?thesis by (simp add: filter_empty_conv)
  qed (use Cons in simp)
qed simp

lemma sorted_group:
  fixes ns :: "('a::linorder \<times> 'b::linorder) list"
  assumes ns: "sorted_wrt (<) ns" and a: "\<forall>n \<in> set ns. a \<le> snd n"
  shows "takeWhile (\<lambda>n. fst n = t) (dropWhile (\<lambda>n. n < (t, a)) ns) = filter (\<lambda>n. fst n = t) ns"
proof -
  have "takeWhile (\<lambda>n. fst n = t) (filter (\<lambda>n. (t, a) \<le> n) ns) = filter (\<lambda>n. fst n = t) (filter (\<lambda>n. (t, a) \<le> n) ns)"
    using ns by (intro takeWhile_group) (auto intro: sorted_wrt_filter simp: less_eq_prod_def)
  also have "\<dots> = filter (\<lambda>n. fst n = t) ns"
    using a by (auto simp: less_eq_prod_def intro: filter_cong)
  finally show ?thesis by (simp add: dropWhile_less [OF ns])
qed

lemma those_map: "(\<And>x. x \<in> set xs \<Longrightarrow> f x = Some (g x)) \<Longrightarrow> those (map f xs) = Some (map g xs)"
  by (induction xs) auto

text \<open>The indexes of a table never panic and are exactly the registered ones on that table.\<close>

lemma table_indexes_correct:
  assumes rep: "represents parse r S" and parse: "parser_ok parse"
  obtains ixs where "table_indexes r t = Some ixs"
    and "\<And>ix. ix \<in> set ixs \<longleftrightarrow> (\<exists>b n. registered parse (index_table r) S b n ix \<and> fst n = t)"
proof -
  note rep' = rep [unfolded represents_alt]
  let ?ns = "map fst (indexes_by_table r)"
  have names: "n \<in> set ?ns \<longleftrightarrow> (\<exists>b ix. registered parse (index_table r) S b n ix)" for n
  proof -
    have "n \<in> set ?ns \<longleftrightarrow> bt_get (indexes_by_table r) n \<noteq> None" by (force simp: bt_get_def map_of_eq_None_iff)
    also have "\<dots> \<longleftrightarrow> (\<exists>b. bt_get (state_indexes b r) n \<noteq> None)" using rep' by blast
    also have "\<dots> \<longleftrightarrow> (\<exists>b ix. registered parse (index_table r) S b n ix)" using rep' by (metis not_None_eq)
    finally show ?thesis .
  qed
  have valid: "is_ok (check_valid_identifier_inner (snd n))" if "n \<in> set ?ns" for n
    using that parse unfolding names by (auto simp: registered_def parser_ok_def)
  define g where "g n = List.map_filter (\<lambda>m. bt_get m n) [enabled_indexes r, pending_indexes r]" for n
  have g: "ix \<in> set (g n) \<longleftrightarrow> (\<exists>b. registered parse (index_table r) S b n ix)" for n ix
  proof -
    have "registered parse (index_table r) S True n ix \<longleftrightarrow> bt_get (enabled_indexes r) n = Some ix"
      "registered parse (index_table r) S False n ix \<longleftrightarrow> bt_get (pending_indexes r) n = Some ix"
      using rep by (simp_all add: represents_def)
    then show ?thesis by (auto simp: g_def map_filter_simps ex_bool_eq split: option.splits)
  qed
  have "named_indexes r n = Some (g n)" if "n \<in> set ?ns" for n
  proof -
    have "g n \<noteq> []" using that g unfolding names by (metis empty_iff list.set(1))
    with table_index_name_id [OF valid [OF that]] show ?thesis by (simp add: named_indexes_def g_def Let_def)
  qed
  moreover have "takeWhile (\<lambda>n. fst n = t) (dropWhile (\<lambda>n. n < (t, MIN_IDENTIFIER)) ?ns) = filter (\<lambda>n. fst n = t) ?ns"
    using rep' valid valid_identifier_min by (intro sorted_group) auto
  ultimately have "table_indexes r t = Some (concat (map g (filter (\<lambda>n. fst n = t) ?ns)))"
    unfolding table_indexes_def by (subst those_map [where g = g]) auto
  moreover have "ix \<in> set (concat (map g (filter (\<lambda>n. fst n = t) ?ns))) \<longleftrightarrow> (\<exists>b n. registered parse (index_table r) S b n ix \<and> fst n = t)" for ix
  proof -
    have "ix \<in> set (concat (map g (filter (\<lambda>n. fst n = t) ?ns))) \<longleftrightarrow> (\<exists>n. n \<in> set ?ns \<and> fst n = t \<and> ix \<in> set (g n))" by auto
    then show ?thesis unfolding names g by blast
  qed
  ultimately show ?thesis by (rule that)
qed

section \<open>Index updates\<close>

abbreviation index_update :: "'x index \<Rightarrow> index_key \<Rightarrow> database_index_value \<Rightarrow> database_index_update" where
  "index_update ix key v \<equiv> \<lparr>up_index_id = ix_id ix, up_key = key, up_value = v,
     is_system_index = IndexDescriptor_is_reserved (snd (ix_name ix))\<rparr>"

definition update_position :: "database_index_update \<Rightarrow> internal_id \<times> convex_value option list" where
  "update_position u = (up_index_id u, values_with_id (up_key u))"

lemma fold_bt_insert_other: "p \<notin> f ` set xs \<Longrightarrow> bt_get (fold (\<lambda>x. bt_insert (f x) (g x)) xs m) p = bt_get m p"
  by (induction xs arbitrary: m) auto

lemma fold_bt_insert_get:
  "inj_on f (set xs) \<Longrightarrow> x \<in> set xs \<Longrightarrow> bt_get (fold (\<lambda>x. bt_insert (f x) (g x)) xs m) (f x) = Some (g x)"
proof (induction xs arbitrary: m)
  case (Cons y ys)
  show ?case
  proof (cases "x \<in> set ys")
    case False
    with Cons.prems have "x = y" "f x \<notin> f ` set ys" by (auto simp: inj_on_def)
    then show ?thesis by (simp add: fold_bt_insert_other)
  qed (use Cons in simp)
qed simp

abbreviation key_position :: "'x index \<times> index_key \<Rightarrow> internal_id \<times> convex_value option list" where
  "key_position x \<equiv> (ix_id (fst x), values_with_id (snd x))"

lemma add_index_updates_alt:
  "add_index_updates v keys us = fold (\<lambda>x. bt_insert (key_position x) (index_update (fst x) (snd x) v)) keys us"
  by (simp add: add_index_updates_def case_prod_unfold)

lemma set_map_filter: "y \<in> set (List.map_filter f xs) \<longleftrightarrow> (\<exists>x \<in> set xs. f x = Some y)"
  by (induction xs) (auto simp: map_filter_simps split: option.splits)

lemma add_index_updates_ok: "bt_ok us \<Longrightarrow> bt_ok (add_index_updates v keys us)"
  by (induction keys arbitrary: us) (simp_all add: add_index_updates_alt)

lemma registered_inj:
  assumes "represents parse r S" and "registered parse (index_table r) S b n ix" and "registered parse (index_table r) S c m jx"
    and "ix_id ix = ix_id jx"
  shows "ix = jx"
proof -
  obtain d e where d: "S (ix_document_id ix) = Some d" "tablet_id (ix_document_id ix) = index_table r" "parse d = Some (ix_metadata ix)"
      "ix = Index_new (ix_metadata ix) (ix_document_id ix)"
    and e: "S (ix_document_id jx) = Some e" "tablet_id (ix_document_id jx) = index_table r" "parse e = Some (ix_metadata jx)"
      "jx = Index_new (ix_metadata jx) (ix_document_id jx)"
    using assms(2,3) unfolding registered_def by blast
  have "internal_id (developer_id (ix_document_id ix)) = internal_id (developer_id (ix_document_id jx))"
    using assms(4) d(4) e(4) by (metis Index_new_def index.select_convs(1))
  then have "ix_document_id ix = ix_document_id jx"
    using assms(1) unfolding represents_def by (blast intro: same_internal_id [OF _ d(1,2) e(1,2)])
  with d e show ?thesis by (metis option.inject)
qed

lemma index_keys_correct:
  assumes "represents parse r S" and "parser_ok parse"
  obtains keys where "index_keys r d = Some keys"
    and "\<And>ix key. (ix, key) \<in> set keys \<longleftrightarrow> (\<exists>b n fs s. registered parse (index_table r) S b n ix \<and> fst n = doc_tablet_id d
        \<and> ix_config ix = DatabaseConfig fs s \<and> key = ResolvedDocument_index_key d fs)"
proof -
  obtain ixs where ixs: "table_indexes r (doc_tablet_id d) = Some ixs"
    "\<And>ix. ix \<in> set ixs \<longleftrightarrow> (\<exists>b n. registered parse (index_table r) S b n ix \<and> fst n = doc_tablet_id d)"
    using table_indexes_correct [OF assms] by blast
  let ?f = "\<lambda>ix. case ix_config ix of DatabaseConfig fs _ \<Rightarrow> Some (ix, ResolvedDocument_index_key d fs) | _ \<Rightarrow> None"
  have "(ix, key) \<in> set (List.map_filter ?f ixs) \<longleftrightarrow> ix \<in> set ixs \<and> (\<exists>fs s. ix_config ix = DatabaseConfig fs s \<and> key = ResolvedDocument_index_key d fs)" for ix key
  proof -
    have "?f jx = Some (ix, key) \<longleftrightarrow> jx = ix \<and> (\<exists>fs s. ix_config ix = DatabaseConfig fs s \<and> key = ResolvedDocument_index_key d fs)" for jx
      by (cases "ix_config jx") auto
    then show ?thesis by (simp add: set_map_filter)
  qed
  with ixs show ?thesis by (intro that [of "List.map_filter ?f ixs"]) (auto simp: index_keys_def)
qed

definition indexed_by :: "'x index_parser \<Rightarrow> 'x index_registry \<Rightarrow> document_store \<Rightarrow> tablet_id \<Rightarrow> 'x index \<Rightarrow> indexed_fields \<Rightarrow> bool" where
  "indexed_by parse r S t ix fs =
     (\<exists>b n s. registered parse (index_table r) S b n ix \<and> fst n = t \<and> ix_config ix = DatabaseConfig fs s)"

lemma indexed_by_inj:
  assumes "represents parse r S" and "indexed_by parse r S t ix fs" and "indexed_by parse r S u jx gs" and "ix_id ix = ix_id jx"
  shows "ix = jx" and "fs = gs"
proof -
  show "ix = jx" using assms registered_inj unfolding indexed_by_def by blast
  with assms show "fs = gs" by (auto simp: indexed_by_def)
qed

lemma fold_bt_insert_iff:
  "inj_on f (set xs) \<Longrightarrow> bt_get (fold (\<lambda>x. bt_insert (f x) (g x)) xs m) p = Some u
     \<longleftrightarrow> (\<exists>x \<in> set xs. p = f x \<and> u = g x) \<or> p \<notin> f ` set xs \<and> bt_get m p = Some u"
  using fold_bt_insert_get [of f xs _ g m] fold_bt_insert_other [of p f xs g m]
  by (cases "p \<in> f ` set xs") (auto simp: inj_on_def)

lemma document_keys:
  assumes "represents parse r S" and "parser_ok parse" and d: "doc_tablet_id d = t"
  obtains keys where "index_keys r d = Some keys" and "inj_on key_position (set keys)"
    and "\<And>ix key. (ix, key) \<in> set keys \<longleftrightarrow> (\<exists>fs. indexed_by parse r S t ix fs \<and> key = ResolvedDocument_index_key d fs)"
proof -
  obtain keys where keys: "index_keys r d = Some keys"
    "\<And>ix key. (ix, key) \<in> set keys \<longleftrightarrow> (\<exists>b n fs s. registered parse (index_table r) S b n ix \<and> fst n = doc_tablet_id d
        \<and> ix_config ix = DatabaseConfig fs s \<and> key = ResolvedDocument_index_key d fs)"
    using index_keys_correct [OF assms(1,2), of d] by blast
  then have k: "(ix, key) \<in> set keys \<longleftrightarrow> (\<exists>fs. indexed_by parse r S t ix fs \<and> key = ResolvedDocument_index_key d fs)" for ix key
    using d by (auto simp: indexed_by_def)
  have "inj_on key_position (set keys)"
  proof (rule inj_onI)
    fix x y
    assume xy: "x \<in> set keys" "y \<in> set keys" "key_position x = key_position y"
    then have "(fst x, snd x) \<in> set keys" "(fst y, snd y) \<in> set keys" "ix_id (fst x) = ix_id (fst y)" by simp_all
    then show "x = y" unfolding k using indexed_by_inj [OF assms(1)] by (metis prod.collapse)
  qed
  with keys(1) k show ?thesis by (intro that)
qed

lemma optional_document_keys:
  assumes "represents parse r S" and "parser_ok parse" and "\<forall>d. doc = Some d \<longrightarrow> doc_tablet_id d = t"
  obtains keys where "(case doc of None \<Rightarrow> Some [] | Some d \<Rightarrow> index_keys r d) = Some keys" and "inj_on key_position (set keys)"
    and "\<And>ix key. (ix, key) \<in> set keys \<longleftrightarrow> (\<exists>fs d. doc = Some d \<and> indexed_by parse r S t ix fs \<and> key = ResolvedDocument_index_key d fs)"
proof (cases doc)
  case None
  then show ?thesis by (intro that [of "[]"]) auto
next
  case (Some d)
  obtain keys where keys: "index_keys r d = Some keys" "inj_on key_position (set keys)"
    "\<And>ix key. (ix, key) \<in> set keys \<longleftrightarrow> (\<exists>fs. indexed_by parse r S t ix fs \<and> key = ResolvedDocument_index_key d fs)"
    using document_keys [OF assms(1,2), of d t] assms(3) Some by blast
  show ?thesis by (rule that [of keys]) (use keys Some in auto)
qed

lemma index_updates_correct:
  assumes rep: "represents parse r S" and parse: "parser_ok parse" and t: "\<forall>d. old = Some d \<or> new = Some d \<longrightarrow> doc_tablet_id d = t"
  shows "\<exists>us. index_updates r old new = Some us \<and> distinct (map update_position us)
    \<and> (\<forall>u. u \<in> set us \<longleftrightarrow> (\<exists>ix fs. indexed_by parse r S t ix fs \<and>
         ((\<exists>d. new = Some d \<and> u = index_update ix (ResolvedDocument_index_key d fs) (NonClustered (ResolvedDocument_id d)))
        \<or> (\<exists>d. old = Some d \<and> u = index_update ix (ResolvedDocument_index_key d fs) Deleted
             \<and> (\<forall>e. new = Some e \<longrightarrow> values_with_id (ResolvedDocument_index_key e fs) \<noteq> values_with_id (ResolvedDocument_index_key d fs))))))"
proof -
  obtain ko where ko: "(case old of None \<Rightarrow> Some [] | Some d \<Rightarrow> index_keys r d) = Some ko" "inj_on key_position (set ko)"
      "\<And>ix key. (ix, key) \<in> set ko \<longleftrightarrow> (\<exists>fs d. old = Some d \<and> indexed_by parse r S t ix fs \<and> key = ResolvedDocument_index_key d fs)"
    using optional_document_keys [OF rep parse, of old t] t by blast
  obtain kn where kn: "(case new of None \<Rightarrow> Some [] | Some d \<Rightarrow> index_keys r d) = Some kn" "inj_on key_position (set kn)"
      "\<And>ix key. (ix, key) \<in> set kn \<longleftrightarrow> (\<exists>fs d. new = Some d \<and> indexed_by parse r S t ix fs \<and> key = ResolvedDocument_index_key d fs)"
    using optional_document_keys [OF rep parse, of new t] t by blast
  let ?v = "case new of None \<Rightarrow> Deleted | Some d \<Rightarrow> NonClustered (ResolvedDocument_id d)"
  define M where "M = add_index_updates ?v kn (add_index_updates Deleted ko [])"
  have us: "index_updates r old new = Some (map snd M)"
    using ko(1) kn(1) by (auto simp: index_updates_def M_def add_index_updates_def split: option.splits)
  have ok: "bt_ok M" by (simp add: M_def add_index_updates_ok)
  have get: "bt_get M p = Some u \<longleftrightarrow> (\<exists>x \<in> set kn. p = key_position x \<and> u = index_update (fst x) (snd x) ?v)
      \<or> p \<notin> key_position ` set kn \<and> (\<exists>x \<in> set ko. p = key_position x \<and> u = index_update (fst x) (snd x) Deleted)" for p u
    unfolding M_def add_index_updates_alt using ko(2) kn(2)
    by (subst fold_bt_insert_iff, simp, subst fold_bt_insert_iff, simp) (auto simp: bt_get_def)
  have "map update_position (map snd M) = map fst M"
  proof -
    have "update_position u = p" if "(p, u) \<in> set M" for p u
      using that get [of p u] bt_get_iff [OF ok] by (auto simp: update_position_def)
    then show ?thesis by auto
  qed
  then have "distinct (map update_position (map snd M))" using ok by (simp only: strict_sorted_iff)
  moreover have "u \<in> set (map snd M) \<longleftrightarrow> (\<exists>ix fs. indexed_by parse r S t ix fs \<and>
         ((\<exists>d. new = Some d \<and> u = index_update ix (ResolvedDocument_index_key d fs) (NonClustered (ResolvedDocument_id d)))
        \<or> (\<exists>d. old = Some d \<and> u = index_update ix (ResolvedDocument_index_key d fs) Deleted
             \<and> (\<forall>e. new = Some e \<longrightarrow> values_with_id (ResolvedDocument_index_key e fs) \<noteq> values_with_id (ResolvedDocument_index_key d fs)))))" for u
  proof -
    have "u \<in> set (map snd M) \<longleftrightarrow> (\<exists>p. bt_get M p = Some u)" using bt_get_iff [OF ok] by force
    also have "\<dots> \<longleftrightarrow> (\<exists>x \<in> set kn. u = index_update (fst x) (snd x) ?v)
        \<or> (\<exists>x \<in> set ko. key_position x \<notin> key_position ` set kn \<and> u = index_update (fst x) (snd x) Deleted)"
      unfolding get by blast
    also have "\<dots> \<longleftrightarrow> (\<exists>ix key. (ix, key) \<in> set kn \<and> u = index_update ix key ?v)
        \<or> (\<exists>ix key. (ix, key) \<in> set ko \<and> (\<forall>jx key'. (jx, key') \<in> set kn \<longrightarrow> (ix_id jx, values_with_id key') \<noteq> (ix_id ix, values_with_id key))
             \<and> u = index_update ix key Deleted)"
      by (simp add: image_iff split_paired_Ex split_paired_All Bex_def) metis
    also have "\<dots> \<longleftrightarrow> (\<exists>ix fs. indexed_by parse r S t ix fs \<and>
         ((\<exists>d. new = Some d \<and> u = index_update ix (ResolvedDocument_index_key d fs) (NonClustered (ResolvedDocument_id d)))
        \<or> (\<exists>d. old = Some d \<and> u = index_update ix (ResolvedDocument_index_key d fs) Deleted
             \<and> (\<forall>e. new = Some e \<longrightarrow> values_with_id (ResolvedDocument_index_key e fs) \<noteq> values_with_id (ResolvedDocument_index_key d fs)))))"
    proof -
      have "(\<forall>jx key'. (jx, key') \<in> set kn \<longrightarrow> (ix_id jx, values_with_id key') \<noteq> (ix_id ix, v))
          \<longleftrightarrow> (\<forall>e. new = Some e \<longrightarrow> values_with_id (ResolvedDocument_index_key e fs) \<noteq> v)"
        if ix: "indexed_by parse r S t ix fs" for ix fs v
        unfolding kn(3) using ix indexed_by_inj [OF rep _ ix] by blast
      moreover have "(\<exists>ix key. (ix, key) \<in> set kn \<and> u = index_update ix key ?v) \<longleftrightarrow> (\<exists>ix fs. indexed_by parse r S t ix fs \<and>
          (\<exists>d. new = Some d \<and> u = index_update ix (ResolvedDocument_index_key d fs) (NonClustered (ResolvedDocument_id d))))"
        unfolding kn(3) by (cases new) (simp, simp, blast)
      ultimately show ?thesis unfolding ko(3) by blast
    qed
    finally show ?thesis .
  qed
  ultimately show ?thesis using us by blast
qed

text \<open>C24. The index updates of a change of a document never panic, touch every position at most
  once, and are exactly the new key in every database index of its table, enabled or still
  backfilling, and the removal of the old key where the key has changed.\<close>

theorem index_updates_exact:
  assumes rep: "represents parse r S" and parse: "parser_ok parse" and t: "\<forall>d. old = Some d \<or> new = Some d \<longrightarrow> doc_tablet_id d = t"
  shows "\<exists>us. index_updates r old new = Some us \<and> distinct (map update_position us)
    \<and> (\<forall>u. u \<in> set us \<longleftrightarrow> (\<exists>ix fs. indexed_by parse r S t ix fs \<and>
         ((\<exists>d. new = Some d \<and> u = index_update ix (ResolvedDocument_index_key d fs) (NonClustered (ResolvedDocument_id d)))
        \<or> (\<exists>d. old = Some d \<and> u = index_update ix (ResolvedDocument_index_key d fs) Deleted
             \<and> (\<forall>e. new = Some e \<longrightarrow> values_with_id (ResolvedDocument_index_key e fs) \<noteq> values_with_id (ResolvedDocument_index_key d fs))))))"
  using assms by (rule index_updates_correct)

definition registry_empty :: "tablet_id \<Rightarrow> table_number \<Rightarrow> 'x index_registry" where
  "registry_empty t n = \<lparr>index_table = t, index_table_number = n, enabled_indexes = [], pending_indexes = [], indexes_by_table = []\<rparr>"

lemma registry_empty_represents: "represents parse (registry_empty t n) (\<lambda>_. None)"
  by (simp add: represents_def registry_empty_def registered_def index_documents_ok_def bt_get_def)

text \<open>An example: the index table with its own \<open>by_id\<close> index.\<close>

definition example_parse :: "unit index_parser" where
  "example_parse d =
     Some (if document_value d = [] then IndexMetadata_new_enabled (IndexName_by_id [0]) []
           else IndexMetadata_new_backfilling 3 ([0, 9], ascii ''by_a'') [[[97]]])"

definition example_index_document :: "internal_id \<Rightarrow> convex_object \<Rightarrow> resolved_document" where
  "example_index_document i v =
     \<lparr>doc_tablet_id = [0], document = \<lparr>doc_id = \<lparr>id_table = 1, internal_id = i\<rparr>, doc_creation_time = None, doc_value = v\<rparr>\<rparr>"

definition example_meta_id :: resolved_document_id where
  "example_meta_id = \<lparr>tablet_id = [0], developer_id = \<lparr>id_table = 1, internal_id = replicate 16 1\<rparr>\<rparr>"

definition example_registry :: "unit index_registry" where
  "example_registry = registry_insert (Index_new (IndexMetadata_new_enabled (IndexName_by_id [0]) []) example_meta_id) (registry_empty [0] 1)"

lemma example_registry_tables: "index_table example_registry = [0]" "index_table_number example_registry = 1"
  by (simp_all add: example_registry_def registry_insert_def registry_empty_def Let_def)

lemma example_represents:
  "represents example_parse example_registry ((\<lambda>_. None)(example_meta_id := Some (example_index_document (replicate 16 1) [])))"
  unfolding example_registry_def
  by (rule represents_insert [OF registry_empty_represents])
    (simp_all add: example_meta_id_def registry_empty_def example_parse_def example_index_document_def
      ResolvedDocument_id_def state_indexes_def bt_get_def)

lemma example_parser_ok: "parser_ok example_parse"
  by (auto simp: parser_ok_def example_parse_def IndexMetadata_new_enabled_def IndexMetadata_new_backfilling_def IndexName_by_id_def
      INDEX_BY_ID_DESCRIPTOR_def ascii_def check_valid_identifier_inner_def is_ascii_alphabetic_def is_ascii_alphanumeric_def
      MAX_IDENTIFIER_LEN_def)

lemma example_verified:
  "verify_update example_parse None (Some (example_index_document (replicate 16 2) [([97], Null)])) example_registry = Inr ()"
    by (simp add: verify_update_def verify_added_def example_index_document_def example_registry_def registry_insert_def
        registry_empty_def IndexMetadata_new_enabled_def IndexConfig_is_enabled_def Index_new_def bt_get_def parse_index_def
        example_parse_def IndexMetadata_new_backfilling_def IndexName_is_by_id_def IndexName_by_id_def INDEX_BY_ID_DESCRIPTOR_def
        ascii_def verify_index_state_def existing_is_none_or_equal_def)

lemma example_indexed:
  "indexed_by example_parse example_registry ((\<lambda>_. None)(example_meta_id := Some (example_index_document (replicate 16 1) []))) [0]
     (Index_new (IndexMetadata_new_enabled (IndexName_by_id [0]) []) example_meta_id) []"
proof -
  let ?S = "(\<lambda>_. None)(example_meta_id := Some (example_index_document (replicate 16 1) []))"
  let ?ix = "Index_new (IndexMetadata_new_enabled (IndexName_by_id [0]) []) example_meta_id :: unit index"
  have "registered example_parse (index_table example_registry) ?S True (IndexName_by_id [0]) ?ix"
    by (simp add: registered_def Index_new_def example_meta_id_def example_parse_def example_index_document_def
        IndexMetadata_new_enabled_def IndexConfig_is_enabled_def example_registry_tables)
  then show ?thesis
    unfolding indexed_by_def
    by (intro exI [of _ True] exI [of _ "IndexName_by_id [0]"] exI [of _ Enabled])
      (simp add: Index_new_def IndexMetadata_new_enabled_def IndexName_by_id_def)
qed

text \<open>C34. The registry is a view of the \<open>_index\<close> table: an update that fails verification changes
  nothing, a verified one never panics, and the new registry represents the store with the document
  replaced; a document of another table leaves the registry as it is.\<close>

theorem registry_update_refines:
  assumes "represents parse r S" and "S i = old" and "\<forall>d. old = Some d \<or> new = Some d \<longrightarrow> ResolvedDocument_id d = i"
    and "tablet_id i = index_table r \<longrightarrow> id_table (developer_id i) = index_table_number r"
  shows "case verify_update parse old new r of
      Inl e \<Rightarrow> registry_update parse old new r = Some (Inl e)
    | Inr _ \<Rightarrow> \<exists>r'. registry_update parse old new r = Some (Inr r') \<and> represents parse r' (S(i := new))
        \<and> (tablet_id i \<noteq> index_table r \<longrightarrow> r' = r)"
proof (cases "verify_update parse old new r")
  case (Inr u)
  then have "verify_update parse old new r = Inr ()" by simp
  from registry_update_correct [OF assms this] obtain b r'
    where r': "apply_verified_update parse old new r = Some (b, r')" "represents parse r' (S(i := new))" "\<not> b \<longrightarrow> r' = r"
    by blast
  moreover have "\<not> b" if "tablet_id i \<noteq> index_table r"
  proof -
    have "doc_tablet_id d \<noteq> index_table r" if "old = Some d \<or> new = Some d" for d
      using assms(3) that \<open>tablet_id i \<noteq> index_table r\<close> by (auto simp: ResolvedDocument_id_def)
    then show ?thesis using r'(1) by (auto simp: apply_verified_update_def remove_deleted_def split: option.splits)
  qed
  ultimately show ?thesis using Inr by (auto simp: registry_update_def)
qed (simp add: registry_update_def)

theorem registry_update_refines_witness:
  "\<exists>r'. registry_update example_parse None (Some (example_index_document (replicate 16 2) [([97], Null)])) example_registry = Some (Inr r')
     \<and> represents example_parse r' ((\<lambda>_. None)(example_meta_id := Some (example_index_document (replicate 16 1) []),
         example_meta_id\<lparr>developer_id := \<lparr>id_table = 1, internal_id = replicate 16 2\<rparr>\<rparr> := Some (example_index_document (replicate 16 2) [([97], Null)])))"
proof -
  from example_verified registry_update_refines [OF example_represents, of "example_meta_id\<lparr>developer_id := \<lparr>id_table = 1, internal_id = replicate 16 2\<rparr>\<rparr>" None
      "Some (example_index_document (replicate 16 2) [([97], Null)])"]
  show ?thesis
    by (simp add: example_meta_id_def example_index_document_def ResolvedDocument_id_def example_registry_tables)
qed

theorem index_updates_exact_witness:
  "\<exists>us. index_updates example_registry None (Some (example_index_document (replicate 16 2) [([97], Null)])) = Some us \<and> us \<noteq> []"
proof -
  let ?S = "(\<lambda>_. None)(example_meta_id := Some (example_index_document (replicate 16 1) []))"
  let ?ix = "Index_new (IndexMetadata_new_enabled (IndexName_by_id [0]) []) example_meta_id :: unit index" and ?d = "example_index_document (replicate 16 2) [([97], Null)]"
  note ix = example_indexed
  have "\<forall>d. None = Some d \<or> Some ?d = Some d \<longrightarrow> doc_tablet_id d = [0]" by (simp add: example_index_document_def)
  from index_updates_exact [OF example_represents example_parser_ok this]
  obtain us where us: "index_updates example_registry None (Some ?d) = Some us"
    and mem: "\<forall>u. u \<in> set us \<longleftrightarrow> (\<exists>ix fs. indexed_by example_parse example_registry ?S [0] ix fs \<and>
         ((\<exists>d. Some ?d = Some d \<and> u = index_update ix (ResolvedDocument_index_key d fs) (NonClustered (ResolvedDocument_id d)))
        \<or> (\<exists>d. None = Some d \<and> u = index_update ix (ResolvedDocument_index_key d fs) Deleted
             \<and> (\<forall>e. Some ?d = Some e \<longrightarrow> values_with_id (ResolvedDocument_index_key e fs) \<noteq> values_with_id (ResolvedDocument_index_key d fs)))))"
    by (elim exE conjE)
  have "index_update ?ix (ResolvedDocument_index_key ?d []) (NonClustered (ResolvedDocument_id ?d)) \<in> set us"
    using ix by (subst mem [THEN spec]) (intro exI [of _ ?ix] exI [of _ "[]"] conjI disjI1 exI [of _ ?d] refl)
  with us show ?thesis by (intro exI [of _ us]) auto
qed

end
