(* ===== verification/Table_Registry.thy ===== *)
theory Table_Registry
  imports Index_Registry
begin

text \<open>
  The tables: names (\<open>value/src/table_name.rs\<close>), namespaces and the table mapping
  (\<open>value/src/table_mapping.rs\<close>), the metadata of a table
  (\<open>common/src/bootstrap_model/tables.rs\<close>), the table registry (\<open>database/src/table_registry.rs\<close>) and
  its bootstrap (\<open>table_mapping_and_states\<close> of \<open>database/src/database.rs\<close>).

  The serde reader of a \<open>_tables\<close> document is a parameter (\<open>parse\<close>); the fields it reads are
  converted here.  Where the code panics the model returns \<open>None\<close>.
\<close>

declare split_paired_All [simp del] split_paired_Ex [simp del]

section \<open>Names and namespaces\<close>

definition METADATA_PREFIX :: bytes where "METADATA_PREFIX = ascii ''_''"

definition TableName_from_str :: "bytes \<Rightarrow> identifier_error + table_name" where
  "TableName_from_str s = bind_result (check_valid_identifier_inner s) (\<lambda>_. Inr s)"

definition TableName_is_system :: "table_name \<Rightarrow> bool" where
  "TableName_is_system n = prefix METADATA_PREFIX n"

datatype table_namespace = Global | ByComponent developer_document_id

instantiation table_namespace :: linorder
begin

fun less_table_namespace :: "table_namespace \<Rightarrow> table_namespace \<Rightarrow> bool" where
  "less_table_namespace Global n = (n \<noteq> Global)"
| "less_table_namespace (ByComponent a) Global = False"
| "less_table_namespace (ByComponent a) (ByComponent b) = (a < b)"

fun less_eq_table_namespace :: "table_namespace \<Rightarrow> table_namespace \<Rightarrow> bool" where
  "less_eq_table_namespace Global n = True"
| "less_eq_table_namespace (ByComponent a) Global = False"
| "less_eq_table_namespace (ByComponent a) (ByComponent b) = (a \<le> b)"

instance
proof
  fix x y z :: table_namespace
  show "x < y \<longleftrightarrow> x \<le> y \<and> \<not> y \<le> x" by (cases x; cases y) auto
  show "x \<le> x" by (cases x) simp_all
  show "x \<le> y \<Longrightarrow> y \<le> z \<Longrightarrow> x \<le> z" by (cases x; cases y; cases z) auto
  show "x \<le> y \<Longrightarrow> y \<le> x \<Longrightarrow> x = y" by (cases x; cases y) auto
  show "x \<le> y \<or> y \<le> x" by (cases x; cases y) auto
qed

end

section \<open>The table mapping\<close>

type_synonym 'k canonical = "(table_namespace, ('k, tablet_id) btree) btree"

record table_mapping =
  tablet_to_table :: "(tablet_id, table_namespace \<times> table_number \<times> table_name) btree"
  table_name_to_canonical_tablet :: "table_name canonical"
  table_number_to_canonical_tablet :: "table_number canonical"

definition TableMapping_new :: table_mapping where
  "TableMapping_new =
     \<lparr>tablet_to_table = [], table_name_to_canonical_tablet = [], table_number_to_canonical_tablet = []\<rparr>"

text \<open>\<open>entry(namespace).or_default()\<close> followed by an insertion or a removal, and
  \<open>get(namespace).and_then(..)\<close>.\<close>

definition canonical_insert :: "table_namespace \<Rightarrow> 'k::linorder \<Rightarrow> tablet_id \<Rightarrow> 'k canonical \<Rightarrow> 'k canonical" where
  "canonical_insert ns k t m = bt_insert ns (bt_insert k t (get_or [] m ns)) m"

definition canonical_remove :: "table_namespace \<Rightarrow> 'k::linorder \<Rightarrow> 'k canonical \<Rightarrow> 'k canonical" where
  "canonical_remove ns k m = bt_insert ns (bt_remove k (get_or [] m ns)) m"

definition canonical_get :: "'k::linorder canonical \<Rightarrow> table_namespace \<Rightarrow> 'k \<Rightarrow> tablet_id option" where
  "canonical_get m ns k = Option.bind (bt_get m ns) (\<lambda>inner. bt_get inner k)"

definition TableMapping_insert_tablet ::
    "tablet_id \<Rightarrow> table_namespace \<Rightarrow> table_number \<Rightarrow> table_name \<Rightarrow> table_mapping \<Rightarrow> table_mapping" where
  "TableMapping_insert_tablet t ns n name m =
     m\<lparr>tablet_to_table := bt_insert t (ns, n, name) (tablet_to_table m)\<rparr>"

definition TableMapping_insert ::
    "tablet_id \<Rightarrow> table_namespace \<Rightarrow> table_number \<Rightarrow> table_name \<Rightarrow> table_mapping \<Rightarrow> table_mapping" where
  "TableMapping_insert t ns n name m =
     (let m = TableMapping_insert_tablet t ns n name m
      in m\<lparr>table_name_to_canonical_tablet := canonical_insert ns name t (table_name_to_canonical_tablet m),
           table_number_to_canonical_tablet := canonical_insert ns n t (table_number_to_canonical_tablet m)\<rparr>)"

definition TableMapping_remove :: "tablet_id \<Rightarrow> table_mapping \<Rightarrow> table_mapping option" where
  "TableMapping_remove t m =
     (case bt_get (tablet_to_table m) t of
        None \<Rightarrow> None
      | Some (ns, n, name) \<Rightarrow>
          Some (m\<lparr>tablet_to_table := bt_remove t (tablet_to_table m),
                  table_name_to_canonical_tablet :=
                    (if canonical_get (table_name_to_canonical_tablet m) ns name = Some t
                     then canonical_remove ns name (table_name_to_canonical_tablet m)
                     else table_name_to_canonical_tablet m),
                  table_number_to_canonical_tablet :=
                    (if canonical_get (table_number_to_canonical_tablet m) ns n = Some t
                     then canonical_remove ns n (table_number_to_canonical_tablet m)
                     else table_number_to_canonical_tablet m)\<rparr>))"

definition TableMapping_update :: "table_mapping \<Rightarrow> table_mapping \<Rightarrow> table_mapping" where
  "TableMapping_update other m =
     fold (\<lambda>(t, ns, n, name). TableMapping_insert t ns n name) (tablet_to_table other) m"

definition TableMapping_tablet_id_exists :: "table_mapping \<Rightarrow> tablet_id \<Rightarrow> bool" where
  "TableMapping_tablet_id_exists m t = (bt_get (tablet_to_table m) t \<noteq> None)"

definition tablet_name :: "table_mapping \<Rightarrow> tablet_id \<Rightarrow> table_name option" where
  "tablet_name m t = map_option (\<lambda>(_, _, name). name) (bt_get (tablet_to_table m) t)"

definition tablet_number :: "table_mapping \<Rightarrow> tablet_id \<Rightarrow> table_number option" where
  "tablet_number m t = map_option (\<lambda>(_, n, _). n) (bt_get (tablet_to_table m) t)"

definition tablet_namespace :: "table_mapping \<Rightarrow> tablet_id \<Rightarrow> table_namespace option" where
  "tablet_namespace m t = map_option (\<lambda>(ns, _, _). ns) (bt_get (tablet_to_table m) t)"

definition TableMapping_is_system_tablet :: "table_mapping \<Rightarrow> tablet_id \<Rightarrow> bool" where
  "TableMapping_is_system_tablet m t =
     (case bt_get (tablet_to_table m) t of Some (_, _, name) \<Rightarrow> TableName_is_system name | None \<Rightarrow> False)"

definition TableMapping_is_active :: "table_mapping \<Rightarrow> tablet_id \<Rightarrow> bool" where
  "TableMapping_is_active m t =
     (case bt_get (tablet_to_table m) t of
        None \<Rightarrow> False
      | Some (ns, n, _) \<Rightarrow>
          (case canonical_get (table_number_to_canonical_tablet m) ns n of
             None \<Rightarrow> False
           | Some active \<Rightarrow> t = active))"

definition TableMapping_iter_active_user_tables ::
    "table_mapping \<Rightarrow> (tablet_id \<times> table_namespace \<times> table_number \<times> table_name) list" where
  "TableMapping_iter_active_user_tables m =
     filter (\<lambda>(t, _, _, name). \<not> TableName_is_system name \<and> TableMapping_is_active m t) (tablet_to_table m)"

definition namespaces_for_name :: "table_mapping \<Rightarrow> table_name \<Rightarrow> table_namespace list" where
  "namespaces_for_name m name =
     map (\<lambda>(_, ns, _, _). ns) (filter (\<lambda>(_, _, _, name'). name' = name) (tablet_to_table m))"

section \<open>The mapping of one namespace\<close>

record namespaced_table_mapping =
  mapping_namespace :: table_namespace
  ns_tablets :: "(tablet_id, table_namespace \<times> table_number \<times> table_name) btree"
  ns_names :: "(table_name, tablet_id) btree"
  ns_numbers :: "(table_number, tablet_id) btree"

definition TableMapping_namespace :: "table_mapping \<Rightarrow> table_namespace \<Rightarrow> namespaced_table_mapping" where
  "TableMapping_namespace m ns =
     \<lparr>mapping_namespace = ns, ns_tablets = tablet_to_table m,
      ns_names = get_or [] (table_name_to_canonical_tablet m) ns,
      ns_numbers = get_or [] (table_number_to_canonical_tablet m) ns\<rparr>"

definition ns_iter :: "namespaced_table_mapping \<Rightarrow> (tablet_id \<times> table_number \<times> table_name) list" where
  "ns_iter m =
     map (\<lambda>(t, _, n, name). (t, n, name)) (filter (\<lambda>(_, ns, _, _). ns = mapping_namespace m) (ns_tablets m))"

definition id_if_exists :: "namespaced_table_mapping \<Rightarrow> table_name \<Rightarrow> tablet_id option" where
  "id_if_exists m name = bt_get (ns_names m) name"

definition id_and_number_if_exists :: "namespaced_table_mapping \<Rightarrow> table_name \<Rightarrow> (tablet_id \<times> table_number) option" where
  "id_and_number_if_exists m name =
     Option.bind (id_if_exists m name) (\<lambda>t.
       map_option (\<lambda>(_, n, _). (t, n)) (bt_get (ns_tablets m) t))"

definition table_number_exists :: "namespaced_table_mapping \<Rightarrow> table_number \<Rightarrow> bool" where
  "table_number_exists m n = (bt_get (ns_numbers m) n \<noteq> None)"

definition name_by_number_if_exists :: "namespaced_table_mapping \<Rightarrow> table_number \<Rightarrow> table_name option" where
  "name_by_number_if_exists m n =
     map_option (\<lambda>(_, _, name). name) (Option.bind (bt_get (ns_numbers m) n) (bt_get (ns_tablets m)))"

definition name_exists :: "namespaced_table_mapping \<Rightarrow> table_name \<Rightarrow> bool" where
  "name_exists m name = (bt_get (ns_names m) name \<noteq> None)"

definition ns_is_active :: "namespaced_table_mapping \<Rightarrow> tablet_id \<Rightarrow> bool" where
  "ns_is_active m t =
     (case bt_get (ns_tablets m) t of
        None \<Rightarrow> False
      | Some (_, n, _) \<Rightarrow> (case bt_get (ns_numbers m) n of None \<Rightarrow> False | Some active \<Rightarrow> t = active))"

definition tablet_matches_name :: "namespaced_table_mapping \<Rightarrow> tablet_id \<Rightarrow> table_name \<Rightarrow> bool" where
  "tablet_matches_name m t name =
     (case bt_get (ns_tablets m) t of Some (_, _, table_name) \<Rightarrow> name = table_name | None \<Rightarrow> False)"

definition number_to_tablet :: "namespaced_table_mapping \<Rightarrow> table_number \<Rightarrow> tablet_id option" where
  "number_to_tablet m n = bt_get (ns_numbers m) n"

definition ns_iter_active_user_tables :: "namespaced_table_mapping \<Rightarrow> (tablet_id \<times> table_number \<times> table_name) list" where
  "ns_iter_active_user_tables m =
     filter (\<lambda>(t, _, name). \<not> TableName_is_system name \<and> ns_is_active m t) (ns_iter m)"

definition TableMappingValue_from :: "namespaced_table_mapping \<Rightarrow> (table_number, table_name) btree" where
  "TableMappingValue_from m =
     fold (\<lambda>(_, n, name). bt_insert n name)
       (filter (\<lambda>(t, _, _). ns_is_active m t) (filter (\<lambda>(_, _, name). \<not> TableName_is_system name) (ns_iter m))) []"

section \<open>Table metadata\<close>

datatype table_state = Active | Hidden | Deleting

record table_metadata =
  meta_name :: table_name
  meta_number :: table_number
  meta_state :: table_state
  meta_namespace :: table_namespace

definition TableMetadata_is_active :: "table_metadata \<Rightarrow> bool" where
  "TableMetadata_is_active m = (meta_state m = Active)"

record serialized_table_metadata =
  ser_name :: bytes
  ser_number :: i64
  ser_state :: bytes
  ser_namespace :: "bytes option"

datatype metadata_error =
    BadName identifier_error | BadNumber | BadTableNumber table_number_error | BadState | BadNamespace id_decode_error

definition table_namespace_to_serialized :: "table_namespace \<Rightarrow> bytes option" where
  "table_namespace_to_serialized ns =
     (case ns of Global \<Rightarrow> None | ByComponent i \<Rightarrow> Some (DeveloperDocumentId_encode i))"

definition table_namespace_from_serialized :: "bytes option \<Rightarrow> id_decode_error + table_namespace" where
  "table_namespace_from_serialized s =
     (case s of None \<Rightarrow> Inr Global | Some i \<Rightarrow> bind_result (DeveloperDocumentId_decode i) (\<lambda>i. Inr (ByComponent i)))"

fun table_state_to_str :: "table_state \<Rightarrow> bytes" where
  "table_state_to_str Active = ascii ''active''"
| "table_state_to_str Deleting = ascii ''deleting''"
| "table_state_to_str Hidden = ascii ''hidden''"

definition table_state_from_str :: "bytes \<Rightarrow> metadata_error + table_state" where
  "table_state_from_str s =
     (if s = ascii ''active'' then Inr Active
      else if s = ascii ''deleting'' then Inr Deleting
      else if s = ascii ''hidden'' then Inr Hidden
      else Inl BadState)"

definition map_error :: "('e \<Rightarrow> 'f) \<Rightarrow> 'e + 'a \<Rightarrow> 'f + 'a" where
  "map_error f r = (case r of Inl e \<Rightarrow> Inl (f e) | Inr x \<Rightarrow> Inr x)"

text \<open>\<open>u32::try_from\<close> of an \<open>i64\<close>, then \<open>TableNumber::try_from\<close>.\<close>

definition table_number_from_i64 :: "i64 \<Rightarrow> metadata_error + table_number" where
  "table_number_from_i64 n =
     (if 0 \<le> sint n \<and> sint n < 2 ^ 32 then map_error BadTableNumber (TableNumber_try_from (of_int (sint n)))
      else Inl BadNumber)"

definition TableMetadata_to_serialized :: "table_metadata \<Rightarrow> serialized_table_metadata" where
  "TableMetadata_to_serialized m =
     \<lparr>ser_name = meta_name m, ser_number = ucast (meta_number m), ser_state = table_state_to_str (meta_state m),
      ser_namespace = table_namespace_to_serialized (meta_namespace m)\<rparr>"

definition TableMetadata_from_serialized :: "serialized_table_metadata \<Rightarrow> metadata_error + table_metadata" where
  "TableMetadata_from_serialized s =
     bind_result (map_error BadName (TableName_from_str (ser_name s))) (\<lambda>name.
     bind_result (table_number_from_i64 (ser_number s)) (\<lambda>n.
     bind_result (table_state_from_str (ser_state s)) (\<lambda>st.
     bind_result (map_error BadNamespace (table_namespace_from_serialized (ser_namespace s))) (\<lambda>ns.
       Inr \<lparr>meta_name = name, meta_number = n, meta_state = st, meta_namespace = ns\<rparr>))))"

section \<open>The table registry\<close>

record table_registry =
  tablet_states :: "(tablet_id, table_state) btree"
  registry_mapping :: table_mapping

datatype table_update_mode = Create | Activate | Drop

record table_update =
  tu_namespace :: table_namespace
  tu_tablet :: tablet_id
  tu_number :: table_number
  tu_name :: table_name
  tu_state :: table_state
  tu_mode :: table_update_mode

datatype table_error =
    ParseTable | DuplicateTable | NumberTaken | DeleteNotAllowed | RenameTable | ChangeNumber | BootstrapTable
  | TableHasIndexes | DeleteTombstone

type_synonym table_parser = "convex_object \<Rightarrow> table_metadata option"

definition TABLES_TABLE :: table_name where "TABLES_TABLE = ascii ''_tables''"

definition bootstrap_system_tables :: "table_name list" where
  "bootstrap_system_tables =
     [TABLES_TABLE, ascii ''_index'', ascii ''_schemas'', ascii ''_index_worker_metadata'',
      ascii ''_component_definitions'', ascii ''_components'']"

definition TableRegistry_bootstrap :: "table_mapping \<Rightarrow> (tablet_id, table_state) btree \<Rightarrow> table_registry" where
  "TableRegistry_bootstrap m states = \<lparr>tablet_states = states, registry_mapping = m\<rparr>"

definition table_exists :: "table_registry \<Rightarrow> table_namespace \<Rightarrow> table_name \<Rightarrow> bool" where
  "table_exists reg ns name = name_exists (TableMapping_namespace (registry_mapping reg) ns) name"

definition validate_table_number ::
    "table_registry \<Rightarrow> table_namespace \<Rightarrow> table_number \<Rightarrow> table_name \<Rightarrow> table_error + unit" where
  "validate_table_number reg ns n name =
     (case name_by_number_if_exists (TableMapping_namespace (registry_mapping reg) ns) n of
        Some existing \<Rightarrow> require (existing = name) NumberTaken
      | None \<Rightarrow> Inr ())"

definition parse_table :: "table_parser \<Rightarrow> convex_object \<Rightarrow> table_error + table_metadata" where
  "parse_table parse obj = (case parse obj of Some m \<Rightarrow> Inr m | None \<Rightarrow> Inl ParseTable)"

definition table_creation :: "table_registry \<Rightarrow> tablet_id \<Rightarrow> table_metadata \<Rightarrow> table_error + table_update" where
  "table_creation reg t m =
     bind_result
       (if TableMetadata_is_active m then
          bind_result (require (\<not> table_exists reg (meta_namespace m) (meta_name m)) DuplicateTable) (\<lambda>_.
            validate_table_number reg (meta_namespace m) (meta_number m) (meta_name m))
        else Inr ())
       (\<lambda>_. Inr \<lparr>tu_namespace = meta_namespace m, tu_tablet = t, tu_number = meta_number m, tu_name = meta_name m,
                 tu_state = meta_state m, tu_mode = Create\<rparr>)"

text \<open>\<open>None\<close> is the panic of \<open>has_no_indexes\<close>.\<close>

definition table_edit ::
    "'x index_registry \<Rightarrow> tablet_id \<Rightarrow> table_metadata \<Rightarrow> table_metadata \<Rightarrow> (table_error + table_update option) option" where
  "table_edit r t old new =
     (let update = (\<lambda>mode. \<lparr>tu_namespace = meta_namespace old, tu_tablet = t, tu_number = meta_number old,
                        tu_name = meta_name old, tu_state = meta_state new, tu_mode = mode\<rparr>)
      in if meta_name old \<noteq> meta_name new then Some (Inl RenameTable)
         else if meta_number old \<noteq> meta_number new then Some (Inl ChangeNumber)
         else if TableMetadata_is_active old \<and> meta_state new = Deleting then
           (if meta_namespace new = Global \<and> meta_name new \<in> set bootstrap_system_tables then Some (Inl BootstrapTable)
            else map_option (\<lambda>b. if b then Inr (Some (update Drop)) else Inl TableHasIndexes) (has_no_indexes r t))
         else if meta_state old = Hidden \<and> TableMetadata_is_active new then Some (Inr (Some (update Activate)))
         else Some (Inr None))"

definition table_begin_update ::
    "table_parser \<Rightarrow> 'x index_registry \<Rightarrow> resolved_document_id \<Rightarrow> convex_object option \<Rightarrow> convex_object option
     \<Rightarrow> table_registry \<Rightarrow> (table_error + table_update option) option" where
  "table_begin_update parse r i old new reg =
     (if tablet_matches_name (TableMapping_namespace (registry_mapping reg) Global) (tablet_id i) TABLES_TABLE then
        (let t = internal_id (developer_id i)
         in case (old, new) of
              (None, Some new_value) \<Rightarrow>
                Some (bind_result (parse_table parse new_value) (\<lambda>m.
                  bind_result (table_creation reg t m) (\<lambda>u. Inr (Some u))))
            | (Some _, None) \<Rightarrow> Some (Inl DeleteNotAllowed)
            | (Some old_value, Some new_value) \<Rightarrow>
                (case bind_result (parse_table parse new_value) (\<lambda>new_metadata.
                   bind_result (parse_table parse old_value) (\<lambda>old_metadata. Inr (old_metadata, new_metadata))) of
                   Inl e \<Rightarrow> Some (Inl e)
                 | Inr (old_metadata, new_metadata) \<Rightarrow> table_edit r t old_metadata new_metadata)
            | (None, None) \<Rightarrow> Some (Inl DeleteTombstone))
      else Some (Inr None))"

definition TableUpdate_activates :: "table_update \<Rightarrow> bool" where
  "TableUpdate_activates u = (tu_mode u = Activate \<or> tu_mode u = Create \<and> tu_state u = Active)"

definition table_apply :: "table_update option \<Rightarrow> table_registry \<Rightarrow> table_registry option" where
  "table_apply update reg =
     (case update of
        None \<Rightarrow> Some reg
      | Some u \<Rightarrow>
          (let m = (if TableUpdate_activates u
                    then TableMapping_insert (tu_tablet u) (tu_namespace u) (tu_number u) (tu_name u) (registry_mapping reg)
                    else registry_mapping reg);
               m' = (case tu_mode u of
                       Activate \<Rightarrow> Some m
                     | Create \<Rightarrow> Some (TableMapping_insert_tablet (tu_tablet u) (tu_namespace u) (tu_number u) (tu_name u) m)
                     | Drop \<Rightarrow> TableMapping_remove (tu_tablet u) m)
           in map_option (\<lambda>m. \<lparr>tablet_states = bt_insert (tu_tablet u) (tu_state u) (tablet_states reg),
                              registry_mapping = m\<rparr>) m'))"

definition TableRegistry_update ::
    "table_parser \<Rightarrow> 'x index_registry \<Rightarrow> resolved_document_id \<Rightarrow> convex_object option \<Rightarrow> convex_object option
     \<Rightarrow> table_registry \<Rightarrow> (table_error + table_update option \<times> table_registry) option" where
  "TableRegistry_update parse r i old new reg =
     (case table_begin_update parse r i old new reg of
        None \<Rightarrow> None
      | Some (Inl e) \<Rightarrow> Some (Inl e)
      | Some (Inr u) \<Rightarrow> map_option (\<lambda>reg. Inr (u, reg)) (table_apply u reg))"

definition iter_active_system_tables ::
    "table_registry \<Rightarrow> (tablet_id \<times> table_namespace \<times> table_number \<times> table_name) list" where
  "iter_active_system_tables reg =
     filter (\<lambda>(t, _, _, name). TableName_is_system name \<and> bt_get (tablet_states reg) t = Some Active)
       (tablet_to_table (registry_mapping reg))"

text \<open>Loading the tables: the parsed documents of the \<open>_tables\<close> table, each with the tablet it describes.\<close>

definition load_table ::
    "tablet_id \<times> table_metadata \<Rightarrow> table_mapping \<times> (tablet_id, table_state) btree
     \<Rightarrow> table_mapping \<times> (tablet_id, table_state) btree" where
  "load_table d acc =
     (let (t, m) = d; (mapping, states) = acc
      in (case meta_state m of
            Active \<Rightarrow> TableMapping_insert t (meta_namespace m) (meta_number m) (meta_name m) mapping
          | Hidden \<Rightarrow> TableMapping_insert_tablet t (meta_namespace m) (meta_number m) (meta_name m) mapping
          | Deleting \<Rightarrow> mapping,
          bt_insert t (meta_state m) states))"

definition table_mapping_and_states ::
    "(tablet_id \<times> table_metadata) list \<Rightarrow> table_mapping \<times> (tablet_id, table_state) btree" where
  "table_mapping_and_states docs = fold load_table docs (TableMapping_new, [])"

section \<open>The registry is a view of the tables\<close>

text \<open>
  The abstract state: the metadata of every table.  A registry is a view of it when the tablet map
  has the tables that are not being deleted and the two canonical maps have the active ones.
\<close>

type_synonym tables = "tablet_id \<Rightarrow> table_metadata option"

definition table_row :: "table_metadata \<Rightarrow> table_namespace \<times> table_number \<times> table_name" where
  "table_row m = (meta_namespace m, meta_number m, meta_name m)"

definition active_table :: "tables \<Rightarrow> tablet_id \<Rightarrow> table_metadata \<Rightarrow> bool" where
  "active_table T t m = (T t = Some m \<and> meta_state m = Active)"

definition canonical_ok :: "'k::linorder canonical \<Rightarrow> bool" where
  "canonical_ok m = bt_all (\<lambda>inner. bt_ok inner) m"

definition canonical_view :: "(table_metadata \<Rightarrow> 'k) \<Rightarrow> tables \<Rightarrow> 'k::linorder canonical \<Rightarrow> bool" where
  "canonical_view key T c =
     (canonical_ok c \<and>
      (\<forall>ns k t. canonical_get c ns k = Some t \<longleftrightarrow> (\<exists>m. active_table T t m \<and> meta_namespace m = ns \<and> key m = k)))"

definition mapping_view :: "tables \<Rightarrow> table_mapping \<Rightarrow> bool" where
  "mapping_view T m =
     (bt_ok (tablet_to_table m)
      \<and> (\<forall>t. bt_get (tablet_to_table m) t
           = (case T t of None \<Rightarrow> None | Some md \<Rightarrow> if meta_state md = Deleting then None else Some (table_row md)))
      \<and> canonical_view meta_name T (table_name_to_canonical_tablet m)
      \<and> canonical_view meta_number T (table_number_to_canonical_tablet m))"

definition registry_view :: "tables \<Rightarrow> table_registry \<Rightarrow> bool" where
  "registry_view T reg =
     (bt_ok (tablet_states reg) \<and> (\<forall>t. bt_get (tablet_states reg) t = map_option meta_state (T t))
      \<and> mapping_view T (registry_mapping reg))"

lemma canonical_get_insert [simp]:
  "canonical_get (canonical_insert ns k t c) ns' k' = (if ns' = ns \<and> k' = k then Some t else canonical_get c ns' k')"
  by (auto simp: canonical_get_def canonical_insert_def get_or_def bt.get_emp simp del: bt_insert.simps split: option.splits)

lemma canonical_ok_inner: "canonical_ok c \<Longrightarrow> bt_ok (get_or [] c ns)"
  unfolding canonical_ok_def by (rule bt_all_get_or) simp_all

lemma canonical_get_remove [simp]:
  "canonical_ok c \<Longrightarrow> canonical_get (canonical_remove ns k c) ns' k' = (if ns' = ns \<and> k' = k then None else canonical_get c ns' k')"
  using canonical_ok_inner [of c ns]
  by (auto simp: canonical_get_def canonical_remove_def get_or_def bt.get_emp simp del: bt_remove.simps split: option.splits)

lemma canonical_ok_update [simp]:
  "canonical_ok c \<Longrightarrow> canonical_ok (canonical_insert ns k t c)"
  "canonical_ok c \<Longrightarrow> canonical_ok (canonical_remove ns k c)"
  using canonical_ok_inner [of c ns] by (auto simp: canonical_ok_def canonical_insert_def canonical_remove_def)

text \<open>No other active table of the namespace has the key.\<close>

definition key_free :: "(table_metadata \<Rightarrow> 'k) \<Rightarrow> tables \<Rightarrow> tablet_id \<Rightarrow> table_metadata \<Rightarrow> bool" where
  "key_free key T t m =
     (\<forall>t' m'. active_table T t' m' \<and> meta_namespace m' = meta_namespace m \<and> key m' = key m \<longrightarrow> t' = t)"

abbreviation inactive :: "tables \<Rightarrow> tablet_id \<Rightarrow> bool" where
  "inactive T t \<equiv> \<forall>m. \<not> active_table T t m"

lemma canonical_view_activate:
  assumes view: "canonical_view key T c" and free: "key_free key T t m" and t: "inactive T t" and m: "meta_state m = Active"
  shows "canonical_view key (T(t \<mapsto> m)) (canonical_insert (meta_namespace m) (key m) t c)"
  using assms by (auto simp: canonical_view_def key_free_def active_table_def)

lemma canonical_view_inactive:
  assumes "canonical_view key T c" and "inactive T t" and "inactive (T(t := x)) t"
  shows "canonical_view key (T(t := x)) c"
proof -
  have "active_table (T(t := x)) = active_table T" using assms(2,3) by (auto simp: fun_eq_iff active_table_def)
  with assms(1) show ?thesis by (simp add: canonical_view_def)
qed

lemma canonical_view_same:
  assumes "canonical_view key T c" and "active_table T t m" and "meta_state m' = Active"
    and "meta_namespace m' = meta_namespace m" and "key m' = key m"
  shows "canonical_view key (T(t \<mapsto> m')) c"
  using assms by (auto simp: canonical_view_def active_table_def)

lemma canonical_view_unique:
  "canonical_view key T c \<Longrightarrow> active_table T t m \<Longrightarrow> active_table T t' m' \<Longrightarrow> meta_namespace m' = meta_namespace m
     \<Longrightarrow> key m' = key m \<Longrightarrow> t' = t"
  unfolding canonical_view_def by (metis option.inject)

lemma canonical_view_get: "canonical_view key T c \<Longrightarrow> active_table T t m \<Longrightarrow> canonical_get c (meta_namespace m) (key m) = Some t"
  by (auto simp: canonical_view_def)

lemma canonical_view_deactivate:
  assumes view: "canonical_view key T c" and t: "active_table T t m" and t': "inactive (T(t := x)) t"
  shows "canonical_view key (T(t := x)) (canonical_remove (meta_namespace m) (key m) c)"
proof -
  have act: "active_table (T(t := x)) u v \<longleftrightarrow> active_table T u v \<and> u \<noteq> t" for u v
    using t t' by (auto simp: active_table_def)
  have uniq: "u \<noteq> t \<longleftrightarrow> \<not> (meta_namespace v = meta_namespace m \<and> key v = key m)" if "active_table T u v" for u v
    using canonical_view_unique [OF view t that] that t by (auto simp: active_table_def)
  from view have ok: "canonical_ok c" by (simp add: canonical_view_def)
  have "canonical_get (canonical_remove (meta_namespace m) (key m) c) ns k = Some u
      \<longleftrightarrow> (\<exists>v. active_table (T(t := x)) u v \<and> meta_namespace v = ns \<and> key v = k)" for ns k u
    using view uniq ok by (auto simp: canonical_view_def act)
  with ok show ?thesis by (simp add: canonical_view_def)
qed

lemmas canonical_views = canonical_view_activate canonical_view_inactive canonical_view_same canonical_view_deactivate

lemma mapping_view_names: "mapping_view T m \<Longrightarrow> canonical_view meta_name T (table_name_to_canonical_tablet m)"
  and mapping_view_numbers: "mapping_view T m \<Longrightarrow> canonical_view meta_number T (table_number_to_canonical_tablet m)"
  by (simp_all add: mapping_view_def)

lemma mapping_view_tablets:
  "mapping_view T m \<Longrightarrow> bt_get (tablet_to_table m) t
     = (case T t of None \<Rightarrow> None | Some md \<Rightarrow> if meta_state md = Deleting then None else Some (table_row md))"
  by (simp add: mapping_view_def)

lemma mapping_view_insert:
  assumes "mapping_view T m" and "key_free meta_name T t md" "key_free meta_number T t md" and "inactive T t"
    and "meta_state md = Active"
  shows "mapping_view (T(t \<mapsto> md)) (TableMapping_insert t (meta_namespace md) (meta_number md) (meta_name md) m)"
  using assms canonical_view_activate [of meta_name T "table_name_to_canonical_tablet m" t md]
    canonical_view_activate [of meta_number T "table_number_to_canonical_tablet m" t md]
  by (auto simp: mapping_view_def TableMapping_insert_def TableMapping_insert_tablet_def Let_def table_row_def)

lemma mapping_view_insert_tablet:
  assumes "mapping_view T m" and "inactive T t" and "meta_state md = Hidden"
  shows "mapping_view (T(t \<mapsto> md)) (TableMapping_insert_tablet t (meta_namespace md) (meta_number md) (meta_name md) m)"
  using assms canonical_view_inactive [of meta_name T _ t "Some md"] canonical_view_inactive [of meta_number T _ t "Some md"]
  by (auto simp: mapping_view_def TableMapping_insert_tablet_def table_row_def active_table_def)

lemma mapping_view_absent:
  assumes "mapping_view T m" and "inactive T t" "\<forall>md. T t = Some md \<longrightarrow> meta_state md = Deleting"
    and "inactive (T(t := x)) t" "\<forall>md. x = Some md \<longrightarrow> meta_state md = Deleting"
  shows "mapping_view (T(t := x)) m"
  using assms canonical_view_inactive [of meta_name T _ t x] canonical_view_inactive [of meta_number T _ t x]
  by (auto simp: mapping_view_def split: option.splits)

lemma mapping_view_remove:
  assumes view: "mapping_view T m" and t: "active_table T t md" and x: "meta_state x = Deleting"
  shows "\<exists>m'. TableMapping_remove t m = Some m' \<and> mapping_view (T(t \<mapsto> x)) m'"
proof -
  let ?names = "table_name_to_canonical_tablet m" and ?numbers = "table_number_to_canonical_tablet m"
  let ?m' = "m\<lparr>tablet_to_table := bt_remove t (tablet_to_table m),
      table_name_to_canonical_tablet := canonical_remove (meta_namespace md) (meta_name md) ?names,
      table_number_to_canonical_tablet := canonical_remove (meta_namespace md) (meta_number md) ?numbers\<rparr>"
  have "bt_get (tablet_to_table m) t = Some (table_row md)"
    using mapping_view_tablets [OF view, of t] t by (auto simp: active_table_def)
  then have "TableMapping_remove t m = Some ?m'"
    using canonical_view_get [OF mapping_view_names [OF view] t] canonical_view_get [OF mapping_view_numbers [OF view] t]
    by (simp add: TableMapping_remove_def table_row_def)
  moreover have "inactive (T(t \<mapsto> x)) t" using x by (simp add: active_table_def)
  then have "mapping_view (T(t \<mapsto> x)) ?m'"
    using view t x canonical_view_deactivate [OF mapping_view_names [OF view] t, of "Some x"]
      canonical_view_deactivate [OF mapping_view_numbers [OF view] t, of "Some x"]
    by (auto simp: mapping_view_def)
  ultimately show ?thesis by blast
qed

lemma mapping_view_same:
  assumes view: "mapping_view T m" and old: "T t = Some old" and "meta_state new = meta_state old" and "table_row new = table_row old"
  shows "mapping_view (T(t \<mapsto> new)) m"
proof (cases "meta_state old = Active")
  case True
  with assms show ?thesis
    using canonical_view_same [OF mapping_view_names [OF view], of t old new] canonical_view_same [OF mapping_view_numbers [OF view], of t old new]
    by (auto simp: mapping_view_def active_table_def table_row_def)
next
  case False
  with assms show ?thesis
    using canonical_view_inactive [of meta_name T _ t "Some new"] canonical_view_inactive [of meta_number T _ t "Some new"] by (auto simp: mapping_view_def active_table_def)
qed

section \<open>Updates of the registry\<close>

text \<open>The creation of an active table checks that its name is free, and then its number is too.\<close>

lemma canonical_namespace: "bt_get (get_or [] c ns) k = canonical_get c ns k"
  by (simp add: canonical_get_def get_or_def bt.get_emp split: option.splits)

lemma created_free:
  assumes view: "mapping_view T (registry_mapping reg)" and ok: "table_creation reg t md = Inr u" and md: "meta_state md = Active"
  shows "key_free meta_name T t md" and "key_free meta_number T t md"
proof -
  let ?m = "registry_mapping reg"
  from ok md have name: "canonical_get (table_name_to_canonical_tablet ?m) (meta_namespace md) (meta_name md) = None"
    and number: "validate_table_number reg (meta_namespace md) (meta_number md) (meta_name md) = Inr ()"
    by (auto simp: table_creation_def TableMetadata_is_active_def bind_result_def table_exists_def name_exists_def
        TableMapping_namespace_def canonical_namespace split: if_splits sum.splits)
  have none: "\<not> (meta_namespace m' = meta_namespace md \<and> meta_name m' = meta_name md)" if "active_table T t' m'" for t' m'
    using canonical_view_get [OF mapping_view_names [OF view] that] name by auto
  then show "key_free meta_name T t md" by (auto simp: key_free_def)
  have "\<not> (meta_namespace m' = meta_namespace md \<and> meta_number m' = meta_number md)" if act: "active_table T t' m'" for t' m'
  proof
    assume eq: "meta_namespace m' = meta_namespace md \<and> meta_number m' = meta_number md"
    then have "canonical_get (table_number_to_canonical_tablet ?m) (meta_namespace md) (meta_number md) = Some t'"
      using canonical_view_get [OF mapping_view_numbers [OF view] act] by simp
    moreover have "bt_get (tablet_to_table ?m) t' = Some (table_row m')"
      using mapping_view_tablets [OF view, of t'] act by (auto simp: active_table_def)
    ultimately have "meta_name m' = meta_name md"
      using number by (auto simp: validate_table_number_def name_by_number_if_exists_def TableMapping_namespace_def
          canonical_namespace table_row_def split: if_splits)
    with none [OF act] eq show False by simp
  qed
  then show "key_free meta_number T t md" by (auto simp: key_free_def)
qed

text \<open>
  The edits the registry follows: the namespace stays, and the state stays, or an active table is
  deleted, or a hidden table becomes active under a name and a number no other active table has.
\<close>

definition followed_edit :: "tables \<Rightarrow> tablet_id \<Rightarrow> table_metadata \<Rightarrow> table_metadata \<Rightarrow> bool" where
  "followed_edit T t old new =
     (meta_namespace new = meta_namespace old
      \<and> (meta_state new = meta_state old \<or> meta_state old = Active \<and> meta_state new = Deleting
         \<or> meta_state old = Hidden \<and> meta_state new = Active \<and> key_free meta_name T t new \<and> key_free meta_number T t new))"

lemma registry_view_apply:
  assumes "registry_view T reg" and "mapping_view (T(t \<mapsto> md)) m"
  shows "registry_view (T(t \<mapsto> md)) \<lparr>tablet_states = bt_insert t (meta_state md) (tablet_states reg), registry_mapping = m\<rparr>"
  using assms by (simp add: registry_view_def)

lemma bt_insert_twice: "bt_insert k v (bt_insert k v m) = bt_insert k v m"
  by (induction k v m rule: bt_insert.induct) auto

lemma insert_tablet_twice:
  "TableMapping_insert_tablet t ns n name (TableMapping_insert t ns n name m) = TableMapping_insert t ns n name m"
  by (simp add: TableMapping_insert_def TableMapping_insert_tablet_def Let_def bt_insert_twice)

lemma creation_followed:
  assumes view: "registry_view T reg" and t: "T t = None" and u: "table_creation reg t md = Inr u" and md: "meta_state md \<noteq> Deleting"
  shows "\<exists>reg'. table_apply (Some u) reg = Some reg' \<and> registry_view (T(t \<mapsto> md)) reg'"
proof -
  let ?m = "registry_mapping reg"
  from view have m: "mapping_view T ?m" by (simp add: registry_view_def)
  have u': "u = \<lparr>tu_namespace = meta_namespace md, tu_tablet = t, tu_number = meta_number md, tu_name = meta_name md,
      tu_state = meta_state md, tu_mode = Create\<rparr>"
    using u by (auto simp: table_creation_def bind_result_def split: sum.splits if_splits)
  have t': "inactive T t" using t by (simp add: active_table_def)
  show ?thesis
  proof (cases "meta_state md = Active")
    case True
    have "mapping_view (T(t \<mapsto> md)) (TableMapping_insert t (meta_namespace md) (meta_number md) (meta_name md) ?m)"
      using created_free [OF m u True] t' True by (intro mapping_view_insert [OF m])
    from registry_view_apply [OF view this] show ?thesis
      using True by (simp add: table_apply_def u' TableUpdate_activates_def Let_def insert_tablet_twice)
  next
    case False
    then have hidden: "meta_state md = Hidden" using md by (cases "meta_state md") auto
    from registry_view_apply [OF view mapping_view_insert_tablet [OF m t' hidden]] show ?thesis
      using hidden by (simp add: table_apply_def u' TableUpdate_activates_def Let_def)
  qed
qed

lemma edit_followed:
  assumes view: "registry_view T reg" and t: "T t = Some old" and followed: "followed_edit T t old new"
    and u: "table_edit r t old new = Some (Inr u)"
  shows "\<exists>reg'. table_apply u reg = Some reg' \<and> registry_view (T(t \<mapsto> new)) reg'"
proof -
  let ?m = "registry_mapping reg"
  let ?u = "\<lambda>mode. \<lparr>tu_namespace = meta_namespace old, tu_tablet = t, tu_number = meta_number old,
      tu_name = meta_name old, tu_state = meta_state new, tu_mode = mode\<rparr>"
  from view have m: "mapping_view T ?m" by (simp add: registry_view_def)
  have row: "table_row new = table_row old"
    using u followed by (auto simp: table_edit_def followed_edit_def table_row_def Let_def split: if_splits)
  consider "meta_state new = meta_state old" "u = None"
    | "meta_state old = Active" "meta_state new = Deleting" "u = Some (?u Drop)"
    | "meta_state old = Hidden" "meta_state new = Active" "u = Some (?u Activate)" "key_free meta_name T t new" "key_free meta_number T t new"
    using u followed by (auto simp: table_edit_def followed_edit_def Let_def TableMetadata_is_active_def split: if_splits)
  then show ?thesis
  proof cases
    case 1
    have "registry_view (T(t \<mapsto> new)) reg"
      using view mapping_view_same [OF m t 1(1) row] 1(1) t by (auto simp: registry_view_def)
    with 1 show ?thesis by (simp add: table_apply_def)
  next
    case 2
    then have "active_table T t old" using t by (simp add: active_table_def)
    from mapping_view_remove [OF m this 2(2)] obtain m' where m': "TableMapping_remove t ?m = Some m'" "mapping_view (T(t \<mapsto> new)) m'"
      by blast
    from registry_view_apply [OF view m'(2)] m'(1) 2 show ?thesis
      by (simp add: table_apply_def TableUpdate_activates_def Let_def)
  next
    case 3
    then have "inactive T t" using t by (simp add: active_table_def)
    from registry_view_apply [OF view mapping_view_insert [OF m 3(4,5) this 3(2)]] 3 row show ?thesis
      by (simp add: table_apply_def TableUpdate_activates_def Let_def table_row_def)
  qed
qed

lemma table_edit_total: "has_no_indexes r t \<noteq> None \<Longrightarrow> table_edit r t old new \<noteq> None"
  by (auto simp: table_edit_def Let_def)

text \<open>An update of a \<open>_tables\<close> document whose change of metadata the registry follows.\<close>

fun followed_update :: "table_parser \<Rightarrow> tables \<Rightarrow> tablet_id \<Rightarrow> convex_object option \<Rightarrow> convex_object option \<Rightarrow> bool" where
  "followed_update parse T t None (Some new) = (\<forall>m. parse new = Some m \<longrightarrow> meta_state m \<noteq> Deleting)"
| "followed_update parse T t (Some old) (Some new) = (\<forall>m n. parse old = Some m \<and> parse new = Some n \<longrightarrow> followed_edit T t m n)"
| "followed_update parse T t _ None = True"

definition is_tables_document :: "table_registry \<Rightarrow> resolved_document_id \<Rightarrow> bool" where
  "is_tables_document reg i =
     tablet_matches_name (TableMapping_namespace (registry_mapping reg) Global) (tablet_id i) TABLES_TABLE"


section \<open>Loading the tables\<close>

definition unique_tables :: "tables \<Rightarrow> bool" where
  "unique_tables T = (\<forall>t m. active_table T t m \<longrightarrow> key_free meta_name T t m \<and> key_free meta_number T t m)"

lemma key_free_mono: "key_free key T t m \<Longrightarrow> T' \<subseteq>\<^sub>m T \<Longrightarrow> key_free key T' t m"
  unfolding key_free_def active_table_def map_le_def by (metis domI)

lemma load_table_view:
  assumes view: "registry_view T (TableRegistry_bootstrap (fst acc) (snd acc))" and t: "T t = None"
    and free: "meta_state m = Active \<Longrightarrow> key_free meta_name T t m \<and> key_free meta_number T t m"
  shows "registry_view (T(t \<mapsto> m)) (TableRegistry_bootstrap (fst (load_table (t, m) acc)) (snd (load_table (t, m) acc)))"
proof -
  let ?reg = "TableRegistry_bootstrap (fst acc) (snd acc)"
  have mv: "mapping_view T (fst acc)" using view by (simp add: registry_view_def TableRegistry_bootstrap_def)
  have t': "inactive T t" using t by (simp add: active_table_def)
  have "mapping_view (T(t \<mapsto> m)) (fst (load_table (t, m) acc))"
  proof (cases "meta_state m")
    case Active
    with mapping_view_insert [OF mv _ _ t' Active] free show ?thesis by (simp add: load_table_def case_prod_beta)
  next
    case Hidden
    with mapping_view_insert_tablet [OF mv t' Hidden] show ?thesis by (simp add: load_table_def case_prod_beta)
  next
    case Deleting
    with mapping_view_absent [OF mv t', of "Some m"] t show ?thesis
      by (simp add: load_table_def active_table_def case_prod_beta)
  qed
  from registry_view_apply [OF view this] show ?thesis
    by (simp add: TableRegistry_bootstrap_def load_table_def case_prod_beta)
qed

lemma load_tables_view:
  assumes "registry_view T (TableRegistry_bootstrap (fst acc) (snd acc))" and "distinct (map fst docs)"
    and "\<forall>t \<in> fst ` set docs. T t = None" and "unique_tables (T ++ map_of docs)"
  shows "registry_view (T ++ map_of docs)
     (TableRegistry_bootstrap (fst (fold load_table docs acc)) (snd (fold load_table docs acc)))"
  using assms
proof (induction docs arbitrary: T acc)
  case (Cons d docs)
  obtain t m where d: "d = (t, m)" by (cases d)
  have t: "T t = None" "t \<notin> dom (map_of docs)" using Cons.prems(2,3) by (auto simp: d dom_map_of_conv_image_fst)
  have eq: "T ++ map_of (d # docs) = T(t \<mapsto> m) ++ map_of docs"
    using t by (simp add: d map_add_upd_left [OF t(2)])
  have le: "T \<subseteq>\<^sub>m T ++ map_of (d # docs)"
  proof (unfold map_le_def, rule ballI)
    fix u assume "u \<in> dom T"
    then have "u \<notin> fst ` set (d # docs)" using Cons.prems(3) by auto
    then have "map_of (d # docs) u = None" by (metis map_of_eq_None_iff)
    then show "T u = (T ++ map_of (d # docs)) u" by (simp add: map_add_def)
  qed
  have at: "(T ++ map_of (d # docs)) t = Some m" by (simp add: d)
  have "registry_view (T(t \<mapsto> m)) (TableRegistry_bootstrap (fst (load_table d acc)) (snd (load_table d acc)))"
    unfolding d
  proof (rule load_table_view [OF Cons.prems(1) t(1)])
    assume "meta_state m = Active"
    with at have "active_table (T ++ map_of (d # docs)) t m" by (simp add: active_table_def)
    then have "key_free meta_name (T ++ map_of (d # docs)) t m" "key_free meta_number (T ++ map_of (d # docs)) t m"
      using Cons.prems(4) [unfolded unique_tables_def, rule_format, of t m] by auto
    then show "key_free meta_name T t m \<and> key_free meta_number T t m" by (intro conjI key_free_mono [OF _ le])
  qed
  moreover have "\<forall>u \<in> fst ` set docs. (T(t \<mapsto> m)) u = None" using Cons.prems(2,3) by (auto simp: d)
  moreover have "distinct (map fst docs)" using Cons.prems(2) by simp
  moreover have "unique_tables (T(t \<mapsto> m) ++ map_of docs)" using Cons.prems(4) unfolding eq .
  ultimately show ?case unfolding eq fold_Cons o_apply by (intro Cons.IH)
qed simp

lemma empty_view: "registry_view (\<lambda>_. None) (TableRegistry_bootstrap TableMapping_new [])"
  by (simp add: registry_view_def mapping_view_def canonical_view_def canonical_ok_def canonical_get_def active_table_def
      TableRegistry_bootstrap_def TableMapping_new_def bt.get_emp)

text \<open>Loading the \<open>_tables\<close> documents gives a registry that is a view of them, as long as no two
  active tables of a namespace share a name or a number.\<close>

lemma table_registry_loads:
  assumes "distinct (map fst docs)" and "unique_tables (map_of docs)"
  shows "registry_view (map_of docs)
     (TableRegistry_bootstrap (fst (table_mapping_and_states docs)) (snd (table_mapping_and_states docs)))"
  using load_tables_view [of "\<lambda>_. None" "(TableMapping_new, [])" docs] empty_view assms
  by (simp add: table_mapping_and_states_def empty_map_add)

definition example_table :: "table_name \<Rightarrow> table_number \<Rightarrow> table_state \<Rightarrow> table_metadata" where
  "example_table name n s = \<lparr>meta_name = name, meta_number = n, meta_state = s, meta_namespace = Global\<rparr>"

definition example_tables :: "(tablet_id \<times> table_metadata) list" where
  "example_tables = [([1], example_table TABLES_TABLE 1 Active), ([2], example_table (ascii ''users'') 2 Hidden)]"

definition example_table_registry :: table_registry where
  "example_table_registry =
     TableRegistry_bootstrap (fst (table_mapping_and_states example_tables)) (snd (table_mapping_and_states example_tables))"

lemma example_tables_ok: "distinct (map fst example_tables)" "unique_tables (map_of example_tables)"
  by (auto simp: example_tables_def example_table_def unique_tables_def key_free_def active_table_def split: if_splits)

text \<open>C35. The registry does not notice that a hidden table is deleted: the update of its metadata from
  hidden to deleting is accepted with no table update, and the registry, which still has the table, is
  no longer a view of the tables, whereas loading the same documents gives a view.
\<close>

theorem hidden_table_deletion_missed:
  assumes "registry_view T reg" and t: "T t = Some md" and "meta_state md = Hidden"
  shows "table_edit r t md (md\<lparr>meta_state := Deleting\<rparr>) = Some (Inr None)
    \<and> table_apply None reg = Some reg \<and> bt_get (tablet_to_table (registry_mapping reg)) t = Some (table_row md)
    \<and> \<not> registry_view (T(t \<mapsto> md\<lparr>meta_state := Deleting\<rparr>)) reg"
proof -
  have "bt_get (tablet_states reg) t = Some Hidden" "bt_get (tablet_to_table (registry_mapping reg)) t = Some (table_row md)"
    using assms mapping_view_tablets [of T "registry_mapping reg" t] by (simp_all add: registry_view_def)
  with assms(3) show ?thesis
    by (auto simp: table_edit_def Let_def TableMetadata_is_active_def table_apply_def registry_view_def intro!: exI [of _ t])
qed

lemma example_table_view: "registry_view (map_of example_tables) example_table_registry"
  using load_tables_view [of "\<lambda>_. None" "(TableMapping_new, [])" example_tables] empty_view example_tables_ok
  by (simp add: table_mapping_and_states_def empty_map_add example_table_registry_def)

theorem hidden_table_deletion_missed_witness:
  "\<not> registry_view ((map_of example_tables)([2] \<mapsto> example_table (ascii ''users'') 2 Deleting)) example_table_registry"
proof -
  have "map_of example_tables [2] = Some (example_table (ascii ''users'') 2 Hidden)" by (simp add: example_tables_def)
  from hidden_table_deletion_missed [OF example_table_view this, of example_registry] show ?thesis by (simp add: example_table_def)
qed

definition example_table_parse :: table_parser where
  "example_table_parse obj = Some (example_table (ascii ''messages'') 7 Active)"


section \<open>Serialized metadata\<close>

definition metadata_ok :: "table_metadata \<Rightarrow> bool" where
  "metadata_ok m =
     (is_ok (check_valid_identifier_inner (meta_name m)) \<and> meta_number m > 0
      \<and> (case meta_namespace m of Global \<Rightarrow> True | ByComponent i \<Rightarrow> document_id_ok i))"

lemma sint_ucast_u32: "sint (ucast n :: i64) = int (unat n)" for n :: u32
proof -
  have n: "uint n < 2 ^ 32" using unsigned_less [of n] by simp
  have "uint (ucast n :: i64) = uint n" using n by (simp add: unsigned_ucast_eq take_bit_int_eq_self)
  moreover have "- (2 ^ 63) \<le> uint n" by (rule order_trans [OF _ unsigned_greater_eq]) simp
  ultimately show ?thesis using n by (simp add: sint_uint signed_take_bit_int_eq_self_iff)
qed

lemma is_ok_Inr: "is_ok (r :: 'e + unit) \<Longrightarrow> r = Inr ()"
  by (cases r) auto

lemma table_metadata_roundtrip:
  assumes "metadata_ok m"
  shows "TableMetadata_from_serialized (TableMetadata_to_serialized m) = Inr m"
proof -
  have n: "table_number_from_i64 (ucast (meta_number m)) = Inr (meta_number m)"
    using assms unsigned_less [of "meta_number m"]
    by (simp add: table_number_from_i64_def sint_ucast_u32 metadata_ok_def map_error_def TableNumber_try_from_def)
  have name: "TableName_from_str (meta_name m) = Inr (meta_name m)"
    using assms is_ok_Inr [of "check_valid_identifier_inner (meta_name m)"] by (simp add: TableName_from_str_def metadata_ok_def)
  have st: "table_state_from_str (table_state_to_str (meta_state m)) = Inr (meta_state m)"
    by (cases "meta_state m") (simp_all add: table_state_from_str_def ascii_def)
  have ns: "table_namespace_from_serialized (table_namespace_to_serialized (meta_namespace m)) = Inr (meta_namespace m)"
    using assms decode_encode_id
    by (cases "meta_namespace m") (simp_all add: table_namespace_from_serialized_def table_namespace_to_serialized_def metadata_ok_def)
  show ?thesis
    by (simp add: TableMetadata_from_serialized_def TableMetadata_to_serialized_def n name st ns map_error_def)
qed

end
