(* ===== verification/Database_Index.thy ===== *)
theory Database_Index
  imports Table_Registry "HOL-Library.Multiset"
begin

text \<open>
  Database indexes at a snapshot (\<open>indexing/src/backend_in_memory_indexes.rs\<close>): the indexes kept
  in memory, the cache of a transaction's snapshot and the fetching of index ranges through it.

  Persistence is a parameter: an index scan is the stream of its results, each a row or an error.
  Futures that complete in any order are a parameter \<open>schedule\<close>, which orders their results and is
  \<open>None\<close> when the task was cancelled.  Where the code panics the model returns \<open>None\<close>.
\<close>

declare split_paired_All [simp del] split_paired_Ex [simp del]

section \<open>Rows\<close>

type_synonym index_row = "bytes \<times> timestamp \<times> resolved_document"

type_synonym 'e persistence = "internal_id \<Rightarrow> tablet_id \<Rightarrow> interval \<Rightarrow> order \<Rightarrow> nat \<Rightarrow> ('e + index_row) list"

datatype 'e index_error =
    RegistryError registry_error | NotADatabaseIndex | IndexNotEnabled | MissingIndex | IndexNotBackfilled
  | MissingTable | PersistenceError 'e | TaskCancelled

definition Order_apply :: "order \<Rightarrow> 'a list \<Rightarrow> 'a list" where
  "Order_apply ord xs = (case ord of Asc \<Rightarrow> xs | Desc \<Rightarrow> rev xs)"

text \<open>\<open>try_collect\<close>: the rows of a stream up to its first error.\<close>

fun try_collect :: "('e + 'a) list \<Rightarrow> 'e index_error + 'a list" where
  "try_collect [] = Inr []"
| "try_collect (Inl e # s) = Inl (PersistenceError e)"
| "try_collect (Inr x # s) = bind_result (try_collect s) (\<lambda>xs. Inr (x # xs))"

definition document_size :: "resolved_document \<Rightarrow> nat" where
  "document_size d = value_size (ObjectV (document_value d))"

section \<open>Indexes in memory\<close>

record database_index_map =
  inner :: "(bytes, timestamp \<times> packed_document) btree"
  last_modified :: timestamp

definition DatabaseIndexMap_new_at :: "timestamp \<Rightarrow> database_index_map" where
  "DatabaseIndexMap_new_at ts = \<lparr>inner = [], last_modified = ts\<rparr>"

text \<open>\<open>None\<close> is the panic of \<open>unpack\<close>.\<close>

definition DatabaseIndexMap_range :: "interval \<Rightarrow> database_index_map \<Rightarrow> index_row list option" where
  "DatabaseIndexMap_range i m =
     those (map (\<lambda>(k, ts, v). map_option (\<lambda>d. (k, ts, d)) (PackedDocument_unpack v))
       (filter (\<lambda>e. Interval_contains i (fst e)) (inner m)))"

definition DatabaseIndexMap_insert :: "bytes \<Rightarrow> timestamp \<Rightarrow> resolved_document \<Rightarrow> database_index_map \<Rightarrow> database_index_map" where
  "DatabaseIndexMap_insert k ts d m =
     \<lparr>inner = bt_insert k (ts, PackedDocument_pack d) (inner m), last_modified = max (last_modified m) ts\<rparr>"

definition DatabaseIndexMap_remove :: "index_key \<Rightarrow> timestamp \<Rightarrow> database_index_map \<Rightarrow> database_index_map" where
  "DatabaseIndexMap_remove k ts m =
     \<lparr>inner = bt_remove (IndexKey_into_bytes k) (inner m), last_modified = max (last_modified m) ts\<rparr>"

type_synonym in_memory_indexes = "(internal_id, database_index_map) btree"

text \<open>The outer \<open>None\<close> is a panic, the inner one says that the index is not in memory.\<close>

definition in_memory_range ::
    "in_memory_indexes \<Rightarrow> internal_id \<Rightarrow> interval \<Rightarrow> order \<Rightarrow> index_row list option option" where
  "in_memory_range im i interval ord =
     (case bt_get im i of
        None \<Rightarrow> Some None
      | Some m \<Rightarrow> map_option (\<lambda>rows. Some (Order_apply ord rows)) (DatabaseIndexMap_range interval m))"

definition in_memory_bootstrap ::
    "'x index_registry \<Rightarrow> (resolved_document_id, timestamp \<times> resolved_document) btree \<Rightarrow> timestamp
     \<Rightarrow> 'e index_error + in_memory_indexes" where
  "in_memory_bootstrap r index_documents ts =
     (case get_enabled r (IndexName_by_id (index_table r)) of
        None \<Rightarrow> Inl MissingIndex
      | Some meta_index \<Rightarrow>
          Inr [(ix_id meta_index,
            fold (\<lambda>(_, ts, d). DatabaseIndexMap_insert
                (IndexKey_into_bytes (IndexKey_new [] (developer_id (ResolvedDocument_id d)))) ts d)
              index_documents (DatabaseIndexMap_new_at ts))])"

definition load_enabled ::
    "'x index_registry \<Rightarrow> tablet_index_name \<Rightarrow> 'e persistence \<Rightarrow> timestamp \<Rightarrow> in_memory_indexes
     \<Rightarrow> 'e index_error + (nat \<times> nat) \<times> in_memory_indexes" where
  "load_enabled r name scan snapshot_ts im =
     (case get_enabled r name of
        None \<Rightarrow> Inl MissingIndex
      | Some ix \<Rightarrow>
          if bt_get im (ix_id ix) \<noteq> None then Inr ((0, 0), im)
          else
            (case ix_config ix of
               DatabaseConfig _ on_disk_state \<Rightarrow>
                 if on_disk_state = Enabled then
                   bind_result (try_collect (scan (ix_id ix) (fst name) Interval_all Asc (2 ^ 64 - 1))) (\<lambda>entries.
                     Inr ((length entries, sum_list (map (\<lambda>(_, _, d). document_size d) entries)),
                          bt_insert (ix_id ix)
                            (fold (\<lambda>(k, ts, d). DatabaseIndexMap_insert k ts d) entries (DatabaseIndexMap_new_at snapshot_ts)) im))
                 else Inl IndexNotBackfilled
             | _ \<Rightarrow> Inl NotADatabaseIndex))"

fun load_enabled_loop ::
    "'x index list \<Rightarrow> 'x index_registry \<Rightarrow> table_mapping \<Rightarrow> 'e persistence \<Rightarrow> timestamp \<Rightarrow> table_name bset
     \<Rightarrow> in_memory_indexes \<Rightarrow> 'e index_error + in_memory_indexes" where
  "load_enabled_loop [] r mapping scan ts tables im = Inr im"
| "load_enabled_loop (ix # ixs) r mapping scan ts tables im =
     (case tablet_name mapping (fst (ix_name ix)) of
        None \<Rightarrow> Inl MissingTable
      | Some name \<Rightarrow>
          if bt_get tables name \<noteq> None then
            (case ix_config ix of
               DatabaseConfig _ on_disk_state \<Rightarrow>
                 if on_disk_state = Enabled then
                   bind_result (load_enabled r (ix_name ix) scan ts im) (\<lambda>(_, im).
                     load_enabled_loop ixs r mapping scan ts tables im)
                 else Inl IndexNotEnabled
             | _ \<Rightarrow> load_enabled_loop ixs r mapping scan ts tables im)
          else load_enabled_loop ixs r mapping scan ts tables im)"

definition load_enabled_for_tables ::
    "'x index_registry \<Rightarrow> table_mapping \<Rightarrow> 'e persistence \<Rightarrow> timestamp \<Rightarrow> table_name bset
     \<Rightarrow> in_memory_indexes \<Rightarrow> 'e index_error + in_memory_indexes" where
  "load_enabled_for_tables r mapping scan ts tables im =
     load_enabled_loop (all_enabled_indexes r) r mapping scan ts tables im"

definition apply_index_update ::
    "timestamp \<Rightarrow> resolved_document option \<Rightarrow> database_index_update \<Rightarrow> in_memory_indexes \<Rightarrow> in_memory_indexes option" where
  "apply_index_update ts insertion u im =
     (case bt_get im (up_index_id u) of
        None \<Rightarrow> Some im
      | Some m \<Rightarrow>
          (case up_value u of
             Deleted \<Rightarrow> Some (bt_insert (up_index_id u) (DatabaseIndexMap_remove (up_key u) ts m) im)
           | NonClustered written \<Rightarrow>
               (case insertion of
                  None \<Rightarrow> None
                | Some d \<Rightarrow>
                    if written = ResolvedDocument_id d
                    then Some (bt_insert (up_index_id u) (DatabaseIndexMap_insert (IndexKey_into_bytes (up_key u)) ts d m) im)
                    else None)))"

text \<open>\<open>index_registry\<close> has already received the update.\<close>

definition in_memory_update ::
    "'x index_registry \<Rightarrow> timestamp \<Rightarrow> resolved_document option \<Rightarrow> resolved_document option \<Rightarrow> in_memory_indexes
     \<Rightarrow> (database_index_update list \<times> in_memory_indexes) option" where
  "in_memory_update r ts deletion insertion im =
     (let im = (case (deletion, insertion) of
                  (Some old, None) \<Rightarrow>
                    if doc_tablet_id old = index_table r
                    then bt_remove (internal_id (developer_id (ResolvedDocument_id old))) im else im
                | _ \<Rightarrow> im)
      in case index_updates r deletion insertion of
           None \<Rightarrow> None
         | Some us \<Rightarrow>
             map_option (Pair us) (fold_option (apply_index_update ts insertion) us im))"

definition in_memory_indexes_last_modified :: "in_memory_indexes \<Rightarrow> (internal_id, timestamp) btree" where
  "in_memory_indexes_last_modified im = map (\<lambda>(i, m). (i, last_modified m)) im"

section \<open>The cache of a snapshot\<close>

definition MAX_TRANSACTION_CACHE_SIZE :: nat where "MAX_TRANSACTION_CACHE_SIZE = 10 * 2 ^ 20"
definition MAX_CACHED_RANGES_PER_INTERVAL :: nat where "MAX_CACHED_RANGES_PER_INTERVAL = 3"

record snapshot_cache =
  cache_documents :: "(internal_id, (bytes, timestamp \<times> resolved_document) btree) btree"
  cache_intervals :: "(internal_id, interval_set) btree"
  cache_size :: nat

datatype cache_result = CacheDocument bytes timestamp resolved_document | CacheMiss interval

definition cache_new :: snapshot_cache where
  "cache_new = \<lparr>cache_documents = [], cache_intervals = [], cache_size = 0\<rparr>"

definition add_cached_interval :: "internal_id \<Rightarrow> interval \<Rightarrow> snapshot_cache \<Rightarrow> snapshot_cache option" where
  "add_cached_interval i interval c =
     map_option (\<lambda>s. c\<lparr>cache_intervals := bt_insert i s (cache_intervals c)\<rparr>)
       (IntervalSet_add (get_or IntervalSet_new (cache_intervals c) i) interval)"

definition cache_populate ::
    "internal_id \<Rightarrow> bytes \<Rightarrow> timestamp \<Rightarrow> resolved_document \<Rightarrow> snapshot_cache \<Rightarrow> snapshot_cache option" where
  "cache_populate i k ts d c =
     (if cache_size c \<le> MAX_TRANSACTION_CACHE_SIZE then
        map_option (\<lambda>c. c\<lparr>cache_size := cache_size c + document_size d\<rparr>)
          (add_cached_interval i (Interval_prefix k)
            (c\<lparr>cache_documents := bt_insert i (bt_insert k (ts, d) (get_or [] (cache_documents c) i)) (cache_documents c)\<rparr>))
      else Some c)"

definition record_interval_populated :: "internal_id \<Rightarrow> interval \<Rightarrow> snapshot_cache \<Rightarrow> snapshot_cache option" where
  "record_interval_populated i interval c =
     (if cache_size c \<le> MAX_TRANSACTION_CACHE_SIZE then add_cached_interval i interval c else Some c)"

text \<open>\<open>BTreeMap::range\<close> panics when the start is beyond the end.\<close>

definition BTreeMap_range :: "interval \<Rightarrow> (bytes, 'v) btree \<Rightarrow> (bytes, 'v) btree option" where
  "BTreeMap_range i m =
     (case end_bound i of
        Excluded e \<Rightarrow> if e < start_key (start_bound i) then None else Some (filter (\<lambda>x. Interval_contains i (fst x)) m)
      | Unbounded \<Rightarrow> Some (filter (\<lambda>x. Interval_contains i (fst x)) m))"

fun cache_get_loop ::
    "(bytes, timestamp \<times> resolved_document) btree option \<Rightarrow> interval \<Rightarrow> (bool \<times> interval) list \<Rightarrow> nat
     \<Rightarrow> cache_result list option" where
  "cache_get_loop docs interval [] hits = Some []"
| "cache_get_loop docs interval ((in_set, component) # cs) hits =
     (if hits \<ge> MAX_CACHED_RANGES_PER_INTERVAL then
        Some [CacheMiss \<lparr>start_bound = start_bound component, end_bound = end_bound interval\<rparr>]
      else if in_set then
        (case (case docs of None \<Rightarrow> Some [] | Some m \<Rightarrow> BTreeMap_range component m) of
           None \<Rightarrow> None
         | Some found \<Rightarrow>
             map_option (append (map (\<lambda>(k, ts, d). CacheDocument k ts d) found))
               (cache_get_loop docs interval cs (hits + 1)))
      else map_option (Cons (CacheMiss component)) (cache_get_loop docs interval cs hits))"

definition cache_get :: "internal_id \<Rightarrow> interval \<Rightarrow> order \<Rightarrow> snapshot_cache \<Rightarrow> cache_result list option" where
  "cache_get i interval ord c =
     (case bt_get (cache_intervals c) i of
        None \<Rightarrow> Some [CacheMiss interval]
      | Some s \<Rightarrow>
          (case IntervalSet_split_interval_components s interval of
             None \<Rightarrow> None
           | Some components \<Rightarrow>
               map_option (Order_apply ord) (cache_get_loop (bt_get (cache_documents c) i) interval components 0)))"

section \<open>Fetching ranges\<close>

record range_request =
  req_index_name :: tablet_index_name
  req_interval :: interval
  req_order :: order
  req_max_size :: nat

record 'e index_snapshot =
  snap_in_memory :: in_memory_indexes
  snap_persistence :: "'e persistence"
  snap_cache :: snapshot_cache

type_synonym fetched = "index_row list \<times> cursor_position"

text \<open>Either a result at once or the index, the request and the cached parts of what is to fetch.\<close>

datatype fetch_start = Ready fetched | ToFetch internal_id range_request "cache_result list"

definition start_range_fetch ::
    "'x index_registry \<Rightarrow> 'e index_snapshot \<Rightarrow> range_request \<Rightarrow> ('e index_error + fetch_start) option" where
  "start_range_fetch r snap req =
     (case require_enabled r (req_index_name req) of
        Inl e \<Rightarrow>
          if fst (req_index_name req) \<noteq> index_table r then Some (Inr (Ready ([], End)))
          else Some (Inl (RegistryError e))
      | Inr ix \<Rightarrow>
          (case ix_config ix of
             DatabaseConfig _ on_disk_state \<Rightarrow>
               if on_disk_state \<noteq> Enabled then Some (Inl IndexNotEnabled)
               else
                 (case in_memory_range (snap_in_memory snap) (ix_id ix) (req_interval req) (req_order req) of
                    None \<Rightarrow> None
                  | Some (Some rows) \<Rightarrow> Some (Inr (Ready (rows, End)))
                  | Some None \<Rightarrow>
                      map_option (\<lambda>cached. Inr (ToFetch (ix_id ix) req cached))
                        (cache_get (ix_id ix) (req_interval req) (req_order req) (snap_cache snap)))
           | _ \<Rightarrow> Some (Inl NotADatabaseIndex)))"

text \<open>Reading rows of a scan until the results reach the maximal size.\<close>

fun read_stream ::
    "nat \<Rightarrow> ('e + index_row) list \<Rightarrow> index_row list \<Rightarrow> (timestamp \<times> resolved_document) list
     \<Rightarrow> 'e index_error + index_row list \<times> (timestamp \<times> resolved_document) list" where
  "read_stream n [] results missed = Inr (results, missed)"
| "read_stream n (Inl e # s) results missed = Inl (PersistenceError e)"
| "read_stream n (Inr (k, ts, d) # s) results missed =
     (let results = results @ [(k, ts, d)]; missed = missed @ [(ts, d)]
      in if length results \<ge> n then Inr (results, missed) else read_stream n s results missed)"

text \<open>\<open>None\<close>: the results reached the maximal size but are empty.\<close>

fun fetch_cache_misses ::
    "'e persistence \<Rightarrow> internal_id \<Rightarrow> range_request \<Rightarrow> cache_result list \<Rightarrow> index_row list
     \<Rightarrow> (timestamp \<times> resolved_document) list
     \<Rightarrow> ('e index_error + index_row list \<times> (timestamp \<times> resolved_document) list \<times> cursor_position) option" where
  "fetch_cache_misses scan i req [] results missed = Some (Inr (results, missed, End))"
| "fetch_cache_misses scan i req (cr # crs) results missed =
     (case (case cr of
              CacheDocument k ts d \<Rightarrow> Inr (results @ [(k, ts, d)], missed)
            | CacheMiss interval \<Rightarrow>
                read_stream (req_max_size req)
                  (scan i (fst (req_index_name req)) interval (req_order req) (req_max_size req)) results missed) of
        Inl e \<Rightarrow> Some (Inl e)
      | Inr (results, missed) \<Rightarrow>
          if length results \<ge> req_max_size req then
            if results = [] then None else Some (Inr (results, missed, After (fst (last results))))
          else fetch_cache_misses scan i req crs results missed)"

type_synonym batch_key = nat

type_synonym 'e batch_results = "(batch_key, 'e index_error + fetched) btree"

text \<open>The first pass over the requests, in the order of their keys.\<close>

fun start_batch ::
    "'x index_registry \<Rightarrow> 'e index_snapshot \<Rightarrow> (batch_key, range_request) btree \<Rightarrow> 'e batch_results
     \<Rightarrow> (batch_key, internal_id \<times> range_request \<times> cache_result list) btree
     \<Rightarrow> ('e batch_results \<times> (batch_key, internal_id \<times> range_request \<times> cache_result list) btree) option" where
  "start_batch r snap [] results to_fetch = Some (results, to_fetch)"
| "start_batch r snap ((key, req) # reqs) results to_fetch =
     (case start_range_fetch r snap req of
        None \<Rightarrow> None
      | Some (Inl e) \<Rightarrow> start_batch r snap reqs (bt_insert key (Inl e) results) to_fetch
      | Some (Inr (Ready fetched)) \<Rightarrow> start_batch r snap reqs (bt_insert key (Inr fetched) results) to_fetch
      | Some (Inr (ToFetch i req cached)) \<Rightarrow>
          start_batch r snap reqs results (bt_insert key (i, req, cached) to_fetch))"

type_synonym 'e fetch_result =
  "batch_key \<times> internal_id \<times> range_request
   \<times> ('e index_error + index_row list \<times> (timestamp \<times> resolved_document) list \<times> cursor_position)"

definition fetch_all ::
    "'e persistence \<Rightarrow> (batch_key, internal_id \<times> range_request \<times> cache_result list) btree \<Rightarrow> 'e fetch_result list option" where
  "fetch_all scan to_fetch =
     those (map (\<lambda>(key, i, req, cached).
       map_option (\<lambda>res. (key, i, req, res)) (fetch_cache_misses scan i req cached [] [])) to_fetch)"

definition populate_document :: "'x index_registry \<Rightarrow> timestamp \<times> resolved_document \<Rightarrow> snapshot_cache \<Rightarrow> snapshot_cache option" where
  "populate_document r row c =
     (let (ts, d) = row
      in case index_keys r d of
           None \<Rightarrow> None
         | Some keys \<Rightarrow> fold_option (\<lambda>(ix, key). cache_populate (ix_id ix) (IndexKey_into_bytes key) ts d) keys c)"

definition finish_fetch ::
    "'x index_registry \<Rightarrow> 'e fetch_result \<Rightarrow> 'e batch_results \<times> snapshot_cache \<Rightarrow> ('e batch_results \<times> snapshot_cache) option" where
  "finish_fetch r fetched acc =
     (let (key, i, req, res) = fetched; (results, c) = acc
      in case res of
           Inl e \<Rightarrow> Some (bt_insert key (Inl e) results, c)
         | Inr (rows, missed, cursor) \<Rightarrow>
             (case fold_option (populate_document r) missed c of
                None \<Rightarrow> None
              | Some c \<Rightarrow>
                  map_option (Pair (bt_insert key (Inr (rows, cursor)) results))
                    (record_interval_populated i (fst (Interval_split (req_interval req) cursor (req_order req))) c)))"

definition range_batch ::
    "('e fetch_result list \<Rightarrow> 'e fetch_result list option) \<Rightarrow> 'x index_registry \<Rightarrow> (batch_key, range_request) btree
     \<Rightarrow> 'e index_snapshot \<Rightarrow> ('e batch_results \<times> 'e index_snapshot) option" where
  "range_batch schedule r reqs snap =
     (case start_batch r snap reqs [] [] of
        None \<Rightarrow> None
      | Some (results, to_fetch) \<Rightarrow>
          (case fetch_all (snap_persistence snap) to_fetch of
             None \<Rightarrow> None
           | Some fetched \<Rightarrow>
               (case schedule fetched of
                  None \<Rightarrow> Some (fold (\<lambda>key. bt_insert key (Inl TaskCancelled)) (map fst to_fetch) results, snap)
                | Some fetched \<Rightarrow>
                    map_option (\<lambda>(results, c). (results, snap\<lparr>snap_cache := c\<rparr>))
                      (fold_option (finish_fetch r) fetched (results, snap_cache snap)))))"

section \<open>The rows of an index\<close>

text \<open>
  A snapshot gives for every document id the document and when it was written.  The rows of an index
  are the documents of its table under their keys; no key is a prefix of another one, because a key ends
  with the document's id.
\<close>

type_synonym 'w versions = "resolved_document_id \<Rightarrow> ('w \<times> resolved_document) option"

type_synonym snapshot_store = "timestamp versions"

definition documents_of :: "'w versions \<Rightarrow> document_store" where
  "documents_of S = (\<lambda>i. map_option snd (S i))"

definition row_key :: "indexed_fields \<Rightarrow> resolved_document \<Rightarrow> bytes" where
  "row_key fs d = IndexKey_into_bytes (ResolvedDocument_index_key d fs)"

definition stored_document_ok :: "resolved_document \<Rightarrow> bool" where
  "stored_document_ok d =
     (key_ok (ObjectV (document_value d)) \<and> document_id_ok (doc_id (document d))
      \<and> PackedDocument_unpack (PackedDocument_pack d) = Some d)"

definition store_ok :: "'w versions \<Rightarrow> bool" where
  "store_ok S = (\<forall>i v. S i = Some v \<longrightarrow> ResolvedDocument_id (snd v) = i \<and> stored_document_ok (snd v))"

definition index_contents ::
    "'w versions \<Rightarrow> tablet_id \<Rightarrow> indexed_fields \<Rightarrow> (bytes, 'w \<times> resolved_document) btree \<Rightarrow> bool" where
  "index_contents S t fs m =
     (bt_ok m \<and> (\<forall>k v. bt_get m k = Some v \<longleftrightarrow> (\<exists>i. tablet_id i = t \<and> S i = Some v \<and> k = row_key fs (snd v))))"

definition prefix_free :: "(bytes, 'v) btree \<Rightarrow> bool" where
  "prefix_free m = (\<forall>k \<in> fst ` set m. \<forall>l \<in> fst ` set m. prefix k l \<longrightarrow> k = l)"

lemma encode_id_nonzero: "0 \<in> set (DeveloperDocumentId_encode i) \<Longrightarrow> False"
  using base32_decode_errors [of "DeveloperDocumentId_encode i"]
  by (auto simp: DeveloperDocumentId_encode_def Let_def decode_encode list_all_iff char_offset_def)

lemma prefix_values_last:
  assumes "values_ok p" and "values_ok k" and "length p = length k" and "p \<noteq> []" and "\<not> zero_extends (last p) (last k)"
    and "prefix (values_to_bytes p) (values_to_bytes k)"
  shows "p = k"
  using assms
proof (induction p arbitrary: k)
  case (Cons x p)
  from Cons.prems(3) obtain y l where k: "k = y # l" by (cases k) auto
  note prems = Cons.prems [unfolded k]
  obtain t where t: "optional_key x @ values_to_bytes p @ t = optional_key y @ values_to_bytes l"
    using prems(6) unfolding prefix_def values_to_bytes_Cons append_assoc by metis
  have xy: "x = y"
  proof (cases "unescaped (values_to_bytes p @ t)")
    case True
    with optional_key_inject [OF t] unescaped_values [of l] prems show ?thesis by auto
  next
    case False
    moreover have p: "p = []"
    proof (cases p)
      case (Cons z zs)
      with prems(1) optional.start [of z] have "unescaped (values_to_bytes p @ t)" by (auto simp: ESCAPE_BYTE_def)
      with False show ?thesis by simp
    qed simp
    ultimately obtain t' where "t = ESCAPE_BYTE # t'" by (cases t) auto
    with key_continues [of x y t' "values_to_bytes l"] t p unescaped_values [of l] prems
    show ?thesis by auto
  qed
  show ?case
  proof (cases "p = []")
    case False
    then have "l \<noteq> []" using prems by auto
    with Cons.IH [of l] prems xy False show ?thesis by (simp add: k)
  qed (use prems xy in \<open>simp add: k\<close>)
qed simp

lemma row_key_values:
  "row_key fs d = values_to_bytes (indexed_values (ConvexObject_get_path (document_value d)) fs @ [Some (id_value (doc_id (document d)))])"
  by (simp add: row_key_def ResolvedDocument_index_key_def IndexKey_into_bytes_def IndexKey_new_allow_missing_def)

lemma row_key_prefix:
  assumes d: "stored_document_ok d" and e: "stored_document_ok e" and pre: "prefix (row_key fs d) (row_key fs e)"
  shows "doc_id (document d) = doc_id (document e)"
proof -
  let ?vs = "\<lambda>d. indexed_values (ConvexObject_get_path (document_value d)) fs @ [Some (id_value (doc_id (document d)))]"
  have "values_ok (?vs d)" "values_ok (?vs e)"
    using d e by (auto simp: stored_document_ok_def indexed_values_def id_value_def intro: get_path_ok)
  moreover have "\<not> zero_extends (last (?vs d)) (last (?vs e))"
    by (auto simp: id_value_def dest!: set_mono_prefix dest: encode_id_nonzero)
  ultimately have "?vs d = ?vs e"
    using pre unfolding row_key_values by (intro prefix_values_last) (auto simp: indexed_values_def)
  with d e show ?thesis using id_value_inject by (auto simp: stored_document_ok_def)
qed

lemma contents_mem:
  "index_contents S t fs m \<Longrightarrow> (k, v) \<in> set m \<longleftrightarrow> (\<exists>i. tablet_id i = t \<and> S i = Some v \<and> k = row_key fs (snd v))"
  by (auto simp: index_contents_def simp flip: bt_get_iff)

lemma stored_id: "store_ok S \<Longrightarrow> S i = Some v \<Longrightarrow> i = ResolvedDocument_id (snd v)"
  unfolding store_ok_def by metis

lemma stored_document: "store_ok S \<Longrightarrow> S i = Some v \<Longrightarrow> stored_document_ok (snd v)"
  unfolding store_ok_def by metis

lemma stored_same_id:
  assumes "store_ok S" and "S i = Some v" "S j = Some w" and "tablet_id i = tablet_id j"
    and "doc_id (document (snd v)) = doc_id (document (snd w))"
  shows "i = j"
proof -
  have "i = ResolvedDocument_id (snd v)" "j = ResolvedDocument_id (snd w)" using stored_id assms(1-3) by blast+
  with assms(4,5) show ?thesis by (simp add: ResolvedDocument_id_def)
qed

lemma contents_prefix_free:
  assumes S: "store_ok S" and m: "index_contents S t fs m"
  shows "prefix_free m"
proof -
  have "row_key fs (snd v) = row_key fs (snd w)"
    if i: "tablet_id i = t" "S i = Some v" and j: "tablet_id j = t" "S j = Some w" and pre: "prefix (row_key fs (snd v)) (row_key fs (snd w))"
    for i j v w
  proof -
    have "doc_id (document (snd v)) = doc_id (document (snd w))"
      using S i(2) j(2) by (intro row_key_prefix [OF _ _ pre]) (auto simp: store_ok_def)
    from stored_same_id [OF S i(2) j(2) _ this] i j show ?thesis by simp
  qed
  then show ?thesis by (force simp: prefix_free_def contents_mem [OF m])
qed

lemma prefix_freeD: "prefix_free m \<Longrightarrow> (k, v) \<in> set m \<Longrightarrow> (l, w) \<in> set m \<Longrightarrow> prefix k l \<Longrightarrow> k = l"
  unfolding prefix_free_def by force

definition select :: "interval \<Rightarrow> (bytes, 'v) btree \<Rightarrow> (bytes, 'v) btree" where
  "select i m = filter (\<lambda>e. Interval_contains i (fst e)) m"

lemma mem_select [simp]: "e \<in> set (select i m) \<longleftrightarrow> e \<in> set m \<and> Interval_contains i (fst e)"
  by (auto simp: select_def)

lemma select_ok: "bt_ok m \<Longrightarrow> bt_ok (select i m)"
  unfolding select_def by (induction m) auto

lemma select_append: "select i (a @ b) = select i a @ select i b"
  by (simp add: select_def)

text \<open>Writing a row of a map into a part of the map.\<close>

lemma set_bt_insert: "bt_ok m \<Longrightarrow> set (bt_insert k v m) = insert (k, v) {e \<in> set m. fst e \<noteq> k}"
  by (induction k v m rule: bt_insert.induct) auto

lemma bt_unique: "bt_ok m \<Longrightarrow> (k, v) \<in> set m \<Longrightarrow> (k, w) \<in> set m \<Longrightarrow> v = w"
  using bt_get_iff [of m k] by (metis option.inject)

lemma set_bt_insert_part:
  assumes "bt_ok m" and "bt_ok r" and "set m \<subseteq> set r" and "(k, v) \<in> set r"
  shows "set (bt_insert k v m) = insert (k, v) (set m)"
proof -
  have "w = v" if "(k, w) \<in> set m" for w
    using bt_unique [OF assms(2) subsetD [OF assms(3) that] assms(4)] .
  then show ?thesis by (auto simp: set_bt_insert [OF assms(1)])
qed

section \<open>The cache is transparent\<close>

text \<open>
  The cache of a snapshot whose indexes have the given rows holds rows of the indexes, and every row
  in a populated interval.
\<close>

abbreviation cached :: "snapshot_cache \<Rightarrow> internal_id \<Rightarrow> (bytes, timestamp \<times> resolved_document) btree" where
  "cached c i \<equiv> get_or [] (cache_documents c) i"

abbreviation populated :: "snapshot_cache \<Rightarrow> internal_id \<Rightarrow> interval_set" where
  "populated c i \<equiv> get_or IntervalSet_new (cache_intervals c) i"

type_synonym index_rows = "internal_id \<Rightarrow> (bytes, timestamp \<times> resolved_document) btree"

definition cache_ok :: "index_rows \<Rightarrow> snapshot_cache \<Rightarrow> bool" where
  "cache_ok rows c =
     (\<forall>i. bt_ok (cached c i) \<and> set (cached c i) \<subseteq> set (rows i) \<and> IntervalSet_ok (populated c i)
        \<and> {e \<in> set (rows i). fst e \<in> IntervalSet_points (populated c i)} \<subseteq> set (cached c i))"

definition grows :: "snapshot_cache \<Rightarrow> snapshot_cache \<Rightarrow> bool" where
  "grows c c' = (cache_size c \<le> cache_size c' \<and> (\<forall>i. set (cached c i) \<subseteq> set (cached c' i)))"

lemma grows_refl [simp]: "grows c c"
  by (simp add: grows_def)

lemma grows_trans: "grows a b \<Longrightarrow> grows b c \<Longrightarrow> grows a c"
  unfolding grows_def by (meson order_trans)

lemma cache_new_ok: "cache_ok rows cache_new"
  by (simp add: cache_ok_def cache_new_def interval_set.emp)

lemma add_cached_interval_ok:
  assumes c: "cache_ok rows c" and covered: "set (select iv (rows i)) \<subseteq> set (cached c i)"
  shows "\<exists>c'. add_cached_interval i iv c = Some c' \<and> cache_ok rows c' \<and> cache_documents c' = cache_documents c
    \<and> cache_size c' = cache_size c"
proof -
  have "IntervalSet_ok (populated c i)" using c by (simp add: cache_ok_def)
  from interval_set.add [OF this, of iv] obtain s where s: "IntervalSet_add (populated c i) iv = Some s" "IntervalSet_ok s"
    "IntervalSet_points s = IntervalSet_points (populated c i) \<union> Interval_points iv" by blast
  have "{e \<in> set (rows i). fst e \<in> IntervalSet_points s} \<subseteq> set (cached c i)"
    using c covered by (auto simp: s(3) cache_ok_def)
  with c s show ?thesis by (simp add: add_cached_interval_def cache_ok_def)
qed

lemma cache_populate_ok:
  assumes c: "cache_ok rows c" and row: "(k, ts, d) \<in> set (rows i)" and rows: "bt_ok (rows i)" "prefix_free (rows i)"
  shows "\<exists>c'. cache_populate i k ts d c = Some c' \<and> cache_ok rows c' \<and> grows c c'
    \<and> (cache_size c' \<le> MAX_TRANSACTION_CACHE_SIZE \<longrightarrow> (k, ts, d) \<in> set (cached c' i))"
proof (cases "cache_size c \<le> MAX_TRANSACTION_CACHE_SIZE")
  case True
  let ?c = "c\<lparr>cache_documents := bt_insert i (bt_insert k (ts, d) (cached c i)) (cache_documents c)\<rparr>"
  have old: "bt_ok (cached c i)" "set (cached c i) \<subseteq> set (rows i)" using c by (auto simp: cache_ok_def)
  have new: "set (bt_insert k (ts, d) (cached c i)) = insert (k, ts, d) (set (cached c i))"
    by (rule set_bt_insert_part [OF old(1) rows(1) old(2) row])
  have ok: "cache_ok rows ?c" using c old row by (auto simp: cache_ok_def new)
  have "set (select (Interval_prefix k) (rows i)) \<subseteq> {(k, ts, d)}"
  proof
    fix e assume sel: "e \<in> set (select (Interval_prefix k) (rows i))"
    obtain l v where "e = (l, v)" by (rule prod.exhaust)
    with sel have e: "e = (l, v)" "(l, v) \<in> set (rows i)" "prefix k l" by (simp_all add: prefix_points)
    from prefix_freeD [OF rows(2) row e(2,3)] bt_unique [OF rows(1) row] e show "e \<in> {(k, ts, d)}" by auto
  qed
  then have "set (select (Interval_prefix k) (rows i)) \<subseteq> set (cached ?c i)" by (rule order_trans) (simp add: new)
  from add_cached_interval_ok [OF ok this] obtain c' where c': "add_cached_interval i (Interval_prefix k) ?c = Some c'"
    "cache_ok rows c'" "cache_documents c' = cache_documents ?c" "cache_size c' = cache_size ?c" by blast
  have docs: "cached c' j = (if j = i then bt_insert k (ts, d) (cached c i) else cached c j)" for j
    by (simp add: c'(3))
  show ?thesis
    using True c' by (auto simp: cache_populate_def cache_ok_def grows_def docs new)
qed (use c in \<open>simp add: cache_populate_def\<close>)

lemma record_interval_ok:
  assumes "cache_ok rows c" and "cache_size c \<le> MAX_TRANSACTION_CACHE_SIZE \<Longrightarrow> set (select iv (rows i)) \<subseteq> set (cached c i)"
  shows "\<exists>c'. record_interval_populated i iv c = Some c' \<and> cache_ok rows c' \<and> grows c c'"
  using assms add_cached_interval_ok [OF assms(1), of iv i] by (auto simp: record_interval_populated_def grows_def)

text \<open>The rows a part of a cached range stands for.\<close>

fun expand :: "(bytes, timestamp \<times> resolved_document) btree \<Rightarrow> order \<Rightarrow> cache_result \<Rightarrow> index_row list" where
  "expand m ord (CacheDocument k ts d) = [(k, ts, d)]"
| "expand m ord (CacheMiss i) = Order_apply ord (select i m)"

abbreviation expand_all :: "(bytes, timestamp \<times> resolved_document) btree \<Rightarrow> order \<Rightarrow> cache_result list \<Rightarrow> index_row list" where
  "expand_all m ord crs \<equiv> concat (map (expand m ord) crs)"

lemma Order_apply_simps [simp]: "Order_apply Asc xs = xs" "Order_apply Desc xs = rev xs"
  by (simp_all add: Order_apply_def)

lemma set_Order_apply [simp]: "set (Order_apply ord xs) = set xs"
  by (cases ord) simp_all

lemma expand_documents: "concat (map (expand m ord \<circ> (\<lambda>(k, ts, d). CacheDocument k ts d)) found) = found"
  by (induction found) auto

lemma expand_Desc: "expand m Desc = rev \<circ> expand m Asc"
proof
  show "expand m Desc cr = (rev \<circ> expand m Asc) cr" for cr by (cases cr) simp_all
qed

lemma expand_Order_apply: "expand_all m ord (Order_apply ord crs) = Order_apply ord (expand_all m Asc crs)"
  by (cases ord) (simp_all add: expand_Desc rev_concat rev_map)

lemma select_split:
  assumes m: "bt_ok m" and k: "s \<le> StartIncluded k" "\<not> End_is_disjoint e (StartIncluded k)"
  shows "select \<lparr>start_bound = s, end_bound = e\<rparr> m
     = select \<lparr>start_bound = s, end_bound = Excluded k\<rparr> m @ select \<lparr>start_bound = StartIncluded k, end_bound = e\<rparr> m"
proof -
  let ?x = "select \<lparr>start_bound = s, end_bound = e\<rparr> m"
  have "filter (\<lambda>x. fst x < k) ?x = select \<lparr>start_bound = s, end_bound = Excluded k\<rparr> m"
    using k by (cases s; cases e) (auto simp: select_def Interval_contains_def intro!: filter_cong)
  moreover have "filter (\<lambda>x. k \<le> fst x) ?x = select \<lparr>start_bound = StartIncluded k, end_bound = e\<rparr> m"
    using k by (cases s; cases e) (auto simp: select_def Interval_contains_def intro!: filter_cong)
  ultimately show ?thesis using bt_split [OF select_ok [OF m], of k] by metis
qed

lemma select_chained:
  "bt_ok m \<Longrightarrow> chained s cs e \<Longrightarrow> concat (map (\<lambda>c. select (snd c) m) cs) = select \<lparr>start_bound = s, end_bound = e\<rparr> m"
proof (induction s cs e rule: chained.induct)
  case (3 s b i b' i' cs e)
  then obtain k where i: "i = \<lparr>start_bound = s, end_bound = Excluded k\<rparr>" "\<not> Interval_is_empty i"
    and rest: "chained (StartIncluded k) ((b', i') # cs) e" by (auto simp: interval_eq_iff)
  have "s \<le> StartIncluded k" using i by (cases s) (simp add: is_empty_bounds)
  moreover have "\<not> End_is_disjoint e (StartIncluded k)" using chained_points [OF rest] by blast
  ultimately show ?case using "3.IH" [OF \<open>bt_ok m\<close> rest] i select_split [OF \<open>bt_ok m\<close>, of s k e] by simp
qed (auto simp: interval_eq_iff)

lemma chained_tail:
  "chained s (c # cs) e \<Longrightarrow> cs = [] \<or> (\<exists>s'. chained s' cs e)"
  by (cases cs; cases c) auto

lemma nonempty_range: "\<not> Interval_is_empty i \<Longrightarrow> BTreeMap_range i m = Some (select i m)"
  by (auto simp: BTreeMap_range_def select_def is_empty_bounds split: end_bound.splits) (cases "start_bound i"; simp)

lemma cached_select:
  assumes c: "cache_ok rows c" and rows: "bt_ok (rows i)" and iv: "Interval_points iv \<subseteq> IntervalSet_points (populated c i)"
  shows "select iv (cached c i) = select iv (rows i)"
proof (rule bt_ext)
  from c have *: "bt_ok (cached c i)" "set (cached c i) \<subseteq> set (rows i)"
    "{e \<in> set (rows i). fst e \<in> IntervalSet_points (populated c i)} \<subseteq> set (cached c i)" by (simp_all add: cache_ok_def)
  then show "bt_ok (select iv (cached c i))" by (intro select_ok)
  show "bt_ok (select iv (rows i))" by (rule select_ok) (rule rows)
  from * iv show "set (select iv (cached c i)) = set (select iv (rows i))" by (auto simp: select_def Interval_points_def)
qed

lemma cache_get_loop_correct:
  assumes c: "cache_ok rows c" and rows: "bt_ok (rows i)"
  shows "cs = [] \<or> (\<exists>s. chained s cs (end_bound interval)) \<Longrightarrow> flagged (IntervalSet_points (populated c i)) cs \<Longrightarrow>
     \<exists>crs. cache_get_loop (bt_get (cache_documents c) i) interval cs hits = Some crs
       \<and> expand_all (rows i) Asc crs = concat (map (\<lambda>c. select (snd c) (rows i)) cs)"
proof (induction cs arbitrary: hits)
  case (Cons p cs)
  obtain b iv where p: "p = (b, iv)" by (rule prod.exhaust)
  from Cons.prems(1) obtain s where chain: "chained s (p # cs) (end_bound interval)" by auto
  have iv: "\<not> Interval_is_empty iv" "start_bound iv = s" using chained_points [OF chain] chained_start [OF chain] p by auto
  note tail = chained_tail [OF chain]
  have flags: "flagged (IntervalSet_points (populated c i)) cs" using Cons.prems(2) p by simp
  show ?case
  proof (cases "hits \<ge> MAX_CACHED_RANGES_PER_INTERVAL")
    case True
    with select_chained [OF rows chain] iv show ?thesis by (simp add: p)
  next
    case low: False
    show ?thesis
    proof (cases b)
      case True
      have "select iv (cached c i) = select iv (rows i)"
        using Cons.prems(2) p True by (intro cached_select [OF c rows]) simp
      moreover have "(case bt_get (cache_documents c) i of None \<Rightarrow> Some [] | Some m \<Rightarrow> BTreeMap_range iv m) = Some (select iv (cached c i))"
        by (auto simp: nonempty_range [OF iv(1)] get_or_def select_def split: option.splits)
      moreover obtain crs where "cache_get_loop (bt_get (cache_documents c) i) interval cs (hits + 1) = Some crs"
        "expand_all (rows i) Asc crs = concat (map (\<lambda>c. select (snd c) (rows i)) cs)"
        using Cons.IH [OF tail flags] by blast
      ultimately show ?thesis using low True by (simp add: p expand_documents)
    next
      case False
      obtain crs where "cache_get_loop (bt_get (cache_documents c) i) interval cs hits = Some crs"
        "expand_all (rows i) Asc crs = concat (map (\<lambda>c. select (snd c) (rows i)) cs)"
        using Cons.IH [OF tail flags] by blast
      then show ?thesis using low False by (simp add: p)
    qed
  qed
qed simp

definition forward :: "interval \<Rightarrow> bool" where
  "forward i = (case end_bound i of Excluded e \<Rightarrow> start_key (start_bound i) \<le> e | Unbounded \<Rightarrow> True)"

lemma forward_range: "forward i \<Longrightarrow> BTreeMap_range i m = Some (select i m)"
  by (auto simp: BTreeMap_range_def forward_def select_def split: end_bound.splits)

lemma nonempty_forward: "\<not> Interval_is_empty i \<Longrightarrow> forward i"
  by (cases "start_bound i") (auto simp: forward_def is_empty_bounds split: end_bound.splits)

lemma select_empty: "Interval_is_empty i \<Longrightarrow> select i m = []"
  by (auto simp: select_def filter_empty_conv is_empty_iff_points Interval_points_def)

lemma cache_get_loop_documents:
  "cache_get_loop docs interval cs hits = Some crs \<Longrightarrow> CacheDocument k ts d \<in> set crs \<Longrightarrow> \<exists>m. docs = Some m \<and> (k, ts, d) \<in> set m"
proof (induction docs interval cs hits arbitrary: crs rule: cache_get_loop.induct)
  case (2 docs interval in_set component cs hits)
  have range: "set found \<subseteq> set m" if "BTreeMap_range component m = Some found" for m found
    using that by (auto simp: BTreeMap_range_def split: end_bound.splits if_splits)
  show ?case using "2.prems" "2.IH" range by (auto split: if_splits option.splits) blast+
qed simp

lemma split_All: "IntervalSet_split_interval_components All t = Some [(True, t)]"
  by (simp add: IntervalSet_split_interval_components_def)

lemma split_empty: "Interval_is_empty t \<Longrightarrow> IntervalSet_split_interval_components (Intervals m) t = Some []"
  by (simp add: IntervalSet_split_interval_components_def)

lemma cache_get_correct:
  assumes c: "cache_ok rows c" and rows: "bt_ok (rows i)" and iv: "forward iv"
  obtains crs where "cache_get i iv ord c = Some crs"
    and "expand_all (rows i) ord crs = Order_apply ord (select iv (rows i))"
    and "\<And>k ts d. CacheDocument k ts d \<in> set crs \<Longrightarrow> (k, ts, d) \<in> set (cached c i)"
proof (cases "bt_get (cache_intervals c) i")
  case None
  then show ?thesis by (intro that [of "[CacheMiss iv]"]) (simp_all add: cache_get_def)
next
  case (Some s)
  then have s: "populated c i = s" by (simp add: get_or_def)
  let ?docs = "bt_get (cache_documents c) i"
  have "\<exists>cs crs. IntervalSet_split_interval_components s iv = Some cs \<and> cache_get_loop ?docs iv cs 0 = Some crs
      \<and> expand_all (rows i) Asc crs = select iv (rows i)"
  proof (cases "Interval_is_empty iv")
    case False
    have "IntervalSet_ok s" using c s by (auto simp: cache_ok_def)
    from split_components_correct [OF this False] obtain cs where cs: "IntervalSet_split_interval_components s iv = Some cs"
      "chained (start_bound iv) cs (end_bound iv)" "flagged (IntervalSet_points s) cs" by blast
    from cache_get_loop_correct [OF c rows _ cs(3) [folded s], of iv 0] cs(2) select_chained [OF rows cs(2)] cs(1)
    show ?thesis by auto
  next
    case True
    show ?thesis
    proof (cases s)
      case All
      have "(case ?docs of None \<Rightarrow> Some [] | Some m \<Rightarrow> BTreeMap_range iv m) = Some []"
        by (simp add: forward_range [OF iv] select_empty [OF True] split: option.splits)
      then show ?thesis by (auto simp: All split_All select_empty [OF True] MAX_CACHED_RANGES_PER_INTERVAL_def)
    qed (auto simp: split_empty [OF True] select_empty [OF True])
  qed
  then obtain cs crs where crs: "IntervalSet_split_interval_components s iv = Some cs" "cache_get_loop ?docs iv cs 0 = Some crs"
    "expand_all (rows i) Asc crs = select iv (rows i)" by blast
  have "(k, ts, d) \<in> set (cached c i)" if cd: "CacheDocument k ts d \<in> set (Order_apply ord crs)" for k ts d
  proof -
    obtain m where "?docs = Some m" "(k, ts, d) \<in> set m"
      using cache_get_loop_documents [OF crs(2), of k ts d] cd by auto
    then show ?thesis by (simp add: get_or_Some)
  qed
  with crs Some show ?thesis
    by (intro that [of "Order_apply ord crs"]) (simp_all add: cache_get_def expand_Order_apply)
qed

section \<open>Fetching what is missing\<close>

text \<open>
  The contract of persistence: the stream of an index scan gives the rows of the index in the
  interval, in the order asked for, and may fail at any point.
\<close>

definition streams :: "index_row list \<Rightarrow> ('e + index_row) list \<Rightarrow> bool" where
  "streams xs s = (s = map Inr xs \<or> (\<exists>n e t. n \<le> length xs \<and> s = map Inr (take n xs) @ Inl e # t))"

definition scans :: "(bytes, timestamp \<times> resolved_document) btree \<Rightarrow> (interval \<Rightarrow> order \<Rightarrow> nat \<Rightarrow> ('e + index_row) list) \<Rightarrow> bool" where
  "scans m scan = (\<forall>iv ord n. streams (Order_apply ord (select iv m)) (scan iv ord n))"

lemma read_stream_correct:
  assumes "streams xs s" and "length results < n"
  shows "(\<exists>e. read_stream n s results missed = Inl (PersistenceError e) \<and> Inl e \<in> set s)
    \<or> (\<exists>k. read_stream n s results missed = Inr (results @ take k xs, missed @ map snd (take k xs))
         \<and> (if n \<le> length results + length xs then k = n - length results else k = length xs))"
  using assms
proof (induction s arbitrary: xs results missed)
  case Nil
  then have "xs = []" by (auto simp: streams_def)
  with Nil show ?case by auto
next
  case (Cons y s)
  show ?case
  proof (cases y)
    case (Inl e)
    then show ?thesis by auto
  next
    case (Inr row)
    obtain k ts d where row: "row = (k, ts, d)" by (rule prod_cases3)
    obtain xs' where xs: "xs = row # xs'" "streams xs' s"
    proof -
      from Cons.prems(1) Inr consider "xs \<noteq> []" "y = Inr (hd xs)" "s = map Inr (tl xs)"
        | m e t where "m \<le> length xs" "y # s = map Inr (take m xs) @ Inl e # t" by (cases xs) (auto simp: streams_def)
      then show ?thesis
      proof cases
        case 1
        with Inr that show ?thesis by (cases xs) (auto simp: streams_def)
      next
        case 2
        with Inr obtain m' where "m = Suc m'" by (cases m) auto
        with 2 Inr obtain x xs' where "xs = x # xs'" by (cases xs) auto
        with 2 Inr \<open>m = Suc m'\<close> that show ?thesis by (auto simp: streams_def)
      qed
    qed
    show ?thesis
    proof (cases "length (results @ [row]) \<ge> n")
      case True
      with Cons.prems(2) xs Inr row show ?thesis by (intro disjI2 exI [of _ 1]) auto
    next
      case False
      with Cons.IH [OF xs(2), of "results @ [row]" "missed @ [snd row]"]
      consider e where "read_stream n s (results @ [row]) (missed @ [snd row]) = Inl (PersistenceError e)" "Inl e \<in> set s"
        | j where "read_stream n s (results @ [row]) (missed @ [snd row]) = Inr ((results @ [row]) @ take j xs', (missed @ [snd row]) @ map snd (take j xs'))"
          "if n \<le> length (results @ [row]) + length xs' then j = n - length (results @ [row]) else j = length xs'"
        by (auto simp: not_le)
      then show ?thesis
      proof cases
        case 1
        with False Inr row show ?thesis by auto
      next
        case 2
        with False Inr row xs(1) show ?thesis by (intro disjI2 exI [of _ "Suc j"]) auto
      qed
    qed
  qed
qed

text \<open>A page of at most \<open>n\<close> rows with the cursor after it.\<close>

definition page :: "nat \<Rightarrow> (bytes \<times> 'v) list \<Rightarrow> (bytes \<times> 'v) list \<times> cursor_position" where
  "page n rows = (take n rows, if n \<le> length rows then After (fst (last (take n rows))) else End)"

definition fetch_outcome ::
    "'e persistence \<Rightarrow> internal_id \<Rightarrow> range_request \<Rightarrow> index_row list \<Rightarrow> index_row list \<Rightarrow> (timestamp \<times> resolved_document) list
     \<Rightarrow> ('e index_error + index_row list \<times> (timestamp \<times> resolved_document) list \<times> cursor_position) option \<Rightarrow> bool" where
  "fetch_outcome scan i req rows known missed res =
     ((\<exists>e iv. res = Some (Inl (PersistenceError e))
         \<and> Inl e \<in> set (scan i (fst (req_index_name req)) iv (req_order req) (req_max_size req)))
      \<or> (\<exists>new. res = Some (Inr (fst (page (req_max_size req) rows), missed @ new, snd (page (req_max_size req) rows)))
         \<and> set new \<subseteq> snd ` set rows
         \<and> set (take (req_max_size req) rows) \<subseteq> set known \<union> {x. snd x \<in> set new}))"

lemma fetch_outcome_mono:
  assumes "fetch_outcome scan i req rows known (missed @ new) res" and "set new \<subseteq> snd ` set rows"
    and "set known \<subseteq> set known' \<union> {x. snd x \<in> set new}"
  shows "fetch_outcome scan i req rows known' missed res"
proof -
  consider e iv where "res = Some (Inl (PersistenceError e))"
      "Inl e \<in> set (scan i (fst (req_index_name req)) iv (req_order req) (req_max_size req))"
    | new' where "res = Some (Inr (fst (page (req_max_size req) rows), (missed @ new) @ new', snd (page (req_max_size req) rows)))"
      "set new' \<subseteq> snd ` set rows" "set (take (req_max_size req) rows) \<subseteq> set known \<union> {x. snd x \<in> set new'}"
    using assms(1) unfolding fetch_outcome_def by blast
  then show ?thesis
  proof cases
    case 1
    then show ?thesis by (auto simp: fetch_outcome_def)
  next
    case 2
    with assms(2,3) show ?thesis unfolding fetch_outcome_def by (intro disjI2 exI [of _ "new @ new'"]) auto
  qed
qed

lemma page_full:
  "length xs = n \<Longrightarrow> page n (xs @ ys) = (xs, After (fst (last xs)))"
  "length xs < n \<Longrightarrow> page n xs = (xs, End)"
  by (simp_all add: page_def)

lemma fetch_cache_misses_correct:
  assumes scan: "\<And>iv. streams (Order_apply (req_order req) (select iv m)) (scan i (fst (req_index_name req)) iv (req_order req) (req_max_size req))"
    and "length results < req_max_size req"
  shows "fetch_outcome scan i req (results @ expand_all m (req_order req) crs)
     (results @ [(k, ts, d). CacheDocument k ts d \<leftarrow> crs]) missed (fetch_cache_misses scan i req crs results missed)"
  using assms(2)
proof (induction crs arbitrary: results missed)
  case Nil
  then show ?case by (auto simp: fetch_outcome_def page_full)
next
  case (Cons cr crs)
  let ?n = "req_max_size req" and ?ord = "req_order req"
  let ?known = "\<lambda>crs. [(k, ts, d). CacheDocument k ts d \<leftarrow> crs]"
  show ?case
  proof (cases cr)
    case (CacheDocument k ts d)
    let ?res = "results @ [(k, ts, d)]"
    show ?thesis
    proof (cases "?n \<le> length ?res")
      case True
      with Cons.prems have "length ?res = ?n" "?n - length results = 1" by simp_all
      from page_full(1) [OF this(1), of "expand_all m ?ord crs"] True CacheDocument this
      show ?thesis by (auto simp: fetch_outcome_def)
    next
      case False
      then have "length ?res < ?n" by simp
      from Cons.IH [OF this, of missed] False CacheDocument show ?thesis by simp
    qed
  next
    case (CacheMiss iv)
    let ?xs = "Order_apply ?ord (select iv m)"
    let ?all = "results @ ?xs @ expand_all m ?ord crs"
    consider e where "read_stream ?n (scan i (fst (req_index_name req)) iv ?ord ?n) results missed = Inl (PersistenceError e)"
        "Inl e \<in> set (scan i (fst (req_index_name req)) iv ?ord ?n)"
      | k where "read_stream ?n (scan i (fst (req_index_name req)) iv ?ord ?n) results missed
            = Inr (results @ take k ?xs, missed @ map snd (take k ?xs))"
          "if ?n \<le> length results + length ?xs then k = ?n - length results else k = length ?xs"
      using read_stream_correct [OF scan [of iv] Cons.prems, of missed] by blast
    then show ?thesis
    proof cases
      case 1
      with CacheMiss show ?thesis by (auto simp: fetch_outcome_def)
    next
      case 2
      show ?thesis
      proof (cases "?n \<le> length results + length ?xs")
        case True
        with 2(2) have k: "k = ?n - length results" by simp
        let ?res = "results @ take k ?xs"
        have len: "length ?res = ?n" using True Cons.prems k by simp
        have all: "?all = ?res @ drop k ?xs @ expand_all m ?ord crs" by simp
        have "?res \<noteq> []" using len Cons.prems by auto
        then have "fetch_cache_misses scan i req (cr # crs) results missed = Some (Inr (?res, missed @ map snd (take k ?xs), After (fst (last ?res))))"
          using 2(1) CacheMiss len by simp
        moreover have "page ?n ?all = (?res, After (fst (last ?res)))" unfolding all by (rule page_full(1)) (rule len)
        moreover have "take ?n ?all = ?res" using k Cons.prems True by simp
        moreover have "set (map snd (take k ?xs)) \<subseteq> snd ` set ?all"
          unfolding set_map by (intro image_mono) (auto dest: in_set_takeD)
        ultimately show ?thesis using CacheMiss unfolding fetch_outcome_def
          by (intro disjI2 exI [of _ "map snd (take k ?xs)"]) auto
      next
        case False
        let ?res = "results @ ?xs"
        from False 2 have "read_stream ?n (scan i (fst (req_index_name req)) iv ?ord ?n) results missed = Inr (?res, missed @ map snd ?xs)" by simp
        moreover have low: "length ?res < ?n" using False by simp
        ultimately have "fetch_cache_misses scan i req (cr # crs) results missed = fetch_cache_misses scan i req crs ?res (missed @ map snd ?xs)"
          using CacheMiss by simp
        moreover have "fetch_outcome scan i req (?res @ expand_all m ?ord crs) (?res @ ?known crs) (missed @ map snd ?xs)
            (fetch_cache_misses scan i req crs ?res (missed @ map snd ?xs))" by (rule Cons.IH [OF low])
        then have "fetch_outcome scan i req (?res @ expand_all m ?ord crs) (results @ ?known crs) missed
            (fetch_cache_misses scan i req crs ?res (missed @ map snd ?xs))"
          by (rule fetch_outcome_mono) auto
        ultimately show ?thesis using CacheMiss by simp
      qed
    qed
  qed
qed

section \<open>What a page covers\<close>

lemma page_rows_after:
  assumes sorted: "sorted_wrt P (map fst rows)" and n: "0 < n" "n \<le> length rows" and e: "e \<in> set rows" "e \<notin> set (take n rows)"
  shows "P (fst (last (take n rows))) (fst e)"
proof -
  have rows: "map fst rows = map fst (take n rows) @ map fst (drop n rows)" by (simp flip: map_append)
  have "last (take n rows) \<in> set (take n rows)" using n by (intro last_in_set) auto
  moreover have "e \<in> set (drop n rows)" using e by (metis Un_iff append_take_drop_id set_append)
  ultimately show ?thesis using sorted unfolding rows sorted_wrt_append by auto
qed

lemma Order_apply_sorted: "bt_ok m \<Longrightarrow> sorted_wrt (case ord of Asc \<Rightarrow> (<) | Desc \<Rightarrow> (>)) (map fst (Order_apply ord m))"
  by (cases ord) (simp_all add: sorted_wrt_rev flip: rev_map)

lemma split_after_read:
  assumes k: "Interval_contains i k" and p: "Interval_contains (fst (Interval_split_after i k ord)) p" and pre: "prefix k p \<Longrightarrow> p = k"
  shows "Interval_contains i p \<and> (case ord of Asc \<Rightarrow> p \<le> k | Desc \<Rightarrow> k \<le> p)"
proof (cases ord)
  case Asc
  with p have "start_bound i \<le> StartIncluded p" "p < k \<or> prefix k p"
    by (auto simp: Interval_split_after_def interval_simps after_prefix_disjoint)
  with pre k Asc show ?thesis
    by (cases "start_bound i"; cases "end_bound i") (auto simp: Interval_contains_def)
next
  case Desc
  with p k show ?thesis
    by (cases "start_bound i"; cases "end_bound i") (auto simp: Interval_split_after_def Interval_contains_def)
qed

lemma page_covers:
  assumes m: "bt_ok m" "prefix_free m" and n: "0 < n"
  shows "set (select (fst (Interval_split iv (snd (page n (Order_apply ord (select iv m)))) ord)) m)
     \<subseteq> set (fst (page n (Order_apply ord (select iv m))))"
proof (cases "n \<le> length (select iv m)")
  case False
  then show ?thesis by (cases ord) (auto simp: page_def Interval_split_def)
next
  case True
  let ?rows = "Order_apply ord (select iv m)"
  let ?k = "fst (last (take n ?rows))"
  have len: "n \<le> length ?rows" using True by (cases ord) simp_all
  have "last (take n ?rows) \<in> set (take n ?rows)" using n len by (intro last_in_set) auto
  then have last: "last (take n ?rows) \<in> set (select iv m)" by (auto dest: in_set_takeD)
  then have k: "Interval_contains iv ?k" by auto
  show ?thesis
  proof
    fix e assume sel: "e \<in> set (select (fst (Interval_split iv (snd (page n ?rows)) ord)) m)"
    then have mem: "e \<in> set m" and pt: "Interval_contains (fst (Interval_split_after iv ?k ord)) (fst e)"
      using len by (auto simp: page_def Interval_split_def)
    have eq: "fst e = ?k" if "prefix ?k (fst e)"
      using m(2) that mem last unfolding prefix_free_def by (metis mem_select imageI)
    from split_after_read [OF k pt eq] have in_iv: "Interval_contains iv (fst e)"
      and bound: "case ord of Asc \<Rightarrow> fst e \<le> ?k | Desc \<Rightarrow> ?k \<le> fst e" by blast+
    from in_iv have e: "e \<in> set ?rows" using mem by simp
    note sorted = Order_apply_sorted [OF select_ok [OF m(1)], of ord iv]
    have "e \<in> set (take n ?rows)"
    proof (rule ccontr)
      assume "e \<notin> set (take n ?rows)"
      from page_rows_after [OF sorted n len e this] bound show False by (cases ord) auto
    qed
    then show "e \<in> set (fst (page n ?rows))" by (simp add: page_def)
  qed
qed

section \<open>Populating the cache\<close>

text \<open>The rows are those of every index of the registry.\<close>

definition rows_exact ::
    "'x index_parser \<Rightarrow> 'x index_registry \<Rightarrow> 'w versions \<Rightarrow> (internal_id \<Rightarrow> (bytes, 'w \<times> resolved_document) btree) \<Rightarrow> bool" where
  "rows_exact parse r S rows =
     (\<forall>ix fs t. indexed_by parse r (documents_of S) t ix fs \<longrightarrow> index_contents S t fs (rows (ix_id ix)))"

lemma rows_exact_contents:
  "rows_exact parse r S rows \<Longrightarrow> indexed_by parse r (documents_of S) t ix fs \<Longrightarrow> index_contents S t fs (rows (ix_id ix))"
  by (auto simp: rows_exact_def)

lemma contents_ok: "index_contents S t fs m \<Longrightarrow> bt_ok m"
  by (simp add: index_contents_def)

lemma populate_keys_ok:
  assumes "\<forall>(ix, key) \<in> set keys. (IndexKey_into_bytes key, ts, d) \<in> set (rows (ix_id ix)) \<and> bt_ok (rows (ix_id ix)) \<and> prefix_free (rows (ix_id ix))"
    and "cache_ok rows c"
  shows "\<exists>c'. fold_option (\<lambda>(ix, key). cache_populate (ix_id ix) (IndexKey_into_bytes key) ts d) keys c = Some c'
    \<and> cache_ok rows c' \<and> grows c c'
    \<and> (cache_size c' \<le> MAX_TRANSACTION_CACHE_SIZE \<longrightarrow>
         (\<forall>(ix, key) \<in> set keys. (IndexKey_into_bytes key, ts, d) \<in> set (cached c' (ix_id ix))))"
  using assms
proof (induction keys arbitrary: c)
  case (Cons p keys)
  obtain ix key where p: "p = (ix, key)" by (rule prod.exhaust)
  let ?k = "IndexKey_into_bytes key"
  obtain a where a: "cache_populate (ix_id ix) ?k ts d c = Some a" "cache_ok rows a" "grows c a"
    "cache_size a \<le> MAX_TRANSACTION_CACHE_SIZE \<Longrightarrow> (?k, ts, d) \<in> set (cached a (ix_id ix))"
    using cache_populate_ok [OF Cons.prems(2), of ?k ts d "ix_id ix"] Cons.prems(1) p by auto
  obtain b where b: "fold_option (\<lambda>(ix, key). cache_populate (ix_id ix) (IndexKey_into_bytes key) ts d) keys a = Some b"
    "cache_ok rows b" "grows a b" "cache_size b \<le> MAX_TRANSACTION_CACHE_SIZE \<Longrightarrow>
       \<forall>(ix, key) \<in> set keys. (IndexKey_into_bytes key, ts, d) \<in> set (cached b (ix_id ix))"
    using Cons.IH [OF _ a(2)] Cons.prems(1) by auto
  have "(?k, ts, d) \<in> set (cached b (ix_id ix))" if "cache_size b \<le> MAX_TRANSACTION_CACHE_SIZE"
    using a(4) b(3) that by (auto simp: grows_def)
  with a b show ?case by (auto simp: p intro: grows_trans)
qed simp

definition snapshot_ok :: "'x index_parser \<Rightarrow> 'x index_registry \<Rightarrow> snapshot_store \<Rightarrow> index_rows \<Rightarrow> bool" where
  "snapshot_ok parse r S rows =
     (represents parse r (documents_of S) \<and> parser_ok parse \<and> store_ok S \<and> rows_exact parse r S rows)"

lemma snapshot_rows:
  assumes "snapshot_ok parse r S rows" and "indexed_by parse r (documents_of S) t ix fs"
  shows "index_contents S t fs (rows (ix_id ix))" and "bt_ok (rows (ix_id ix))" and "prefix_free (rows (ix_id ix))"
  using assms rows_exact_contents [of parse r S rows t ix fs] contents_ok contents_prefix_free
  by (auto simp: snapshot_ok_def)

lemma populate_document_ok:
  assumes snap: "snapshot_ok parse r S rows" and doc: "S i = Some (ts, d)" and c: "cache_ok rows c"
  shows "\<exists>c'. populate_document r (ts, d) c = Some c' \<and> cache_ok rows c' \<and> grows c c'
    \<and> (cache_size c' \<le> MAX_TRANSACTION_CACHE_SIZE \<longrightarrow>
         (\<forall>ix fs. indexed_by parse r (documents_of S) (doc_tablet_id d) ix fs \<longrightarrow> (row_key fs d, ts, d) \<in> set (cached c' (ix_id ix))))"
proof -
  have rep: "represents parse r (documents_of S)" "parser_ok parse" using snap by (simp_all add: snapshot_ok_def)
  obtain keys where keys: "index_keys r d = Some keys"
    and mem: "\<And>ix key. (ix, key) \<in> set keys \<longleftrightarrow> (\<exists>fs. indexed_by parse r (documents_of S) (doc_tablet_id d) ix fs \<and> key = ResolvedDocument_index_key d fs)"
    by (rule document_keys [OF rep refl]) blast
  have "i = ResolvedDocument_id d" using stored_id [of S i "(ts, d)"] snap doc by (simp add: snapshot_ok_def)
  then have i: "tablet_id i = doc_tablet_id d" by (simp add: ResolvedDocument_id_def)
  have "(IndexKey_into_bytes key, ts, d) \<in> set (rows (ix_id ix)) \<and> bt_ok (rows (ix_id ix)) \<and> prefix_free (rows (ix_id ix))"
    if mk: "(ix, key) \<in> set keys" for ix key
  proof -
    obtain fs where fs: "indexed_by parse r (documents_of S) (doc_tablet_id d) ix fs" "key = ResolvedDocument_index_key d fs"
      using mk mem by blast
    have "(row_key fs d, ts, d) \<in> set (rows (ix_id ix))"
      using contents_mem [OF snapshot_rows(1) [OF snap fs(1)]] doc i by auto
    with fs snapshot_rows(2,3) [OF snap fs(1)] show ?thesis by (simp add: row_key_def)
  qed
  then obtain c' where c': "fold_option (\<lambda>(ix, key). cache_populate (ix_id ix) (IndexKey_into_bytes key) ts d) keys c = Some c'"
    "cache_ok rows c'" "grows c c'" "cache_size c' \<le> MAX_TRANSACTION_CACHE_SIZE \<longrightarrow>
         (\<forall>(ix, key) \<in> set keys. (IndexKey_into_bytes key, ts, d) \<in> set (cached c' (ix_id ix)))"
    using populate_keys_ok [of keys ts d rows c] c by auto
  moreover have "(row_key fs d, ts, d) \<in> set (cached c' (ix_id ix))"
    if "cache_size c' \<le> MAX_TRANSACTION_CACHE_SIZE" "indexed_by parse r (documents_of S) (doc_tablet_id d) ix fs" for ix fs
    using c'(4) that(1) mem [of ix "ResolvedDocument_index_key d fs"] that(2) by (fastforce simp: row_key_def)
  ultimately show ?thesis by (auto simp: populate_document_def keys)
qed

lemma populate_all_ok:
  assumes snap: "snapshot_ok parse r S rows"
  shows "\<forall>v \<in> set missed. \<exists>i. S i = Some v \<Longrightarrow> cache_ok rows c \<Longrightarrow>
    \<exists>c'. fold_option (populate_document r) missed c = Some c' \<and> cache_ok rows c' \<and> grows c c'
    \<and> (cache_size c' \<le> MAX_TRANSACTION_CACHE_SIZE \<longrightarrow>
         (\<forall>ts d ix fs. (ts, d) \<in> set missed \<and> indexed_by parse r (documents_of S) (doc_tablet_id d) ix fs
            \<longrightarrow> (row_key fs d, ts, d) \<in> set (cached c' (ix_id ix))))"
proof (induction missed arbitrary: c)
  case (Cons v missed)
  obtain ts d where v: "v = (ts, d)" by (rule prod.exhaust)
  obtain i where i: "S i = Some (ts, d)" using Cons.prems(1) v by auto
  obtain a where a: "populate_document r (ts, d) c = Some a" "cache_ok rows a" "grows c a"
    "cache_size a \<le> MAX_TRANSACTION_CACHE_SIZE \<Longrightarrow>
       \<forall>ix fs. indexed_by parse r (documents_of S) (doc_tablet_id d) ix fs \<longrightarrow> (row_key fs d, ts, d) \<in> set (cached a (ix_id ix))"
    using populate_document_ok [OF snap i Cons.prems(2)] by blast
  obtain b where b: "fold_option (populate_document r) missed a = Some b" "cache_ok rows b" "grows a b"
    "cache_size b \<le> MAX_TRANSACTION_CACHE_SIZE \<Longrightarrow>
         \<forall>ts d ix fs. (ts, d) \<in> set missed \<and> indexed_by parse r (documents_of S) (doc_tablet_id d) ix fs
            \<longrightarrow> (row_key fs d, ts, d) \<in> set (cached b (ix_id ix))"
    using Cons.IH [OF _ a(2)] Cons.prems(1) by auto
  have size: "cache_size a \<le> cache_size b" and sub: "set (cached a j) \<subseteq> set (cached b j)" for j
    using b(3) by (auto simp: grows_def)
  have "(row_key fs d', ts', d') \<in> set (cached b (ix_id ix))"
    if "cache_size b \<le> MAX_TRANSACTION_CACHE_SIZE" "(ts', d') \<in> set (v # missed)"
      "indexed_by parse r (documents_of S) (doc_tablet_id d') ix fs" for ts' d' ix fs
  proof (cases "(ts', d') \<in> set missed")
    case False
    then have "(ts', d') = (ts, d)" using that(2) v by simp
    with a(4) that size sub show ?thesis by auto
  qed (use b(4) that in blast)
  with a b v show ?case by (auto intro: grows_trans)
qed simp

section \<open>Fetching a batch\<close>

text \<open>What a request is answered: the right page, or the error of persistence or of a cancelled task.\<close>

abbreviation request_rows :: "index_rows \<Rightarrow> internal_id \<Rightarrow> range_request \<Rightarrow> index_row list" where
  "request_rows rows i req \<equiv> Order_apply (req_order req) (select (req_interval req) (rows i))"

definition answer ::
    "'x index_registry \<Rightarrow> index_rows \<Rightarrow> 'e index_snapshot \<Rightarrow> bool \<Rightarrow> range_request \<Rightarrow> 'e index_error + fetched \<Rightarrow> bool" where
  "answer r rows snap cancelled req res =
     (case get_enabled r (req_index_name req) of
        None \<Rightarrow> if fst (req_index_name req) \<noteq> index_table r then res = Inr ([], End)
                else (\<exists>e. res = Inl (RegistryError e))
      | Some ix \<Rightarrow>
          if \<not> is_database_config (ix_config ix) then res = Inl NotADatabaseIndex
          else if bt_get (snap_in_memory snap) (ix_id ix) \<noteq> None then res = Inr (request_rows rows (ix_id ix) req, End)
          else res = Inr (page (req_max_size req) (request_rows rows (ix_id ix) req))
            \<or> (\<exists>e i iv ord n. res = Inl (PersistenceError e) \<and> Inl e \<in> set (snap_persistence snap i (fst (req_index_name req)) iv ord n))
            \<or> cancelled \<and> res = Inl TaskCancelled)"

definition reply :: "'e index_error + index_row list \<times> (timestamp \<times> resolved_document) list \<times> cursor_position \<Rightarrow> 'e index_error + fetched" where
  "reply res = (case res of Inl e \<Rightarrow> Inl e | Inr (out, missed, cursor) \<Rightarrow> Inr (out, cursor))"

text \<open>A completed fetch that may be written to the cache.\<close>

definition fetched_ok ::
    "'x index_parser \<Rightarrow> 'x index_registry \<Rightarrow> snapshot_store \<Rightarrow> index_rows \<Rightarrow> snapshot_cache \<Rightarrow> 'e fetch_result \<Rightarrow> bool" where
  "fetched_ok parse r S rows c f =
     (let (key, i, req, res) = f
      in 0 < req_max_size req \<and> (\<exists>t ix fs. indexed_by parse r (documents_of S) t ix fs \<and> ix_id ix = i)
         \<and> ((\<exists>e. res = Inl e)
            \<or> (\<exists>missed. let p = page (req_max_size req) (request_rows rows i req)
                 in res = Inr (fst p, missed, snd p) \<and> set missed \<subseteq> snd ` set (rows i)
                    \<and> set (fst p) \<subseteq> set (cached c i) \<union> {x. snd x \<in> set missed})))"

lemma finish_fetch_ok:
  assumes snap: "snapshot_ok parse r S rows" and f: "fetched_ok parse r S rows c0 f" and c: "cache_ok rows c" "grows c0 c"
  shows "\<exists>c'. finish_fetch r f (results, c) = Some (bt_insert (fst f) (reply (snd (snd (snd f)))) results, c')
    \<and> cache_ok rows c' \<and> grows c c'"
proof -
  obtain key i req res where f_eq: "f = (key, i, req, res)" by (rule prod_cases4)
  obtain t ix fs where ix: "indexed_by parse r (documents_of S) t ix fs" "ix_id ix = i" and n: "0 < req_max_size req"
    using f by (auto simp: fetched_ok_def f_eq Let_def)
  let ?p = "page (req_max_size req) (request_rows rows i req)"
  consider e where "res = Inl e"
    | missed where "res = Inr (fst ?p, missed, snd ?p)" "set missed \<subseteq> snd ` set (rows i)"
        "set (fst ?p) \<subseteq> set (cached c0 i) \<union> {x. snd x \<in> set missed}"
    using f by (auto simp: fetched_ok_def f_eq Let_def)
  then show ?thesis
  proof cases
    case 1
    with c show ?thesis by (auto simp: finish_fetch_def f_eq reply_def)
  next
    case 2
    note contents = snapshot_rows(1) [OF snap ix(1), unfolded ix(2)]
    have stored: "\<exists>j. tablet_id j = t \<and> S j = Some v \<and> k = row_key fs (snd v)" if "(k, v) \<in> set (rows i)" for k v
      using contents_mem [OF contents, of k v] that by simp
    have "\<forall>v \<in> set missed. \<exists>i. S i = Some v" using 2(2) stored by fastforce
    from populate_all_ok [OF snap this c(1)] obtain a where a: "fold_option (populate_document r) missed c = Some a" "cache_ok rows a" "grows c a"
      "cache_size a \<le> MAX_TRANSACTION_CACHE_SIZE \<Longrightarrow> \<forall>ts d ix fs. (ts, d) \<in> set missed
         \<and> indexed_by parse r (documents_of S) (doc_tablet_id d) ix fs \<longrightarrow> (row_key fs d, ts, d) \<in> set (cached a (ix_id ix))" by blast
    let ?iv = "fst (Interval_split (req_interval req) (snd ?p) (req_order req))"
    have "set (select ?iv (rows i)) \<subseteq> set (cached a i)" if small: "cache_size a \<le> MAX_TRANSACTION_CACHE_SIZE"
    proof
      fix x assume x: "x \<in> set (select ?iv (rows i))"
      have out: "x \<in> set (fst ?p)"
        using page_covers [OF snapshot_rows(2,3) [OF snap ix(1), unfolded ix(2)] n] x by blast
      show "x \<in> set (cached a i)"
      proof (cases "snd x \<in> set missed")
        case True
        obtain k ts d where x_eq: "x = (k, ts, d)" by (rule prod_cases3)
        with x obtain j where j: "tablet_id j = t" "S j = Some (ts, d)" "k = row_key fs d"
          using stored [of k "(ts, d)"] by auto
        have "doc_tablet_id d = t"
          using stored_id [of S j "(ts, d)"] j(1,2) snap by (simp add: snapshot_ok_def ResolvedDocument_id_def)
        with a(4) [OF small] True x_eq ix j(3) show ?thesis by auto
      next
        case False
        then have "x \<in> set (cached c0 i)" using 2(3) out by auto
        with c(2) a(3) show ?thesis by (auto simp: grows_def)
      qed
    qed
    from record_interval_ok [where i = i and iv = ?iv, OF a(2) this]
    obtain b where b: "record_interval_populated i ?iv a = Some b" "cache_ok rows b" "grows a b" by blast
    with a 2(1) show ?thesis by (auto simp: finish_fetch_def f_eq reply_def intro: grows_trans)
  qed
qed

lemma finish_all_ok:
  assumes snap: "snapshot_ok parse r S rows"
  shows "\<forall>f \<in> set fs. fetched_ok parse r S rows c0 f \<Longrightarrow> cache_ok rows c \<Longrightarrow> grows c0 c \<Longrightarrow>
    \<exists>c'. fold_option (finish_fetch r) fs (results, c)
        = Some (fold (\<lambda>f. bt_insert (fst f) (reply (snd (snd (snd f))))) fs results, c') \<and> cache_ok rows c' \<and> grows c c'"
proof (induction fs arbitrary: results c)
  case (Cons f fs)
  have f: "fetched_ok parse r S rows c0 f" using Cons.prems(1) by simp
  obtain a where a: "finish_fetch r f (results, c) = Some (bt_insert (fst f) (reply (snd (snd (snd f)))) results, a)"
    "cache_ok rows a" "grows c a"
    using finish_fetch_ok [OF snap f Cons.prems(2,3)] by blast
  have "grows c0 a" using Cons.prems(3) a(3) by (rule grows_trans)
  from Cons.IH [OF _ a(2) this] Cons.prems(1) a show ?case by (fastforce intro: grows_trans)
qed simp

text \<open>The in-memory indexes hold the rows of their indexes.\<close>

definition in_memory_view :: "index_rows \<Rightarrow> in_memory_indexes \<Rightarrow> bool" where
  "in_memory_view rows im =
     (\<forall>i m. bt_get im i = Some m \<longrightarrow> inner m = map (\<lambda>(k, ts, d). (k, ts, PackedDocument_pack d)) (rows i))"

lemma those_map_Some: "(\<And>x. x \<in> set xs \<Longrightarrow> f x = Some (g x)) \<Longrightarrow> those (map f xs) = Some (map g xs)"
  by (induction xs) auto

lemma in_memory_range_correct:
  assumes view: "in_memory_view rows im" and docs: "\<forall>(k, ts, d) \<in> set (rows i). stored_document_ok d" and m: "bt_get im i = Some m"
  shows "in_memory_range im i iv ord = Some (Some (Order_apply ord (select iv (rows i))))"
proof -
  have "inner m = map (\<lambda>(k, ts, d). (k, ts, PackedDocument_pack d)) (rows i)" using view m by (simp add: in_memory_view_def)
  then have "filter (\<lambda>e. Interval_contains iv (fst e)) (inner m) = map (\<lambda>(k, ts, d). (k, ts, PackedDocument_pack d)) (select iv (rows i))"
    by (simp add: filter_map o_def select_def case_prod_beta)
  moreover have "those (map ((\<lambda>(k, ts, v). map_option (\<lambda>d. (k, ts, d)) (PackedDocument_unpack v)) \<circ> (\<lambda>(k, ts, d). (k, ts, PackedDocument_pack d)))
      (select iv (rows i))) = Some (map id (select iv (rows i)))"
    using docs by (intro those_map_Some) (auto simp: stored_document_ok_def)
  ultimately have "DatabaseIndexMap_range iv m = Some (select iv (rows i))"
    by (simp add: DatabaseIndexMap_range_def)
  with m show ?thesis by (simp add: in_memory_range_def)
qed

text \<open>What starting one request leads to.\<close>

definition to_fetch_ok ::
    "'x index_parser \<Rightarrow> 'x index_registry \<Rightarrow> snapshot_store \<Rightarrow> index_rows \<Rightarrow> 'e index_snapshot \<Rightarrow> range_request
     \<Rightarrow> internal_id \<times> range_request \<times> cache_result list \<Rightarrow> bool" where
  "to_fetch_ok parse r S rows snap req f =
     (let (i, req', crs) = f
      in req' = req \<and> answer r rows snap True req (Inl TaskCancelled)
        \<and> (\<exists>res. fetch_cache_misses (snap_persistence snap) i req crs [] [] = Some res
             \<and> (\<forall>key. fetched_ok parse r S rows (snap_cache snap) (key, i, req, res)) \<and> answer r rows snap False req (reply res)))"

definition request_ok :: "range_request \<Rightarrow> bool" where
  "request_ok req = (0 < req_max_size req \<and> forward (req_interval req))"

definition persistence_ok ::
    "'x index_parser \<Rightarrow> 'x index_registry \<Rightarrow> snapshot_store \<Rightarrow> index_rows \<Rightarrow> 'e persistence \<Rightarrow> bool" where
  "persistence_ok parse r S rows scan =
     (\<forall>t ix fs. indexed_by parse r (documents_of S) t ix fs \<longrightarrow> scans (rows (ix_id ix)) (scan (ix_id ix) t))"

lemma enabled_indexed:
  assumes rep: "represents parse r S" and ix: "get_enabled r n = Some ix" and cfg: "ix_config ix = DatabaseConfig fs s"
  shows "indexed_by parse r S (fst n) ix fs" and "s = Enabled"
proof -
  have reg: "registered parse (index_table r) S True n ix" using rep ix by (simp add: represents_def get_enabled_def)
  then show "indexed_by parse r S (fst n) ix fs" using cfg unfolding indexed_by_def by blast
  from reg show "s = Enabled" using cfg by (auto simp: registered_def IndexConfig_is_enabled_def)
qed

lemma start_range_fetch_correct:
  assumes snap: "snapshot_ok parse r S rows" and cache: "cache_ok rows (snap_cache snap)"
    and mem: "in_memory_view rows (snap_in_memory snap)" and pers: "persistence_ok parse r S rows (snap_persistence snap)"
    and req: "request_ok req"
  shows "case start_range_fetch r snap req of
      None \<Rightarrow> False
    | Some (Inl e) \<Rightarrow> answer r rows snap False req (Inl e)
    | Some (Inr (Ready f)) \<Rightarrow> answer r rows snap False req (Inr f)
    | Some (Inr (ToFetch i req' crs)) \<Rightarrow> to_fetch_ok parse r S rows snap req (i, req', crs)"
proof (cases "get_enabled r (req_index_name req)")
  case None
  then show ?thesis by (auto simp: start_range_fetch_def require_enabled_def answer_def split: option.splits)
next
  case (Some ix)
  show ?thesis
  proof (cases "is_database_config (ix_config ix)")
    case False
    with Some show ?thesis
      by (cases "ix_config ix") (auto simp: start_range_fetch_def require_enabled_def answer_def)
  next
    case True
    then obtain fs s where cfg: "ix_config ix = DatabaseConfig fs s" by (cases "ix_config ix") auto
    have rep: "represents parse r (documents_of S)" using snap by (simp add: snapshot_ok_def)
    note ix = enabled_indexed [OF rep Some cfg]
    note rows = snapshot_rows [OF snap ix(1)]
    let ?i = "ix_id ix" and ?scan = "snap_persistence snap"
    have docs: "\<forall>(k, ts, d) \<in> set (rows ?i). stored_document_ok d"
      using contents_mem [OF rows(1)] stored_document [of S] snap by (fastforce simp: snapshot_ok_def)
    show ?thesis
    proof (cases "bt_get (snap_in_memory snap) ?i")
      case (Some m)
      from in_memory_range_correct [OF mem docs this] \<open>get_enabled r (req_index_name req) = Some ix\<close> cfg ix(2) Some
      show ?thesis by (simp add: start_range_fetch_def require_enabled_def answer_def)
    next
      case none: None
      obtain crs where crs: "cache_get ?i (req_interval req) (req_order req) (snap_cache snap) = Some crs"
        "expand_all (rows ?i) (req_order req) crs = request_rows rows ?i req"
        "\<And>k ts d. CacheDocument k ts d \<in> set crs \<Longrightarrow> (k, ts, d) \<in> set (cached (snap_cache snap) ?i)"
        using cache_get_correct [where iv = "req_interval req" and ord = "req_order req", OF cache rows(2)] req
        unfolding request_ok_def by blast
      have scan: "streams (Order_apply (req_order req) (select iv (rows ?i)))
          (?scan ?i (fst (req_index_name req)) iv (req_order req) (req_max_size req))" for iv
        using pers ix(1) unfolding persistence_ok_def scans_def by blast
      have n: "length ([] :: index_row list) < req_max_size req" using req by (simp add: request_ok_def)
      let ?p = "page (req_max_size req) (request_rows rows ?i req)"
      let ?res = "fetch_cache_misses ?scan ?i req crs [] []"
      have out: "fetch_outcome ?scan ?i req (request_rows rows ?i req) [(k, ts, d). CacheDocument k ts d \<leftarrow> crs] [] ?res"
        using fetch_cache_misses_correct [of req "rows ?i" ?scan ?i "[]" crs "[]", OF scan n] crs(2) by simp
      have idx: "\<exists>t ix' fs. indexed_by parse r (documents_of S) t ix' fs \<and> ix_id ix' = ?i" using ix(1) by blast
      have "\<exists>res. ?res = Some res \<and> (\<forall>key. fetched_ok parse r S rows (snap_cache snap) (key, ?i, req, res))
          \<and> answer r rows snap False req (reply res)"
        using out unfolding fetch_outcome_def
      proof (elim disjE exE conjE)
        fix e iv assume "?res = Some (Inl (PersistenceError e))"
          "Inl e \<in> set (?scan ?i (fst (req_index_name req)) iv (req_order req) (req_max_size req))"
        then show ?thesis using Some none True n idx
          by (auto simp: fetched_ok_def answer_def reply_def)
      next
        fix new assume new: "?res = Some (Inr (fst ?p, [] @ new, snd ?p))" "set new \<subseteq> snd ` set (request_rows rows ?i req)"
          "set (take (req_max_size req) (request_rows rows ?i req))
             \<subseteq> set [(k, ts, d). CacheDocument k ts d \<leftarrow> crs] \<union> {x. snd x \<in> set new}"
        have "set new \<subseteq> snd ` set (rows ?i)" using new(2) by (auto 0 3)
        moreover have "set [(k, ts, d). CacheDocument k ts d \<leftarrow> crs] \<subseteq> set (cached (snap_cache snap) ?i)"
          using crs(3) by (auto split: cache_result.splits)
        then have "set (fst ?p) \<subseteq> set (cached (snap_cache snap) ?i) \<union> {x. snd x \<in> set new}"
          using new(3) unfolding page_def fst_conv by (meson Un_mono order_refl order_trans)
        ultimately have "fetched_ok parse r S rows (snap_cache snap) (key, ?i, req, Inr (fst ?p, new, snd ?p))" for key
          using n idx by (auto simp: fetched_ok_def Let_def)
        moreover have "answer r rows snap False req (reply (Inr (fst ?p, new, snd ?p)))"
          using Some none True by (simp add: answer_def reply_def)
        ultimately show ?thesis using new(1) by auto
      qed
      moreover have "answer r rows snap True req (Inl TaskCancelled)" using Some none True by (simp add: answer_def)
      ultimately have "to_fetch_ok parse r S rows snap req (?i, req, crs)" by (simp add: to_fetch_ok_def)
      moreover have "start_range_fetch r snap req = Some (Inr (ToFetch ?i req crs))"
        using Some cfg ix(2) none crs(1) by (simp add: start_range_fetch_def require_enabled_def in_memory_range_def)
      ultimately show ?thesis by simp
    qed
  qed
qed

lemma start_batch_correct:
  assumes snap: "snapshot_ok parse r S rows" and cache: "cache_ok rows (snap_cache snap)"
    and mem: "in_memory_view rows (snap_in_memory snap)" and pers: "persistence_ok parse r S rows (snap_persistence snap)"
  shows "bt_ok reqs \<Longrightarrow> list_all (\<lambda>(_, req). request_ok req) reqs \<Longrightarrow> bt_ok results \<Longrightarrow> bt_ok tf \<Longrightarrow>
    \<exists>results' tf'. start_batch r snap reqs results tf = Some (results', tf') \<and> bt_ok results' \<and> bt_ok tf'
      \<and> (\<forall>key. case bt_get reqs key of
           None \<Rightarrow> bt_get results' key = bt_get results key \<and> bt_get tf' key = bt_get tf key
         | Some req \<Rightarrow>
             bt_get tf' key = bt_get tf key \<and> (\<exists>a. bt_get results' key = Some a \<and> answer r rows snap False req a)
             \<or> bt_get results' key = bt_get results key \<and> (\<exists>f. bt_get tf' key = Some f \<and> to_fetch_ok parse r S rows snap req f))"
proof (induction reqs arbitrary: results tf)
  case (Cons p reqs)
  obtain key req where p: "p = (key, req)" by (rule prod.exhaust)
  have req: "request_ok req" using Cons.prems(2) p by simp
  have other: "bt_get reqs key = None" using Cons.prems(1) p bt_key_get [of reqs key] by fastforce
  have get: "bt_get (p # reqs) k = (if k = key then Some req else bt_get reqs k)" for k
    using p by (simp add: bt_get_def)
  note step = start_range_fetch_correct [OF snap cache mem pers req]
  have "\<exists>results1 tf1. start_batch r snap (p # reqs) results tf = start_batch r snap reqs results1 tf1 \<and> bt_ok results1 \<and> bt_ok tf1
      \<and> (\<forall>k. k \<noteq> key \<longrightarrow> bt_get results1 k = bt_get results k \<and> bt_get tf1 k = bt_get tf k)
      \<and> (bt_get tf1 key = bt_get tf key \<and> (\<exists>a. bt_get results1 key = Some a \<and> answer r rows snap False req a)
         \<or> bt_get results1 key = bt_get results key \<and> (\<exists>f. bt_get tf1 key = Some f \<and> to_fetch_ok parse r S rows snap req f))"
  proof (cases "start_range_fetch r snap req")
    case (Some out)
    show ?thesis
    proof (cases out)
      case (Inl e)
      with step Some Cons.prems show ?thesis
        by (intro exI [of _ "bt_insert key (Inl e) results"] exI [of _ tf]) (simp add: p)
    next
      case (Inr st)
      show ?thesis
      proof (cases st)
        case (Ready f)
        with step Some Inr Cons.prems show ?thesis
          by (intro exI [of _ "bt_insert key (Inr f) results"] exI [of _ tf]) (simp add: p)
      next
        case (ToFetch i req' crs)
        with step Some Inr Cons.prems show ?thesis
          by (intro exI [of _ results] exI [of _ "bt_insert key (i, req', crs) tf"]) (simp add: p)
      qed
    qed
  qed (use step in simp)
  then obtain results1 tf1 where one: "start_batch r snap (p # reqs) results tf = start_batch r snap reqs results1 tf1"
    "bt_ok results1" "bt_ok tf1" "\<And>k. k \<noteq> key \<Longrightarrow> bt_get results1 k = bt_get results k \<and> bt_get tf1 k = bt_get tf k"
    "bt_get tf1 key = bt_get tf key \<and> (\<exists>a. bt_get results1 key = Some a \<and> answer r rows snap False req a)
         \<or> bt_get results1 key = bt_get results key \<and> (\<exists>f. bt_get tf1 key = Some f \<and> to_fetch_ok parse r S rows snap req f)"
    by blast
  have "bt_ok reqs" "list_all (\<lambda>(_, req). request_ok req) reqs" using Cons.prems by simp_all
  from Cons.IH [OF this one(2,3)] obtain results' tf' where two: "start_batch r snap reqs results1 tf1 = Some (results', tf')"
    "bt_ok results'" "bt_ok tf'"
    and keys: "\<And>k. case bt_get reqs k of
           None \<Rightarrow> bt_get results' k = bt_get results1 k \<and> bt_get tf' k = bt_get tf1 k
         | Some req \<Rightarrow>
             bt_get tf' k = bt_get tf1 k \<and> (\<exists>a. bt_get results' k = Some a \<and> answer r rows snap False req a)
             \<or> bt_get results' k = bt_get results1 k \<and> (\<exists>f. bt_get tf' k = Some f \<and> to_fetch_ok parse r S rows snap req f)"
    by blast
  show ?case
  proof (intro exI conjI allI)
    show "start_batch r snap (p # reqs) results tf = Some (results', tf')" using one(1) two(1) by simp
    show "bt_ok results'" "bt_ok tf'" by (fact two)+
    fix k
    show "case bt_get (p # reqs) k of
           None \<Rightarrow> bt_get results' k = bt_get results k \<and> bt_get tf' k = bt_get tf k
         | Some req \<Rightarrow>
             bt_get tf' k = bt_get tf k \<and> (\<exists>a. bt_get results' k = Some a \<and> answer r rows snap False req a)
             \<or> bt_get results' k = bt_get results k \<and> (\<exists>f. bt_get tf' k = Some f \<and> to_fetch_ok parse r S rows snap req f)"
    proof (cases "k = key")
      case True
      with keys [of key] other one(5) show ?thesis by (simp add: get)
    next
      case False
      with keys [of k] one(4) [OF False] show ?thesis by (cases "bt_get reqs k") (simp_all add: get)
    qed
  qed
qed (simp add: bt.get_emp)

lemma fetch_all_correct:
  assumes "\<forall>(key, f) \<in> set tf. \<exists>req. to_fetch_ok parse r S rows snap req f"
  shows "\<exists>fs. fetch_all (snap_persistence snap) tf = Some fs \<and> map fst fs = map fst tf
    \<and> (\<forall>f \<in> set fs. fetched_ok parse r S rows (snap_cache snap) f)
    \<and> (\<forall>(key, i, req, crs) \<in> set tf. \<exists>res. (key, i, req, res) \<in> set fs \<and> answer r rows snap False req (reply res))"
  using assms
proof (induction tf)
  case (Cons p tf)
  obtain key i req crs where p: "p = (key, i, req, crs)" by (rule prod_cases4)
  obtain res where res: "fetch_cache_misses (snap_persistence snap) i req crs [] [] = Some res"
    "fetched_ok parse r S rows (snap_cache snap) (key, i, req, res)" "answer r rows snap False req (reply res)"
    using Cons.prems p by (auto simp: to_fetch_ok_def)
  from Cons obtain fs where fs: "fetch_all (snap_persistence snap) tf = Some fs" "map fst fs = map fst tf"
    "\<forall>f \<in> set fs. fetched_ok parse r S rows (snap_cache snap) f"
    "\<forall>(key, i, req, crs) \<in> set tf. \<exists>res. (key, i, req, res) \<in> set fs \<and> answer r rows snap False req (reply res)" by auto
  have "fetch_all (snap_persistence snap) (p # tf) = Some ((key, i, req, res) # fs)"
    using fs(1) res(1) by (simp add: fetch_all_def p)
  moreover have "\<forall>(k, j, q, crs) \<in> set (p # tf). \<exists>res'. (k, j, q, res') \<in> set ((key, i, req, res) # fs) \<and> answer r rows snap False q (reply res')"
    using fs(4) res(3) p by fastforce
  moreover have "map fst ((key, i, req, res) # fs) = map fst (p # tf)" using fs(2) p by simp
  moreover have "\<forall>f \<in> set ((key, i, req, res) # fs). fetched_ok parse r S rows (snap_cache snap) f" using fs(3) res(2) by simp
  ultimately show ?case by (intro exI [of _ "(key, i, req, res) # fs"] conjI)
qed (simp add: fetch_all_def)

lemma answer_mono: "answer r rows snap b req a \<Longrightarrow> (b \<Longrightarrow> b') \<Longrightarrow> answer r rows snap b' req a"
  by (auto simp: answer_def split: option.splits if_splits)

definition permutes :: "('e fetch_result list \<Rightarrow> 'e fetch_result list option) \<Rightarrow> bool" where
  "permutes schedule = (\<forall>fs. case schedule fs of None \<Rightarrow> True | Some gs \<Rightarrow> mset gs = mset fs)"

definition batch_answers ::
    "'x index_registry \<Rightarrow> index_rows \<Rightarrow> 'e index_snapshot \<Rightarrow> bool \<Rightarrow> (batch_key, range_request) btree \<Rightarrow> 'e batch_results \<Rightarrow> bool" where
  "batch_answers r rows snap cancelled reqs results =
     (\<forall>key. case bt_get reqs key of
        None \<Rightarrow> bt_get results key = None
      | Some req \<Rightarrow> \<exists>a. bt_get results key = Some a \<and> answer r rows snap cancelled req a)"

lemma batch_answersI:
  assumes keys: "\<And>key. bt_get reqs key = None \<Longrightarrow> bt_get results key = None"
    "\<And>key req. bt_get reqs key = Some req \<Longrightarrow> \<exists>a. bt_get results key = Some a \<and> answer r rows snap cancelled req a"
  shows "batch_answers r rows snap cancelled reqs results"
  using assms by (auto simp: batch_answers_def split: option.split)

lemma finished_results:
  assumes "mset gs = mset fs" and "map fst fs = map fst tf" and "bt_ok tf"
  shows "(key, i, req, res) \<in> set fs \<Longrightarrow>
      bt_get (fold (\<lambda>f. bt_insert (fst f) (reply (snd (snd (snd f))))) gs results) key = Some (reply res)"
    and "bt_get tf key = None \<Longrightarrow>
      bt_get (fold (\<lambda>f. bt_insert (fst f) (reply (snd (snd (snd f))))) gs results) key = bt_get results key"
proof -
  have set_eq: "set gs = set fs" using assms(1) by (metis set_mset_mset)
  have "distinct (map fst fs)" using assms(2,3) bt_distinct by metis
  then have inj: "inj_on fst (set gs)" unfolding set_eq by (simp add: distinct_map)
  {
    assume "(key, i, req, res) \<in> set fs"
    then have "(key, i, req, res) \<in> set gs" by (simp add: set_eq)
    from fold_bt_insert_get [OF inj this, of "\<lambda>f. reply (snd (snd (snd f)))" results] show "bt_get (fold (\<lambda>f. bt_insert (fst f) (reply (snd (snd (snd f))))) gs results) key = Some (reply res)"
      by simp
  }
  assume "bt_get tf key = None"
  then have "key \<notin> fst ` set tf" using bt_key_get [OF assms(3), of key] by simp
  then have "key \<notin> fst ` set gs" using assms(2) unfolding set_eq by (metis list.set_map)
  then show "bt_get (fold (\<lambda>f. bt_insert (fst f) (reply (snd (snd (snd f))))) gs results) key = bt_get results key"
    by (rule fold_bt_insert_other)
qed

lemma cancelled_results:
  "bt_get (fold (\<lambda>key. bt_insert key v) keys m) k = (if k \<in> set keys then Some v else bt_get m k)"
  by (induction keys arbitrary: m) auto

lemma range_batch_correct:
  assumes snap: "snapshot_ok parse r S rows" and cache: "cache_ok rows (snap_cache snap)"
    and mem: "in_memory_view rows (snap_in_memory snap)" and pers: "persistence_ok parse r S rows (snap_persistence snap)"
    and reqs: "bt_ok reqs" "list_all (\<lambda>(_, req). request_ok req) reqs" and schedule: "permutes schedule"
  shows "\<exists>results c. range_batch schedule r reqs snap = Some (results, snap\<lparr>snap_cache := c\<rparr>) \<and> cache_ok rows c
    \<and> batch_answers r rows snap (\<exists>fs. schedule fs = None) reqs results"
proof -
  let ?cancelled = "\<exists>fs. schedule fs = None"
  obtain results tf where start: "start_batch r snap reqs [] [] = Some (results, tf)" "bt_ok results" "bt_ok tf"
    and keys: "\<And>key. case bt_get reqs key of
           None \<Rightarrow> bt_get results key = bt_get [] key \<and> bt_get tf key = bt_get [] key
         | Some req \<Rightarrow>
             bt_get tf key = bt_get [] key \<and> (\<exists>a. bt_get results key = Some a \<and> answer r rows snap False req a)
             \<or> bt_get results key = bt_get [] key \<and> (\<exists>f. bt_get tf key = Some f \<and> to_fetch_ok parse r S rows snap req f)"
    using start_batch_correct [OF snap cache mem pers reqs, of "[]" "[]"] by auto
  have tf: "\<exists>req. bt_get reqs key = Some req \<and> to_fetch_ok parse r S rows snap req f" if "(key, f) \<in> set tf" for key f
  proof -
    have "bt_get tf key = Some f" using that bt_get_iff [OF start(3)] by simp
    with keys [of key] show ?thesis by (cases "bt_get reqs key") (auto simp: bt.get_emp)
  qed
  have none: "bt_get results key = None \<and> bt_get tf key = None" if "bt_get reqs key = None" for key
    using keys [of key] that by (simp add: bt.get_emp)
  have found: "(\<exists>a. bt_get results key = Some a \<and> answer r rows snap ?cancelled req a) \<and> bt_get tf key = None
      \<or> (\<exists>f. bt_get tf key = Some f \<and> to_fetch_ok parse r S rows snap req f)" if "bt_get reqs key = Some req" for key req
    using keys [of key] that answer_mono [of r rows snap False req _ ?cancelled] by (auto simp: bt.get_emp)
  have "\<forall>(key, f) \<in> set tf. \<exists>req. to_fetch_ok parse r S rows snap req f" using tf by blast
  from fetch_all_correct [OF this] obtain fs where fs: "fetch_all (snap_persistence snap) tf = Some fs" "map fst fs = map fst tf"
    "\<forall>f \<in> set fs. fetched_ok parse r S rows (snap_cache snap) f"
    "\<And>key i req crs. (key, i, req, crs) \<in> set tf \<Longrightarrow> \<exists>res. (key, i, req, res) \<in> set fs \<and> answer r rows snap False req (reply res)" by blast
  show ?thesis
  proof (cases "schedule fs")
    case None
    let ?results = "fold (\<lambda>key. bt_insert key (Inl TaskCancelled)) (map fst tf) results"
    have "batch_answers r rows snap ?cancelled reqs ?results"
    proof (rule batch_answersI)
      show "bt_get ?results key = None" if "bt_get reqs key = None" for key
        using none [OF that] bt_key_get [OF start(3), of key] by (simp add: cancelled_results)
      show "\<exists>a. bt_get ?results key = Some a \<and> answer r rows snap ?cancelled req a" if req: "bt_get reqs key = Some req" for key req
        using found [OF req] bt_key_get [OF start(3), of key] None
        by (auto simp: cancelled_results to_fetch_ok_def elim: answer_mono)
    qed
    then show ?thesis using start(1) fs(1) None cache
      by (intro exI [of _ ?results] exI [of _ "snap_cache snap"]) (simp add: range_batch_def)
  next
    case (Some gs)
    then have gs: "mset gs = mset fs" using schedule by (auto simp: permutes_def dest: spec [of _ fs])
    then have "set gs = set fs" by (metis set_mset_mset)
    with fs(3) finish_all_ok [OF snap _ cache grows_refl, of gs results]
    obtain c where c: "fold_option (finish_fetch r) gs (results, snap_cache snap)
        = Some (fold (\<lambda>f. bt_insert (fst f) (reply (snd (snd (snd f))))) gs results, c)" "cache_ok rows c" by auto
    let ?results = "fold (\<lambda>f. bt_insert (fst f) (reply (snd (snd (snd f))))) gs results"
    note finished = finished_results [OF gs fs(2) start(3)]
    have "batch_answers r rows snap ?cancelled reqs ?results"
    proof (rule batch_answersI)
      show "bt_get ?results key = None" if "bt_get reqs key = None" for key
        using none [OF that] finished(2) [of key results] by simp
      fix key req assume req: "bt_get reqs key = Some req"
      from found [OF req] show "\<exists>a. bt_get ?results key = Some a \<and> answer r rows snap ?cancelled req a"
      proof (elim disjE conjE exE)
        fix f assume f: "bt_get tf key = Some f" "to_fetch_ok parse r S rows snap req f"
        obtain i req' crs where f_eq: "f = (i, req', crs)" by (rule prod_cases3)
        with f have "(key, i, req, crs) \<in> set tf" by (simp add: to_fetch_ok_def bt_get_iff [OF start(3)])
        from fs(4) [OF this] obtain res where "(key, i, req, res) \<in> set fs" "answer r rows snap False req (reply res)" by blast
        with finished(1) [of key i req res results] answer_mono [of r rows snap False req _ ?cancelled] show ?thesis by auto
      qed (use finished(2) [of key results] in auto)
    qed
    with start(1) fs(1) Some c show ?thesis by (auto simp: range_batch_def)
  qed
qed

text \<open>C21. Fetching a batch of index ranges through the in-memory indexes and the snapshot's cache is
  transparent: whatever the order in which the fetches complete, no request panics, each is answered
  with the page of the index's rows in its interval and order that persistence alone would give (or
  with the error of the persistence or of a cancelled task), and the cache stays sound: it holds only
  rows of the indexes, and all of them in the intervals it counts as populated.\<close>

theorem range_batch_transparent:
  assumes snap: "snapshot_ok parse r S rows" and cache: "cache_ok rows (snap_cache snap)"
    and mem: "in_memory_view rows (snap_in_memory snap)" and pers: "persistence_ok parse r S rows (snap_persistence snap)"
    and reqs: "bt_ok reqs" "list_all (\<lambda>(_, req). request_ok req) reqs" and schedule: "permutes schedule"
  shows "\<exists>results c. range_batch schedule r reqs snap = Some (results, snap\<lparr>snap_cache := c\<rparr>) \<and> cache_ok rows c
    \<and> batch_answers r rows snap (\<exists>fs. schedule fs = None) reqs results"
  using assms by (rule range_batch_correct)

section \<open>An example\<close>

definition example_snapshot :: snapshot_store where
  "example_snapshot = (\<lambda>_. None)(example_meta_id := Some (1, example_index_document (replicate 16 1) []))"

lemma example_documents:
  "documents_of example_snapshot = (\<lambda>_. None)(example_meta_id := Some (example_index_document (replicate 16 1) []))"
  by (simp add: example_snapshot_def documents_of_def fun_eq_iff)

lemma example_stored: "stored_document_ok (example_index_document (replicate 16 n) [])"
  "stored_document_ok (example_index_document (replicate 16 n) [([97], Null)])"
  by (simp_all add: stored_document_ok_def example_index_document_def document_id_ok_def PackedDocument_unpack_def
      PackedDocument_pack_def ResolvedDocument_from_packed_def ResolvedDocument_id_def read_creation_time_def bt_get_def
      value_into_object_def CREATION_TIME_FIELD_def ascii_def ConvexObject_get_def key_name_def
      is_valid_field_name_def check_valid_field_name_inner_def is_ascii_def is_ascii_control_def MAX_FIELD_NAME_LENGTH_def)

lemma example_store_ok: "store_ok example_snapshot"
  by (auto simp: store_ok_def example_snapshot_def example_stored)
    (simp add: example_meta_id_def example_index_document_def ResolvedDocument_id_def)

text \<open>The example's only index is the one of the index table.\<close>

lemma example_only_index:
  assumes "indexed_by example_parse example_registry (documents_of example_snapshot) t ix fs"
  shows "t = [0] \<and> fs = [] \<and> ix_id ix = replicate 16 1"
proof -
  from assms obtain b n s d where n: "fst n = t" "ix_config ix = DatabaseConfig fs s" "ix_name ix = n"
    and d: "documents_of example_snapshot (ix_document_id ix) = Some d" "example_parse d = Some (ix_metadata ix)"
      "ix = Index_new (ix_metadata ix) (ix_document_id ix)"
    unfolding indexed_by_def registered_def by blast
  from d(1) have id: "ix_document_id ix = example_meta_id" "d = example_index_document (replicate 16 1) []"
    by (auto simp: example_documents split: if_splits)
  with d(2) have "ix_metadata ix = IndexMetadata_new_enabled (IndexName_by_id [0]) []"
    by (simp add: example_parse_def example_index_document_def)
  moreover have "ix_id ix = replicate 16 1"
    using d(3) id(1) by (metis Index_new_def index.select_convs(1) example_meta_id_def resolved_document_id.select_convs(2) developer_document_id.select_convs(2))
  ultimately show ?thesis using n by (auto simp: IndexMetadata_new_enabled_def IndexName_by_id_def)
qed

definition example_row :: index_row where
  "example_row = (row_key [] (example_index_document (replicate 16 1) []), 1, example_index_document (replicate 16 1) [])"

lemma example_contents: "index_contents example_snapshot [0] [] [example_row]"
  by (auto simp: index_contents_def example_snapshot_def bt_get_def example_meta_id_def example_row_def)

lemma example_snapshot_ok: "snapshot_ok example_parse example_registry example_snapshot (\<lambda>_. [example_row])"
  using example_represents example_parser_ok example_store_ok example_contents example_only_index
  by (auto simp: snapshot_ok_def rows_exact_def example_documents [symmetric])

definition example_scan :: "unit persistence" where
  "example_scan i t iv ord n = map Inr (Order_apply ord (select iv [example_row]))"

definition example_request :: range_request where
  "example_request = \<lparr>req_index_name = IndexName_by_id [0], req_interval = Interval_all, req_order = Desc, req_max_size = 5\<rparr>"

theorem range_batch_transparent_witness:
  "\<exists>results c. range_batch (\<lambda>fs. Some (rev fs)) example_registry [(7, example_request)]
       \<lparr>snap_in_memory = [], snap_persistence = example_scan, snap_cache = cache_new\<rparr>
     = Some (results, \<lparr>snap_in_memory = [], snap_persistence = example_scan, snap_cache = c\<rparr>)
    \<and> cache_ok (\<lambda>_. [example_row]) c \<and> bt_get results 7 = Some (Inr ([example_row], End))"
proof -
  let ?snap = "\<lparr>snap_in_memory = [], snap_persistence = example_scan, snap_cache = cache_new\<rparr>"
  let ?ix = "Index_new (IndexMetadata_new_enabled (IndexName_by_id [0]) []) example_meta_id :: unit index"
  have "cache_ok (\<lambda>_. [example_row]) (snap_cache ?snap)" by (simp add: cache_new_ok)
  moreover have "in_memory_view (\<lambda>_. [example_row]) (snap_in_memory ?snap)" by (simp add: in_memory_view_def bt.get_emp)
  moreover have "persistence_ok example_parse example_registry example_snapshot (\<lambda>_. [example_row]) (snap_persistence ?snap)"
    by (simp add: persistence_ok_def scans_def streams_def example_scan_def)
  moreover have "list_all (\<lambda>(_, req). request_ok req) [(7 :: nat, example_request)]"
    by (simp add: request_ok_def example_request_def forward_def Interval_all_def)
  moreover have "permutes (\<lambda>fs. Some (rev fs))" by (simp add: permutes_def)
  ultimately obtain results c where c: "range_batch (\<lambda>fs. Some (rev fs)) example_registry [(7, example_request)] ?snap
      = Some (results, ?snap\<lparr>snap_cache := c\<rparr>)" "cache_ok (\<lambda>_. [example_row]) c"
    and ans: "batch_answers example_registry (\<lambda>_. [example_row]) ?snap False [(7, example_request)] results"
    using range_batch_transparent [OF example_snapshot_ok, of ?snap "[(7, example_request)]" "\<lambda>fs. Some (rev fs)"] by auto
  have ix: "get_enabled example_registry (IndexName_by_id [0]) = Some ?ix" "is_database_config (ix_config ?ix)"
    by (simp_all add: get_enabled_def example_registry_def registry_insert_def registry_empty_def Index_new_def
        IndexMetadata_new_enabled_def IndexConfig_is_enabled_def bt_get_def Let_def)
  from ans [unfolded batch_answers_def, rule_format, of 7]
  obtain a where a: "bt_get results 7 = Some a" "answer example_registry (\<lambda>_. [example_row]) ?snap False example_request a"
    by (auto simp: bt_get_def)
  have "select Interval_all [example_row] = [example_row]"
    by (simp add: select_def Interval_all_def Interval_contains_def BinaryKey_min_def)
  with a(2) ix have "a = Inr ([example_row], End)"
    by (auto simp: answer_def example_request_def bt.get_emp example_scan_def page_def)
  with a(1) c show ?thesis by auto
qed

end
