(* ===== verification/In_Memory_Index.thy ===== *)
theory In_Memory_Index
  imports Database_Index
begin

text \<open>
  The in-memory indexes of \<open>indexing/src/backend_in_memory_indexes.rs\<close> under commits: every index
  in memory stays the exact index of the documents, through all updates of documents and of the
  index table itself.
\<close>

declare split_paired_All [simp del] split_paired_Ex [simp del]

section \<open>Exact indexes\<close>

text \<open>A lookup by key that finds the versions of a table's documents under their keys.\<close>

definition indexes_rows :: "'w versions \<Rightarrow> tablet_id \<Rightarrow> indexed_fields \<Rightarrow> (bytes \<Rightarrow> ('w \<times> packed_document) option) \<Rightarrow> bool" where
  "indexes_rows S t fs g =
     (\<forall>k p. g k = Some p \<longleftrightarrow>
        (\<exists>i v. tablet_id i = t \<and> S i = Some v \<and> k = row_key fs (snd v) \<and> p = (fst v, PackedDocument_pack (snd v))))"

definition packed_contents ::
    "snapshot_store \<Rightarrow> tablet_id \<Rightarrow> indexed_fields \<Rightarrow> (bytes, timestamp \<times> packed_document) btree \<Rightarrow> bool" where
  "packed_contents S t fs m = (bt_ok m \<and> indexes_rows S t fs (bt_get m))"

definition in_memory_exact :: "'x index_parser \<Rightarrow> 'x index_registry \<Rightarrow> snapshot_store \<Rightarrow> in_memory_indexes \<Rightarrow> bool" where
  "in_memory_exact parse r S im =
     (bt_ok im \<and> (\<forall>j m. bt_get im j = Some m \<longrightarrow>
        (\<exists>t ix fs. indexed_by parse r (documents_of S) t ix fs \<and> ix_id ix = j \<and> packed_contents S t fs (inner m))))"

lemma documents_of_simp: "documents_of S i = map_option snd (S i)"
  by (simp add: documents_of_def)

lemma documents_of_update: "documents_of (S(i := x)) = (documents_of S)(i := map_option snd x)"
  by (auto simp: documents_of_def)

section \<open>Applying the updates\<close>

definition update_key :: "database_index_update \<Rightarrow> internal_id \<times> bytes" where
  "update_key u = (up_index_id u, IndexKey_into_bytes (up_key u))"

definition update_result :: "'w \<Rightarrow> resolved_document option \<Rightarrow> database_index_update \<Rightarrow> ('w \<times> packed_document) option" where
  "update_result ts new u =
     (case up_value u of Deleted \<Rightarrow> None | NonClustered _ \<Rightarrow> map_option (\<lambda>d. (ts, PackedDocument_pack d)) new)"

definition update_applicable :: "resolved_document option \<Rightarrow> database_index_update \<Rightarrow> bool" where
  "update_applicable new u = (case up_value u of Deleted \<Rightarrow> True | NonClustered w \<Rightarrow> \<exists>d. new = Some d \<and> w = ResolvedDocument_id d)"

definition im_ok :: "in_memory_indexes \<Rightarrow> bool" where
  "im_ok im = (bt_ok im \<and> (\<forall>j m. bt_get im j = Some m \<longrightarrow> bt_ok (inner m)))"

text \<open>The entry of a key in an index in memory.\<close>

definition entry :: "in_memory_indexes \<Rightarrow> internal_id \<times> bytes \<Rightarrow> (timestamp \<times> packed_document) option" where
  "entry im p = (case bt_get im (fst p) of None \<Rightarrow> None | Some m \<Rightarrow> bt_get (inner m) (snd p))"

lemma apply_one:
  assumes im: "im_ok im" and u: "update_applicable new u"
  shows "\<exists>im'. apply_index_update ts new u im = Some im' \<and> im_ok im'
    \<and> (\<forall>j. bt_get im' j = None \<longleftrightarrow> bt_get im j = None)
    \<and> entry im' = (if bt_get im (up_index_id u) = None then entry im else (entry im)(update_key u := update_result ts new u))"
proof (cases "bt_get im (up_index_id u)")
  case None
  with im show ?thesis by (simp add: apply_index_update_def)
next
  case (Some m)
  have m: "bt_ok (inner m)" "bt_ok im" using im Some by (auto simp: im_ok_def)
  have upd: "entry (bt_insert (up_index_id u) m' im) = (entry im)(update_key u := v)"
    if "bt_get (inner m') = (bt_get (inner m))(snd (update_key u) := v)" for m' v
    using that Some by (auto simp: entry_def fun_eq_iff update_key_def prod_eq_iff split: option.splits)
  show ?thesis
  proof (cases "up_value u")
    case Deleted
    then show ?thesis using Some im m upd [of "DatabaseIndexMap_remove (up_key u) ts m" None]
      by (auto simp: apply_index_update_def DatabaseIndexMap_remove_def im_ok_def update_key_def update_result_def)
  next
    case (NonClustered w)
    then obtain d where d: "new = Some d" "w = ResolvedDocument_id d" using u by (auto simp: update_applicable_def)
    then show ?thesis
      using Some NonClustered im m upd [of "DatabaseIndexMap_insert (IndexKey_into_bytes (up_key u)) ts d m" "Some (ts, PackedDocument_pack d)"]
      by (auto simp: apply_index_update_def DatabaseIndexMap_insert_def im_ok_def update_key_def update_result_def)
  qed
qed

lemma apply_all:
  assumes "im_ok im" and "\<forall>u \<in> set us. update_applicable new u" and "distinct (map update_key us)"
  shows "\<exists>im'. fold_option (apply_index_update ts new) us im = Some im' \<and> im_ok im'
    \<and> (\<forall>j. bt_get im' j = None \<longleftrightarrow> bt_get im j = None)
    \<and> (\<forall>u \<in> set us. bt_get im (up_index_id u) \<noteq> None \<longrightarrow> entry im' (update_key u) = update_result ts new u)
    \<and> (\<forall>p. p \<notin> update_key ` set us \<longrightarrow> entry im' p = entry im p)"
  using assms
proof (induction us arbitrary: im)
  case (Cons u us)
  from Cons.prems(2) have "update_applicable new u" by simp
  from apply_one [OF Cons.prems(1) this, of ts] obtain a where a: "apply_index_update ts new u im = Some a" "im_ok a"
    "\<And>j. bt_get a j = None \<longleftrightarrow> bt_get im j = None"
    "entry a = (if bt_get im (up_index_id u) = None then entry im else (entry im)(update_key u := update_result ts new u))" by blast
  have "\<forall>u \<in> set us. update_applicable new u" "distinct (map update_key us)" using Cons.prems by auto
  from Cons.IH [OF a(2) this] obtain b where b: "fold_option (apply_index_update ts new) us a = Some b" "im_ok b"
    "\<And>j. bt_get b j = None \<longleftrightarrow> bt_get a j = None"
    "\<And>u. u \<in> set us \<Longrightarrow> bt_get a (up_index_id u) \<noteq> None \<Longrightarrow> entry b (update_key u) = update_result ts new u"
    "\<And>p. p \<notin> update_key ` set us \<Longrightarrow> entry b p = entry a p" by blast
  have fresh: "update_key u \<notin> update_key ` set us" using Cons.prems(3) by simp
  have "entry b (update_key v) = update_result ts new v" if "v \<in> set (u # us)" "bt_get im (up_index_id v) \<noteq> None" for v
  proof (cases "v \<in> set us")
    case True
    with that b(4) a(3) show ?thesis by simp
  next
    case False
    with that have "v = u" by simp
    with that a(4) b(5) [OF fresh] show ?thesis by auto
  qed
  moreover have "entry b p = entry im p" if "p \<notin> update_key ` set (u # us)" for p
    using that b(5) [of p] a(4) by auto
  ultimately show ?case using a b by simp
qed simp

section \<open>Indexes survive updates of the index table\<close>

lemma index_kept:
  assumes rep: "represents parse r S" and rep': "represents parse r' (S(i := new))" and tab: "index_table r' = index_table r"
    and old: "S i = old" and ids: "\<forall>d. old = Some d \<or> new = Some d \<longrightarrow> ResolvedDocument_id d = i"
    and ver: "verify_update parse old new r = Inr ()"
    and ix: "indexed_by parse r S t ix fs" and kept: "\<not> (new = None \<and> ix_document_id ix = i)"
  obtains ix' where "indexed_by parse r' (S(i := new)) t ix' fs" and "ix_id ix' = ix_id ix"
proof (cases "ix_document_id ix = i")
  case False
  with ix have "indexed_by parse r' (S(i := new)) t ix fs"
    by (simp add: indexed_by_def registered_def tab)
  then show ?thesis using that by blast
next
  case True
  from ix obtain b n s d where n: "fst n = t" "ix_config ix = DatabaseConfig fs s" "ix_name ix = n"
    and d: "S i = Some d" "tablet_id i = index_table r" "parse d = Some (ix_metadata ix)"
      "ix = Index_new (ix_metadata ix) i"
    unfolding indexed_by_def registered_def True by blast
  from kept True obtain e where e: "new = Some e" by auto
  have "ResolvedDocument_id d = i" using ids old d(1) by auto
  then have dt: "doc_tablet_id d = index_table r" using d(2) by (auto simp: ResolvedDocument_id_def)
  have "verify_replace parse d e r = Inr ()"
    using ver old d(1) e by (auto simp: verify_update_def bind_result_def split: sum.splits)
  then obtain m where m: "parse e = Some m" "fst (index_name_of m) = t" "developer_config (index_config_of m) = DevDatabase fs"
    using dt d(3) n by (auto simp: verify_replace_def bind_result_def parse_index_def split: sum.splits if_splits option.splits)
  then obtain s' where cfg: "index_config_of m = DatabaseConfig fs s'" by (cases "index_config_of m") auto
  let ?ix = "Index_new m i :: 'a index"
  have "registered parse (index_table r') (S(i := new)) (IndexConfig_is_enabled (index_config_of m)) (index_name_of m) ?ix"
    using m(1) d(2) e by (simp add: registered_def Index_new_def tab)
  then have "indexed_by parse r' (S(i := new)) t ?ix fs"
    unfolding indexed_by_def using m(2) cfg by (auto simp: Index_new_def)
  moreover have "ix_id ?ix = ix_id ix" using d(4) by (metis Index_new_def index.select_convs(1))
  ultimately show ?thesis by (rule that)
qed

section \<open>The entries after an update\<close>

lemma row_key_inject:
  "stored_document_ok d \<Longrightarrow> stored_document_ok e \<Longrightarrow> row_key fs d = row_key fs e \<Longrightarrow> doc_id (document d) = doc_id (document e)"
  using row_key_prefix [of d e fs] by simp

lemma values_row_key:
  "values_with_id (ResolvedDocument_index_key d fs) = values_with_id (ResolvedDocument_index_key e gs) \<Longrightarrow> row_key fs d = row_key gs e"
  by (simp add: row_key_def IndexKey_into_bytes_def)

text \<open>An index of another table does not change.\<close>

lemma indexes_rows_other:
  "indexes_rows S t fs g \<Longrightarrow> tablet_id i \<noteq> t \<Longrightarrow> indexes_rows (S(i := x)) t fs g"
  unfolding indexes_rows_def by (metis fun_upd_other)

text \<open>An index of the table loses the old document and gains the new one.\<close>

lemma indexes_rows_update:
  assumes S: "store_ok S" and m: "indexes_rows S (tablet_id i) fs g"
    and new: "\<forall>d. new = Some d \<longrightarrow> ResolvedDocument_id d = i \<and> stored_document_ok d"
    and ins: "\<And>d. new = Some d \<Longrightarrow> g' (row_key fs d) = Some (ts, PackedDocument_pack d)"
    and del: "\<And>v. S i = Some v \<Longrightarrow> (\<forall>d. new = Some d \<longrightarrow> row_key fs d \<noteq> row_key fs (snd v)) \<Longrightarrow> g' (row_key fs (snd v)) = None"
    and keep: "\<And>k. (\<forall>d. new = Some d \<longrightarrow> k \<noteq> row_key fs d) \<Longrightarrow> (\<forall>v. S i = Some v \<longrightarrow> k \<noteq> row_key fs (snd v)) \<Longrightarrow> g' k = g k"
  shows "indexes_rows (S(i := map_option (Pair ts) new)) (tablet_id i) fs g'"
proof -
  let ?S = "S(i := map_option (Pair ts) new)"
  have other: "k \<noteq> row_key fs (snd w)" if k: "k = row_key fs d" "stored_document_ok d" "ResolvedDocument_id d = i"
    and w: "tablet_id j = tablet_id i" "S j = Some w" "j \<noteq> i" for k d j w
  proof
    assume "k = row_key fs (snd w)"
    with k stored_document [OF S w(2)] have "doc_id (document d) = doc_id (document (snd w))" by (auto dest: row_key_inject)
    moreover have "j = ResolvedDocument_id (snd w)" by (rule stored_id [OF S w(2)])
    ultimately show False using k(3) w(1,3) by (auto simp: ResolvedDocument_id_def)
  qed
  have "g' k = Some p \<longleftrightarrow> (\<exists>j v. tablet_id j = tablet_id i \<and> ?S j = Some v \<and> k = row_key fs (snd v) \<and> p = (fst v, PackedDocument_pack (snd v)))" (is "_ \<longleftrightarrow> ?R k p") for k p
  proof -
    consider d where "new = Some d" "k = row_key fs d"
      | v where "S i = Some v" "k = row_key fs (snd v)" "\<forall>d. new = Some d \<longrightarrow> k \<noteq> row_key fs d"
      | "\<forall>d. new = Some d \<longrightarrow> k \<noteq> row_key fs d" "\<forall>v. S i = Some v \<longrightarrow> k \<noteq> row_key fs (snd v)" by blast
    then show ?thesis
    proof cases
      case 1
      then have d: "stored_document_ok d" "ResolvedDocument_id d = i" using new by auto
      have "p = (ts, PackedDocument_pack d)" if "?R k p"
      proof -
        from that obtain j v where j: "tablet_id j = tablet_id i" "?S j = Some v" "k = row_key fs (snd v)" "p = (fst v, PackedDocument_pack (snd v))"
          by blast
        have "j = i"
        proof (rule ccontr)
          assume "j \<noteq> i"
          with other [OF 1(2) d j(1), of v] j show False by simp
        qed
        with j(2) 1(1) have "v = (ts, d)" by simp
        with j(4) show ?thesis by simp
      qed
      moreover have "?R k (ts, PackedDocument_pack d)"
        using 1 by (intro exI [of _ i] exI [of _ "(ts, d)"]) simp
      ultimately show ?thesis using ins [OF 1(1)] 1(2) by (metis option.inject)
    next
      case 2
      have v: "stored_document_ok (snd v)" "ResolvedDocument_id (snd v) = i"
        using stored_document [OF S 2(1)] stored_id [OF S 2(1)] by auto
      have "\<not> ?R k p"
      proof
        assume "?R k p"
        then obtain j w where j: "tablet_id j = tablet_id i" "?S j = Some w" "k = row_key fs (snd w)" by blast
        show False
        proof (cases "j = i")
          case True
          with j obtain d where "new = Some d" "w = (ts, d)" by auto
          with 2(3) j(3) show False by simp
        next
          case False
          with other [OF 2(2) v j(1), of w] j show False by simp
        qed
      qed
      moreover have "g' k = None" unfolding 2(2) by (rule del [OF 2(1)]) (use 2(2,3) in metis)
      ultimately show ?thesis by simp
    next
      case 3
      have same: "?S j = Some v \<and> k = row_key fs (snd v) \<longleftrightarrow> S j = Some v \<and> k = row_key fs (snd v)" for j v
        using 3 by (cases "j = i") auto
      have "g k = Some p \<longleftrightarrow> (\<exists>j v. tablet_id j = tablet_id i \<and> S j = Some v \<and> k = row_key fs (snd v) \<and> p = (fst v, PackedDocument_pack (snd v)))"
        using m unfolding indexes_rows_def by blast
      also have "\<dots> \<longleftrightarrow> ?R k p" using same by blast
      finally have "g k = Some p \<longleftrightarrow> ?R k p" .
      with keep [OF 3] show ?thesis by simp
    qed
  qed
  then show ?thesis unfolding indexes_rows_def by blast
qed

section \<open>The update of all indexes in memory\<close>

lemma values_inject:
  assumes "values_ok vs" "values_ok ws" and eq: "values_to_bytes vs = values_to_bytes ws"
  shows "vs = ws"
proof (rule antisym)
  show "vs \<le> ws" using values_to_bytes_less(2) [OF assms(1,2)] eq by simp
  show "ws \<le> vs" using values_to_bytes_less(2) [OF assms(2,1)] eq by simp
qed

lemma index_key_inject:
  assumes "stored_document_ok d" "stored_document_ok e" "row_key fs d = row_key fs e"
  shows "values_with_id (ResolvedDocument_index_key d fs) = values_with_id (ResolvedDocument_index_key e fs)"
proof -
  have "values_ok (values_with_id (ResolvedDocument_index_key d fs))" if "stored_document_ok d" for d
    using that by (auto simp: stored_document_ok_def ResolvedDocument_index_key_def IndexKey_new_allow_missing_def
        indexed_values_def id_value_def intro: get_path_ok)
  with assms show ?thesis by (intro values_inject) (simp_all add: row_key_def IndexKey_into_bytes_def)
qed

lemma exact_im_ok: "in_memory_exact parse r S im \<Longrightarrow> im_ok im"
  unfolding in_memory_exact_def im_ok_def packed_contents_def by blast

lemma im_ok_remove: "im_ok im \<Longrightarrow> im_ok (bt_remove j im)"
  by (auto simp: im_ok_def split: if_splits)

text \<open>The updates of a change of the document with id \<open>i\<close>, all of indexes of its table.\<close>

definition document_updates ::
    "'x index_parser \<Rightarrow> 'x index_registry \<Rightarrow> document_store \<Rightarrow> resolved_document_id \<Rightarrow> resolved_document option
     \<Rightarrow> resolved_document option \<Rightarrow> database_index_update list \<Rightarrow> bool" where
  "document_updates parse r D i old new us =
     ((\<forall>u \<in> set us. update_applicable new u) \<and> distinct (map update_key us)
      \<and> (\<forall>ix fs. indexed_by parse r (D) (tablet_id i) ix fs \<longrightarrow>
           (\<forall>d. new = Some d \<longrightarrow> (\<exists>u \<in> set us. update_key u = (ix_id ix, row_key fs d)
               \<and> up_value u = NonClustered (ResolvedDocument_id d)))
         \<and> (\<forall>d. old = Some d \<and> (\<forall>e. new = Some e \<longrightarrow> row_key fs e \<noteq> row_key fs d) \<longrightarrow>
               (\<exists>u \<in> set us. update_key u = (ix_id ix, row_key fs d) \<and> up_value u = Deleted)))
      \<and> (\<forall>u \<in> set us. \<exists>ix fs d. indexed_by parse r (D) (tablet_id i) ix fs
           \<and> (new = Some d \<or> old = Some d) \<and> update_key u = (ix_id ix, row_key fs d)))"

lemma document_updates_exist:
  assumes rep: "represents parse r (D)" "parser_ok parse"
    and docs: "\<forall>d. old = Some d \<or> new = Some d \<longrightarrow> ResolvedDocument_id d = i \<and> stored_document_ok d"
  obtains us where "index_updates r old new = Some us" and "document_updates parse r D i old new us"
proof -
  let ?idx = "indexed_by parse r (D) (tablet_id i)"
  have "\<forall>d. old = Some d \<or> new = Some d \<longrightarrow> doc_tablet_id d = tablet_id i"
    using docs by (auto simp: ResolvedDocument_id_def)
  from index_updates_correct [OF rep this] obtain us where us: "index_updates r old new = Some us" "distinct (map update_position us)"
    and mem: "\<And>u. u \<in> set us \<longleftrightarrow> (\<exists>ix fs. ?idx ix fs \<and>
         ((\<exists>d. new = Some d \<and> u = index_update ix (ResolvedDocument_index_key d fs) (NonClustered (ResolvedDocument_id d)))
        \<or> (\<exists>d. old = Some d \<and> u = index_update ix (ResolvedDocument_index_key d fs) Deleted
             \<and> (\<forall>e. new = Some e \<longrightarrow> values_with_id (ResolvedDocument_index_key e fs) \<noteq> values_with_id (ResolvedDocument_index_key d fs)))))"
    by blast
  have key: "\<exists>ix fs d. ?idx ix fs \<and> (new = Some d \<or> old = Some d) \<and> update_key u = (ix_id ix, row_key fs d)
      \<and> update_position u = (ix_id ix, values_with_id (ResolvedDocument_index_key d fs)) \<and> update_applicable new u" if "u \<in> set us" for u
  proof -
    from that mem [of u] consider ix fs d where "?idx ix fs" "new = Some d" "u = index_update ix (ResolvedDocument_index_key d fs) (NonClustered (ResolvedDocument_id d))"
      | ix fs d where "?idx ix fs" "old = Some d" "u = index_update ix (ResolvedDocument_index_key d fs) Deleted" by blast
    then show ?thesis
    proof cases
      case 1
      then show ?thesis
        by (intro exI [of _ ix] exI [of _ fs] exI [of _ d]) (simp add: update_key_def row_key_def update_position_def update_applicable_def)
    next
      case 2
      then show ?thesis
        by (intro exI [of _ ix] exI [of _ fs] exI [of _ d]) (simp add: update_key_def row_key_def update_position_def update_applicable_def)
    qed
  qed
  have inj: "update_position u = update_position v" if u: "u \<in> set us" and v: "v \<in> set us" and eq: "update_key u = update_key v" for u v
  proof -
    from key [OF u] obtain ix fs d where a: "?idx ix fs" "new = Some d \<or> old = Some d" "update_key u = (ix_id ix, row_key fs d)"
      "update_position u = (ix_id ix, values_with_id (ResolvedDocument_index_key d fs))" by blast
    from key [OF v] obtain jx gs e where b: "?idx jx gs" "new = Some e \<or> old = Some e" "update_key v = (ix_id jx, row_key gs e)"
      "update_position v = (ix_id jx, values_with_id (ResolvedDocument_index_key e gs))" by blast
    from eq a b have ids: "ix_id ix = ix_id jx" by simp
    note same = indexed_by_inj [OF rep(1) a(1) b(1) ids]
    from a b eq same(2) docs have "values_with_id (ResolvedDocument_index_key d fs) = values_with_id (ResolvedDocument_index_key e fs)"
      by (intro index_key_inject) auto
    with a b same show ?thesis by simp
  qed
  have "distinct (map update_key us)"
    using us(2) inj unfolding distinct_map inj_on_def by blast
  moreover have "\<exists>u \<in> set us. update_key u = (ix_id ix, row_key fs d) \<and> up_value u = NonClustered (ResolvedDocument_id d)"
    if "?idx ix fs" "new = Some d" for ix fs d
    using that mem [of "index_update ix (ResolvedDocument_index_key d fs) (NonClustered (ResolvedDocument_id d))"]
    by (intro bexI [of _ "index_update ix (ResolvedDocument_index_key d fs) (NonClustered (ResolvedDocument_id d))"])
      (auto simp: update_key_def row_key_def update_result_def)
  moreover have "\<exists>u \<in> set us. update_key u = (ix_id ix, row_key fs d) \<and> up_value u = Deleted"
    if "?idx ix fs" "old = Some d" "\<forall>e. new = Some e \<longrightarrow> row_key fs e \<noteq> row_key fs d" for ix fs d
  proof (intro bexI [of _ "index_update ix (ResolvedDocument_index_key d fs) Deleted"] conjI allI)
    have "\<forall>e. new = Some e \<longrightarrow> values_with_id (ResolvedDocument_index_key e fs) \<noteq> values_with_id (ResolvedDocument_index_key d fs)"
      using that(3) values_row_key by blast
    then show "index_update ix (ResolvedDocument_index_key d fs) Deleted \<in> set us"
      using that(1,2) unfolding mem by blast
  qed (simp_all add: update_key_def row_key_def update_result_def)
  moreover have "\<forall>u \<in> set us. update_applicable new u" using key by blast
  moreover have "\<forall>u \<in> set us. \<exists>ix fs d. ?idx ix fs \<and> (new = Some d \<or> old = Some d) \<and> update_key u = (ix_id ix, row_key fs d)"
    using key by blast
  ultimately have "document_updates parse r D i old new us" unfolding document_updates_def by blast
  with us(1) show ?thesis by (rule that)
qed

lemma entry_get: "bt_get im j = Some m \<Longrightarrow> entry im (j, k) = bt_get (inner m) k"
  by (simp add: entry_def)

text \<open>
  One index after the updates of the document with id \<open>i\<close>: the lookup \<open>g\<close> becomes \<open>g'\<close>, which finds the
  updated keys with their results and the other keys as before.
\<close>

lemma index_after_updates:
  assumes rep: "represents parse r (documents_of (S(i := map_option (Pair ts) new)))" and S: "store_ok S"
    and docs: "\<forall>d. documents_of S i = Some d \<or> new = Some d \<longrightarrow> ResolvedDocument_id d = i \<and> stored_document_ok d"
    and upd: "document_updates parse r (documents_of (S(i := map_option (Pair ts) new))) i (documents_of S i) new us"
    and ix: "indexed_by parse r (documents_of (S(i := map_option (Pair ts) new))) t ix fs"
    and g: "indexes_rows S t fs g"
    and hit: "\<And>u k. u \<in> set us \<Longrightarrow> update_key u = (ix_id ix, k) \<Longrightarrow> g' k = update_result ts new u"
    and other: "\<And>k. (ix_id ix, k) \<notin> update_key ` set us \<Longrightarrow> g' k = g k"
  shows "indexes_rows (S(i := map_option (Pair ts) new)) t fs g'"
proof -
  let ?S = "S(i := map_option (Pair ts) new)" and ?j = "ix_id ix"
  have miss: "tablet_id i = t \<and> (\<exists>d. (new = Some d \<or> documents_of S i = Some d) \<and> k = row_key fs d)"
    if "(?j, k) \<in> update_key ` set us" for k
  proof -
    from that obtain u where "u \<in> set us" "update_key u = (?j, k)" by force
    with upd obtain jx gs d where u: "indexed_by parse r (documents_of ?S) (tablet_id i) jx gs" "new = Some d \<or> documents_of S i = Some d"
      "(?j, k) = (ix_id jx, row_key gs d)" unfolding document_updates_def by metis
    then have "ix_id ix = ix_id jx" by simp
    note same = indexed_by_inj [OF rep ix u(1) this]
    then have "tablet_id i = t" using ix u(1) by (auto simp: indexed_by_def registered_def)
    with u same show ?thesis by auto
  qed
  show ?thesis
  proof (cases "tablet_id i = t")
    case False
    then have "g' = g" using miss other by (intro ext) blast
    with g show ?thesis by (auto intro: indexes_rows_other [OF _ False])
  next
    case True
    have u_new: "\<exists>u \<in> set us. update_key u = (?j, row_key fs d) \<and> up_value u = NonClustered (ResolvedDocument_id d)"
      if "new = Some d" for d
      using upd ix that unfolding document_updates_def True by blast
    have u_old: "\<exists>u \<in> set us. update_key u = (?j, row_key fs d) \<and> up_value u = Deleted"
      if "documents_of S i = Some d" "\<forall>e. new = Some e \<longrightarrow> row_key fs e \<noteq> row_key fs d" for d
      using upd ix that unfolding document_updates_def True by blast
    have "indexes_rows ?S (tablet_id i) fs g'"
    proof (rule indexes_rows_update [OF S g [folded True]])
      show "\<forall>d. new = Some d \<longrightarrow> ResolvedDocument_id d = i \<and> stored_document_ok d" using docs by blast
      show "g' (row_key fs d) = Some (ts, PackedDocument_pack d)" if "new = Some d" for d
        using u_new [OF that] hit that by (auto simp: update_result_def)
      show "g' (row_key fs (snd v)) = None"
        if "S i = Some v" "\<forall>d. new = Some d \<longrightarrow> row_key fs d \<noteq> row_key fs (snd v)" for v
        using u_old [of "snd v"] that hit by (auto simp: documents_of_simp update_result_def)
      show "g' k = g k"
        if "\<forall>d. new = Some d \<longrightarrow> k \<noteq> row_key fs d" "\<forall>v. S i = Some v \<longrightarrow> k \<noteq> row_key fs (snd v)" for k
      proof -
        have "(?j, k) \<notin> update_key ` set us" using miss [of k] that by (auto simp: documents_of_simp)
        from other [OF this] show ?thesis .
      qed
    qed
    then show ?thesis by (simp add: True)
  qed
qed

text \<open>A change that the registry admits: the registry and the index updates after it.\<close>

lemma admitted_update:
  assumes before: "represents parse r (documents_of T)" and parser: "parser_ok parse" and T: "store_ok T"
    and new: "\<forall>d. new = Some d \<longrightarrow> ResolvedDocument_id d = i \<and> stored_document_ok d"
    and number: "tablet_id i = index_table r \<longrightarrow> id_table (developer_id i) = index_table_number r"
    and updated: "registry_update parse (documents_of T i) new r = Some (Inr r')"
  obtains b us where "apply_verified_update parse (documents_of T i) new r = Some (b, r')"
    and "represents parse r' (documents_of (T(i := map_option (Pair w) new)))" and "index_table r' = index_table r"
    and "index_updates r' (documents_of T i) new = Some us"
    and "document_updates parse r' (documents_of (T(i := map_option (Pair w) new))) i (documents_of T i) new us"
    and "\<forall>d. documents_of T i = Some d \<or> new = Some d \<longrightarrow> ResolvedDocument_id d = i \<and> stored_document_ok d"
proof -
  have docs_T: "documents_of (T(i := map_option (Pair w) new)) = (documents_of T)(i := new)"
    by (simp add: documents_of_update option.map_comp o_def option.map_ident)
  have "ResolvedDocument_id d = i \<and> stored_document_ok d" if od: "documents_of T i = Some d" for d
  proof -
    from od obtain v where "T i = Some v" "d = snd v" by (auto simp: documents_of_simp)
    then show ?thesis using stored_id [OF T] stored_document [OF T] by auto
  qed
  then have docs: "\<forall>d. documents_of T i = Some d \<or> new = Some d \<longrightarrow> ResolvedDocument_id d = i \<and> stored_document_ok d" using new by blast
  then have ids: "\<forall>d. documents_of T i = Some d \<or> new = Some d \<longrightarrow> ResolvedDocument_id d = i" by blast
  from updated have verified: "verify_update parse (documents_of T i) new r = Inr ()"
    by (auto simp: registry_update_def split: sum.splits)
  obtain b r1 where r1: "apply_verified_update parse (documents_of T i) new r = Some (b, r1)"
    "represents parse r1 ((documents_of T)(i := new))" "index_table r1 = index_table r"
    by (rule registry_update_correct [OF before refl ids number verified])
  have "r1 = r'" using updated verified r1(1) by (simp add: registry_update_def)
  with r1(2) have after: "represents parse r' (documents_of (T(i := map_option (Pair w) new)))" by (simp add: docs_T)
  obtain us where us: "index_updates r' (documents_of T i) new = Some us"
    "document_updates parse r' (documents_of (T(i := map_option (Pair w) new))) i (documents_of T i) new us"
    by (rule document_updates_exist [OF after parser docs])
  show ?thesis
    by (rule that [OF r1(1) [unfolded \<open>r1 = r'\<close>] after r1(3) [unfolded \<open>r1 = r'\<close>] us docs])
qed

text \<open>An index survives unless its own document is deleted.\<close>

lemma index_survives:
  assumes before: "represents parse r (documents_of T)" and after: "represents parse r' (documents_of (T(i := map_option (Pair w) new)))"
    and tab: "index_table r' = index_table r"
    and docs: "\<forall>d. documents_of T i = Some d \<or> new = Some d \<longrightarrow> ResolvedDocument_id d = i \<and> stored_document_ok d"
    and updated: "registry_update parse (documents_of T i) new r = Some (Inr r')"
    and ix: "indexed_by parse r (documents_of T) t ix fs"
    and kept: "\<not> (new = None \<and> documents_of T i \<noteq> None \<and> tablet_id i = index_table r' \<and> ix_id ix = internal_id (developer_id i))"
  obtains ix' where "indexed_by parse r' (documents_of (T(i := map_option (Pair w) new))) t ix' fs" and "ix_id ix' = ix_id ix"
proof -
  have docs_T: "documents_of (T(i := map_option (Pair w) new)) = (documents_of T)(i := new)"
    by (simp add: documents_of_update option.map_comp o_def option.map_ident)
  from updated have verified: "verify_update parse (documents_of T i) new r = Inr ()"
    by (auto simp: registry_update_def split: sum.splits)
  have ids: "\<forall>d. documents_of T i = Some d \<or> new = Some d \<longrightarrow> ResolvedDocument_id d = i" using docs by blast
  have "\<not> (new = None \<and> ix_document_id ix = i)"
  proof
    assume gone: "new = None \<and> ix_document_id ix = i"
    from ix gone obtain d where d: "documents_of T i = Some d" "tablet_id i = index_table r" "ix = Index_new (ix_metadata ix) i"
      unfolding indexed_by_def registered_def by blast
    have "ix_id ix = internal_id (developer_id i)" using d(3) by (metis Index_new_def index.select_convs(1))
    with d gone kept tab show False by simp
  qed
  from index_kept [OF before after [unfolded docs_T] tab refl ids verified ix this] that show ?thesis unfolding docs_T by metis
qed

text \<open>C22. When a commit changes a document, the registry first and then the in-memory indexes receive
  the change.  The update of the in-memory indexes never panics, and every index in memory is again the
  exact index of the documents: of the same fields of the same table, with the new document under its
  new key at the commit's timestamp and without the old one; an index whose document is deleted leaves
  memory.
\<close>

theorem in_memory_update_exact:
  assumes before: "represents parse r (documents_of S)" and parser: "parser_ok parse" and S: "store_ok S"
    and exact: "in_memory_exact parse r S im"
    and new: "\<forall>d. new = Some d \<longrightarrow> ResolvedDocument_id d = i \<and> stored_document_ok d"
    and number: "tablet_id i = index_table r \<longrightarrow> id_table (developer_id i) = index_table_number r"
    and updated: "registry_update parse (documents_of S i) new r = Some (Inr r')"
  shows "\<exists>us im'. in_memory_update r' ts (documents_of S i) new im = Some (us, im')
    \<and> in_memory_exact parse r' (S(i := map_option (Pair ts) new)) im'"
proof -
  let ?S = "S(i := map_option (Pair ts) new)" and ?old = "documents_of S i"
  obtain b us where after: "represents parse r' (documents_of ?S)" "index_table r' = index_table r"
    and us: "index_updates r' ?old new = Some us" and upd: "document_updates parse r' (documents_of ?S) i ?old new us"
    and docs: "\<forall>d. ?old = Some d \<or> new = Some d \<longrightarrow> ResolvedDocument_id d = i \<and> stored_document_ok d"
    by (rule admitted_update [OF before parser S new number updated])
  define im0 where "im0 = (case (?old, new) of (Some old, None) \<Rightarrow>
      if doc_tablet_id old = index_table r' then bt_remove (internal_id (developer_id (ResolvedDocument_id old))) im else im | _ \<Rightarrow> im)"
  have im0: "im_ok im0"
    using exact_im_ok [OF exact] by (auto simp: im0_def im_ok_remove split: option.splits)
  have sub: "bt_get im j = Some m" if "bt_get im0 j = Some m" for j m
    using that exact by (auto simp: im0_def in_memory_exact_def split: option.splits if_splits)
  have app: "\<forall>u \<in> set us. update_applicable new u" "distinct (map update_key us)"
    using upd unfolding document_updates_def by blast+
  from apply_all [OF im0 app, of ts] obtain im' where im': "fold_option (apply_index_update ts new) us im0 = Some im'" "im_ok im'"
    "\<And>j. bt_get im' j = None \<longleftrightarrow> bt_get im0 j = None"
    "\<And>u. u \<in> set us \<Longrightarrow> bt_get im0 (up_index_id u) \<noteq> None \<Longrightarrow> entry im' (update_key u) = update_result ts new u"
    "\<And>p. p \<notin> update_key ` set us \<Longrightarrow> entry im' p = entry im0 p" by blast
  have "in_memory_update r' ts ?old new im = Some (us, im')"
    unfolding in_memory_update_def im0_def [symmetric] Let_def using us im'(1) by simp
  moreover have "in_memory_exact parse r' ?S im'"
    unfolding in_memory_exact_def
  proof (intro conjI allI impI)
    show "bt_ok im'" using im'(2) by (simp add: im_ok_def)
    fix j m' assume m': "bt_get im' j = Some m'"
    then obtain m where m: "bt_get im0 j = Some m" using im'(3) [of j] by (cases "bt_get im0 j") auto
    from exact sub [OF m] obtain t ix fs where ix: "indexed_by parse r (documents_of S) t ix fs" "ix_id ix = j" "packed_contents S t fs (inner m)"
      unfolding in_memory_exact_def by blast
    have "\<not> (new = None \<and> ?old \<noteq> None \<and> tablet_id i = index_table r' \<and> ix_id ix = internal_id (developer_id i))"
    proof
      assume gone: "new = None \<and> ?old \<noteq> None \<and> tablet_id i = index_table r' \<and> ix_id ix = internal_id (developer_id i)"
      then obtain d where d: "?old = Some d" by auto
      with docs have "i = ResolvedDocument_id d" by simp
      with gone d ix(2) have "im0 = bt_remove j im" by (simp add: im0_def ResolvedDocument_id_def)
      with m exact show False by (simp add: in_memory_exact_def)
    qed
    from index_survives [OF before after docs updated ix(1) this]
    obtain ix' where ix': "indexed_by parse r' (documents_of ?S) t ix' fs" "ix_id ix' = j" using ix(2) by metis
    have "indexes_rows ?S t fs (bt_get (inner m'))"
    proof (rule index_after_updates [OF after(1) S docs upd ix'(1)])
      show "indexes_rows S t fs (bt_get (inner m))" using ix(3) by (simp add: packed_contents_def)
      show "bt_get (inner m') k = update_result ts new u" if "u \<in> set us" "update_key u = (ix_id ix', k)" for u k
        using im'(4) [OF that(1)] that(2) m by (simp add: ix'(2) update_key_def entry_get [OF m'])
      show "bt_get (inner m') k = bt_get (inner m) k" if "(ix_id ix', k) \<notin> update_key ` set us" for k
        using im'(5) [OF that] by (simp add: ix'(2) entry_get [OF m'] entry_get [OF m])
    qed
    then have "packed_contents ?S t fs (inner m')"
      using im'(2) m' unfolding packed_contents_def im_ok_def by blast
    with ix' show "\<exists>t ix fs. indexed_by parse r' (documents_of ?S) t ix fs \<and> ix_id ix = j \<and> packed_contents ?S t fs (inner m')" by blast
  qed
  ultimately show ?thesis by blast
qed

section \<open>An example\<close>

definition example_in_memory :: in_memory_indexes where
  "example_in_memory =
     [(replicate 16 1, \<lparr>inner = [(row_key [] (example_index_document (replicate 16 1) []),
         (1, PackedDocument_pack (example_index_document (replicate 16 1) [])))], last_modified = 1\<rparr>)]"

lemma example_exact: "in_memory_exact example_parse example_registry example_snapshot example_in_memory"
proof -
  let ?ix = "Index_new (IndexMetadata_new_enabled (IndexName_by_id [0]) []) example_meta_id :: unit index"
  have "packed_contents example_snapshot [0] [] [(row_key [] (example_index_document (replicate 16 1) []),
      (1, PackedDocument_pack (example_index_document (replicate 16 1) [])))]"
    by (auto simp: packed_contents_def indexes_rows_def example_snapshot_def bt_get_def example_meta_id_def)
  moreover have "ix_id ?ix = replicate 16 1" by (simp add: Index_new_def example_meta_id_def)
  ultimately show ?thesis
    using example_indexed by (auto simp: in_memory_exact_def example_in_memory_def bt_get_def example_documents)
qed

abbreviation example_new_id :: resolved_document_id where
  "example_new_id \<equiv> example_meta_id\<lparr>developer_id := \<lparr>id_table = 1, internal_id = replicate 16 2\<rparr>\<rparr>"

theorem in_memory_update_exact_witness:
  "\<exists>r us im. registry_update example_parse None (Some (example_index_document (replicate 16 2) [([97], Null)])) example_registry = Some (Inr r)
    \<and> in_memory_update r 5 None (Some (example_index_document (replicate 16 2) [([97], Null)])) example_in_memory = Some (us, im)
    \<and> in_memory_exact example_parse r (example_snapshot(example_new_id := Some (5, example_index_document (replicate 16 2) [([97], Null)]))) im"
proof -
  let ?d = "example_index_document (replicate 16 2) [([97], Null)]"
  have id: "ResolvedDocument_id ?d = example_new_id"
    by (simp add: ResolvedDocument_id_def example_index_document_def example_meta_id_def)
  have none: "documents_of example_snapshot example_new_id = None"
    by (simp add: example_documents example_meta_id_def)
  have number: "tablet_id example_new_id = index_table example_registry \<longrightarrow> id_table (developer_id example_new_id) = index_table_number example_registry"
    by (simp add: example_registry_tables)
  have rep: "represents example_parse example_registry (documents_of example_snapshot)"
    using example_represents by (simp add: example_documents)
  have ids: "\<forall>d. None = Some d \<or> Some ?d = Some d \<longrightarrow> ResolvedDocument_id d = example_new_id" using id by simp
  obtain b r where "apply_verified_update example_parse None (Some ?d) example_registry = Some (b, r)"
    by (rule registry_update_correct [OF rep none ids number example_verified])
  then have r: "registry_update example_parse None (Some ?d) example_registry = Some (Inr r)"
    by (simp add: registry_update_def example_verified)
  have "\<forall>d. Some ?d = Some d \<longrightarrow> ResolvedDocument_id d = example_new_id \<and> stored_document_ok d"
    using id example_stored by simp
  from in_memory_update_exact [OF rep example_parser_ok example_store_ok example_exact this number, of r 5] r none
  show ?thesis by auto
qed

end
