(* ===== verification/Transaction_Index.thy ===== *)
theory Transaction_Index
  imports In_Memory_Index Read_Set Transaction_Writes
begin

text \<open>
  The indexes a transaction reads (\<open>database/src/transaction_index.rs\<close>): the snapshot's indexes with the
  transaction's own writes merged in, the index registry with its own changes, and the read
  dependencies on the index table.

  The search of a text index and the size limit of a transaction's reads are parameters.  \<open>None\<close> is a
  panic, and in \<open>preload_loop\<close> also a loop that does not end.
\<close>

declare split_paired_All [simp del] split_paired_Ex [simp del]

section \<open>The transaction index\<close>

type_synonym transaction_index_map = "(bytes, packed_document option) btree"

record ('x, 'e) transaction_index =
  ti_registry :: "'x index_registry"
  ti_registry_updated :: bool
  ti_snapshot_registry :: "'x index_registry"
  ti_snapshot :: "'e index_snapshot"
  ti_updates :: "(internal_id, transaction_index_map) btree"
  ti_text_updates :: "(internal_id, document_update list) btree"

datatype 'e transaction_index_error =
    IndexError "'e index_error" | BatchKeyMissing | NotMakingProgress | NotUnique | NotSingleField

datatype 's text_search_error = SearchAfterRegistryUpdate | SearchRegistryError registry_error | SearchError 's

type_synonym transaction_row = "bytes \<times> resolved_document \<times> write_timestamp"

type_synonym transaction_page = "transaction_row list \<times> cursor_position"

definition TransactionIndex_new ::
    "'x index_registry \<Rightarrow> 'x index_registry \<Rightarrow> 'e index_snapshot \<Rightarrow> ('x, 'e) transaction_index" where
  "TransactionIndex_new r snapshot_registry snapshot =
     \<lparr>ti_registry = r, ti_registry_updated = False, ti_snapshot_registry = snapshot_registry, ti_snapshot = snapshot,
      ti_updates = [], ti_text_updates = []\<rparr>"

definition TransactionIndexMap_range ::
    "interval \<Rightarrow> transaction_index_map \<Rightarrow> (bytes \<times> resolved_document option) list option" where
  "TransactionIndexMap_range i m =
     (case BTreeMap_range i m of
        None \<Rightarrow> None
      | Some found \<Rightarrow> those (map (\<lambda>(k, v). map_option (Pair k) (unpack_option v)) found))"

definition TransactionIndexMap_insert ::
    "index_key \<Rightarrow> resolved_document option \<Rightarrow> transaction_index_map \<Rightarrow> transaction_index_map" where
  "TransactionIndexMap_insert k v m = bt_insert (IndexKey_into_bytes k) (map_option PackedDocument_pack v) m"

section \<open>Reading through the pending writes\<close>

definition pending_row :: "bytes \<Rightarrow> resolved_document option \<Rightarrow> transaction_row list" where
  "pending_row k v = (case v of None \<Rightarrow> [] | Some d \<Rightarrow> [(k, d, Pending)])"

fun merge_rows :: "order \<Rightarrow> index_row list \<Rightarrow> (bytes \<times> resolved_document option) list \<Rightarrow> transaction_row list" where
  "merge_rows ord ((sk, ts, sd) # s) ((pk, pd) # p) =
     (if (case ord of Asc \<Rightarrow> sk < pk | Desc \<Rightarrow> pk < sk)
      then (sk, sd, Committed ts) # merge_rows ord s ((pk, pd) # p)
      else if sk = pk then pending_row pk pd @ merge_rows ord s p
      else pending_row pk pd @ merge_rows ord ((sk, ts, sd) # s) p)"
| "merge_rows ord ((sk, ts, sd) # s) [] = (sk, sd, Committed ts) # merge_rows ord s []"
| "merge_rows ord [] ((pk, pd) # p) = pending_row pk pd @ merge_rows ord [] p"
| "merge_rows ord [] [] = []"

text \<open>The pending writes of the index that a request names.\<close>

definition pending_of ::
    "('x, 'e) transaction_index \<Rightarrow> tablet_index_name \<Rightarrow> 'e transaction_index_error + transaction_index_map option" where
  "pending_of ti name =
     (case require_enabled (ti_registry ti) name of
        Inr ix \<Rightarrow> Inr (bt_get (ti_updates ti) (ix_id ix))
      | Inl e \<Rightarrow>
          if IndexName_is_by_id_or_creation_time name then Inr None else Inl (IndexError (RegistryError e)))"

definition merge_request ::
    "('x, 'e) transaction_index \<Rightarrow> range_request \<Rightarrow> ('e index_error + fetched) option
     \<Rightarrow> ('e transaction_index_error + transaction_page) option" where
  "merge_request ti req result =
     (case result of
        None \<Rightarrow> Some (Inl BatchKeyMissing)
      | Some (Inl e) \<Rightarrow> Some (Inl (IndexError e))
      | Some (Inr (rows, cursor)) \<Rightarrow>
          (case pending_of ti (req_index_name req) of
             Inl e \<Rightarrow> Some (Inl e)
           | Inr pending \<Rightarrow>
               (case (case pending of None \<Rightarrow> Some [] | Some m \<Rightarrow> TransactionIndexMap_range (req_interval req) m) of
                  None \<Rightarrow> None
                | Some writes \<Rightarrow>
                    Some (let merged = merge_rows (req_order req) rows (Order_apply (req_order req) writes)
                          in if \<not> Interval_contains_cursor (req_interval req) cursor then Inl NotMakingProgress
                             else Inr (merged, cursor)))))"

definition range_no_deps ::
    "('e fetch_result list \<Rightarrow> 'e fetch_result list option) \<Rightarrow> (batch_key, range_request) btree
     \<Rightarrow> ('x, 'e) transaction_index
     \<Rightarrow> ((batch_key, 'e transaction_index_error + transaction_page) btree \<times> ('x, 'e) transaction_index) option" where
  "range_no_deps schedule reqs ti =
     (case range_batch schedule (ti_snapshot_registry ti) reqs (ti_snapshot ti) of
        None \<Rightarrow> None
      | Some (results, snap) \<Rightarrow>
          map_option (\<lambda>merged. (merged, ti\<lparr>ti_snapshot := snap\<rparr>))
            (those (map (\<lambda>(key, req). map_option (Pair key) (merge_request ti req (bt_get results key))) reqs)))"

section \<open>Dependencies on the index table\<close>

text \<open>The dependency of a name on the index table: the document of the index found, or all of them.\<close>

definition index_interval :: "'x index_registry \<Rightarrow> 'x index option \<Rightarrow> interval" where
  "index_interval r index =
     (case index of
        Some ix \<Rightarrow>
          Interval_prefix (IndexKey_into_bytes (IndexKey_new [] \<lparr>id_table = index_table_number r, internal_id = ix_id ix\<rparr>))
      | None \<Rightarrow> Interval_all)"

definition record_interval ::
    "read_config \<Rightarrow> ('x, 'e) transaction_index \<Rightarrow> 'x index option \<Rightarrow> transaction_read_set \<Rightarrow> transaction_read_set option" where
  "record_interval cfg ti index reads =
     record_indexed_derived cfg (IndexName_by_id (index_table (ti_registry ti))) [] (index_interval (ti_registry ti) index) reads"

definition get_and_record ::
    "read_config \<Rightarrow> ('x, 'e) transaction_index \<Rightarrow> 'x index option \<Rightarrow> transaction_read_set
     \<Rightarrow> ('x index option \<times> transaction_read_set) option" where
  "get_and_record cfg ti found reads = map_option (Pair found) (record_interval cfg ti found reads)"

definition TransactionIndex_get_pending ::
    "read_config \<Rightarrow> ('x, 'e) transaction_index \<Rightarrow> tablet_index_name \<Rightarrow> transaction_read_set
     \<Rightarrow> ('x index option \<times> transaction_read_set) option" where
  "TransactionIndex_get_pending cfg ti name reads = get_and_record cfg ti (get_pending (ti_registry ti) name) reads"

definition TransactionIndex_get_enabled ::
    "read_config \<Rightarrow> ('x, 'e) transaction_index \<Rightarrow> tablet_index_name \<Rightarrow> transaction_read_set
     \<Rightarrow> ('x index option \<times> transaction_read_set) option" where
  "TransactionIndex_get_enabled cfg ti name reads = get_and_record cfg ti (get_enabled (ti_registry ti) name) reads"

definition TransactionIndex_require_enabled ::
    "read_config \<Rightarrow> ('x, 'e) transaction_index \<Rightarrow> tablet_index_name \<Rightarrow> transaction_read_set
     \<Rightarrow> ((registry_error + 'x index) \<times> transaction_read_set) option" where
  "TransactionIndex_require_enabled cfg ti name reads =
     (case require_enabled (ti_registry ti) name of
        Inl e \<Rightarrow> Some (Inl e, reads)
      | Inr ix \<Rightarrow> map_option (Pair (Inr ix)) (record_interval cfg ti (Some ix) reads))"

section \<open>A batch of ranges\<close>

text \<open>The fields the transaction reads by; they are needed by nothing but the check itself.\<close>

definition indexed_fields_of :: "tablet_index_name \<Rightarrow> registry_error + 'x index \<Rightarrow> 'e transaction_index_error + indexed_fields" where
  "indexed_fields_of name found =
     (case found of
        Inr ix \<Rightarrow>
          (case ix_config ix of
             DatabaseConfig fs _ \<Rightarrow> Inr fs
           | _ \<Rightarrow> Inl (IndexError NotADatabaseIndex))
      | Inl e \<Rightarrow>
          if IndexName_is_by_id name then Inr []
          else if IndexName_is_creation_time name then Inr [[CREATION_TIME_FIELD]]
          else Inl (IndexError (RegistryError e)))"

fun check_requests ::
    "read_config \<Rightarrow> ('x, 'e) transaction_index \<Rightarrow> (batch_key, range_request) btree \<Rightarrow> transaction_read_set
     \<Rightarrow> (batch_key, 'e transaction_index_error + transaction_page) btree \<Rightarrow> (batch_key, range_request) btree
     \<Rightarrow> (transaction_read_set \<times> (batch_key, 'e transaction_index_error + transaction_page) btree
          \<times> (batch_key, range_request) btree) option" where
  "check_requests cfg ti [] reads results to_fetch = Some (reads, results, to_fetch)"
| "check_requests cfg ti ((key, req) # reqs) reads results to_fetch =
     (case TransactionIndex_require_enabled cfg ti (req_index_name req) reads of
        None \<Rightarrow> None
      | Some (found, reads) \<Rightarrow>
          (case indexed_fields_of (req_index_name req) found of
             Inl e \<Rightarrow> check_requests cfg ti reqs reads (bt_insert key (Inl e) results) to_fetch
           | Inr _ \<Rightarrow> check_requests cfg ti reqs reads results (bt_insert key req to_fetch)))"

definition DeveloperDocument_size :: "developer_document \<Rightarrow> nat" where
  "DeveloperDocument_size d = DeveloperDocumentId_size (doc_id d) + value_size (ObjectV (doc_value d))"

text \<open>The rows below the limit and whether the last row looked at was; the first row over the limit is
  still taken.\<close>

fun take_within :: "nat \<Rightarrow> transaction_row list \<Rightarrow> nat \<Rightarrow> bool \<Rightarrow> transaction_row list \<times> bool" where
  "take_within limit [] so_far within = ([], within)"
| "take_within limit ((k, d, w) # rows) so_far within =
     (if so_far < limit
      then let (out, within) = take_within limit rows (so_far + DeveloperDocument_size (document d)) True in ((k, d, w) # out, within)
      else ([], False))"

definition page_of_fetch :: "nat \<Rightarrow> range_request \<Rightarrow> transaction_page \<Rightarrow> 'e transaction_index_error + transaction_page" where
  "page_of_fetch limit req fetch =
     (let (documents, fetch_cursor) = fetch;
          (out, within) = take_within limit (take (req_max_size req) documents) 0 True;
          cursor = (if out \<noteq> [] \<and> (req_max_size req \<le> length out \<or> \<not> within) then After (fst (last out)) else fetch_cursor)
      in if \<not> Interval_contains_cursor (req_interval req) cursor then Inl NotMakingProgress
         else Inr (out, cursor))"

definition finish_request ::
    "nat \<Rightarrow> range_request \<Rightarrow> ('e transaction_index_error + transaction_page) option \<Rightarrow> 'e transaction_index_error + transaction_page" where
  "finish_request limit req fetched =
     (case fetched of
        None \<Rightarrow> Inl BatchKeyMissing
      | Some (Inl e) \<Rightarrow> Inl e
      | Some (Inr fetch) \<Rightarrow> page_of_fetch limit req fetch)"

definition TransactionIndex_range_batch ::
    "read_config \<Rightarrow> nat \<Rightarrow> ('e fetch_result list \<Rightarrow> 'e fetch_result list option) \<Rightarrow> (batch_key, range_request) btree
     \<Rightarrow> transaction_read_set \<Rightarrow> ('x, 'e) transaction_index
     \<Rightarrow> ((batch_key, 'e transaction_index_error + transaction_page) btree \<times> transaction_read_set \<times> ('x, 'e) transaction_index) option" where
  "TransactionIndex_range_batch cfg limit schedule reqs reads ti =
     (case check_requests cfg ti reqs reads [] [] of
        None \<Rightarrow> None
      | Some (reads, results, to_fetch) \<Rightarrow>
          map_option (\<lambda>(fetched, ti).
              (fold (\<lambda>(key, req). bt_insert key (finish_request limit req (bt_get fetched key))) to_fetch results, reads, ti))
            (range_no_deps schedule to_fetch ti))"

section \<open>Updates\<close>

definition TransactionIndex_begin_update ::
    "'x index_parser \<Rightarrow> resolved_document option \<Rightarrow> resolved_document option \<Rightarrow> ('x, 'e) transaction_index
     \<Rightarrow> (registry_error + 'x index_registry) option" where
  "TransactionIndex_begin_update parse old new ti = registry_update parse old new (ti_registry ti)"

text \<open>\<open>None\<close>: an update that is not one of the new document.\<close>

definition update_value :: "resolved_document option \<Rightarrow> database_index_update \<Rightarrow> resolved_document option option" where
  "update_value new u =
     (case up_value u of
        Deleted \<Rightarrow> Some None
      | NonClustered i \<Rightarrow>
          (case new of
             Some d \<Rightarrow> if ResolvedDocument_id d = i then Some (Some d) else None
           | None \<Rightarrow> None))"

definition buffer_update ::
    "resolved_document option \<Rightarrow> database_index_update \<Rightarrow> (internal_id, transaction_index_map) btree
     \<Rightarrow> (internal_id, transaction_index_map) btree option" where
  "buffer_update new u m =
     map_option (\<lambda>v. bt_insert (up_index_id u) (TransactionIndexMap_insert (up_key u) v (get_or [] m (up_index_id u))) m)
       (update_value new u)"

definition buffer_text_update ::
    "document_update \<Rightarrow> 'x index \<Rightarrow> (internal_id, document_update list) btree \<Rightarrow> (internal_id, document_update list) btree" where
  "buffer_text_update u ix m = bt_insert (ix_id ix) (get_or [] m (ix_id ix) @ [u]) m"

definition text_updates_after ::
    "'x index_registry \<Rightarrow> resolved_document option \<Rightarrow> resolved_document option \<Rightarrow> (internal_id, document_update list) btree
     \<Rightarrow> (internal_id, document_update list) btree option" where
  "text_updates_after r old new m =
     (case (case new of Some d \<Rightarrow> Some d | None \<Rightarrow> old) of
        None \<Rightarrow> Some m
      | Some d \<Rightarrow>
          map_option (\<lambda>ixs. fold (buffer_text_update \<lparr>update_id = ResolvedDocument_id d, old_document = old, new_document = new\<rparr>) ixs m)
            (text_indexes_by_table r (doc_tablet_id d)))"

definition TransactionIndex_finish_update ::
    "'x index_parser \<Rightarrow> resolved_document option \<Rightarrow> resolved_document option \<Rightarrow> ('x, 'e) transaction_index
     \<Rightarrow> (database_index_update list \<times> ('x, 'e) transaction_index) option" where
  "TransactionIndex_finish_update parse old new ti =
     (case apply_verified_update parse old new (ti_registry ti) of
        None \<Rightarrow> None
      | Some (modified, r) \<Rightarrow>
          (case index_updates r old new of
             None \<Rightarrow> None
           | Some us \<Rightarrow>
               (case fold_option (buffer_update new) us (ti_updates ti) of
                  None \<Rightarrow> None
                | Some m \<Rightarrow>
                    map_option (\<lambda>texts. (us, ti\<lparr>ti_registry := r, ti_registry_updated := ti_registry_updated ti \<or> modified,
                        ti_updates := m, ti_text_updates := texts\<rparr>))
                      (text_updates_after r old new (ti_text_updates ti)))))"

section \<open>Text search\<close>

text \<open>
  \<open>name\<close> is the name of the index that the query prints, and \<open>text_search\<close> searches the snapshot with
  the pending updates applied to it.
\<close>

definition TransactionIndex_search ::
    "read_config \<Rightarrow> ('x index \<Rightarrow> document_update list \<Rightarrow> 's + query_reads \<times> 'r) \<Rightarrow> tablet_index_name \<Rightarrow> 's + unit
     \<Rightarrow> transaction_read_set \<Rightarrow> ('x, 'e) transaction_index
     \<Rightarrow> (('s text_search_error + 'r) \<times> transaction_read_set) option" where
  "TransactionIndex_search cfg text_search index_name printable reads ti =
     (if ti_registry_updated ti then Some (Inl SearchAfterRegistryUpdate, reads)
      else
        (case printable of
           Inl e \<Rightarrow> Some (Inl (SearchError e), reads)
         | Inr _ \<Rightarrow>
             (case TransactionIndex_require_enabled cfg ti index_name reads of
                None \<Rightarrow> None
              | Some (Inl e, reads) \<Rightarrow> Some (Inl (SearchRegistryError e), reads)
              | Some (Inr ix, reads) \<Rightarrow>
                  (case text_search ix (get_or [] (ti_text_updates ti) (ix_id ix)) of
                     Inl e \<Rightarrow> Some (Inl (SearchError e), reads)
                   | Inr (search_reads, revisions) \<Rightarrow>
                       Some (Inr revisions, TransactionReadSet_record_search index_name search_reads reads)))))"

section \<open>Preloaded ranges\<close>

definition DEFAULT_PAGE_SIZE :: nat where "DEFAULT_PAGE_SIZE = 512"

record preloaded_index_range =
  preloaded_index_name :: tablet_index_name
  preloaded_table_name :: bytes
  preloaded_field :: field_path
  preloaded_range :: "(convex_value option, resolved_document) btree"

fun insert_unique ::
    "field_path \<Rightarrow> transaction_row list \<Rightarrow> (convex_value option, resolved_document) btree
     \<Rightarrow> (convex_value option, resolved_document) btree option" where
  "insert_unique f [] m = Some m"
| "insert_unique f ((_, d, _) # rows) m =
     (let key = ConvexObject_get_path (document_value d) f
      in if bt_get m key = None then insert_unique f rows (bt_insert key d m) else None)"

partial_function (option) preload_loop ::
    "('e fetch_result list \<Rightarrow> 'e fetch_result list option) \<Rightarrow> tablet_index_name \<Rightarrow> field_path \<Rightarrow> interval \<Rightarrow> interval
     \<Rightarrow> (convex_value option, resolved_document) btree \<Rightarrow> ('x, 'e) transaction_index
     \<Rightarrow> (('e transaction_index_error + (convex_value option, resolved_document) btree) \<times> ('x, 'e) transaction_index) option" where
  "preload_loop schedule name f interval remaining preloaded ti =
     (if Interval_is_empty remaining then Some (Inr preloaded, ti)
      else
        (case range_no_deps schedule
            [(0, \<lparr>req_index_name = name, req_interval = remaining, req_order = Asc, req_max_size = DEFAULT_PAGE_SIZE\<rparr>)] ti of
           None \<Rightarrow> None
         | Some (results, ti) \<Rightarrow>
             (case bt_get results 0 of
                None \<Rightarrow> Some (Inl BatchKeyMissing, ti)
              | Some (Inl e) \<Rightarrow> Some (Inl e, ti)
              | Some (Inr (documents, cursor)) \<Rightarrow>
                  (case insert_unique f documents preloaded of
                     None \<Rightarrow> Some (Inl NotUnique, ti)
                   | Some preloaded \<Rightarrow>
                       preload_loop schedule name f interval (snd (Interval_split interval cursor Asc)) preloaded ti))))"

definition preload_index_range ::
    "read_config \<Rightarrow> ('e fetch_result list \<Rightarrow> 'e fetch_result list option) \<Rightarrow> tablet_index_name \<Rightarrow> bytes \<Rightarrow> interval
     \<Rightarrow> transaction_read_set \<Rightarrow> ('x, 'e) transaction_index
     \<Rightarrow> (('e transaction_index_error + preloaded_index_range) \<times> transaction_read_set \<times> ('x, 'e) transaction_index) option" where
  "preload_index_range cfg schedule name table interval reads ti =
     (case TransactionIndex_require_enabled cfg ti name reads of
        None \<Rightarrow> None
      | Some (Inl e, reads) \<Rightarrow> Some (Inl (IndexError (RegistryError e)), reads, ti)
      | Some (Inr ix, reads) \<Rightarrow>
          (case ix_config ix of
             DatabaseConfig fs _ \<Rightarrow>
               (case fs of
                  [] \<Rightarrow> None
                | f # rest \<Rightarrow>
                    if rest \<noteq> [] then Some (Inl NotSingleField, reads, ti)
                    else
                      map_option (\<lambda>(res, ti).
                          (case res of
                             Inl e \<Rightarrow> Inl e
                           | Inr m \<Rightarrow> Inr \<lparr>preloaded_index_name = name, preloaded_table_name = table, preloaded_field = f,
                               preloaded_range = m\<rparr>, reads, ti))
                        (preload_loop schedule name f interval interval [] ti))
           | _ \<Rightarrow> Some (Inl (IndexError NotADatabaseIndex), reads, ti)))"

definition PreloadedIndexRange_get ::
    "read_config \<Rightarrow> (resolved_document \<Rightarrow> bytes \<Rightarrow> transaction_read_set \<Rightarrow> (pagination_limit + unit) \<times> transaction_read_set)
     \<Rightarrow> convex_value option \<Rightarrow> preloaded_index_range \<Rightarrow> transaction_read_set
     \<Rightarrow> ((pagination_limit + resolved_document option) \<times> transaction_read_set) option" where
  "PreloadedIndexRange_get cfg record_read key p reads =
     (case record_indexed_directly cfg (preloaded_index_name p) [preloaded_field p] (Interval_prefix (values_to_bytes [key])) reads of
        None \<Rightarrow> None
      | Some (Inl e, reads) \<Rightarrow> Some (Inl e, reads)
      | Some (Inr _, reads) \<Rightarrow>
          Some (case bt_get (preloaded_range p) key of
             None \<Rightarrow> (Inr None, reads)
           | Some d \<Rightarrow>
               (case record_read d (preloaded_table_name p) reads of
                  (Inl e, reads) \<Rightarrow> (Inl e, reads)
                | (Inr _, reads) \<Rightarrow> (Inr (Some d), reads))))"

section \<open>The merge\<close>

abbreviation comes_before :: "order \<Rightarrow> bytes \<Rightarrow> bytes \<Rightarrow> bool" where
  "comes_before ord \<equiv> (case ord of Asc \<Rightarrow> (<) | Desc \<Rightarrow> (>))"

definition shape :: "bytes \<times> write_timestamp \<times> resolved_document \<Rightarrow> transaction_row" where
  "shape e = (let (k, w, d) = e in (k, d, w))"

lemma shape_simps [simp]: "shape (k, w, d) = (k, d, w)" "fst (shape e) = fst e"
  by (simp_all add: shape_def case_prod_beta)

lemma inj_shape: "inj shape"
  by (rule injI) (simp add: shape_def case_prod_beta prod_eq_iff)

lemma mem_pending_row [simp]: "e \<in> set (pending_row k v) \<longleftrightarrow> (\<exists>d. v = Some d \<and> e = (k, d, Pending))"
  by (auto simp: pending_row_def split: option.splits)

lemma sorted_pending_row: "sorted_wrt P (map fst (pending_row k v) @ map fst rows)
    \<longleftrightarrow> sorted_wrt P (map fst rows) \<and> (v \<noteq> None \<longrightarrow> (\<forall>x \<in> fst ` set rows. P k x))"
  by (auto simp: pending_row_def split: option.splits)

lemma merge_rows_keys: "x \<in> set (merge_rows ord s p) \<Longrightarrow> fst x \<in> fst ` set s \<or> fst x \<in> fst ` set p"
  by (induction ord s p rule: merge_rows.induct) (auto split: if_splits order.splits)

lemma merge_rows_beyond:
  assumes "\<forall>e \<in> set s. comes_before ord k (fst e)" and "\<forall>e \<in> set p. comes_before ord k (fst e)"
  shows "\<forall>x \<in> set (merge_rows ord s p). comes_before ord k (fst x)"
proof
  fix x assume "x \<in> set (merge_rows ord s p)"
  then have "fst x \<in> fst ` set s \<or> fst x \<in> fst ` set p" by (rule merge_rows_keys)
  with assms show "comes_before ord k (fst x)" by auto
qed

lemma comes_before_trans: "comes_before ord a b \<Longrightarrow> comes_before ord b c \<Longrightarrow> comes_before ord a c"
  by (cases ord) auto

lemma merge_rows_sorted:
  assumes "sorted_wrt (comes_before ord) (map fst s)" and "sorted_wrt (comes_before ord) (map fst p)"
  shows "sorted_wrt (comes_before ord) (map fst (merge_rows ord s p))"
  using assms
proof (induction ord s p rule: merge_rows.induct)
  case (1 ord sk ts sd s pk pd p)
  have s: "\<forall>e \<in> set s. comes_before ord sk (fst e)" and p: "\<forall>e \<in> set p. comes_before ord pk (fst e)"
    using "1.prems" by auto
  consider (less) "comes_before ord sk pk" | (equal) "sk = pk" | (greater) "\<not> comes_before ord sk pk" "sk \<noteq> pk" "comes_before ord pk sk"
    using linorder_less_linear [of sk pk] by (cases ord) auto
  then show ?case
  proof cases
    case less
    then have "\<forall>e \<in> set ((pk, pd) # p). comes_before ord sk (fst e)" using p comes_before_trans by auto
    from merge_rows_beyond [OF s this] less "1.IH"(1) "1.prems" show ?thesis by (cases ord) auto
  next
    case equal
    with merge_rows_beyond [of s ord sk p] s p "1.IH"(2) "1.prems" show ?thesis
      by (cases ord) (auto simp: sorted_pending_row)
  next
    case greater
    then have "\<forall>e \<in> set ((sk, ts, sd) # s). comes_before ord pk (fst e)" using s comes_before_trans by auto
    from merge_rows_beyond [OF this p] greater "1.IH"(3) "1.prems" show ?thesis
      by (cases ord) (auto simp: sorted_pending_row)
  qed
next
  case (2 ord sk ts sd s)
  with merge_rows_beyond [of s ord sk "[]"] show ?case by auto
next
  case (3 ord pk pd p)
  with merge_rows_beyond [of "[]" ord pk p] show ?case by (auto simp: sorted_pending_row)
qed simp

lemma merge_rows_mem:
  assumes "sorted_wrt (comes_before ord) (map fst s)" and "sorted_wrt (comes_before ord) (map fst p)"
  shows "(k, d, w) \<in> set (merge_rows ord s p) \<longleftrightarrow>
    (\<exists>ts. w = Committed ts \<and> (k, ts, d) \<in> set s \<and> k \<notin> fst ` set p) \<or> w = Pending \<and> (k, Some d) \<in> set p"
  using assms
proof (induction ord s p rule: merge_rows.induct)
  case (1 ord sk ts sd s pk pd p)
  consider "comes_before ord sk pk" | "sk = pk" | "\<not> comes_before ord sk pk" "sk \<noteq> pk" "comes_before ord pk sk"
    using linorder_less_linear [of sk pk] by (cases ord) auto
  then show ?case
  proof cases
    case 1
    with "1.prems" have "sk \<notin> fst ` set ((pk, pd) # p)" by (cases ord) (fastforce dest: order.strict_trans)+
    with 1 "1.IH"(1) "1.prems" show ?thesis by (cases ord) auto
  next
    case 2
    with "1.prems" have "sk \<notin> fst ` set s" "\<not> comes_before ord sk pk" by (cases ord; auto)+
    with 2 "1.IH"(2) "1.prems" show ?thesis by (cases ord) (auto simp: image_iff)
  next
    case 3
    with "1.prems" have "pk \<notin> fst ` set ((sk, ts, sd) # s)" by (cases ord) (fastforce dest: order.strict_trans)+
    with 3 "1.IH"(3) "1.prems" show ?thesis by (cases ord) (auto simp: image_iff)
  qed
qed auto

lemma sorted_rows_unique:
  assumes "sorted_wrt (comes_before ord) (map fst xs)" and "sorted_wrt (comes_before ord) (map fst ys)" and "set xs = set ys"
  shows "xs = ys"
  using assms
proof (induction xs arbitrary: ys)
  case (Cons x xs)
  then obtain y zs where ys: "ys = y # zs" by (cases ys) auto
  have "x = y"
  proof (rule ccontr)
    assume "x \<noteq> y"
    with Cons.prems(3) ys have "x \<in> set zs" "y \<in> set xs" by auto
    with Cons.prems(1,2) ys have "comes_before ord (fst x) (fst y)" "comes_before ord (fst y) (fst x)" by auto
    then show False by (cases ord) auto
  qed
  moreover have "x \<notin> set xs" "y \<notin> set zs" using Cons.prems(1,2) ys by (cases ord; force)+
  ultimately have "set xs = set zs" using Cons.prems(3) ys by auto
  with Cons ys \<open>x = y\<close> show ?case by simp
qed simp

section \<open>The writes a transaction buffers\<close>

text \<open>What an index finds for a key: the pending write, or else the snapshot's row.\<close>

definition overlay ::
    "(bytes, timestamp \<times> resolved_document) btree \<Rightarrow> transaction_index_map \<Rightarrow> bytes \<Rightarrow> (write_timestamp \<times> packed_document) option" where
  "overlay rows pending k =
     (case bt_get pending k of
        Some v \<Rightarrow> map_option (Pair Pending) v
      | None \<Rightarrow> map_option (\<lambda>(ts, d). (Committed ts, PackedDocument_pack d)) (bt_get rows k))"

text \<open>The documents that a transaction sees: its own writes have no timestamp yet.\<close>

type_synonym transaction_store = "write_timestamp versions"

definition begun :: "snapshot_store \<Rightarrow> transaction_store" where
  "begun S = (\<lambda>i. map_option (\<lambda>(ts, d). (Committed ts, d)) (S i))"

definition pending_ok :: "(internal_id, transaction_index_map) btree \<Rightarrow> bool" where
  "pending_ok m = (bt_ok m \<and> (\<forall>j p. bt_get m j = Some p \<longrightarrow> bt_ok p \<and> (\<forall>k v. bt_get p k = Some v \<longrightarrow> unpack_option v \<noteq> None)))"

definition transaction_exact ::
    "'x index_parser \<Rightarrow> index_rows \<Rightarrow> internal_id set \<Rightarrow> transaction_store \<Rightarrow> ('x, 'e) transaction_index \<Rightarrow> bool" where
  "transaction_exact parse rows ids T ti =
     (pending_ok (ti_updates ti) \<and> (\<forall>j \<in> ids. \<exists>t ix fs. indexed_by parse (ti_registry ti) (documents_of T) t ix fs \<and> ix_id ix = j
        \<and> indexes_rows T t fs (overlay (rows j) (get_or [] (ti_updates ti) j))))"

lemma documents_of_begun: "documents_of (begun S) = documents_of S"
  by (simp add: documents_of_def begun_def fun_eq_iff option.map_comp o_def case_prod_beta)

lemma begun_exact:
  assumes snap: "snapshot_ok parse r S rows" and ids: "\<forall>j \<in> ids. \<exists>t ix fs. indexed_by parse r (documents_of S) t ix fs \<and> ix_id ix = j"
  shows "transaction_exact parse rows ids (begun S) (TransactionIndex_new r r' snapshot)"
proof -
  have "indexes_rows (begun S) t fs (overlay (rows (ix_id ix)) [])" if "indexed_by parse r (documents_of S) t ix fs" for t ix fs
  proof -
    note m = snapshot_rows(1) [OF snap that, unfolded index_contents_def]
    have "overlay (rows (ix_id ix)) [] k = Some p \<longleftrightarrow> (\<exists>v. bt_get (rows (ix_id ix)) k = Some v \<and> p = (Committed (fst v), PackedDocument_pack (snd v)))" for k p
      by (auto simp: overlay_def bt.get_emp)
    also have "\<dots> k p \<longleftrightarrow> (\<exists>i v. tablet_id i = t \<and> begun S i = Some v \<and> k = row_key fs (snd v) \<and> p = (fst v, PackedDocument_pack (snd v)))" for k p
      using m by (fastforce simp: begun_def)
    finally show ?thesis unfolding indexes_rows_def by blast
  qed
  with ids show ?thesis
    by (fastforce simp: transaction_exact_def TransactionIndex_new_def pending_ok_def documents_of_begun get_or_def bt.get_emp)
qed

definition lookup_pending :: "(internal_id, transaction_index_map) btree \<Rightarrow> internal_id \<times> bytes \<Rightarrow> packed_document option option" where
  "lookup_pending m p = bt_get (get_or [] m (fst p)) (snd p)"

lemma buffer_one:
  assumes m: "pending_ok m" and new: "\<forall>d. new = Some d \<longrightarrow> stored_document_ok d" and u: "update_applicable new u"
  shows "\<exists>m'. buffer_update new u m = Some m' \<and> pending_ok m'
    \<and> lookup_pending m' = (lookup_pending m)(update_key u := Some (map_option snd (update_result Pending new u)))"
proof -
  let ?p = "get_or [] m (up_index_id u)"
  have p: "bt_ok ?p" using m by (auto simp: pending_ok_def get_or_def split: option.splits)
  obtain v where v: "update_value new u = Some v" "map_option PackedDocument_pack v = map_option snd (update_result Pending new u)"
    and unpack: "unpack_option (map_option PackedDocument_pack v) \<noteq> None"
    using u new by (auto simp: update_applicable_def update_value_def update_result_def unpack_option_def stored_document_ok_def split: database_index_value.splits)
  let ?m = "bt_insert (up_index_id u) (TransactionIndexMap_insert (up_key u) v ?p) m"
  have "pending_ok ?m"
    using m p unpack by (auto simp: pending_ok_def TransactionIndexMap_insert_def get_or_def bt.get_emp split: option.splits if_splits)
  moreover have "lookup_pending ?m = (lookup_pending m)(update_key u := Some (map_option snd (update_result Pending new u)))"
    using v(2) by (auto simp: lookup_pending_def update_key_def fun_eq_iff TransactionIndexMap_insert_def get_or_def prod_eq_iff)
  ultimately show ?thesis using v(1) by (simp add: buffer_update_def)
qed

lemma buffer_all:
  assumes "pending_ok m" and new: "\<forall>d. new = Some d \<longrightarrow> stored_document_ok d" and "\<forall>u \<in> set us. update_applicable new u" and "distinct (map update_key us)"
  shows "\<exists>m'. fold_option (buffer_update new) us m = Some m' \<and> pending_ok m'
    \<and> (\<forall>u \<in> set us. lookup_pending m' (update_key u) = Some (map_option snd (update_result Pending new u)))
    \<and> (\<forall>p. p \<notin> update_key ` set us \<longrightarrow> lookup_pending m' p = lookup_pending m p)"
  using assms(1,3,4)
proof (induction us arbitrary: m)
  case (Cons u us)
  from Cons.prems have u: "update_applicable new u" "\<forall>u \<in> set us. update_applicable new u" "distinct (map update_key us)"
    "update_key u \<notin> update_key ` set us" by auto
  from buffer_one [OF Cons.prems(1) new u(1)] obtain a where a: "buffer_update new u m = Some a" "pending_ok a"
    "lookup_pending a = (lookup_pending m)(update_key u := Some (map_option snd (update_result Pending new u)))" by blast
  from Cons.IH [OF a(2) u(2,3)] obtain b where b: "fold_option (buffer_update new) us a = Some b" "pending_ok b"
    "\<And>u. u \<in> set us \<Longrightarrow> lookup_pending b (update_key u) = Some (map_option snd (update_result Pending new u))"
    "\<And>p. p \<notin> update_key ` set us \<Longrightarrow> lookup_pending b p = lookup_pending a p" by blast
  have "lookup_pending b (update_key u) = Some (map_option snd (update_result Pending new u))"
    using b(4) [OF u(4)] a(3) by simp
  with a b show ?case by auto
qed simp

lemma update_result_pending: "map_option (Pair Pending) (map_option snd (update_result Pending new u)) = update_result Pending new u"
  by (cases new) (simp_all add: update_result_def split: database_index_value.split)

lemma text_updates_defined:
  assumes "represents parse r S" and "parser_ok parse"
  obtains texts where "text_updates_after r old new m = Some texts"
proof -
  have "\<exists>ixs. table_indexes r t = Some ixs" for t
    by (rule table_indexes_correct [OF assms, of t]) blast
  then have "\<exists>ixs. text_indexes_by_table r t = Some ixs" for t by (simp add: text_indexes_by_table_def)
  then have "\<exists>texts. text_updates_after r old new m = Some texts"
    by (simp add: text_updates_after_def split: option.split)
  then show ?thesis using that by blast
qed

text \<open>The index that a deletion of its document drops.\<close>

definition dropped_index :: "'x index_registry \<Rightarrow> resolved_document_id \<Rightarrow> resolved_document option \<Rightarrow> internal_id set" where
  "dropped_index r i new = (if new = None \<and> tablet_id i = index_table r then {internal_id (developer_id i)} else {})"

lemma mem_dropped_index: "j \<in> dropped_index r i new \<longleftrightarrow> new = None \<and> tablet_id i = index_table r \<and> j = internal_id (developer_id i)"
  by (simp add: dropped_index_def)

text \<open>C11. Whenever the registry admits a change of a document (\<open>begin_update\<close>), applying it never
  panics: the transaction's registry is again that of its documents, and every index the transaction
  covers still finds exactly the documents the transaction sees, its own writes over the snapshot's
  rows; only an index whose own document is deleted is no longer covered.\<close>

theorem finish_update_exact:
  assumes before: "represents parse (ti_registry ti) (documents_of T)" and parser: "parser_ok parse" and T: "store_ok T"
    and exact: "transaction_exact parse rows ids T ti"
    and new: "\<forall>d. new = Some d \<longrightarrow> ResolvedDocument_id d = i \<and> stored_document_ok d"
    and number: "tablet_id i = index_table (ti_registry ti) \<longrightarrow> id_table (developer_id i) = index_table_number (ti_registry ti)"
    and begun: "TransactionIndex_begin_update parse (documents_of T i) new ti = Some (Inr r')"
  shows "\<exists>us ti'. TransactionIndex_finish_update parse (documents_of T i) new ti = Some (us, ti')
    \<and> ti_registry ti' = r' \<and> represents parse r' (documents_of (T(i := map_option (Pair Pending) new)))
    \<and> transaction_exact parse rows
        (ids - dropped_index r' i new) (T(i := map_option (Pair Pending) new)) ti'"
proof -
  let ?r = "ti_registry ti" and ?T = "T(i := map_option (Pair Pending) new)" and ?old = "documents_of T i"
  have updated: "registry_update parse ?old new ?r = Some (Inr r')" using begun by (simp add: TransactionIndex_begin_update_def)
  obtain b us where r1: "apply_verified_update parse ?old new ?r = Some (b, r')"
    and after: "represents parse r' (documents_of ?T)" "index_table r' = index_table ?r"
    and us: "index_updates r' ?old new = Some us" and upd: "document_updates parse r' (documents_of ?T) i ?old new us"
    and docs: "\<forall>d. ?old = Some d \<or> new = Some d \<longrightarrow> ResolvedDocument_id d = i \<and> stored_document_ok d"
    by (rule admitted_update [OF before parser T new number updated])
  have app: "\<forall>u \<in> set us. update_applicable new u" "distinct (map update_key us)"
    using upd unfolding document_updates_def by blast+
  have m: "pending_ok (ti_updates ti)" using exact by (simp add: transaction_exact_def)
  have stored: "\<forall>d. new = Some d \<longrightarrow> stored_document_ok d" using new by blast
  from buffer_all [OF m stored app] obtain m' where m': "fold_option (buffer_update new) us (ti_updates ti) = Some m'" "pending_ok m'"
    "\<And>u. u \<in> set us \<Longrightarrow> lookup_pending m' (update_key u) = Some (map_option snd (update_result Pending new u))"
    "\<And>p. p \<notin> update_key ` set us \<Longrightarrow> lookup_pending m' p = lookup_pending (ti_updates ti) p" by blast
  obtain texts where texts: "text_updates_after r' ?old new (ti_text_updates ti) = Some texts"
    by (rule text_updates_defined [OF after(1) parser])
  let ?ti = "ti\<lparr>ti_registry := r', ti_registry_updated := ti_registry_updated ti \<or> b, ti_updates := m', ti_text_updates := texts\<rparr>"
  have finished: "TransactionIndex_finish_update parse ?old new ti = Some (us, ?ti)"
    using r1 us m'(1) texts by (simp add: TransactionIndex_finish_update_def)
  have "\<exists>t ix fs. indexed_by parse r' (documents_of ?T) t ix fs \<and> ix_id ix = j
        \<and> indexes_rows ?T t fs (overlay (rows j) (get_or [] m' j))"
    if j: "j \<in> ids" "\<not> (new = None \<and> tablet_id i = index_table r' \<and> j = internal_id (developer_id i))" for j
  proof -
    from exact j(1) obtain t ix fs where ix: "indexed_by parse ?r (documents_of T) t ix fs" "ix_id ix = j"
      "indexes_rows T t fs (overlay (rows j) (get_or [] (ti_updates ti) j))" unfolding transaction_exact_def by blast
    have "\<not> (new = None \<and> ?old \<noteq> None \<and> tablet_id i = index_table r' \<and> ix_id ix = internal_id (developer_id i))"
      using j(2) ix(2) by blast
    from index_survives [OF before after docs updated ix(1) this]
    obtain ix' where ix': "indexed_by parse r' (documents_of ?T) t ix' fs" "ix_id ix' = j" using ix(2) by metis
    have "indexes_rows ?T t fs (overlay (rows j) (get_or [] m' j))"
    proof (rule index_after_updates [OF after(1) T docs upd ix'(1) ix(3)])
      show "overlay (rows j) (get_or [] m' j) k = update_result Pending new u" if u: "u \<in> set us" "update_key u = (ix_id ix', k)" for u k
      proof -
        have "bt_get (get_or [] m' j) k = Some (map_option snd (update_result Pending new u))"
          using m'(3) [OF u(1)] u(2) ix'(2) by (simp add: lookup_pending_def)
        then show ?thesis by (simp add: overlay_def update_result_pending)
      qed
      show "overlay (rows j) (get_or [] m' j) k = overlay (rows j) (get_or [] (ti_updates ti) j) k"
        if "(ix_id ix', k) \<notin> update_key ` set us" for k
        using m'(4) [OF that] ix'(2) by (simp add: lookup_pending_def overlay_def)
    qed
    with ix' show ?thesis by blast
  qed
  then have "transaction_exact parse rows (ids - dropped_index r' i new) ?T ?ti"
    using m'(2) by (simp add: transaction_exact_def mem_dropped_index)
  with finished show ?thesis using after(1) by (intro exI [of _ us] exI [of _ ?ti]) simp
qed

section \<open>Reading back\<close>

lemma overlay_row:
  assumes T: "store_ok T" and m: "index_contents T t fs m" and o: "indexes_rows T t fs g"
  shows "g k = map_option (\<lambda>(w, d). (w, PackedDocument_pack d)) (bt_get m k)"
    and "bt_get m k = Some v \<Longrightarrow> stored_document_ok (snd v)"
proof -
  have row: "bt_get m k = Some v \<longleftrightarrow> (\<exists>i. tablet_id i = t \<and> T i = Some v \<and> k = row_key fs (snd v))" for v
    using m by (simp add: index_contents_def)
  have g: "g k = Some p \<longleftrightarrow> (\<exists>v. bt_get m k = Some v \<and> p = (fst v, PackedDocument_pack (snd v)))" for p
    using o unfolding indexes_rows_def row by blast
  show "g k = map_option (\<lambda>(w, d). (w, PackedDocument_pack d)) (bt_get m k)"
  proof (cases "bt_get m k")
    case None
    then have "g k \<noteq> Some p" for p by (simp add: g)
    with None show ?thesis by (cases "g k") auto
  next
    case (Some v)
    then show ?thesis using g [of "(fst v, PackedDocument_pack (snd v))"] by (simp add: case_prod_beta)
  qed
  show "stored_document_ok (snd v)" if "bt_get m k = Some v"
    using that row stored_document [OF T] by blast
qed

lemma pack_inject: "stored_document_ok d \<Longrightarrow> stored_document_ok e \<Longrightarrow> PackedDocument_pack d = PackedDocument_pack e \<Longrightarrow> d = e"
  unfolding stored_document_ok_def by (metis option.inject)

text \<open>The rows an index has in a transaction, from the snapshot's rows and the pending writes.\<close>

definition reads_over ::
    "(bytes, timestamp \<times> resolved_document) btree \<Rightarrow> transaction_index_map \<Rightarrow> (bytes, write_timestamp \<times> resolved_document) btree \<Rightarrow> bool" where
  "reads_over R P m =
     (\<forall>k. bt_get m k = (case bt_get P k of
        None \<Rightarrow> map_option (\<lambda>(ts, d). (Committed ts, d)) (bt_get R k)
      | Some v \<Rightarrow> Option.bind (Option.bind v PackedDocument_unpack) (\<lambda>d. Some (Pending, d))))"

lemma reads_over_overlay:
  assumes T: "store_ok T" and m: "index_contents T t fs m" and o: "indexes_rows T t fs (overlay R P)"
    and R: "\<forall>k v. bt_get R k = Some v \<longrightarrow> stored_document_ok (snd v)"
  shows "reads_over R P m"
  unfolding reads_over_def
proof
  fix k
  note row = overlay_row [OF T m o, of k]
  show "bt_get m k = (case bt_get P k of
        None \<Rightarrow> map_option (\<lambda>(ts, d). (Committed ts, d)) (bt_get R k)
      | Some v \<Rightarrow> Option.bind (Option.bind v PackedDocument_unpack) (\<lambda>d. Some (Pending, d)))"
  proof (cases "bt_get m k")
    case None
    with row(1) show ?thesis by (auto simp: overlay_def split: option.splits)
  next
    case (Some v)
    obtain w d where v: "v = (w, d)" by (rule prod.exhaust)
    have d: "stored_document_ok d" using row(2) [OF Some] v by simp
    have o: "overlay R P k = Some (w, PackedDocument_pack d)" using row(1) Some v by simp
    show ?thesis
    proof (cases "bt_get P k")
      case (Some p)
      with o d \<open>bt_get m k = Some v\<close> v show ?thesis by (auto simp: overlay_def stored_document_ok_def)
    next
      case None
      with o obtain ts e where e: "bt_get R k = Some (ts, e)" "w = Committed ts" "PackedDocument_pack e = PackedDocument_pack d"
        by (auto simp: overlay_def)
      from R e(1) have "stored_document_ok e" by fastforce
      with e(3) d have "e = d" by (intro pack_inject)
      with None e \<open>bt_get m k = Some v\<close> v show ?thesis by simp
    qed
  qed
qed

lemma pending_range:
  assumes P: "bt_ok P" "\<forall>k v. bt_get P k = Some v \<longrightarrow> unpack_option v \<noteq> None" and iv: "forward iv"
  shows "TransactionIndexMap_range iv P = Some (map (\<lambda>(k, v). (k, Option.bind v PackedDocument_unpack)) (select iv P))"
proof -
  have "those (map (\<lambda>(k, v). map_option (Pair k) (unpack_option v)) (select iv P))
      = Some (map (\<lambda>(k, v). (k, Option.bind v PackedDocument_unpack)) (select iv P))"
  proof (rule those_map_Some)
    fix x assume x: "x \<in> set (select iv P)"
    then have "bt_get P (fst x) = Some (snd x)" using P(1) by (simp add: bt_get_iff)
    with P(2) have "unpack_option (snd x) \<noteq> None" by blast
    then show "(case x of (k, v) \<Rightarrow> map_option (Pair k) (unpack_option v)) = Some (case x of (k, v) \<Rightarrow> (k, Option.bind v PackedDocument_unpack))"
      by (cases x; cases "snd x") (auto simp: unpack_option_def)
  qed
  then show ?thesis by (simp add: TransactionIndexMap_range_def forward_range [OF iv])
qed

lemma map_fst_Order_apply: "map f (Order_apply ord xs) = Order_apply ord (map f xs)"
  by (cases ord) (simp_all add: rev_map)

lemma fst_unpacked [simp]: "fst \<circ> (\<lambda>(k, v). (k, h v)) = fst"
  by (simp add: case_prod_beta o_def)

text \<open>The merge is right at every key whose snapshot row was fetched.\<close>

lemma merged_row:
  assumes over: "reads_over R P m" and ok: "bt_ok R" "bt_ok P" "bt_ok m"
    and s: "sorted_wrt (comes_before ord) (map fst s)" "set s \<subseteq> set (select iv R)"
    and there: "\<And>v. (k, v) \<in> set (select iv R) \<Longrightarrow> (k, v) \<in> set s"
  shows "(k, d, w) \<in> set (merge_rows ord s (Order_apply ord (map (\<lambda>(k, v). (k, Option.bind v PackedDocument_unpack)) (select iv P))))
    \<longleftrightarrow> (k, w, d) \<in> set (select iv m)"
proof -
  let ?p = "map (\<lambda>(k, v). (k, Option.bind v PackedDocument_unpack)) (select iv P)"
  have p: "sorted_wrt (comes_before ord) (map fst (Order_apply ord ?p))"
    using Order_apply_sorted [OF select_ok [OF ok(2)], of ord iv] by (simp add: map_fst_Order_apply)
  have mem: "(k, x) \<in> set ?p \<longleftrightarrow> (\<exists>v. bt_get P k = Some v \<and> Option.bind v PackedDocument_unpack = x \<and> Interval_contains iv k)" for x
    by (force simp: bt_get_iff [OF ok(2)])
  have keys: "k \<in> fst ` set ?p \<longleftrightarrow> bt_get P k \<noteq> None \<and> Interval_contains iv k"
    using mem by (force simp: image_iff)
  have row: "(k, ts, d) \<in> set s \<longleftrightarrow> bt_get R k = Some (ts, d) \<and> Interval_contains iv k" for ts
    using s(2) there [of "(ts, d)"] by (auto simp: bt_get_iff [OF ok(1)])
  have m: "(k, w, d) \<in> set (select iv m) \<longleftrightarrow> bt_get m k = Some (w, d) \<and> Interval_contains iv k"
    by (simp add: bt_get_iff [OF ok(3)])
  show ?thesis unfolding merge_rows_mem [OF s(1) p] set_Order_apply mem keys row m over [unfolded reads_over_def, rule_format, of k]
    by (auto split: option.splits simp: Option.bind_eq_Some_conv)
qed

lemma sorted_shape: "sorted_wrt P (map fst (map shape xs)) = sorted_wrt P (map fst xs)"
  by (simp add: o_def)

text \<open>All rows were fetched.\<close>

lemma merged_all:
  assumes over: "reads_over R P m" and ok: "bt_ok R" "bt_ok P" "bt_ok m"
  shows "merge_rows ord (Order_apply ord (select iv R)) (Order_apply ord (map (\<lambda>(k, v). (k, Option.bind v PackedDocument_unpack)) (select iv P)))
    = map shape (Order_apply ord (select iv m))" (is "merge_rows ord ?s ?p = ?m")
proof (rule sorted_rows_unique)
  have s: "sorted_wrt (comes_before ord) (map fst ?s)" by (rule Order_apply_sorted [OF select_ok [OF ok(1)]])
  show "sorted_wrt (comes_before ord) (map fst (merge_rows ord ?s ?p))"
    using Order_apply_sorted [OF select_ok [OF ok(2)], of ord iv] by (intro merge_rows_sorted [OF s]) (simp add: map_fst_Order_apply)
  show "sorted_wrt (comes_before ord) (map fst ?m)"
    using Order_apply_sorted [OF select_ok [OF ok(3)], of ord iv] by (simp only: sorted_shape)
  have "x \<in> set (merge_rows ord ?s ?p) \<longleftrightarrow> x \<in> shape ` set (select iv m)" for x
  proof -
    obtain k d w where x: "x = (k, d, w)" by (rule prod_cases3)
    have "x \<in> shape ` set (select iv m) \<longleftrightarrow> (k, w, d) \<in> set (select iv m)"
      unfolding x by (force simp: shape_def image_iff)
    moreover have "x \<in> set (merge_rows ord ?s ?p) \<longleftrightarrow> (k, w, d) \<in> set (select iv m)"
      unfolding x by (rule merged_row [OF over ok s]) auto
    ultimately show ?thesis by blast
  qed
  then show "set (merge_rows ord ?s ?p) = set ?m" by (auto simp only: set_map set_Order_apply)
qed

text \<open>The transaction wrote nothing in the interval.\<close>

lemma merge_rows_unwritten: "merge_rows ord s [] = map (\<lambda>(k, ts, d). (k, d, Committed ts)) s"
proof (induction s)
  case (Cons x s)
  then show ?case by (cases x) simp
qed simp

lemma unwritten_rows:
  assumes over: "reads_over R P m" and ok: "bt_ok R" "bt_ok P" "bt_ok m" and none: "select iv P = []"
  shows "map shape (Order_apply ord (select iv m)) = map (\<lambda>(k, ts, d). (k, d, Committed ts)) (Order_apply ord (select iv R))"
  using merged_all [OF over ok, of ord iv] unfolding none by (cases ord) (simp_all add: merge_rows_unwritten)

section \<open>Pages of a transaction\<close>

lemma take_within_take:
  assumes "take_within limit rows so_far w = (out, within)"
  shows "out = take (length out) rows" and "w \<and> within \<Longrightarrow> out = rows" and "so_far < limit \<and> rows \<noteq> [] \<Longrightarrow> out \<noteq> []"
proof -
  have "\<exists>k \<le> length rows. out = take k rows \<and> (w \<and> within \<longrightarrow> k = length rows) \<and> (so_far < limit \<and> rows \<noteq> [] \<longrightarrow> 0 < k)"
    using assms
  proof (induction limit rows so_far w arbitrary: out rule: take_within.induct)
    case (2 limit k d v rows so_far w)
    show ?case
    proof (cases "so_far < limit")
      case True
      obtain o' w' where o: "take_within limit rows (so_far + DeveloperDocument_size (document d)) True = (o', w')" by (rule prod.exhaust)
      with True "2.prems" have out: "out = (k, d, v) # o'" "within = w'" by auto
      from "2.IH" [OF True, of o'] o out(2) obtain n where "n \<le> length rows" "o' = take n rows" "within \<longrightarrow> n = length rows" by auto
      then show ?thesis using out(1) by (intro exI [of _ "Suc n"]) simp
    next
      case False
      with "2.prems" show ?thesis by (intro exI [of _ 0]) auto
    qed
  qed simp
  then obtain k where k: "k \<le> length rows" "out = take k rows" "w \<and> within \<longrightarrow> k = length rows" "so_far < limit \<and> rows \<noteq> [] \<longrightarrow> 0 < k" by blast
  then show "out = take (length out) rows" by simp
  show "out = rows" if "w \<and> within" using k that by simp
  show "out \<noteq> []" if "so_far < limit \<and> rows \<noteq> []" using k that by auto
qed

lemma contains_page_cursor:
  assumes "\<forall>e \<in> set rows. Interval_contains iv (fst e)" and "0 < c"
  shows "Interval_contains_cursor iv (snd (page c rows))"
proof (cases "c \<le> length rows")
  case True
  then have "last (take c rows) \<in> set rows" using assms(2) by (intro in_set_takeD [OF last_in_set]) auto
  with assms(1) True show ?thesis by (auto simp: page_def Interval_contains_cursor_def)
qed (simp add: page_def Interval_contains_cursor_def)

lemma page_of_fetch_page:
  assumes limit: "0 < limit" "0 < req_max_size req" "0 < c" and rows: "\<forall>e \<in> set rows. Interval_contains (req_interval req) (fst e)"
  shows "\<exists>c' > 0. page_of_fetch limit req (map shape (fst (page c rows)), snd (page c rows))
    = Inr (map shape (fst (page c' rows)), snd (page c' rows))"
proof -
  let ?merged = "map shape (fst (page c rows))"
  obtain out within where out: "take_within limit (take (req_max_size req) ?merged) 0 True = (out, within)" by (rule prod.exhaust)
  note tw = take_within_take [OF out]
  show ?thesis
  proof (cases "out \<noteq> [] \<and> (req_max_size req \<le> length out \<or> \<not> within)")
    case True
    have o': "out = map shape (take (length out) rows)" and len: "length out \<le> length rows"
    proof -
      from tw(1) have "length out \<le> length (take (req_max_size req) ?merged)" by (metis length_take min.absorb_iff2 min.cobounded1)
      then have le: "length out \<le> req_max_size req" "length out \<le> c" "length out \<le> length rows" by (simp_all add: page_def)
      then show "length out \<le> length rows" by blast
      have "out = take (length out) ?merged" using tw(1) le(1) by (simp only: take_take min.absorb1)
      also have "\<dots> = map shape (take (length out) rows)" using le(2) by (simp add: page_def take_map min.absorb1)
      finally show "out = map shape (take (length out) rows)" .
    qed
    have "fst (last out) = fst (last (take (length out) rows))"
      using o' True by (metis last_map list.map_disc_iff shape_simps(2))
    then have "page (length out) rows = (take (length out) rows, After (fst (last out)))"
      using len by (simp add: page_def)
    moreover have "Interval_contains_cursor (req_interval req) (snd (page (length out) rows))"
      by (rule contains_page_cursor [OF rows]) (use True in simp)
    ultimately show ?thesis using out True o'
      by (intro exI [of _ "length out"]) (simp add: page_of_fetch_def)
  next
    case False
    have "out = ?merged"
    proof (cases "out = []")
      case True
      with tw(3) limit show ?thesis by (cases ?merged) auto
    next
      case nonempty: False
      with False have "within" "length out < req_max_size req" by auto
      with tw(2) show ?thesis by auto
    qed
    with out False limit contains_page_cursor [OF rows limit(3)] show ?thesis
      by (intro exI [of _ c]) (auto simp: page_of_fetch_def)
  qed
qed

section \<open>A batch of ranges through the pending writes\<close>

definition request_error :: "('x, 'e) transaction_index \<Rightarrow> range_request \<Rightarrow> 'e transaction_index_error option" where
  "request_error ti req =
     (case indexed_fields_of (req_index_name req) (require_enabled (ti_registry ti) (req_index_name req)) of
        Inl e \<Rightarrow> Some e
      | Inr _ \<Rightarrow> None)"

text \<open>The read set of a transaction that reads the index table by id.\<close>

definition reads_ok :: "(tablet_index_name \<Rightarrow> indexed_fields) \<Rightarrow> ('x, 'e) transaction_index \<Rightarrow> transaction_read_set \<Rightarrow> bool" where
  "reads_ok fs ti reads =
     (read_set_ok (tx_read_set reads) \<and> fields_agree fs (tx_read_set reads) \<and> fs (IndexName_by_id (index_table (ti_registry ti))) = [])"

lemma interval_recorded:
  assumes "reads_ok fs ti reads"
  obtains reads' where "record_interval cfg ti index reads = Some reads'" and "reads_ok fs ti reads'"
    and "\<forall>env doc. covers env (tx_read_set reads') doc \<longleftrightarrow> covers env (tx_read_set reads) doc
      \<or> interval_reads fs (IndexName_by_id (index_table (ti_registry ti)), [index_interval (ti_registry ti) index]) doc"
proof -
  let ?name = "IndexName_by_id (index_table (ti_registry ti))"
  from assms have ok: "read_set_ok (tx_read_set reads)" "fields_agree fs (tx_read_set reads)" "fs ?name = []"
    by (simp_all add: reads_ok_def)
  from record_indexed_inner_correct [OF ok(1,2), of cfg ?name "[index_interval (ti_registry ti) index]"] ok(3)
  obtain n rs' where rs: "record_indexed_inner cfg ?name [] [index_interval (ti_registry ti) index] (tx_read_set reads) = Some (n, rs')"
    "read_set_ok rs'" "fields_agree fs rs'"
    "\<And>env doc. covers env rs' doc \<longleftrightarrow> covers env (tx_read_set reads) doc \<or> interval_reads fs (?name, [index_interval (ti_registry ti) index]) doc"
    by metis
  show ?thesis
    by (rule that [of "reads\<lparr>tx_read_set := rs'\<rparr>"])
      (use rs ok in \<open>simp_all add: record_interval_def record_indexed_derived_def reads_ok_def\<close>)
qed

lemma require_enabled_reads:
  assumes "reads_ok fs ti reads"
  obtains reads' where "TransactionIndex_require_enabled cfg ti name reads = Some (require_enabled (ti_registry ti) name, reads')"
    and "reads_ok fs ti reads'" and "\<forall>env doc. covers env (tx_read_set reads) doc \<longrightarrow> covers env (tx_read_set reads') doc"
proof (cases "require_enabled (ti_registry ti) name")
  case (Inl e)
  with assms that [of reads] show ?thesis by (simp add: TransactionIndex_require_enabled_def)
next
  case (Inr ix)
  obtain reads' where "record_interval cfg ti (Some ix) reads = Some reads'" "reads_ok fs ti reads'"
    "\<forall>env doc. covers env (tx_read_set reads') doc \<longleftrightarrow> covers env (tx_read_set reads) doc
      \<or> interval_reads fs (IndexName_by_id (index_table (ti_registry ti)), [index_interval (ti_registry ti) (Some ix)]) doc"
    by (rule interval_recorded [OF assms, where cfg = cfg and index = "Some ix"])
  with Inr that [of reads'] show ?thesis by (simp add: TransactionIndex_require_enabled_def)
qed

lemma check_requests_correct:
  "bt_ok reqs \<Longrightarrow> reads_ok fs ti reads \<Longrightarrow> bt_ok tf \<Longrightarrow>
    \<exists>reads' results' tf'. check_requests cfg ti reqs reads results tf = Some (reads', results', tf') \<and> reads_ok fs ti reads' \<and> bt_ok tf'
      \<and> (\<forall>key. case bt_get reqs key of
           None \<Rightarrow> bt_get results' key = bt_get results key \<and> bt_get tf' key = bt_get tf key
         | Some req \<Rightarrow>
             (case request_error ti req of
                Some e \<Rightarrow> bt_get results' key = Some (Inl e) \<and> bt_get tf' key = bt_get tf key
              | None \<Rightarrow> bt_get results' key = bt_get results key \<and> bt_get tf' key = Some req))"
proof (induction reqs arbitrary: reads results tf)
  case (Cons p reqs)
  obtain key req where p: "p = (key, req)" by (rule prod.exhaust)
  have other: "bt_get reqs key = None" using Cons.prems(1) p bt_key_get [of reqs key] by fastforce
  have get: "bt_get (p # reqs) k = (if k = key then Some req else bt_get reqs k)" for k
    using p by (simp add: bt_get_def)
  have reqs: "bt_ok reqs" using Cons.prems(1) by simp
  obtain reads1 where reads1: "TransactionIndex_require_enabled cfg ti (req_index_name req) reads
      = Some (require_enabled (ti_registry ti) (req_index_name req), reads1)" "reads_ok fs ti reads1"
    by (rule require_enabled_reads [OF Cons.prems(2), where cfg = cfg and name = "req_index_name req"])
  show ?case
  proof (cases "indexed_fields_of (req_index_name req) (require_enabled (ti_registry ti) (req_index_name req)) :: 'b transaction_index_error + indexed_fields")
    case (Inl e)
    then have err: "request_error ti req = Some e" by (simp add: request_error_def)
    from Cons.IH [OF reqs reads1(2) Cons.prems(3), of "bt_insert key (Inl e) results"]
    obtain reads' results' tf' where r: "check_requests cfg ti reqs reads1 (bt_insert key (Inl e) results) tf = Some (reads', results', tf')"
      "reads_ok fs ti reads'" "bt_ok tf'"
      and keys: "\<And>k. case bt_get reqs k of
           None \<Rightarrow> bt_get results' k = bt_get (bt_insert key (Inl e) results) k \<and> bt_get tf' k = bt_get tf k
         | Some req \<Rightarrow> (case request_error ti req of
                Some e \<Rightarrow> bt_get results' k = Some (Inl e) \<and> bt_get tf' k = bt_get tf k
              | None \<Rightarrow> bt_get results' k = bt_get (bt_insert key (Inl e) results) k \<and> bt_get tf' k = Some req)" by blast
    have "case bt_get (p # reqs) k of
           None \<Rightarrow> bt_get results' k = bt_get results k \<and> bt_get tf' k = bt_get tf k
         | Some req \<Rightarrow> (case request_error ti req of
                Some e \<Rightarrow> bt_get results' k = Some (Inl e) \<and> bt_get tf' k = bt_get tf k
              | None \<Rightarrow> bt_get results' k = bt_get results k \<and> bt_get tf' k = Some req)" for k
      using keys [of k] other err by (cases "k = key"; cases "bt_get reqs k") (simp_all add: get split: option.splits)
    with r reads1(1) Inl show ?thesis by (simp add: p)
  next
    case (Inr f)
    then have err: "request_error ti req = (None :: 'b transaction_index_error option)" by (simp add: request_error_def)
    let ?tf = "bt_insert key req tf"
    have "bt_ok ?tf" using Cons.prems(3) by simp
    from Cons.IH [OF reqs reads1(2) this, of results]
    obtain reads' results' tf' where r: "check_requests cfg ti reqs reads1 results (bt_insert key req tf) = Some (reads', results', tf')"
      "reads_ok fs ti reads'" "bt_ok tf'"
      and keys: "\<And>k. case bt_get reqs k of
           None \<Rightarrow> bt_get results' k = bt_get results k \<and> bt_get tf' k = bt_get ?tf k
         | Some req \<Rightarrow> (case request_error ti req of
                Some e \<Rightarrow> bt_get results' k = Some (Inl e) \<and> bt_get tf' k = bt_get ?tf k
              | None \<Rightarrow> bt_get results' k = bt_get results k \<and> bt_get tf' k = Some req)" by blast
    have "case bt_get (p # reqs) k of
           None \<Rightarrow> bt_get results' k = bt_get results k \<and> bt_get tf' k = bt_get tf k
         | Some req \<Rightarrow> (case request_error ti req of
                Some e \<Rightarrow> bt_get results' k = Some (Inl e) \<and> bt_get tf' k = bt_get tf k
              | None \<Rightarrow> bt_get results' k = bt_get results k \<and> bt_get tf' k = Some req)" for k
      using keys [of k] other err by (cases "k = key"; cases "bt_get reqs k") (simp_all add: get split: option.splits)
    with r reads1(1) Inr show ?thesis by (simp add: p)
  qed
qed (simp add: bt.get_emp)

text \<open>
  A request whose answer is right: its index, the same one in both registries, is covered, and the
  transaction wrote nothing in the interval or the whole interval is fetched at once.
\<close>

definition read_correctly :: "internal_id set \<Rightarrow> index_rows \<Rightarrow> ('x, 'e) transaction_index \<Rightarrow> range_request \<Rightarrow> internal_id \<Rightarrow> bool" where
  "read_correctly ids rows ti req j =
     (j \<in> ids \<and> map_option ix_id (get_enabled (ti_registry ti) (req_index_name req)) = Some j
      \<and> map_option ix_id (get_enabled (ti_snapshot_registry ti) (req_index_name req)) = Some j
      \<and> (select (req_interval req) (get_or [] (ti_updates ti) j) = []
         \<or> bt_get (snap_in_memory (ti_snapshot ti)) j \<noteq> None
         \<or> length (select (req_interval req) (rows j)) < req_max_size req))"

definition transaction_answer ::
    "(bytes, write_timestamp \<times> resolved_document) btree \<Rightarrow> bool \<Rightarrow> range_request
     \<Rightarrow> 'e transaction_index_error + transaction_page \<Rightarrow> bool" where
  "transaction_answer m cancelled req a =
     (let rows = Order_apply (req_order req) (select (req_interval req) m)
      in (\<exists>c > 0. a = Inr (map shape (fst (page c rows)), snd (page c rows)))
         \<or> (\<exists>e. a = Inl (IndexError (PersistenceError e))) \<or> cancelled \<and> a = Inl (IndexError TaskCancelled))"

lemma merge_request_defined:
  assumes p: "pending_ok (ti_updates ti)" and req: "request_ok req"
  shows "\<exists>a. merge_request ti req res = Some a"
proof -
  have "\<exists>w. TransactionIndexMap_range (req_interval req) m = Some w" if "bt_get (ti_updates ti) j = Some m" for j m
    using p req that pending_range [of m "req_interval req"] by (auto simp: pending_ok_def request_ok_def)
  then have "\<exists>w. (case pending of None \<Rightarrow> Some [] | Some m \<Rightarrow> TransactionIndexMap_range (req_interval req) m) = Some w"
    if "pending_of ti (req_index_name req) = (Inr pending :: 'b transaction_index_error + _)" for pending
    using that by (auto simp: pending_of_def split: sum.splits if_splits option.split)
  then show ?thesis by (fastforce simp: merge_request_def split: option.split sum.split)
qed

lemma select_contains: "\<forall>e \<in> set (Order_apply ord (select iv m)). Interval_contains iv (fst e)"
  by simp

lemma last_key:
  assumes "map fst xs = map fst ys" and "take n xs \<noteq> []"
  shows "fst (last (take n xs)) = fst (last (take n ys))"
proof -
  have eq: "map fst (take n xs) = map fst (take n ys)" using assms(1) by (simp flip: take_map)
  with assms(2) have "take n ys \<noteq> []" by (metis list.map_disc_iff)
  then have "last (map fst (take n ys)) = fst (last (take n ys))" by (rule last_map)
  moreover have "last (map fst (take n xs)) = fst (last (take n xs))" using assms(2) by (rule last_map)
  ultimately show ?thesis using eq by simp
qed

text \<open>One request.\<close>

lemma merge_request_page:
  assumes over: "reads_over (rows j) (get_or [] (ti_updates ti) j) m" and ok: "bt_ok (rows j)" "bt_ok m"
    and p: "pending_ok (ti_updates ti)" and req: "request_ok req" and right: "read_correctly ids rows ti req j"
    and res: "res = (if bt_get (snap_in_memory (ti_snapshot ti)) j \<noteq> None then (request_rows rows j req, End)
      else page (req_max_size req) (request_rows rows j req))"
  shows "\<exists>c > 0. merge_request ti req (Some (Inr res))
    = Some (Inr (map shape (fst (page c (Order_apply (req_order req) (select (req_interval req) m)))),
                 snd (page c (Order_apply (req_order req) (select (req_interval req) m)))))"
proof -
  let ?iv = "req_interval req" and ?ord = "req_order req" and ?P = "get_or [] (ti_updates ti) j"
  let ?m = "Order_apply ?ord (select ?iv m)" and ?R = "Order_apply ?ord (select ?iv (rows j))"
  let ?u = "\<lambda>(k, v). (k, Option.bind v PackedDocument_unpack)"
  have P: "bt_ok ?P" "\<forall>k v. bt_get ?P k = Some v \<longrightarrow> unpack_option v \<noteq> None"
    using p by (auto simp: pending_ok_def get_or_def bt.get_emp split: option.splits)
  have n: "0 < req_max_size req" "forward ?iv" using req by (simp_all add: request_ok_def)
  from right obtain ix where ix: "get_enabled (ti_registry ti) (req_index_name req) = Some ix" "ix_id ix = j"
    by (auto simp: read_correctly_def)
  have writes: "(case bt_get (ti_updates ti) j of None \<Rightarrow> Some [] | Some m \<Rightarrow> TransactionIndexMap_range ?iv m) = Some (map ?u (select ?iv ?P))"
    using pending_range [OF P n(2)] by (cases "bt_get (ti_updates ti) j") (simp_all add: get_or_def select_def)
  have merge: "merge_request ti req (Some (Inr (rows', cursor)))
      = Some (if \<not> Interval_contains_cursor ?iv cursor then Inl NotMakingProgress
              else Inr (merge_rows ?ord rows' (Order_apply ?ord (map ?u (select ?iv ?P))), cursor))" for rows' cursor
    using ix writes by (simp add: merge_request_def pending_of_def require_enabled_def)
  show ?thesis
  proof (cases "snd res = End \<and> fst res = ?R")
    case True
    let ?c = "Suc (length (select ?iv m))"
    have "page ?c ?m = (?m, End)" by (cases ?ord) (simp_all add: page_def)
    moreover have "res = (?R, End)" using True by (metis prod.collapse)
    ultimately show ?thesis
      using merged_all [OF over ok(1) P(1) ok(2), of ?ord ?iv]
      by (intro exI [of _ ?c]) (simp add: merge Interval_contains_cursor_def)
  next
    case False
    with res have unread: "bt_get (snap_in_memory (ti_snapshot ti)) j = None" and res: "res = page (req_max_size req) ?R"
      by (auto split: if_splits)
    have len: "\<not> length ?R < req_max_size req" using False res by (auto simp: page_def)
    then have "\<not> length (select ?iv (rows j)) < req_max_size req" by (cases ?ord) simp_all
    then have none: "select ?iv ?P = []" using right unread by (simp add: read_correctly_def)
    let ?n = "req_max_size req" and ?f = "\<lambda>(k, ts, d). (k, d, Committed ts)"
    have rows: "map shape ?m = map ?f ?R" by (rule unwritten_rows [OF over ok(1) P(1) ok(2) none])
    have last: "fst (last (take ?n ?m)) = fst (last (take ?n ?R))" and len': "length ?m = length ?R"
    proof -
      from rows have "map fst (map shape ?m) = map fst (map ?f ?R)" by simp
      then have keys: "map fst ?m = map fst ?R" by (simp add: o_def case_prod_beta)
      then show "length ?m = length ?R" by (metis length_map)
      then have "take ?n ?m \<noteq> []" using len n(1) by auto
      with keys show "fst (last (take ?n ?m)) = fst (last (take ?n ?R))" by (rule last_key)
    qed
    have "page ?n ?R = (take ?n ?R, snd (page ?n ?m))" "page ?n ?m = (take ?n ?m, snd (page ?n ?m))"
      using last len' by (simp_all add: page_def)
    moreover have "Interval_contains_cursor ?iv (snd (page ?n ?m))"
      by (rule contains_page_cursor [OF select_contains n(1)])
    moreover have "map shape (take ?n ?m) = map ?f (take ?n ?R)" using rows by (simp flip: take_map)
    moreover have "Order_apply ?ord (map ?u (select ?iv ?P)) = []" by (cases ?ord) (simp_all add: none)
    ultimately have "merge_request ti req (Some (Inr (page ?n ?R))) = Some (Inr (map shape (take ?n ?m), snd (page ?n ?m)))"
      by (simp only: merge merge_rows_unwritten if_True if_False simp_thms)
    with \<open>page ?n ?m = (take ?n ?m, snd (page ?n ?m))\<close> n(1) show ?thesis
      unfolding res by (intro exI [of _ ?n]) (metis fst_conv)
  qed
qed

lemma merge_batch_defined:
  assumes p: "pending_ok (ti_updates ti)" and reqs: "list_all (\<lambda>(_, req). request_ok req) reqs" "bt_ok reqs"
  obtains merged where "those (map (\<lambda>(key, req). map_option (Pair key) (merge_request ti req (bt_get results key))) reqs) = Some merged"
    and "\<forall>key req. bt_get reqs key = Some req \<longrightarrow> bt_get merged key = merge_request ti req (bt_get results key)"
proof -
  let ?f = "\<lambda>(key, req). (key, the (merge_request ti req (bt_get results key)))"
  have def: "merge_request ti req (bt_get results key) = Some (snd (?f (key, req)))" if "(key, req) \<in> set reqs" for key req
  proof -
    have "request_ok req" using reqs(1) that by (fastforce simp: list_all_iff)
    from merge_request_defined [OF p this, of "bt_get results key"] show ?thesis by (auto simp del: split_paired_Ex)
  qed
  have "those (map (\<lambda>(key, req). map_option (Pair key) (merge_request ti req (bt_get results key))) reqs) = Some (map ?f reqs)"
  proof (rule those_map_Some)
    fix x assume x: "x \<in> set reqs"
    obtain key req where x': "x = (key, req)" by (rule prod.exhaust)
    from def [of key req] x x' show "(case x of (key, req) \<Rightarrow> map_option (Pair key) (merge_request ti req (bt_get results key))) = Some (?f x)"
      by simp
  qed
  moreover have "bt_get (map ?f reqs) key = merge_request ti req (bt_get results key)" if "bt_get reqs key = Some req" for key req
  proof -
    have "bt_ok (map ?f reqs)" using reqs(2) by (simp add: o_def case_prod_beta)
    moreover have "(key, req) \<in> set reqs" using that bt_get_iff [OF reqs(2)] by simp
    ultimately have "bt_get (map ?f reqs) key = Some (the (merge_request ti req (bt_get results key)))"
      by (subst bt_get_iff) force+
    with def [OF \<open>(key, req) \<in> set reqs\<close>] show ?thesis by auto
  qed
  ultimately show ?thesis using that by blast
qed

text \<open>One request that reads a covered index correctly.\<close>

lemma covered_no_error:
  assumes rep: "represents parse (ti_registry ti) (documents_of T)" and exact: "transaction_exact parse rows ids T ti"
    and read: "read_correctly ids rows ti req j"
  shows "request_error ti req = None"
proof -
  from exact read obtain t ix gs where ix: "indexed_by parse (ti_registry ti) (documents_of T) t ix gs" "ix_id ix = j"
    "indexes_rows T t gs (overlay (rows j) (get_or [] (ti_updates ti) j))" unfolding transaction_exact_def read_correctly_def by blast
  from read obtain iy where iy: "get_enabled (ti_registry ti) (req_index_name req) = Some iy" "ix_id iy = j"
    by (auto simp: read_correctly_def)
  have reg: "registered parse (index_table (ti_registry ti)) (documents_of T) True (req_index_name req) iy"
    using rep iy(1) by (simp add: represents_def get_enabled_def)
  from ix(1) obtain b n where "registered parse (index_table (ti_registry ti)) (documents_of T) b n ix"
    unfolding indexed_by_def by blast
  from registered_inj [OF rep this reg] ix(2) iy(2) have same: "ix = iy" by simp
  show "request_error ti req = None"
    using iy(1) ix(1) unfolding same by (auto simp: request_error_def indexed_fields_of_def require_enabled_def indexed_by_def)
qed

lemma covered_request:
  assumes snap: "snapshot_ok parse (ti_snapshot_registry ti) S rows"
    and T: "store_ok T" "represents parse (ti_registry ti) (documents_of T)" "rows_exact parse (ti_registry ti) T seen"
    and exact: "transaction_exact parse rows ids T ti"
    and base: "\<forall>j \<in> ids. \<exists>t ix fs. indexed_by parse (ti_snapshot_registry ti) (documents_of S) t ix fs \<and> ix_id ix = j"
    and limit: "0 < limit" and ok: "request_ok req" and read: "read_correctly ids rows ti req j"
    and res: "answer (ti_snapshot_registry ti) rows (ti_snapshot ti) cancelled req res"
  shows "transaction_answer (seen j) cancelled req (finish_request limit req (merge_request ti req (Some res)))"
proof -
  have p: "pending_ok (ti_updates ti)" using exact by (simp add: transaction_exact_def)
  from exact read obtain t ix gs where ix: "indexed_by parse (ti_registry ti) (documents_of T) t ix gs" "ix_id ix = j"
    "indexes_rows T t gs (overlay (rows j) (get_or [] (ti_updates ti) j))" unfolding transaction_exact_def read_correctly_def by blast
  from read obtain iy where iy: "get_enabled (ti_registry ti) (req_index_name req) = Some iy" "ix_id iy = j"
    by (auto simp: read_correctly_def)
  have reg: "registered parse (index_table (ti_registry ti)) (documents_of T) True (req_index_name req) iy"
    using T(2) iy(1) by (simp add: represents_def get_enabled_def)
  from ix(1) obtain b n where "registered parse (index_table (ti_registry ti)) (documents_of T) b n ix"
    unfolding indexed_by_def by blast
  from registered_inj [OF T(2) this reg] ix(2) iy(2) have same: "ix = iy" by simp
  from base read obtain u jx hs where jx: "indexed_by parse (ti_snapshot_registry ti) (documents_of S) u jx hs" "ix_id jx = j"
    unfolding read_correctly_def by blast
  from read obtain jy where jy: "get_enabled (ti_snapshot_registry ti) (req_index_name req) = Some jy" "ix_id jy = j"
    by (auto simp: read_correctly_def)
  have rep: "represents parse (ti_snapshot_registry ti) (documents_of S)" using snap by (simp add: snapshot_ok_def)
  have reg': "registered parse (index_table (ti_snapshot_registry ti)) (documents_of S) True (req_index_name req) jy"
    using rep jy(1) by (simp add: represents_def get_enabled_def)
  from jx(1) obtain b n where "registered parse (index_table (ti_snapshot_registry ti)) (documents_of S) b n jx"
    unfolding indexed_by_def by blast
  from registered_inj [OF rep this reg'] jx(2) jy(2) have same': "jx = jy" by simp
  have cfg: "is_database_config (ix_config jy)" using jx(1) unfolding same' indexed_by_def by auto
  note R = snapshot_rows [OF snap jx(1), unfolded jx(2)]
  have contents: "index_contents T t gs (seen j)" using rows_exact_contents [OF T(3) ix(1)] ix(2) by simp
  have "stored_document_ok (snd v)" if "bt_get (rows j) k = Some v" for k v
  proof -
    have "store_ok S" using snap by (simp add: snapshot_ok_def)
    moreover from R(1) that obtain i where "S i = Some v" unfolding index_contents_def by blast
    ultimately show ?thesis by (rule stored_document)
  qed
  then have over: "reads_over (rows j) (get_or [] (ti_updates ti) j) (seen j)"
    by (intro reads_over_overlay [OF T(1) contents ix(3)]) blast
  let ?m = "Order_apply (req_order req) (select (req_interval req) (seen j))"
  from res jy cfg consider
      (page) "res = Inr (if bt_get (snap_in_memory (ti_snapshot ti)) j \<noteq> None then (request_rows rows j req, End)
        else page (req_max_size req) (request_rows rows j req))"
    | (persistence) e where "res = Inl (PersistenceError e)"
    | (cancelled) "cancelled" "res = Inl TaskCancelled"
    unfolding answer_def by (auto split: if_splits)
  then show "transaction_answer (seen j) cancelled req (finish_request limit req (merge_request ti req (Some res)))"
  proof cases
    case page
    from merge_request_page [where rows = rows and m = "seen j" and ids = ids, OF over R(2) contents_ok [OF contents] p ok read refl]
    obtain c where c: "0 < c" "merge_request ti req (Some res) = Some (Inr (map shape (fst (page c ?m)), snd (page c ?m)))"
      using page by auto
    have "0 < req_max_size req" using ok by (simp add: request_ok_def)
    from page_of_fetch_page [OF limit this c(1) select_contains] obtain c' where "0 < c'"
      "page_of_fetch limit req (map shape (fst (page c ?m)), snd (page c ?m))
        = (Inr (map shape (fst (page c' ?m)), snd (page c' ?m)) :: 'b transaction_index_error + transaction_page)" by blast
    moreover have "finish_request limit req (merge_request ti req (Some res))
        = page_of_fetch limit req (map shape (fst (page c ?m)), snd (page c ?m))"
      by (simp add: finish_request_def c(2))
    ultimately show ?thesis unfolding transaction_answer_def Let_def by (intro disjI1 exI [of _ c'] conjI) simp_all
  next
    case persistence
    then show ?thesis by (auto simp: finish_request_def merge_request_def transaction_answer_def)
  next
    case cancelled
    then show ?thesis by (auto simp: finish_request_def merge_request_def transaction_answer_def)
  qed
qed

lemma transaction_range_correct:
  assumes snap: "snapshot_ok parse (ti_snapshot_registry ti) S rows" and cache: "cache_ok rows (snap_cache (ti_snapshot ti))"
    and mem: "in_memory_view rows (snap_in_memory (ti_snapshot ti))"
    and pers: "persistence_ok parse (ti_snapshot_registry ti) S rows (snap_persistence (ti_snapshot ti))"
    and reqs: "bt_ok reqs" "list_all (\<lambda>(_, req). request_ok req) reqs" and schedule: "permutes schedule"
    and T: "store_ok T" "represents parse (ti_registry ti) (documents_of T)" "rows_exact parse (ti_registry ti) T seen"
    and exact: "transaction_exact parse rows ids T ti"
    and base: "\<forall>j \<in> ids. \<exists>t ix fs. indexed_by parse (ti_snapshot_registry ti) (documents_of S) t ix fs \<and> ix_id ix = j"
    and reads: "reads_ok fs ti reads" and limit: "0 < limit"
  shows "\<exists>results reads' c. TransactionIndex_range_batch cfg limit schedule reqs reads ti
      = Some (results, reads', ti\<lparr>ti_snapshot := (ti_snapshot ti)\<lparr>snap_cache := c\<rparr>\<rparr>)
    \<and> cache_ok rows c \<and> reads_ok fs ti reads'
    \<and> (\<forall>key req. bt_get reqs key = Some req \<longrightarrow> (\<exists>a. bt_get results key = Some a
        \<and> (\<forall>j. read_correctly ids rows ti req j \<longrightarrow> transaction_answer (seen j) (\<exists>fs. schedule fs = None) req a)))"
proof -
  obtain reads' results0 tf where check: "check_requests cfg ti reqs reads [] [] = Some (reads', results0, tf)"
    "reads_ok fs ti reads'" "bt_ok tf"
    and keys: "\<And>key. case bt_get reqs key of
           None \<Rightarrow> bt_get results0 key = bt_get [] key \<and> bt_get tf key = bt_get [] key
         | Some req \<Rightarrow> (case request_error ti req of
                Some e \<Rightarrow> bt_get results0 key = Some (Inl e) \<and> bt_get tf key = bt_get [] key
              | None \<Rightarrow> bt_get results0 key = bt_get [] key \<and> bt_get tf key = Some req)"
    using check_requests_correct [OF reqs(1) reads, of "[]" cfg "[]"] by auto
  have sub: "bt_get reqs key = Some req" if "bt_get tf key = Some req" for key req
    using keys [of key] that by (auto simp: bt.get_emp split: option.splits)
  have tf: "list_all (\<lambda>(_, req). request_ok req) tf"
    using sub reqs(2) bt_get_iff [OF reqs(1)] bt_get_iff [OF check(3)] unfolding list_all_iff by fastforce
  from range_batch_correct [OF snap cache mem pers check(3) tf schedule] obtain rb c
    where rb: "range_batch schedule (ti_snapshot_registry ti) tf (ti_snapshot ti) = Some (rb, (ti_snapshot ti)\<lparr>snap_cache := c\<rparr>)"
      "cache_ok rows c" "batch_answers (ti_snapshot_registry ti) rows (ti_snapshot ti) (\<exists>fs. schedule fs = None) tf rb" by blast
  have p: "pending_ok (ti_updates ti)" using exact by (simp add: transaction_exact_def)
  obtain merged where merged: "those (map (\<lambda>(key, req). map_option (Pair key) (merge_request ti req (bt_get rb key))) tf) = Some merged"
    "\<forall>key req. bt_get tf key = Some req \<longrightarrow> bt_get merged key = merge_request ti req (bt_get rb key)"
    by (rule merge_batch_defined [OF p tf check(3)])
  let ?ti = "ti\<lparr>ti_snapshot := (ti_snapshot ti)\<lparr>snap_cache := c\<rparr>\<rparr>"
  let ?g = "\<lambda>key req. finish_request limit req (bt_get merged key)"
  let ?results = "fold (\<lambda>(key, req). bt_insert key (?g key req)) tf results0"
  have "range_no_deps schedule tf ti = Some (merged, ?ti)"
    using rb(1) merged(1) by (simp add: range_no_deps_def)
  then have run: "TransactionIndex_range_batch cfg limit schedule reqs reads ti = Some (?results, reads', ?ti)"
    using check(1) by (simp add: TransactionIndex_range_batch_def)
  have inj: "inj_on fst (set tf)" using check(3) bt_distinct distinct_map by blast
  have fetched: "bt_get ?results key = Some (?g key req)" if "bt_get tf key = Some req" for key req
    using fold_bt_insert_get [OF inj, of "(key, req)" "\<lambda>x. ?g (fst x) (snd x)" results0] that bt_get_iff [OF check(3)]
    by (simp add: case_prod_unfold)
  have kept: "bt_get ?results key = bt_get results0 key" if "bt_get tf key = None" for key
    using fold_bt_insert_other [of key fst tf "\<lambda>x. ?g (fst x) (snd x)" results0] that bt_key_get [OF check(3), of key]
    by (simp add: case_prod_unfold)
  have answered: "\<exists>a. bt_get ?results key = Some a" if "bt_get reqs key = Some req" for key req
  proof (cases "bt_get tf key")
    case None
    with keys [of key] that kept [OF None] show ?thesis by (cases "request_error ti req") (auto simp: bt.get_emp)
  qed (use fetched in blast)
  have right: "transaction_answer (seen j) (\<exists>fs. schedule fs = None) req a"
    if req: "bt_get reqs key = Some req" and a: "bt_get ?results key = Some a" and read: "read_correctly ids rows ti req j" for key req a j
  proof -
    have ok: "request_ok req" using reqs req by (auto simp: list_all_iff bt_get_iff)
    have in_tf: "bt_get tf key = Some req"
    proof (rule ccontr)
      assume "bt_get tf key \<noteq> Some req"
      with keys [of key] req obtain e where "request_error ti req = Some e" by (auto split: option.splits)
      with covered_no_error [OF T(2) exact read] show False by (metis option.distinct(1))
    qed
    from rb(3) [unfolded batch_answers_def, rule_format, of key] in_tf obtain res where res: "bt_get rb key = Some res"
      "answer (ti_snapshot_registry ti) rows (ti_snapshot ti) (\<exists>fs. schedule fs = None) req res" by auto
    have "a = finish_request limit req (merge_request ti req (Some res))"
      using fetched [OF in_tf] a merged(2) in_tf res(1) by simp
    with covered_request [OF snap T exact base limit ok read res(2)] show ?thesis by simp
  qed
  show ?thesis using run rb(2) check(2) answered right by (intro exI [of _ ?results] exI [of _ reads'] exI [of _ c]) blast
qed

text \<open>C10. A batch of index ranges read by a transaction never panics and answers every request.  When an
  index is covered by the transaction and the request reads it correctly, the answer is a page of
  exactly the rows that the index has for the transaction, its own writes included, with the cursor
  after that page, or the error of the persistence or of a cancelled task.  The snapshot's cache stays sound.\<close>

theorem transaction_range_exact:
  assumes snap: "snapshot_ok parse (ti_snapshot_registry ti) S rows" and cache: "cache_ok rows (snap_cache (ti_snapshot ti))"
    and mem: "in_memory_view rows (snap_in_memory (ti_snapshot ti))"
    and pers: "persistence_ok parse (ti_snapshot_registry ti) S rows (snap_persistence (ti_snapshot ti))"
    and reqs: "bt_ok reqs" "list_all (\<lambda>(_, req). request_ok req) reqs" and schedule: "permutes schedule"
    and T: "store_ok T" "represents parse (ti_registry ti) (documents_of T)" "rows_exact parse (ti_registry ti) T seen"
    and exact: "transaction_exact parse rows ids T ti"
    and base: "\<forall>j \<in> ids. \<exists>t ix fs. indexed_by parse (ti_snapshot_registry ti) (documents_of S) t ix fs \<and> ix_id ix = j"
    and reads: "reads_ok fs ti reads" and limit: "0 < limit"
  shows "\<exists>results reads' c. TransactionIndex_range_batch cfg limit schedule reqs reads ti
      = Some (results, reads', ti\<lparr>ti_snapshot := (ti_snapshot ti)\<lparr>snap_cache := c\<rparr>\<rparr>)
    \<and> cache_ok rows c \<and> reads_ok fs ti reads'
    \<and> (\<forall>key req. bt_get reqs key = Some req \<longrightarrow> (\<exists>a. bt_get results key = Some a
        \<and> (\<forall>j. read_correctly ids rows ti req j \<longrightarrow> transaction_answer (seen j) (\<exists>fs. schedule fs = None) req a)))"
  using assms by (rule transaction_range_correct)

section \<open>Pages that end before a pending write\<close>

text \<open>C36. The pending writes of the whole interval are merged into a page that ends at its cursor.  When a
  page of one row is read, the transaction has deleted the first row and written one beyond the second,
  the answer is the row written with the cursor after it: the second row of the snapshot is skipped, and
  it is not in the rest of the interval either.\<close>

theorem pending_write_skips_row:
  assumes keys: "k1 < k2" "k2 < k3" and inside: "Interval_contains (req_interval req) k1" "Interval_contains (req_interval req) k2"
      "Interval_contains (req_interval req) k3"
    and req: "req_order req = Asc" "req_max_size req = 1" and limit: "0 < limit"
    and index: "get_enabled (ti_registry ti) (req_index_name req) = Some ix"
    and writes: "bt_get (ti_updates ti) (ix_id ix) = Some [(k1, None), (k3, Some (PackedDocument_pack d))]"
    and d: "stored_document_ok d"
  shows "\<exists>fetched. merge_request ti req (Some (Inr (page 1 [(k1, v1), (k2, v2)]))) = Some (Inr fetched)
    \<and> page_of_fetch limit req fetched = Inr ([(k3, d, Pending)], After k3)
    \<and> \<not> Interval_contains (snd (Interval_split (req_interval req) (After k3) Asc)) k2"
proof -
  let ?P = "[(k1, None), (k3, Some (PackedDocument_pack d))]"
  have "\<not> Interval_is_empty (req_interval req)"
    using inside(1) by (cases "start_bound (req_interval req)"; cases "end_bound (req_interval req)")
      (auto simp: Interval_is_empty_def Interval_contains_def)
  then have iv: "forward (req_interval req)" by (rule nonempty_forward)
  have "bt_ok ?P" using keys by auto
  moreover have "\<forall>k v. bt_get ?P k = Some v \<longrightarrow> unpack_option v \<noteq> None"
    using d by (auto simp: bt_get_def unpack_option_def stored_document_ok_def split: if_splits)
  ultimately have range: "TransactionIndexMap_range (req_interval req) ?P = Some [(k1, None), (k3, Some d)]"
    using pending_range [OF _ _ iv, of ?P] d inside by (simp add: select_def stored_document_ok_def)
  obtain ts e where v1: "v1 = (ts, e)" by (rule prod.exhaust)
  have "merge_request ti req (Some (Inr (page 1 [(k1, v1), (k2, v2)]))) = Some (Inr ([(k3, d, Pending)], After k1))"
    using index writes range req inside
    by (simp add: merge_request_def pending_of_def require_enabled_def page_def Interval_contains_cursor_def pending_row_def v1)
  moreover have "page_of_fetch limit req ([(k3, d, Pending)], After k1) = Inr ([(k3, d, Pending)], After k3)"
    using req limit inside by (simp add: page_of_fetch_def Interval_contains_cursor_def)
  moreover have "\<not> Interval_contains (snd (Interval_split (req_interval req) (After k3) Asc)) k2"
  proof -
    have "k2 \<notin> Interval_points (snd (Interval_split_after (req_interval req) k3 Asc))"
      using keys(2) unfolding split_after_Asc_rest [OF inside(3)] by auto
    then show ?thesis by (simp add: Interval_split_def Interval_points_def)
  qed
  ultimately show ?thesis by (intro exI [of _ "([(k3, d, Pending)], After k1)"]) simp
qed

theorem pending_write_skips_row_witness:
  "\<exists>fetched. merge_request
       ((TransactionIndex_new example_registry example_registry
           \<lparr>snap_in_memory = [], snap_persistence = example_scan, snap_cache = cache_new\<rparr>)
        \<lparr>ti_updates := [(replicate 16 1, [([1], None), ([5], Some (PackedDocument_pack (example_index_document (replicate 16 1) [])))])]\<rparr>)
       (example_request\<lparr>req_order := Asc, req_max_size := 1\<rparr>)
       (Some (Inr (page 1 [([1], 1, example_index_document (replicate 16 2) []), ([3], 1, example_index_document (replicate 16 3) [])])))
     = Some (Inr fetched)
    \<and> page_of_fetch 100 (example_request\<lparr>req_order := Asc, req_max_size := 1\<rparr>) fetched
       = Inr ([([5], example_index_document (replicate 16 1) [], Pending)], After [5])"
proof -
  let ?ti = "(TransactionIndex_new example_registry example_registry
           \<lparr>snap_in_memory = [], snap_persistence = example_scan, snap_cache = cache_new\<rparr>)
        \<lparr>ti_updates := [(replicate 16 1, [([1], None), ([5], Some (PackedDocument_pack (example_index_document (replicate 16 1) [])))])]\<rparr>"
  let ?req = "example_request\<lparr>req_order := Asc, req_max_size := 1\<rparr>"
  let ?ix = "Index_new (IndexMetadata_new_enabled (IndexName_by_id [0]) []) example_meta_id :: unit index"
  have all: "Interval_contains (req_interval ?req) k" for k
    by (simp add: example_request_def Interval_all_def Interval_contains_def BinaryKey_min_def)
  have ix: "get_enabled (ti_registry ?ti) (req_index_name ?req) = Some ?ix"
    by (simp add: TransactionIndex_new_def example_request_def get_enabled_def example_registry_def registry_insert_def
        registry_empty_def Index_new_def IndexMetadata_new_enabled_def IndexConfig_is_enabled_def bt_get_def Let_def)
  have writes: "bt_get (ti_updates ?ti) (ix_id ?ix)
      = Some [([1], None), ([5], Some (PackedDocument_pack (example_index_document (replicate 16 1) [])))]"
    by (simp add: bt_get_def Index_new_def example_meta_id_def)
  have "([1] :: bytes) < [3]" "([3] :: bytes) < [5]" by simp_all
  from pending_write_skips_row [OF this all all all _ _ _ ix writes example_stored(1), of 100
      "(1, example_index_document (replicate 16 2) [])" "(1, example_index_document (replicate 16 3) [])"]
  show ?thesis by (simp add: example_request_def) blast
qed

section \<open>An example\<close>

abbreviation example_transaction :: "(unit, unit) transaction_index" where
  "example_transaction \<equiv> TransactionIndex_new example_registry example_registry
     \<lparr>snap_in_memory = [], snap_persistence = example_scan, snap_cache = cache_new\<rparr>"

lemma example_base:
  "\<forall>j \<in> {replicate 16 1}. \<exists>t ix fs. indexed_by example_parse example_registry (documents_of example_snapshot) t ix fs \<and> ix_id ix = j"
  using example_indexed by (auto simp: example_documents Index_new_def example_meta_id_def intro!: exI)

lemma example_begun: "transaction_exact example_parse (\<lambda>_. [example_row]) {replicate 16 1} (begun example_snapshot) example_transaction"
  by (rule begun_exact [OF example_snapshot_ok example_base])

lemma begun_ok: "store_ok S \<Longrightarrow> store_ok (begun S)"
  unfolding store_ok_def begun_def by fastforce

theorem finish_update_exact_witness:
  "\<exists>us ti r. TransactionIndex_finish_update example_parse None (Some (example_index_document (replicate 16 2) [([97], Null)])) example_transaction
     = Some (us, ti)
    \<and> transaction_exact example_parse (\<lambda>_. [example_row]) ({replicate 16 1} - dropped_index (r :: unit index_registry) example_new_id (Some (example_index_document (replicate 16 2) [([97], Null)])))
        ((begun example_snapshot)(example_new_id := Some (Pending, example_index_document (replicate 16 2) [([97], Null)]))) ti"
proof -
  let ?d = "example_index_document (replicate 16 2) [([97], Null)]"
  have reg: "ti_registry example_transaction = example_registry" by (simp add: TransactionIndex_new_def)
  have id: "ResolvedDocument_id ?d = example_new_id"
    by (simp add: ResolvedDocument_id_def example_index_document_def example_meta_id_def)
  have none: "documents_of (begun example_snapshot) example_new_id = None"
    by (simp add: documents_of_begun example_documents example_meta_id_def)
  have number: "tablet_id example_new_id = index_table (ti_registry example_transaction) \<longrightarrow>
      id_table (developer_id example_new_id) = index_table_number (ti_registry example_transaction)"
    by (simp add: reg example_registry_tables)
  have rep: "represents example_parse (ti_registry example_transaction) (documents_of (begun example_snapshot))"
    using example_represents by (simp add: reg documents_of_begun example_documents)
  have ids: "\<forall>d. None = Some d \<or> Some ?d = Some d \<longrightarrow> ResolvedDocument_id d = example_new_id" using id by simp
  obtain b r where "apply_verified_update example_parse None (Some ?d) example_registry = Some (b, r)"
    using registry_update_correct [OF rep none ids number] example_verified reg by metis
  then have r: "TransactionIndex_begin_update example_parse (documents_of (begun example_snapshot) example_new_id) (Some ?d) example_transaction
      = Some (Inr r)"
    by (simp add: TransactionIndex_begin_update_def registry_update_def example_verified none reg)
  have "\<forall>d. Some ?d = Some d \<longrightarrow> ResolvedDocument_id d = example_new_id \<and> stored_document_ok d"
    using id example_stored by simp
  from finish_update_exact [OF rep example_parser_ok begun_ok [OF example_store_ok] example_begun this number r] none
  show ?thesis by auto
qed

lemma example_seen: "rows_exact example_parse example_registry (begun example_snapshot)
    (\<lambda>_. [(fst example_row, Committed 1, snd (snd example_row))])"
proof -
  have "index_contents (begun example_snapshot) [0] [] [(fst example_row, Committed 1, snd (snd example_row))]"
    by (auto simp: index_contents_def begun_def example_snapshot_def bt_get_def example_meta_id_def example_row_def)
  then show ?thesis using example_only_index by (auto simp: rows_exact_def documents_of_begun)
qed

abbreviation example_read_config :: read_config where
  "example_read_config \<equiv> \<lparr>capture_backtraces = False, current_trace = [], max_read_size_rows = 10,
       max_read_size_bytes = 10, max_read_set_intervals = 10\<rparr>"

theorem transaction_range_exact_witness:
  "\<exists>results reads c a. TransactionIndex_range_batch example_read_config 100 (\<lambda>fs. Some (rev fs)) [(7, example_request)] TransactionReadSet_new example_transaction
     = Some (results, reads, example_transaction\<lparr>ti_snapshot := (ti_snapshot example_transaction)\<lparr>snap_cache := c\<rparr>\<rparr>)
    \<and> bt_get results 7 = Some a
    \<and> transaction_answer [(fst example_row, Committed 1, snd (snd example_row))] False example_request a"
proof -
  let ?ti = example_transaction
  have fields [simp]: "ti_registry ?ti = example_registry" "ti_snapshot_registry ?ti = example_registry" "ti_updates ?ti = []"
    "snap_in_memory (ti_snapshot ?ti) = []" "snap_persistence (ti_snapshot ?ti) = example_scan" "snap_cache (ti_snapshot ?ti) = cache_new"
    by (simp_all add: TransactionIndex_new_def)
  have cache: "cache_ok (\<lambda>_. [example_row]) (snap_cache (ti_snapshot ?ti))" by (simp add: cache_new_ok)
  have mem: "in_memory_view (\<lambda>_. [example_row]) (snap_in_memory (ti_snapshot ?ti))" by (simp add: in_memory_view_def bt.get_emp)
  have pers: "persistence_ok example_parse (ti_snapshot_registry ?ti) example_snapshot (\<lambda>_. [example_row]) (snap_persistence (ti_snapshot ?ti))"
    by (simp add: persistence_ok_def scans_def streams_def example_scan_def)
  have snap: "snapshot_ok example_parse (ti_snapshot_registry ?ti) example_snapshot (\<lambda>_. [example_row])"
    by (simp add: example_snapshot_ok)
  have reqs: "bt_ok [(7 :: nat, example_request)]" by simp
  have ok: "list_all (\<lambda>(_, req). request_ok req) [(7 :: nat, example_request)]"
    by (simp add: request_ok_def example_request_def forward_def Interval_all_def)
  have sched: "permutes (\<lambda>fs. Some (rev fs))" by (simp add: permutes_def)
  have rep: "represents example_parse (ti_registry ?ti) (documents_of (begun example_snapshot))"
    using example_represents by (simp add: documents_of_begun example_documents)
  have reads: "reads_ok (\<lambda>_. []) ?ti TransactionReadSet_new"
    using read_set_empty_ok by (simp add: reads_ok_def TransactionReadSet_new_def)
  have base: "\<forall>j \<in> {replicate 16 1}. \<exists>t ix fs. indexed_by example_parse (ti_snapshot_registry ?ti) (documents_of example_snapshot) t ix fs \<and> ix_id ix = j"
    using example_base by simp
  have seen: "rows_exact example_parse (ti_registry ?ti) (begun example_snapshot) (\<lambda>_. [(fst example_row, Committed 1, snd (snd example_row))])"
    using example_seen by simp
  have limit: "(0 :: nat) < 100" by simp
  have "\<exists>results reads' c. TransactionIndex_range_batch example_read_config 100 (\<lambda>fs. Some (rev fs)) [(7, example_request)] TransactionReadSet_new ?ti
      = Some (results, reads', ?ti\<lparr>ti_snapshot := (ti_snapshot ?ti)\<lparr>snap_cache := c\<rparr>\<rparr>)
    \<and> cache_ok (\<lambda>_. [example_row]) c \<and> reads_ok (\<lambda>_. []) ?ti reads'
    \<and> (\<forall>key req. bt_get [(7, example_request)] key = Some req \<longrightarrow> (\<exists>a. bt_get results key = Some a
        \<and> (\<forall>j. read_correctly {replicate 16 1} (\<lambda>_. [example_row]) ?ti req j \<longrightarrow>
             transaction_answer [(fst example_row, Committed 1, snd (snd example_row))] (\<exists>fs. Some (rev (fs :: unit fetch_result list)) = None) req a)))"
    by (rule transaction_range_exact [OF snap cache mem pers reqs ok sched begun_ok [OF example_store_ok] rep seen example_begun base reads limit])
  then obtain results reads c where r: "TransactionIndex_range_batch example_read_config 100 (\<lambda>fs. Some (rev fs)) [(7, example_request)] TransactionReadSet_new ?ti
      = Some (results, reads, ?ti\<lparr>ti_snapshot := (ti_snapshot ?ti)\<lparr>snap_cache := c\<rparr>\<rparr>)"
    and ans: "\<And>key req. bt_get [(7, example_request)] key = Some req \<Longrightarrow> (\<exists>a. bt_get results key = Some a
        \<and> (\<forall>j. read_correctly {replicate 16 1} (\<lambda>_. [example_row]) ?ti req j \<longrightarrow>
             transaction_answer [(fst example_row, Committed 1, snd (snd example_row))] (\<exists>fs. Some (rev (fs :: unit fetch_result list)) = None) req a))"
    by blast
  have "bt_get [(7, example_request)] 7 = Some example_request" by (simp add: bt_get_def)
  from ans [OF this] obtain a where a: "bt_get results 7 = Some a"
    and right: "\<And>j. read_correctly {replicate 16 1} (\<lambda>_. [example_row]) ?ti example_request j \<Longrightarrow>
       transaction_answer [(fst example_row, Committed 1, snd (snd example_row))] (\<exists>fs. Some (rev (fs :: unit fetch_result list)) = None) example_request a"
    by blast
  have "read_correctly {replicate 16 1} (\<lambda>_. [example_row]) ?ti example_request (replicate 16 1)"
    by (simp add: read_correctly_def example_request_def get_enabled_def example_registry_def registry_insert_def
        registry_empty_def Index_new_def IndexMetadata_new_enabled_def IndexConfig_is_enabled_def bt_get_def Let_def
        TransactionIndex_new_def example_meta_id_def get_or_def select_def)
  from right [OF this] have "transaction_answer [(fst example_row, Committed 1, snd (snd example_row))] False example_request a" by simp
  with r a show ?thesis by blast
qed

end
