(* ===== verification/Query_Stream.thy ===== *)
theory Query_Stream
  imports Transaction_Index Query_Range
begin

text \<open>
  Running a query (\<open>database/src/query\<close>): the streams of an index range and of a search, the filter
  and limit operators above them, pagination cursors, and the batches that pull the next result of
  several queries, fetching the index ranges they wait for through the transaction's indexes.

  Parameters (\<open>query_env\<close>) are the knobs, the floating-point operations, text search and point reads of
  the transaction, the documents of virtual tables, the lookups of table and component names, and the
  fingerprint of a query.  \<open>None\<close> is a panic or a loop that does not end; below it is shown that
  neither happens.  Usage tracking and the version of the client are left out.
\<close>

declare split_paired_All [simp del] split_paired_Ex [simp del]

section \<open>Streams\<close>

datatype stable_index_name = Physical tablet_index_name | Virtual "table_name index_name" tablet_index_name | MissingIndexName "table_name index_name"

fun tablet_index_name_of :: "stable_index_name \<Rightarrow> tablet_index_name option" where
  "tablet_index_name_of (Physical n) = Some n"
| "tablet_index_name_of (Virtual _ n) = Some n"
| "tablet_index_name_of (MissingIndexName _) = None"

type_synonym developer_row = "bytes \<times> developer_document \<times> write_timestamp"

type_synonym stream_result = "(developer_document \<times> write_timestamp) option"

record stream_request =
  sr_index_name :: stable_index_name
  sr_interval :: interval
  sr_order :: order
  sr_max_rows :: nat

datatype stream_next = Ready stream_result | WaitingOn stream_request

datatype 'e query_error =
    ScannedTooMuchData nat | ScannedTooManyDocuments nat | ReadLimit pagination_limit | ComponentNotFound
  | FetchFailed 'e | FetchNoProgress | ResponseMissing | FilterFailed eval_error
  | SearchScannedTooManyDocuments | SearchResultMissing | SearchWrongTimestamp | CannotFeedSearch | SearchIndexMissing
  | QueriedIndexTable | InvalidCursor | RangeInvalid range_error | TabletMissing | MoreThanOneResult

definition MAX_QUERY_FETCH :: nat where "MAX_QUERY_FETCH = 1024"
definition DEFAULT_QUERY_PREFETCH :: nat where "DEFAULT_QUERY_PREFETCH = 100"
definition FILTER_QUERY_PREFETCH :: nat where "FILTER_QUERY_PREFETCH = 100"
definition MAX_PAGE_SIZE :: nat where "MAX_PAGE_SIZE = 1024"
definition MAX_CANDIDATE_REVISIONS :: nat where "MAX_CANDIDATE_REVISIONS = 1024"

text \<open>A transaction: its read set and what it reads from.\<close>

record 't query_transaction =
  qt_reads :: transaction_read_set
  qt_source :: 't

type_synonym candidate_revision = "internal_id \<times> write_timestamp"

record ('t, 'e) query_env =
  qe_config :: read_config
  qe_max_rows :: nat
  qe_max_bytes :: nat
  qe_floats :: float_ops
  qe_is_virtual :: "table_name \<Rightarrow> bool"
  qe_component_known :: bool
  qe_search :: "stable_index_name \<Rightarrow> search \<Rightarrow> 't query_transaction \<Rightarrow> ('e + (candidate_revision \<times> bytes) list) \<times> 't query_transaction"
  qe_table_number :: "tablet_id \<Rightarrow> 'e + table_number"
  qe_get_with_ts :: "developer_document_id \<Rightarrow> 't query_transaction \<Rightarrow> ('e + (developer_document \<times> write_timestamp) option) \<times> 't query_transaction"
  qe_fetch :: "(batch_key, stream_request) btree \<Rightarrow> 't query_transaction
     \<Rightarrow> ((batch_key, 'e + developer_row list \<times> cursor_position) btree \<times> 't query_transaction) option"
  qe_fingerprint :: "query \<Rightarrow> indexed_fields \<Rightarrow> 'e + bytes"

section \<open>The stream of an index range\<close>

record cursor_interval =
  curr_exclusive :: "cursor_position option"
  end_inclusive :: "cursor_position option"

definition CursorInterval_contains :: "bytes \<Rightarrow> cursor_interval \<Rightarrow> bool" where
  "CursorInterval_contains key ci =
     (if (case curr_exclusive ci of Some (After lower) \<Rightarrow> key \<le> lower | Some End \<Rightarrow> True | None \<Rightarrow> False) then False
      else if (case end_inclusive ci of Some (After upper) \<Rightarrow> upper < key | _ \<Rightarrow> False) then False
      else True)"

record index_stream =
  is_index :: stable_index_name
  is_table :: table_name
  is_order :: order
  is_fields :: indexed_fields
  is_cursors :: cursor_interval
  is_intermediate :: "cursor_position list option"
  is_page :: "developer_row list"
  is_unfetched :: interval
  is_initial :: interval
  is_page_count :: nat
  is_returned :: nat
  is_rows_read :: nat
  is_returned_bytes :: nat
  is_max_rows :: "nat option"
  is_max_bytes :: "nat option"
  is_soft_max_rows :: nat
  is_soft_max_bytes :: nat

definition soft_data_limit :: "nat \<Rightarrow> nat" where
  "soft_data_limit hard_limit = hard_limit * 3 div 4"

definition trimmed_interval :: "interval \<Rightarrow> order \<Rightarrow> cursor_interval \<Rightarrow> interval" where
  "trimmed_interval interval ord ci =
     (let unfetched = (case curr_exclusive ci of Some cursor \<Rightarrow> snd (Interval_split interval cursor ord) | None \<Rightarrow> interval)
      in case end_inclusive ci of Some cursor \<Rightarrow> fst (Interval_split unfetched cursor ord) | None \<Rightarrow> unfetched)"

definition unwrap_or :: "'a \<Rightarrow> 'a option \<Rightarrow> 'a" where
  "unwrap_or d x = (case x of None \<Rightarrow> d | Some v \<Rightarrow> v)"

definition IndexStream_new ::
    "('t, 'e) query_env \<Rightarrow> stable_index_name \<Rightarrow> table_name \<Rightarrow> interval \<Rightarrow> order \<Rightarrow> indexed_fields \<Rightarrow> cursor_interval
     \<Rightarrow> nat option \<Rightarrow> nat option \<Rightarrow> bool \<Rightarrow> index_stream" where
  "IndexStream_new env name table interval ord fs ci max_rows max_bytes compute_split =
     (let unfetched = trimmed_interval interval ord ci
      in \<lparr>is_index = name, is_table = table, is_order = ord, is_fields = fs, is_cursors = ci,
          is_intermediate = (if compute_split then Some [] else None),
          is_page = [], is_unfetched = unfetched, is_initial = unfetched,
          is_page_count = 0, is_returned = 0, is_rows_read = 0, is_returned_bytes = 0,
          is_max_rows = max_rows, is_max_bytes = max_bytes,
          is_soft_max_rows = soft_data_limit (min (unwrap_or (qe_max_rows env) max_rows) (qe_max_rows env)),
          is_soft_max_bytes = soft_data_limit (min (unwrap_or (qe_max_bytes env) max_bytes) (qe_max_bytes env))\<rparr>)"

definition UserFacing_record_read_document ::
    "('t, 'e) query_env \<Rightarrow> developer_document \<Rightarrow> table_name \<Rightarrow> transaction_read_set \<Rightarrow> ('e query_error + unit) \<times> transaction_read_set" where
  "UserFacing_record_read_document env d table reads =
     (if \<not> qe_component_known env then (Inl ComponentNotFound, reads)
      else
        (case record_read_document (qe_config env) table (DeveloperDocument_size d) (qe_is_virtual env table) reads of
           (Inl e, reads) \<Rightarrow> (Inl (ReadLimit e), reads)
         | (Inr _, reads) \<Rightarrow> (Inr (), reads)))"

definition final_cursor :: "cursor_interval \<Rightarrow> cursor_interval" where
  "final_cursor ci = ci\<lparr>curr_exclusive := Some (unwrap_or End (end_inclusive ci))\<rparr>"

text \<open>Recording the interval that the results so far depend on.\<close>

definition record_used ::
    "('t, 'e) query_env \<Rightarrow> tablet_index_name \<Rightarrow> index_stream \<Rightarrow> interval \<Rightarrow> transaction_read_set
     \<Rightarrow> (('e query_error + unit) \<times> transaction_read_set) option" where
  "record_used env index s used reads =
     map_option (\<lambda>(res, reads). (case res of Inl e \<Rightarrow> Inl (ReadLimit e) | Inr _ \<Rightarrow> Inr (), reads))
       (record_indexed_directly (qe_config env) index (is_fields s) used reads)"

definition yield_row ::
    "('t, 'e) query_env \<Rightarrow> tablet_index_name \<Rightarrow> developer_row \<Rightarrow> index_stream \<Rightarrow> transaction_read_set
     \<Rightarrow> (('e query_error + stream_next) \<times> index_stream \<times> transaction_read_set) option" where
  "yield_row env index row s reads =
     (let (key, v, timestamp) = row;
          s = s\<lparr>is_intermediate := map_option (\<lambda>cs. cs @ [After key]) (is_intermediate s),
                is_cursors := (is_cursors s)\<lparr>curr_exclusive := Some (After key)\<rparr>,
                is_returned := is_returned s + 1\<rparr>
      in case record_used env index s (fst (Interval_split (is_initial s) (After key) (is_order s))) reads of
           None \<Rightarrow> None
         | Some (Inl e, reads) \<Rightarrow> Some (Inl e, s, reads)
         | Some (Inr _, reads) \<Rightarrow>
             (case UserFacing_record_read_document env v (is_table s) reads of
                (Inl e, reads) \<Rightarrow> Some (Inl e, s, reads)
              | (Inr _, reads) \<Rightarrow>
                  if \<not> qe_component_known env then Some (Inl ComponentNotFound, s, reads)
                  else Some (Inr (Ready (Some (v, timestamp))),
                             s\<lparr>is_returned_bytes := is_returned_bytes s + DeveloperDocument_size v\<rparr>, reads)))"

definition enforce_limits :: "index_stream \<Rightarrow> bool" where
  "enforce_limits s = (end_inclusive (is_cursors s) = None)"

definition request_rows_of :: "nat option \<Rightarrow> nat" where
  "request_rows_of prefetch_hint = max 1 (min (unwrap_or DEFAULT_QUERY_PREFETCH prefetch_hint) MAX_QUERY_FETCH)"

definition start_next ::
    "('t, 'e) query_env \<Rightarrow> index_stream \<Rightarrow> transaction_read_set \<Rightarrow> nat option
     \<Rightarrow> (('e query_error + stream_next) \<times> index_stream \<times> transaction_read_set) option" where
  "start_next env s reads prefetch_hint =
     (if enforce_limits s \<and> (case is_max_bytes s of None \<Rightarrow> False | Some m \<Rightarrow> m \<le> is_returned_bytes s)
      then Some (Inl (ScannedTooMuchData (is_returned_bytes s)), s, reads)
      else
        (case tablet_index_name_of (is_index s) of
           None \<Rightarrow> Some (Inr (Ready None), s\<lparr>is_cursors := final_cursor (is_cursors s)\<rparr>, reads)
         | Some index \<Rightarrow>
             (case is_page s of
                row # rest \<Rightarrow> yield_row env index row (s\<lparr>is_page := rest\<rparr>) reads
              | [] \<Rightarrow>
                  if curr_exclusive (is_cursors s) = Some End then
                    map_option (\<lambda>(res, reads). (case res of Inl e \<Rightarrow> Inl e | Inr _ \<Rightarrow> Inr (Ready None), s, reads))
                      (record_used env index s (is_initial s) reads)
                  else if Interval_is_empty (is_unfetched s) then
                    map_option (\<lambda>(res, reads).
                        case res of
                          Inl e \<Rightarrow> (Inl e, s, reads)
                        | Inr _ \<Rightarrow> (Inr (Ready None), s\<lparr>is_cursors := final_cursor (is_cursors s)\<rparr>, reads))
                      (record_used env index s (is_initial s) reads)
                  else
                    (let request = (\<lambda>n. \<lparr>sr_index_name = is_index s, sr_interval = is_unfetched s, sr_order = is_order s, sr_max_rows = n\<rparr>)
                     in case (if enforce_limits s then is_max_rows s else None) of
                          Some m \<Rightarrow>
                            if m \<le> is_rows_read s then Some (Inl (ScannedTooManyDocuments (is_rows_read s)), s, reads)
                            else Some (Inr (WaitingOn (request (min (request_rows_of prefetch_hint) (m - is_rows_read s)))), s, reads)
                        | None \<Rightarrow> Some (Inr (WaitingOn (request (request_rows_of prefetch_hint))), s, reads)))))"

definition process_fetch :: "developer_row list \<Rightarrow> cursor_position \<Rightarrow> index_stream \<Rightarrow> 'e query_error + index_stream" where
  "process_fetch fetched fetch_cursor s =
     (let unfetched = snd (Interval_split (is_unfetched s) fetch_cursor (is_order s))
      in if is_unfetched s = unfetched then Inl FetchNoProgress
         else Inr (s\<lparr>is_unfetched := unfetched, is_page_count := is_page_count s + 1,
                     is_rows_read := is_rows_read s + length fetched, is_page := is_page s @ fetched\<rparr>))"

definition IndexStream_split_cursor :: "index_stream \<Rightarrow> cursor_position option" where
  "IndexStream_split_cursor s =
     (case is_intermediate s of
        None \<Rightarrow> None
      | Some cs \<Rightarrow> if length cs \<le> 2 then None else Some (cs ! (length cs div 2)))"

definition IndexStream_approaching_limit :: "index_stream \<Rightarrow> bool" where
  "IndexStream_approaching_limit s =
     (is_soft_max_rows s < is_rows_read s \<or> is_soft_max_bytes s < is_returned_bytes s)"

section \<open>The stream of a search\<close>

record search_results =
  sri_table_number :: table_number
  sri_candidates :: "(candidate_revision \<times> bytes) list"
  sri_next_index :: nat
  sri_bytes_read :: nat

record search_stream =
  ss_index :: stable_index_name
  ss_query :: search
  ss_results :: "search_results option"
  ss_cursors :: cursor_interval

definition SearchResults_approaching_limit :: "('t, 'e) query_env \<Rightarrow> search_results \<Rightarrow> bool" where
  "SearchResults_approaching_limit env it =
     (soft_data_limit MAX_CANDIDATE_REVISIONS < sri_next_index it \<or> soft_data_limit (qe_max_bytes env) < sri_bytes_read it)"

definition SearchResults_next ::
    "('t, 'e) query_env \<Rightarrow> search_results \<Rightarrow> 't query_transaction
     \<Rightarrow> ('e query_error + (developer_document \<times> bytes \<times> write_timestamp) option) \<times> search_results \<times> 't query_transaction" where
  "SearchResults_next env it tx =
     (if sri_next_index it = MAX_CANDIDATE_REVISIONS then (Inl SearchScannedTooManyDocuments, it, tx)
      else if length (sri_candidates it) \<le> sri_next_index it then (Inr None, it, tx)
      else
        (let ((candidate_id, candidate_ts), index_key) = sri_candidates it ! sri_next_index it;
             it = it\<lparr>sri_next_index := sri_next_index it + 1\<rparr>
         in case qe_get_with_ts env \<lparr>id_table = sri_table_number it, internal_id = candidate_id\<rparr> tx of
              (Inl e, tx) \<Rightarrow> (Inl (FetchFailed e), it, tx)
            | (Inr None, tx) \<Rightarrow> (Inl SearchResultMissing, it, tx)
            | (Inr (Some (d, ts)), tx) \<Rightarrow>
                (let it = it\<lparr>sri_bytes_read := sri_bytes_read it + DeveloperDocument_size d\<rparr>
                 in if ts \<noteq> candidate_ts then (Inl SearchWrongTimestamp, it, tx)
                    else (Inr (Some (d, index_key, ts)), it, tx))))"

definition SearchStream_search ::
    "('t, 'e) query_env \<Rightarrow> search_stream \<Rightarrow> 't query_transaction \<Rightarrow> ('e query_error + search_results) \<times> 't query_transaction" where
  "SearchStream_search env s tx =
     (case qe_search env (ss_index s) (ss_query s) tx of
        (Inl e, tx) \<Rightarrow> (Inl (FetchFailed e), tx)
      | (Inr revisions, tx) \<Rightarrow>
          (case tablet_index_name_of (ss_index s) of
             None \<Rightarrow> (Inl SearchIndexMissing, tx)
           | Some index \<Rightarrow>
               (case qe_table_number env (fst index) of
                  Inl e \<Rightarrow> (Inl (FetchFailed e), tx)
                | Inr n \<Rightarrow>
                    (Inr \<lparr>sri_table_number = n,
                          sri_candidates = filter (\<lambda>(_, index_key). CursorInterval_contains index_key (ss_cursors s)) revisions,
                          sri_next_index = 0, sri_bytes_read = 0\<rparr>, tx))))"

definition SearchStream_next ::
    "('t, 'e) query_env \<Rightarrow> search_stream \<Rightarrow> 't query_transaction
     \<Rightarrow> ('e query_error + stream_next) \<times> search_stream \<times> 't query_transaction" where
  "SearchStream_next env s tx =
     (case (case ss_results s of Some it \<Rightarrow> (Inr it, tx) | None \<Rightarrow> SearchStream_search env s tx) of
        (Inl e, tx) \<Rightarrow> (Inl e, s, tx)
      | (Inr it, tx) \<Rightarrow>
          (case SearchResults_next env it tx of
             (Inl e, it, tx) \<Rightarrow> (Inl e, s\<lparr>ss_results := Some it\<rparr>, tx)
           | (Inr None, it, tx) \<Rightarrow>
               (Inr (Ready None), s\<lparr>ss_results := Some it, ss_cursors := final_cursor (ss_cursors s)\<rparr>, tx)
           | (Inr (Some (d, key, ts)), it, tx) \<Rightarrow>
               (Inr (Ready (Some (d, ts))),
                s\<lparr>ss_results := Some it, ss_cursors := (ss_cursors s)\<lparr>curr_exclusive := Some (After key)\<rparr>\<rparr>, tx)))"

section \<open>Operators\<close>

datatype query_node = RangeNode index_stream | SearchNode search_stream | FilterNode query_node expression | LimitNode query_node nat nat

text \<open>A loop of \<open>Filter::next\<close> is the next call of the same node.\<close>

partial_function (option) node_next ::
    "('t, 'e) query_env \<Rightarrow> query_node \<Rightarrow> 't query_transaction \<Rightarrow> nat option
     \<Rightarrow> (('e query_error + stream_next) \<times> query_node \<times> 't query_transaction) option" where
  "node_next env node tx prefetch_hint =
     (case node of
        RangeNode s \<Rightarrow>
          map_option (\<lambda>(res, s, reads). (res, RangeNode s, tx\<lparr>qt_reads := reads\<rparr>)) (start_next env s (qt_reads tx) prefetch_hint)
      | SearchNode s \<Rightarrow> Some (case SearchStream_next env s tx of (res, s, tx) \<Rightarrow> (res, SearchNode s, tx))
      | FilterNode child e \<Rightarrow>
          Option.bind (node_next env child tx (Some FILTER_QUERY_PREFETCH)) (\<lambda>(res, child, tx).
            case res of
              Inl err \<Rightarrow> Some (Inl err, FilterNode child e, tx)
            | Inr out \<Rightarrow>
                (case out of
                   WaitingOn request \<Rightarrow> Some (Inr (WaitingOn request), FilterNode child e, tx)
                 | Ready result \<Rightarrow>
                     (case result of
                        None \<Rightarrow> Some (Inr (Ready None), FilterNode child e, tx)
                      | Some row \<Rightarrow>
                          (case bind_result (eval (qe_floats env) (doc_value (fst row)) e) into_boolean of
                             Inl err \<Rightarrow> if err = ArithmeticPanic then None else Some (Inl (FilterFailed err), FilterNode child e, tx)
                           | Inr b \<Rightarrow>
                               if b then Some (Inr (Ready (Some row)), FilterNode child e, tx)
                               else node_next env (FilterNode child e) tx prefetch_hint))))
      | LimitNode child limit emitted \<Rightarrow>
          if limit \<le> emitted then Some (Inr (Ready None), node, tx)
          else
            Option.bind (node_next env child tx (Some (min (unwrap_or DEFAULT_QUERY_PREFETCH prefetch_hint) (limit - emitted)))) (\<lambda>(res, child, tx).
              Some (res, LimitNode child limit (case res of Inr (Ready (Some _)) \<Rightarrow> emitted + 1 | _ \<Rightarrow> emitted), tx)))"

primrec node_feed :: "query_node \<Rightarrow> developer_row list \<Rightarrow> cursor_position \<Rightarrow> 'e query_error + query_node" where
  "node_feed (RangeNode s) fetched cursor = bind_result (process_fetch fetched cursor s) (\<lambda>s. Inr (RangeNode s))"
| "node_feed (SearchNode s) fetched cursor = Inl CannotFeedSearch"
| "node_feed (FilterNode child e) fetched cursor = bind_result (node_feed child fetched cursor) (\<lambda>child. Inr (FilterNode child e))"
| "node_feed (LimitNode child limit emitted) fetched cursor =
     bind_result (node_feed child fetched cursor) (\<lambda>child. Inr (LimitNode child limit emitted))"

primrec node_cursor :: "query_node \<Rightarrow> cursor_position option" where
  "node_cursor (RangeNode s) = curr_exclusive (is_cursors s)"
| "node_cursor (SearchNode s) = curr_exclusive (ss_cursors s)"
| "node_cursor (FilterNode child e) = node_cursor child"
| "node_cursor (LimitNode child limit emitted) = node_cursor child"

primrec node_split_cursor :: "query_node \<Rightarrow> cursor_position option" where
  "node_split_cursor (RangeNode s) = IndexStream_split_cursor s"
| "node_split_cursor (SearchNode s) = None"
| "node_split_cursor (FilterNode child e) = node_split_cursor child"
| "node_split_cursor (LimitNode child limit emitted) = node_split_cursor child"

primrec node_approaching_limit :: "('t, 'e) query_env \<Rightarrow> query_node \<Rightarrow> bool" where
  "node_approaching_limit env (RangeNode s) = IndexStream_approaching_limit s"
| "node_approaching_limit env (SearchNode s) = (case ss_results s of None \<Rightarrow> False | Some it \<Rightarrow> SearchResults_approaching_limit env it)"
| "node_approaching_limit env (FilterNode child e) = node_approaching_limit env child"
| "node_approaching_limit env (LimitNode child limit emitted) = node_approaching_limit env child"

primrec node_tablet_index :: "query_node \<Rightarrow> tablet_index_name option" where
  "node_tablet_index (RangeNode s) = tablet_index_name_of (is_index s)"
| "node_tablet_index (SearchNode s) = tablet_index_name_of (ss_index s)"
| "node_tablet_index (FilterNode child e) = node_tablet_index child"
| "node_tablet_index (LimitNode child limit emitted) = node_tablet_index child"

section \<open>Queries and their cursors\<close>

record cursor =
  cur_position :: cursor_position
  cur_fingerprint :: bytes

datatype pagination_options =
    NoPagination
  | ManualPagination "cursor option" "nat option" "nat option"
  | ReactivePagination "cursor option" "cursor option" "nat option" "nat option"

record developer_query =
  dq_root :: query_node
  dq_fingerprint :: "bytes option"
  dq_end_cursor :: "cursor option"

fun start_cursor_of :: "pagination_options \<Rightarrow> cursor option" where
  "start_cursor_of NoPagination = None"
| "start_cursor_of (ManualPagination c _ _) = c"
| "start_cursor_of (ReactivePagination c _ _ _) = c"

fun end_cursor_of :: "pagination_options \<Rightarrow> cursor option" where
  "end_cursor_of (ReactivePagination _ c _ _) = c"
| "end_cursor_of _ = None"

fun read_limits_of :: "pagination_options \<Rightarrow> nat option \<times> nat option" where
  "read_limits_of NoPagination = (None, None)"
| "read_limits_of (ManualPagination _ rows bytes) = (rows, bytes)"
| "read_limits_of (ReactivePagination _ _ rows bytes) = (rows, bytes)"

fun computes_split_cursor :: "pagination_options \<Rightarrow> bool" where
  "computes_split_cursor (ReactivePagination _ _ _ _) = True"
| "computes_split_cursor _ = False"

definition check_cursor :: "bytes option \<Rightarrow> cursor option \<Rightarrow> 'e query_error + cursor option" where
  "check_cursor fingerprint c =
     (case c of
        None \<Rightarrow> Inr None
      | Some c \<Rightarrow> if Some (cur_fingerprint c) = fingerprint then Inr (Some c) else Inl InvalidCursor)"

definition source_index_name :: "query_source \<Rightarrow> 'e query_error + table_name index_name" where
  "source_index_name q =
     (case q of
        FullTableScan scan \<Rightarrow>
          if scan_table_name scan = ascii ''_index'' then Inl QueriedIndexTable
          else Inr (IndexName_by_creation_time (scan_table_name scan))
      | IndexRangeSource r \<Rightarrow> Inr (range_index_name r)
      | SearchSource s \<Rightarrow> Inr (search_index_name s))"

fun apply_operators :: "query_operator list \<Rightarrow> query_node \<Rightarrow> query_node" where
  "apply_operators [] node = node"
| "apply_operators (Filter e # ops) node = apply_operators ops (FilterNode node e)"
| "apply_operators (Limit n # ops) node = apply_operators ops (LimitNode node n 0)"

text \<open>\<open>stable_name\<close> and \<open>fields_of\<close> are the lookups of the index model.\<close>

definition DeveloperQuery_new_bounded ::
    "('t, 'e) query_env \<Rightarrow> (table_name index_name \<Rightarrow> 'e + stable_index_name)
     \<Rightarrow> (stable_index_name \<Rightarrow> table_name index_name \<Rightarrow> 'e + indexed_fields) \<Rightarrow> query \<Rightarrow> pagination_options
     \<Rightarrow> 'e query_error + developer_query" where
  "DeveloperQuery_new_bounded env stable_name fields_of q options =
     bind_result (source_index_name (query_source q)) (\<lambda>index_name.
     case stable_name index_name of
       Inl e \<Rightarrow> Inl (FetchFailed e)
     | Inr found \<Rightarrow>
         (case (case query_source q of
                  FullTableScan _ \<Rightarrow> Inr [[CREATION_TIME_FIELD]]
                | IndexRangeSource _ \<Rightarrow> fields_of found index_name
                | SearchSource _ \<Rightarrow> Inr []) of
            Inl e \<Rightarrow> Inl (FetchFailed e)
          | Inr fs \<Rightarrow>
              (case (if options = NoPagination then Inr None
                     else case qe_fingerprint env q fs of Inl e \<Rightarrow> Inl e | Inr fp \<Rightarrow> Inr (Some fp)) of
                 Inl e \<Rightarrow> Inl (FetchFailed e)
               | Inr fingerprint \<Rightarrow>
                   bind_result (check_cursor fingerprint (end_cursor_of options)) (\<lambda>end_cursor.
                   bind_result (check_cursor fingerprint (start_cursor_of options)) (\<lambda>start_cursor.
                   let ci = \<lparr>curr_exclusive = map_option cur_position start_cursor, end_inclusive = map_option cur_position end_cursor\<rparr>;
                       stream = (\<lambda>interval ord. IndexStream_new env found (fst index_name) interval ord fs ci
                                   (fst (read_limits_of options)) (snd (read_limits_of options)) (computes_split_cursor options))
                   in bind_result
                        (case query_source q of
                           FullTableScan scan \<Rightarrow> Inr (RangeNode (stream Interval_all (scan_order scan)))
                         | IndexRangeSource r \<Rightarrow>
                             (case IndexRange_compile (range_exprs r) fs of
                                Inl e \<Rightarrow> Inl (RangeInvalid e)
                              | Inr interval \<Rightarrow> Inr (RangeNode (stream interval (range_order r))))
                         | SearchSource s \<Rightarrow> Inr (SearchNode \<lparr>ss_index = found, ss_query = s, ss_results = None, ss_cursors = ci\<rparr>)) (\<lambda>node.
                      Inr \<lparr>dq_root = apply_operators (operators q) node, dq_fingerprint = fingerprint, dq_end_cursor = end_cursor\<rparr>))))))"

definition DeveloperQuery_cursor :: "developer_query \<Rightarrow> cursor option" where
  "DeveloperQuery_cursor q =
     (case node_cursor (dq_root q) of
        None \<Rightarrow> None
      | Some p \<Rightarrow> map_option (\<lambda>fp. \<lparr>cur_position = p, cur_fingerprint = fp\<rparr>) (dq_fingerprint q))"

definition DeveloperQuery_split_cursor :: "developer_query \<Rightarrow> cursor option" where
  "DeveloperQuery_split_cursor q =
     (case node_split_cursor (dq_root q) of
        None \<Rightarrow> None
      | Some p \<Rightarrow> map_option (\<lambda>fp. \<lparr>cur_position = p, cur_fingerprint = fp\<rparr>) (dq_fingerprint q))"

definition DeveloperQuery_approaching_limit :: "('t, 'e) query_env \<Rightarrow> developer_query \<Rightarrow> bool" where
  "DeveloperQuery_approaching_limit env q = node_approaching_limit env (dq_root q)"

section \<open>Batches\<close>

type_synonym query_batch = "(batch_key \<times> developer_query \<times> nat option) list"

type_synonym 'e query_results = "(batch_key, ('e query_error + stream_result) \<times> developer_query) btree"

text \<open>Queries are changed in place; a result is kept with its query.\<close>

fun next_all ::
    "('t, 'e) query_env \<Rightarrow> query_batch \<Rightarrow> 't query_transaction \<Rightarrow> 'e query_results \<Rightarrow> (batch_key, stream_request) btree \<Rightarrow> query_batch
     \<Rightarrow> ('t query_transaction \<times> 'e query_results \<times> (batch_key, stream_request) btree \<times> query_batch) option" where
  "next_all env [] tx results requests to_feed = Some (tx, results, requests, to_feed)"
| "next_all env ((key, q, hint) # batch) tx results requests to_feed =
     (case node_next env (dq_root q) tx hint of
        None \<Rightarrow> None
      | Some (res, root, tx) \<Rightarrow>
          (let q = q\<lparr>dq_root := root\<rparr>
           in case res of
                Inl e \<Rightarrow> next_all env batch tx (bt_insert key (Inl e, q) results) requests to_feed
              | Inr (WaitingOn request) \<Rightarrow>
                  next_all env batch tx results (bt_insert key request requests) (to_feed @ [(key, q, hint)])
              | Inr (Ready result) \<Rightarrow> next_all env batch tx (bt_insert key (Inr result, q) results) requests to_feed))"

fun feed_all ::
    "query_batch \<Rightarrow> (batch_key, 'e + developer_row list \<times> cursor_position) btree \<Rightarrow> 'e query_results \<Rightarrow> query_batch
     \<Rightarrow> 'e query_results \<times> query_batch" where
  "feed_all [] responses results next_batch = (results, next_batch)"
| "feed_all ((key, q, hint) # batch) responses results next_batch =
     (case (case bt_get responses key of
              None \<Rightarrow> Inl ResponseMissing
            | Some (Inl e) \<Rightarrow> Inl (FetchFailed e)
            | Some (Inr (fetched, cursor)) \<Rightarrow> node_feed (dq_root q) fetched cursor) of
        Inl e \<Rightarrow> feed_all batch responses (bt_insert key (Inl e, q) results) next_batch
      | Inr root \<Rightarrow> feed_all batch responses results (next_batch @ [(key, q\<lparr>dq_root := root\<rparr>, hint)]))"

partial_function (option) query_batch_loop ::
    "('t, 'e) query_env \<Rightarrow> query_batch \<Rightarrow> 't query_transaction \<Rightarrow> 'e query_results \<Rightarrow> ('e query_results \<times> 't query_transaction) option" where
  "query_batch_loop env batch tx results =
     (if batch = [] then Some (results, tx)
      else
        (case next_all env batch tx results [] [] of
           None \<Rightarrow> None
         | Some (tx, results, requests, to_feed) \<Rightarrow>
             (case (if requests = [] then Some ([], tx) else qe_fetch env requests tx) of
                None \<Rightarrow> None
              | Some (responses, tx) \<Rightarrow>
                  (case feed_all to_feed responses results [] of
                     (results, batch) \<Rightarrow> query_batch_loop env batch tx results))))"

definition query_batch_next ::
    "('t, 'e) query_env \<Rightarrow> query_batch \<Rightarrow> 't query_transaction \<Rightarrow> ('e query_results \<times> 't query_transaction) option" where
  "query_batch_next env batch tx =
     (case query_batch_loop env batch tx [] of
        None \<Rightarrow> None
      | Some (results, tx) \<Rightarrow> if length results = length batch then Some (results, tx) else None)"

definition DeveloperQuery_next ::
    "('t, 'e) query_env \<Rightarrow> developer_query \<Rightarrow> 't query_transaction \<Rightarrow> nat option
     \<Rightarrow> (('e query_error + stream_result) \<times> developer_query \<times> 't query_transaction) option" where
  "DeveloperQuery_next env q tx prefetch_hint =
     (case query_batch_next env [(0, q, prefetch_hint)] tx of
        None \<Rightarrow> None
      | Some (results, tx) \<Rightarrow>
          Some (case bt_get results 0 of None \<Rightarrow> (Inl ResponseMissing, q, tx) | Some (res, q) \<Rightarrow> (res, q, tx)))"

definition to_resolved :: "tablet_id \<Rightarrow> developer_document \<Rightarrow> resolved_document" where
  "to_resolved t d = \<lparr>doc_tablet_id = t, document = d\<rparr>"

definition resolve_result ::
    "tablet_index_name option \<Rightarrow> 'e query_error + stream_result \<Rightarrow> 'e query_error + (resolved_document \<times> write_timestamp) option" where
  "resolve_result index res =
     (case res of
        Inl e \<Rightarrow> Inl e
      | Inr None \<Rightarrow> Inr None
      | Inr (Some (d, ts)) \<Rightarrow> (case index of None \<Rightarrow> Inl TabletMissing | Some n \<Rightarrow> Inr (Some (to_resolved (fst n) d, ts))))"

definition resolved_query_batch_next ::
    "('t, 'e) query_env \<Rightarrow> query_batch \<Rightarrow> 't query_transaction
     \<Rightarrow> ((batch_key, ('e query_error + (resolved_document \<times> write_timestamp) option) \<times> developer_query) btree \<times> 't query_transaction) option" where
  "resolved_query_batch_next env batch tx =
     map_option (\<lambda>(results, tx).
         (map (\<lambda>(key, res, q). (key, resolve_result (node_tablet_index (dq_root q)) res, q)) results, tx))
       (query_batch_next env batch tx)"

definition ResolvedQuery_next ::
    "('t, 'e) query_env \<Rightarrow> developer_query \<Rightarrow> 't query_transaction \<Rightarrow> nat option
     \<Rightarrow> (('e query_error + (resolved_document \<times> write_timestamp) option) \<times> developer_query \<times> 't query_transaction) option" where
  "ResolvedQuery_next env q tx prefetch_hint =
     (case resolved_query_batch_next env [(0, q, prefetch_hint)] tx of
        None \<Rightarrow> None
      | Some (results, tx) \<Rightarrow>
          Some (case bt_get results 0 of None \<Rightarrow> (Inl ResponseMissing, q, tx) | Some (res, q) \<Rightarrow> (res, q, tx)))"

definition expect_at_most_one ::
    "('t, 'e) query_env \<Rightarrow> developer_query \<Rightarrow> 't query_transaction
     \<Rightarrow> (('e query_error + resolved_document option) \<times> developer_query \<times> 't query_transaction) option" where
  "expect_at_most_one env q tx =
     (case ResolvedQuery_next env q tx (Some 2) of
        None \<Rightarrow> None
      | Some (Inl e, q, tx) \<Rightarrow> Some (Inl e, q, tx)
      | Some (Inr None, q, tx) \<Rightarrow> Some (Inr None, q, tx)
      | Some (Inr (Some (v, _)), q, tx) \<Rightarrow>
          (case ResolvedQuery_next env q tx (Some 1) of
             None \<Rightarrow> None
           | Some (Inl e, q, tx) \<Rightarrow> Some (Inl e, q, tx)
           | Some (Inr None, q, tx) \<Rightarrow> Some (Inr (Some v), q, tx)
           | Some (Inr (Some _), q, tx) \<Rightarrow> Some (Inl MoreThanOneResult, q, tx)))"

section \<open>Fetching from the transaction's indexes\<close>

datatype ('e, 'v) fetch_error = RangeFailed "'e transaction_index_error" | TabletUnknown | VirtualFailed 'v

fun start_index_range ::
    "table_mapping \<Rightarrow> stream_request \<Rightarrow> ('e, 'v) fetch_error + (developer_row list \<times> cursor_position) + range_request" where
  "start_index_range mapping req =
     (if Interval_is_empty (sr_interval req) then Inr (Inl ([], End))
      else
        (let request = (\<lambda>name. \<lparr>req_index_name = name, req_interval = sr_interval req, req_order = sr_order req,
                                 req_max_size = min (sr_max_rows req) MAX_PAGE_SIZE\<rparr>)
         in case sr_index_name req of
              Physical name \<Rightarrow> if tablet_name mapping (fst name) = None then Inl TabletUnknown else Inr (Inr (request name))
            | Virtual _ name \<Rightarrow> Inr (Inr (request name))
            | MissingIndexName _ \<Rightarrow> Inr (Inl ([], End))))"

fun start_index_ranges ::
    "table_mapping \<Rightarrow> (batch_key, stream_request) btree
     \<Rightarrow> (batch_key, ('e, 'v) fetch_error + developer_row list \<times> cursor_position) btree \<Rightarrow> (batch_key, range_request) btree
     \<Rightarrow> (batch_key, ('e, 'v) fetch_error + developer_row list \<times> cursor_position) btree \<times> (batch_key, range_request) btree" where
  "start_index_ranges mapping [] results to_fetch = (results, to_fetch)"
| "start_index_ranges mapping ((key, req) # reqs) results to_fetch =
     (case start_index_range mapping req of
        Inl e \<Rightarrow> start_index_ranges mapping reqs (bt_insert key (Inl e) results) to_fetch
      | Inr (Inl done) \<Rightarrow> start_index_ranges mapping reqs (bt_insert key (Inr done) results) to_fetch
      | Inr (Inr request) \<Rightarrow> start_index_ranges mapping reqs results (bt_insert key request to_fetch))"

fun virtual_rows :: "(resolved_document \<Rightarrow> 'v + developer_document) \<Rightarrow> transaction_row list \<Rightarrow> 'v + developer_row list" where
  "virtual_rows to_virtual [] = Inr []"
| "virtual_rows to_virtual ((key, d, ts) # rows) =
     bind_result (to_virtual d) (\<lambda>v. bind_result (virtual_rows to_virtual rows) (\<lambda>vs. Inr ((key, v, ts) # vs)))"

definition developer_page ::
    "(resolved_document \<Rightarrow> 'v + developer_document) \<Rightarrow> bool \<Rightarrow> 'e transaction_index_error + transaction_page
     \<Rightarrow> ('e, 'v) fetch_error + developer_row list \<times> cursor_position" where
  "developer_page to_virtual is_virtual res =
     (case res of
        Inl e \<Rightarrow> Inl (RangeFailed e)
      | Inr (rows, cursor) \<Rightarrow>
          if is_virtual
          then (case virtual_rows to_virtual rows of Inl e \<Rightarrow> Inl (VirtualFailed e) | Inr vs \<Rightarrow> Inr (vs, cursor))
          else Inr (map (\<lambda>(key, d, ts). (key, document d, ts)) rows, cursor))"

fun is_virtual_name :: "stable_index_name \<Rightarrow> bool" where
  "is_virtual_name (Virtual _ _) = True"
| "is_virtual_name _ = False"

definition index_range_batch ::
    "read_config \<Rightarrow> nat \<Rightarrow> ('e fetch_result list \<Rightarrow> 'e fetch_result list option) \<Rightarrow> table_mapping
     \<Rightarrow> (resolved_document \<Rightarrow> 'v + developer_document) \<Rightarrow> (batch_key, stream_request) btree \<Rightarrow> ('x, 'e) transaction_index query_transaction
     \<Rightarrow> ((batch_key, ('e, 'v) fetch_error + developer_row list \<times> cursor_position) btree \<times> ('x, 'e) transaction_index query_transaction) option" where
  "index_range_batch cfg limit schedule mapping to_virtual reqs tx =
     (let (results, to_fetch) = start_index_ranges mapping reqs [] []
      in case TransactionIndex_range_batch cfg limit schedule to_fetch (qt_reads tx) (qt_source tx) of
           None \<Rightarrow> None
         | Some (fetched, reads, ti) \<Rightarrow>
             (let results = fold (\<lambda>(key, res). bt_insert key
                    (developer_page to_virtual (case bt_get reqs key of None \<Rightarrow> False | Some req \<Rightarrow> is_virtual_name (sr_index_name req)) res))
                  fetched results
              in if length results = length reqs then Some (results, tx\<lparr>qt_reads := reads, qt_source := ti\<rparr>) else None))"

end
