(* ===== verification/Query_Results.thy ===== *)
theory Query_Results
  imports Query_Stream "HOL-Library.Sublist"
begin

text \<open>
  What a query returns: the rows of its index interval in order, filtered and cut off as its operators
  say, whatever pages the fetches give; and that the results so far depend only on documents that the
  transaction's read set covers.
\<close>

declare split_paired_All [simp del] split_paired_Ex [simp del]

section \<open>The rest of an interval after a page\<close>

lemma Order_apply_filter: "Order_apply ord (filter P xs) = filter P (Order_apply ord xs)"
  by (cases ord) (simp_all add: rev_filter)

lemma sorted_beyond:
  assumes sorted: "sorted_wrt (comes_before ord) (map fst xs)" and n: "0 < n" "n \<le> length xs"
  shows "filter (\<lambda>e. comes_before ord (fst (last (take n xs))) (fst e)) xs = drop n xs"
proof -
  let ?k = "fst (last (take n xs))"
  have last: "last (take n xs) \<in> set (take n xs)" using n by (intro last_in_set) auto
  have xs: "map fst xs = map fst (take n xs) @ map fst (drop n xs)" by (simp flip: map_append)
  have late: "comes_before ord ?k (fst e)" if "e \<in> set (drop n xs)" for e
    using sorted that last unfolding xs sorted_wrt_append by auto
  have early: "\<not> comes_before ord ?k (fst e)" if e: "e \<in> set (take n xs)" for e
  proof -
    obtain i where i: "i < n" "e = xs ! i" using e n by (auto simp: in_set_conv_nth)
    have k: "?k = fst (xs ! (n - 1))" by (subst last_conv_nth) (use n in \<open>auto simp: min_absorb2\<close>)
    consider "i = n - 1" | "i < n - 1" using i(1) by linarith
    then show ?thesis
    proof cases
      case 2
      with sorted n have "comes_before ord (fst (xs ! i)) (fst (xs ! (n - 1)))" by (auto simp: sorted_wrt_iff_nth_less)
      then show ?thesis unfolding k i(2) by (cases ord) auto
    qed (use k i(2) in \<open>cases ord; simp\<close>)
  qed
  have "filter (\<lambda>e. comes_before ord ?k (fst e)) (take n xs @ drop n xs) = drop n xs"
    unfolding filter_append using early late by (simp add: filter_empty_conv filter_id_conv)
  then show ?thesis by simp
qed

lemma rest_points:
  assumes "Interval_contains iv k" and "prefix k p \<Longrightarrow> p = k"
  shows "Interval_contains (snd (Interval_split iv (After k) ord)) p \<longleftrightarrow> Interval_contains iv p \<and> comes_before ord k p"
proof (cases ord)
  case Asc
  have "Interval_contains (snd (Interval_split_after iv k Asc)) p \<longleftrightarrow> Interval_contains iv p \<and> k < p \<and> \<not> prefix k p"
    using arg_cong [OF split_after_Asc_rest [OF assms(1)], of "\<lambda>S. p \<in> S"] by simp
  with assms(2) Asc show ?thesis by (auto simp: Interval_split_def)
next
  case Desc
  have "Interval_contains (snd (Interval_split_after iv k Desc)) p \<longleftrightarrow> Interval_contains iv p \<and> p < k"
    using arg_cong [OF split_after_Desc(2) [OF assms(1)], of "\<lambda>S. p \<in> S"] by simp
  with Desc show ?thesis by (auto simp: Interval_split_def)
qed

lemma select_rest:
  assumes m: "prefix_free m" and k: "Interval_contains iv k" "k \<in> fst ` set m"
  shows "select (snd (Interval_split iv (After k) ord)) m = filter (\<lambda>e. comes_before ord k (fst e)) (select iv m)"
proof -
  have "Interval_contains (snd (Interval_split iv (After k) ord)) (fst e) \<longleftrightarrow> Interval_contains iv (fst e) \<and> comes_before ord k (fst e)"
    if "e \<in> set m" for e
  proof (rule rest_points [OF k(1)])
    show "fst e = k" if "prefix k (fst e)" using m [unfolded prefix_free_def, rule_format, OF k(2) imageI [OF \<open>e \<in> set m\<close>] that] ..
  qed
  then show ?thesis unfolding select_def filter_filter by (intro filter_cong) auto
qed

text \<open>The rows of an index in an interval, in the order of the query.\<close>

definition interval_rows :: "order \<Rightarrow> interval \<Rightarrow> (bytes, 'v) btree \<Rightarrow> (bytes, 'v) btree" where
  "interval_rows ord iv m = Order_apply ord (select iv m)"

lemma rows_beyond:
  assumes "prefix_free m" and "Interval_contains iv k" and "k \<in> fst ` set m"
  shows "interval_rows ord (snd (Interval_split iv (After k) ord)) m
    = filter (\<lambda>e. comes_before ord k (fst e)) (interval_rows ord iv m)"
  unfolding interval_rows_def select_rest [OF assms] Order_apply_filter ..

lemma mem_interval_rows [simp]: "e \<in> set (interval_rows ord iv m) \<longleftrightarrow> e \<in> set m \<and> Interval_contains iv (fst e)"
  by (cases ord) (simp_all add: interval_rows_def)

lemma interval_rows_sorted: "bt_ok m \<Longrightarrow> sorted_wrt (comes_before ord) (map fst (interval_rows ord iv m))"
  unfolding interval_rows_def by (rule Order_apply_sorted) (rule select_ok)

lemma select_nothing: "select Interval_empty m = []"
  by (rule select_empty) (simp add: Interval_is_empty_def Interval_empty_def BinaryKey_min_def)

text \<open>Splitting off a page leaves the rows after it.\<close>

lemma rows_after_page:
  assumes m: "bt_ok m" "prefix_free m" and n: "0 < n"
  shows "interval_rows ord (snd (Interval_split iv (snd (page n (interval_rows ord iv m))) ord)) m = drop n (interval_rows ord iv m)"
proof (cases "n \<le> length (interval_rows ord iv m)")
  case False
  then show ?thesis by (cases ord) (simp_all add: page_def Interval_split_def interval_rows_def select_nothing)
next
  case True
  let ?rows = "interval_rows ord iv m"
  let ?k = "fst (last (take n ?rows))"
  have "last (take n ?rows) \<in> set (take n ?rows)" using n True by (intro last_in_set) auto
  then have "last (take n ?rows) \<in> set ?rows" by (rule in_set_takeD)
  then have k: "Interval_contains iv ?k" "?k \<in> fst ` set m" by simp_all
  have "interval_rows ord (snd (Interval_split iv (After ?k) ord)) m = filter (\<lambda>e. comes_before ord ?k (fst e)) ?rows"
    by (rule rows_beyond [OF m(2) k])
  also have "\<dots> = drop n ?rows" by (rule sorted_beyond [OF interval_rows_sorted [OF m(1)] n True])
  finally show ?thesis using True by (simp add: page_def)
qed

lemma rows_after_row:
  assumes m: "bt_ok m" "prefix_free m" and rows: "interval_rows ord iv m = xs @ e # ys"
  shows "interval_rows ord (snd (Interval_split iv (After (fst e)) ord)) m = ys"
  using rows_after_page [OF m, of "Suc (length xs)" ord iv] rows by (simp add: page_def)

section \<open>Streams over the rows of their index\<close>

text \<open>The rows of every index by its name, as a developer sees their documents.\<close>

type_synonym index_view = "(bytes, write_timestamp \<times> developer_document) btree"

definition row_of :: "bytes \<times> write_timestamp \<times> developer_document \<Rightarrow> developer_row" where
  "row_of e = (let (k, w, d) = e in (k, d, w))"

lemma row_of_simp [simp]: "row_of (k, w, d) = (k, d, w)"
  by (simp add: row_of_def)

lemma fst_row_of [simp]: "fst (row_of e) = fst e"
  by (simp add: row_of_def case_prod_beta)

text \<open>The rows still to come, and those of the whole stream.\<close>

definition rows_to_come :: "index_view \<Rightarrow> index_stream \<Rightarrow> developer_row list" where
  "rows_to_come m s = is_page s @ map row_of (interval_rows (is_order s) (is_unfetched s) m)"

definition all_rows :: "index_view \<Rightarrow> index_stream \<Rightarrow> developer_row list" where
  "all_rows m s = map row_of (interval_rows (is_order s) (is_initial s) m)"

definition view_ok :: "index_view \<Rightarrow> bool" where
  "view_ok m = (bt_ok m \<and> prefix_free m)"

definition stream_ok :: "(tablet_index_name \<Rightarrow> indexed_fields) \<Rightarrow> (stable_index_name \<Rightarrow> index_view) \<Rightarrow> index_stream \<Rightarrow> bool" where
  "stream_ok fs contents s =
     (view_ok (contents (is_index s))
      \<and> (case tablet_index_name_of (is_index s) of
           None \<Rightarrow> rows_to_come (contents (is_index s)) s = []
         | Some index \<Rightarrow> is_fields s = fs index)
      \<and> suffix (rows_to_come (contents (is_index s)) s) (all_rows (contents (is_index s)) s)
      \<and> (curr_exclusive (is_cursors s) = Some End \<longrightarrow> rows_to_come (contents (is_index s)) s = []))"

text \<open>Reads are well formed, keep what they cover, and cover the documents with keys in an interval.\<close>

definition reads_wf :: "(tablet_index_name \<Rightarrow> indexed_fields) \<Rightarrow> transaction_read_set \<Rightarrow> bool" where
  "reads_wf fs reads = (read_set_ok (tx_read_set reads) \<and> fields_agree fs (tx_read_set reads))"

definition reads_extend :: "transaction_read_set \<Rightarrow> transaction_read_set \<Rightarrow> bool" where
  "reads_extend reads reads' = (\<forall>senv doc. covers senv (tx_read_set reads) doc \<longrightarrow> covers senv (tx_read_set reads') doc)"

definition reads_interval :: "(tablet_index_name \<Rightarrow> indexed_fields) \<Rightarrow> tablet_index_name \<Rightarrow> interval \<Rightarrow> transaction_read_set \<Rightarrow> bool" where
  "reads_interval fs index iv reads = (\<forall>senv doc. interval_reads fs (index, [iv]) doc \<longrightarrow> covers senv (tx_read_set reads) doc)"

lemma reads_extend_refl [simp]: "reads_extend reads reads"
  by (simp add: reads_extend_def)

lemma reads_extend_trans: "reads_extend a b \<Longrightarrow> reads_extend b c \<Longrightarrow> reads_extend a c"
  by (simp add: reads_extend_def)

lemma reads_interval_mono: "reads_interval fs index iv reads \<Longrightarrow> reads_extend reads reads' \<Longrightarrow> reads_interval fs index iv reads'"
  by (simp add: reads_interval_def reads_extend_def)

lemma record_used_correct:
  assumes wf: "reads_wf fs reads" and s: "is_fields s = fs index"
  obtains res reads' where "record_used env index s used reads = Some (res, reads')" and "reads_wf fs reads'"
    and "reads_extend reads reads'" and "reads_interval fs index used reads'"
proof -
  from wf have ok: "read_set_ok (tx_read_set reads)" "fields_agree fs (tx_read_set reads)" by (simp_all add: reads_wf_def)
  from record_indexed_inner_correct [OF ok, of "qe_config env" index "[used]"]
  obtain n rs' where rs: "record_indexed_inner (qe_config env) index (fs index) [used] (tx_read_set reads) = Some (n, rs')"
    "read_set_ok rs'" "fields_agree fs rs'"
    "\<And>senv doc. covers senv rs' doc \<longleftrightarrow> covers senv (tx_read_set reads) doc \<or> interval_reads fs (index, [used]) doc"
    by metis
  obtain before after where n: "n = (before, after)" by (rule prod.exhaust)
  show ?thesis
    by (rule that)
      (use rs n s in \<open>auto simp: record_used_def record_indexed_directly_def Let_def reads_wf_def reads_extend_def reads_interval_def\<close>)
qed

lemma record_document_reads:
  "tx_read_set (snd (UserFacing_record_read_document env d table reads)) = tx_read_set reads"
  by (simp add: UserFacing_record_read_document_def record_read_document_def Let_def split: sum.splits prod.splits)

text \<open>The next row, one page at a time.\<close>

lemma yield_row_correct:
  assumes ok: "stream_ok fs contents s" and page: "is_page s = (k, d, w) # rest" and index: "tablet_index_name_of (is_index s) = Some index"
    and wf: "reads_wf fs reads"
  obtains res s' reads' where "yield_row env index (k, d, w) (s\<lparr>is_page := rest\<rparr>) reads = Some (res, s', reads')"
    and "stream_ok fs contents s'" and "reads_wf fs reads'" and "reads_extend reads reads'"
    and "is_page s' = rest" and "is_index s' = is_index s" and "is_order s' = is_order s"
    and "is_initial s' = is_initial s" and "is_unfetched s' = is_unfetched s"
    and "\<forall>out. res = Inr out \<longrightarrow> out = Ready (Some (d, w))
      \<and> reads_interval fs index (fst (Interval_split (is_initial s) (After k) (is_order s))) reads'"
proof -
  let ?t = "s\<lparr>is_page := rest, is_intermediate := map_option (\<lambda>cs. cs @ [After k]) (is_intermediate s),
      is_cursors := (is_cursors s)\<lparr>curr_exclusive := Some (After k)\<rparr>, is_returned := Suc (is_returned s)\<rparr>"
  let ?used = "fst (Interval_split (is_initial s) (After k) (is_order s))"
  let ?doc = "UserFacing_record_read_document env d (is_table ?t)"
  have fields: "is_fields ?t = fs index" using ok index by (simp add: stream_ok_def)
  have t: "stream_ok fs contents ?t" "\<And>n. stream_ok fs contents (?t\<lparr>is_returned_bytes := n\<rparr>)"
    using ok page index by (auto simp: stream_ok_def rows_to_come_def all_rows_def suffix_ConsD)
  obtain res1 reads1 where used: "record_used env index ?t ?used reads = Some (res1, reads1)" "reads_wf fs reads1"
    "reads_extend reads reads1" "reads_interval fs index ?used reads1"
    by (rule record_used_correct [where s = ?t and env = env and used = ?used, OF wf fields])
  have same: "tx_read_set (snd (?doc reads1)) = tx_read_set reads1" by (rule record_document_reads)
  have reads2: "reads_wf fs (snd (?doc reads1))" "reads_extend reads (snd (?doc reads1))" "reads_interval fs index ?used (snd (?doc reads1))"
    using used(2-4) same by (simp_all add: reads_wf_def reads_extend_def reads_interval_def)
  have run: "yield_row env index (k, d, w) (s\<lparr>is_page := rest\<rparr>) reads = (case res1 of
      Inl e \<Rightarrow> Some (Inl e, ?t, reads1)
    | Inr _ \<Rightarrow> (case ?doc reads1 of
         (Inl e, reads) \<Rightarrow> Some (Inl e, ?t, reads)
       | (Inr _, reads) \<Rightarrow> if \<not> qe_component_known env then Some (Inl ComponentNotFound, ?t, reads)
           else Some (Inr (Ready (Some (d, w))), ?t\<lparr>is_returned_bytes := is_returned_bytes ?t + DeveloperDocument_size d\<rparr>, reads)))"
    using used(1) by (simp add: yield_row_def Let_def split: sum.split prod.split)
  show ?thesis
  proof (cases res1)
    case (Inl e)
    with run show ?thesis by (intro that [of "Inl e" ?t reads1]) (use t used(2,3) in simp_all)
  next
    case (Inr u)
    obtain res2 reads2' where doc: "?doc reads1 = (res2, reads2')" by (rule prod.exhaust)
    show ?thesis
    proof (cases res2)
      case (Inl e)
      with run Inr doc show ?thesis by (intro that [of "Inl e" ?t reads2']) (use t reads2 in simp_all)
    next
      case out: (Inr v)
      show ?thesis
      proof (cases "qe_component_known env")
        case True
        with run Inr doc out show ?thesis
          by (intro that [of "Inr (Ready (Some (d, w)))" "?t\<lparr>is_returned_bytes := is_returned_bytes ?t + DeveloperDocument_size d\<rparr>" reads2'])
            (use t reads2 in simp_all)
      next
        case False
        with run Inr doc out show ?thesis by (intro that [of "Inl ComponentNotFound" ?t reads2']) (use t reads2 in simp_all)
      qed
    qed
  qed
qed

definition stream_answer ::
    "(tablet_index_name \<Rightarrow> indexed_fields) \<Rightarrow> index_view \<Rightarrow> index_stream \<Rightarrow> 'e query_error + stream_next \<Rightarrow> index_stream \<Rightarrow> transaction_read_set \<Rightarrow> bool" where
  "stream_answer fs m s res s' reads =
     (case res of
        Inl _ \<Rightarrow> True
      | Inr (WaitingOn req) \<Rightarrow> s' = s \<and> is_page s = [] \<and> tablet_index_name_of (is_index s) \<noteq> None \<and> \<not> Interval_is_empty (is_unfetched s)
          \<and> sr_index_name req = is_index s \<and> sr_interval req = is_unfetched s \<and> sr_order req = is_order s \<and> 0 < sr_max_rows req
      | Inr (Ready None) \<Rightarrow> rows_to_come m s = [] \<and> rows_to_come m s' = []
          \<and> (\<forall>index. tablet_index_name_of (is_index s) = Some index \<longrightarrow> reads_interval fs index (is_initial s) reads)
      | Inr (Ready (Some x)) \<Rightarrow> (\<exists>k. is_page s = (k, x) # is_page s'
          \<and> (\<forall>index. tablet_index_name_of (is_index s) = Some index \<longrightarrow>
               reads_interval fs index (fst (Interval_split (is_initial s) (After k) (is_order s))) reads)))"

definition same_stream :: "index_stream \<Rightarrow> index_stream \<Rightarrow> bool" where
  "same_stream s s' = (is_index s' = is_index s \<and> is_order s' = is_order s \<and> is_initial s' = is_initial s \<and> is_unfetched s' = is_unfetched s)"

lemma same_stream_refl [simp]: "same_stream s s" "same_stream s (s\<lparr>is_cursors := ci\<rparr>)"
  by (simp_all add: same_stream_def)

lemma rows_to_come_cursors [simp]: "rows_to_come m (s\<lparr>is_cursors := ci\<rparr>) = rows_to_come m s"
  by (simp add: rows_to_come_def)

lemma rows_to_come_empty: "is_page s = [] \<Longrightarrow> Interval_is_empty (is_unfetched s) \<Longrightarrow> rows_to_come m s = []"
  by (cases "is_order s") (simp_all add: rows_to_come_def interval_rows_def select_empty)

lemma final_stream_ok:
  "stream_ok fs contents s \<Longrightarrow> rows_to_come (contents (is_index s)) s = [] \<Longrightarrow> stream_ok fs contents (s\<lparr>is_cursors := ci\<rparr>)"
  by (simp add: stream_ok_def all_rows_def split: option.splits)

lemma start_next_cases:
  assumes ok: "stream_ok fs contents s"
  obtains (limit) "start_next env s reads hint = Some (Inl (ScannedTooMuchData (is_returned_bytes s)), s, reads)"
    | (missing) "tablet_index_name_of (is_index s) = None"
        "start_next env s reads hint = Some (Inr (Ready None), s\<lparr>is_cursors := final_cursor (is_cursors s)\<rparr>, reads)"
    | (row) index k d w rest where "tablet_index_name_of (is_index s) = Some index" "is_page s = (k, d, w) # rest"
        "start_next env s reads hint = yield_row env index (k, d, w) (s\<lparr>is_page := rest\<rparr>) reads"
    | (finished) index ci where "tablet_index_name_of (is_index s) = Some index" "rows_to_come (contents (is_index s)) s = []"
        "start_next env s reads hint = map_option (\<lambda>(res, reads). case res of Inl e \<Rightarrow> (Inl e, s, reads)
           | Inr _ \<Rightarrow> (Inr (Ready None), s\<lparr>is_cursors := ci\<rparr>, reads)) (record_used env index s (is_initial s) reads)"
    | (rows) n where "start_next env s reads hint = Some (Inl (ScannedTooManyDocuments n), s, reads)"
    | (fetch) n where "start_next env s reads hint = Some (Inr (WaitingOn
          \<lparr>sr_index_name = is_index s, sr_interval = is_unfetched s, sr_order = is_order s, sr_max_rows = n\<rparr>), s, reads)"
        "0 < n" "is_page s = []" "tablet_index_name_of (is_index s) \<noteq> None" "\<not> Interval_is_empty (is_unfetched s)"
proof (cases "enforce_limits s \<and> (case is_max_bytes s of None \<Rightarrow> False | Some m \<Rightarrow> m \<le> is_returned_bytes s)")
  case True
  then show ?thesis by (intro limit) (simp add: start_next_def)
next
  case bytes: False
  show ?thesis
  proof (cases "tablet_index_name_of (is_index s)")
    case None
    with bytes show ?thesis by (intro missing) (auto simp: start_next_def)
  next
    case index: (Some index)
    show ?thesis
    proof (cases "is_page s")
      case (Cons x rest)
      obtain k d w where "x = (k, d, w)" by (metis surj_pair)
      with bytes index Cons show ?thesis by (intro row) (auto simp: start_next_def)
    next
      case page: Nil
      show ?thesis
      proof (cases "curr_exclusive (is_cursors s) = Some End")
        case True
        with ok have "rows_to_come (contents (is_index s)) s = []" by (simp add: stream_ok_def)
        moreover have "start_next env s reads hint = map_option (\<lambda>(res, reads). case res of Inl e \<Rightarrow> (Inl e, s, reads)
            | Inr _ \<Rightarrow> (Inr (Ready None), s\<lparr>is_cursors := is_cursors s\<rparr>, reads)) (record_used env index s (is_initial s) reads)"
          using bytes index page True by (auto simp: start_next_def intro!: option.map_cong0 split: sum.splits)
        ultimately show ?thesis using index by (intro finished)
      next
        case curr: False
        show ?thesis
        proof (cases "Interval_is_empty (is_unfetched s)")
          case True
          then have "rows_to_come (contents (is_index s)) s = []" by (rule rows_to_come_empty [OF page])
          with bytes index page curr True show ?thesis by (intro finished) (auto simp: start_next_def)
        next
          case more: False
          note run = bytes index page curr more
          show ?thesis
          proof (cases "if enforce_limits s then is_max_rows s else None")
            case None
            with run show ?thesis by (intro fetch [of "request_rows_of hint"]) (auto simp: start_next_def request_rows_of_def)
          next
            case (Some m)
            with run show ?thesis
              by (cases "m \<le> is_rows_read s")
                (intro rows, auto simp: start_next_def,
                 intro fetch [of "min (request_rows_of hint) (m - is_rows_read s)"], auto simp: start_next_def request_rows_of_def)
          qed
        qed
      qed
    qed
  qed
qed

lemma start_next_correct:
  assumes ok: "stream_ok fs contents s" and wf: "reads_wf fs reads"
  obtains res s' reads' where "start_next env s reads hint = Some (res, s', reads')"
    and "stream_ok fs contents s'" and "reads_wf fs reads'" and "reads_extend reads reads'" and "same_stream s s'"
    and "length (is_page s') \<le> length (is_page s)" and "stream_answer fs (contents (is_index s)) s res s' reads'"
proof -
  let ?m = "contents (is_index s)"
  from ok show ?thesis
  proof (cases rule: start_next_cases [where env = env and reads = reads and hint = hint])
    case limit
    then show ?thesis by (rule that) (use ok wf in \<open>simp_all add: stream_answer_def\<close>)
  next
    case missing
    have "rows_to_come ?m s = []" using ok missing(1) by (simp add: stream_ok_def)
    with missing show ?thesis
      by (intro that [OF missing(2)]) (use ok wf in \<open>simp_all add: stream_answer_def final_stream_ok\<close>)
  next
    case (row index k d w rest)
    obtain res s' reads' where y: "yield_row env index (k, d, w) (s\<lparr>is_page := rest\<rparr>) reads = Some (res, s', reads')"
      "stream_ok fs contents s'" "reads_wf fs reads'" "reads_extend reads reads'"
      "is_page s' = rest" "is_index s' = is_index s" "is_order s' = is_order s"
      "is_initial s' = is_initial s" "is_unfetched s' = is_unfetched s"
      "\<forall>out. res = Inr out \<longrightarrow> out = Ready (Some (d, w))
        \<and> reads_interval fs index (fst (Interval_split (is_initial s) (After k) (is_order s))) reads'"
      by (rule yield_row_correct [OF ok row(2,1) wf, where env = env])
    from row(3) y(1) have "start_next env s reads hint = Some (res, s', reads')" by simp
    then show ?thesis
      by (rule that) (use y row in \<open>auto simp: same_stream_def stream_answer_def split: sum.splits\<close>)
  next
    case (finished index ci)
    have "is_fields s = fs index" using ok finished(1) by (simp add: stream_ok_def)
    then obtain res reads' where used: "record_used env index s (is_initial s) reads = Some (res, reads')"
      "reads_wf fs reads'" "reads_extend reads reads'" "reads_interval fs index (is_initial s) reads'"
      by (rule record_used_correct [where s = s and env = env and used = "is_initial s", OF wf])
    show ?thesis
    proof (cases res)
      case (Inl e)
      with finished used(1) show ?thesis
        by (intro that [of "Inl e" s reads']) (use ok used in \<open>simp_all add: stream_answer_def\<close>)
    next
      case (Inr u)
      with finished used(1) show ?thesis
        by (intro that [of "Inr (Ready None)" "s\<lparr>is_cursors := ci\<rparr>" reads'])
          (use ok used in \<open>simp_all add: stream_answer_def final_stream_ok\<close>)
    qed
  next
    case (rows n)
    then show ?thesis by (rule that) (use ok wf in \<open>simp_all add: stream_answer_def\<close>)
  next
    case (fetch n)
    show ?thesis by (rule that [OF fetch(1)]) (use ok wf fetch(2-) in \<open>simp_all add: stream_answer_def\<close>)
  qed
qed

section \<open>What a fetch brings\<close>

definition fetches_left :: "index_view \<Rightarrow> index_stream \<Rightarrow> nat" where
  "fetches_left m s =
     (if Interval_is_empty (is_unfetched s) then 0 else Suc (length (interval_rows (is_order s) (is_unfetched s) m)))"

lemma empty_interval [simp]: "Interval_is_empty Interval_empty"
  by (simp add: Interval_is_empty_def Interval_empty_def BinaryKey_min_def)

lemma process_fetch_correct:
  assumes ok: "stream_ok fs contents s" and more: "\<not> Interval_is_empty (is_unfetched s)" and c: "0 < c"
    and rows: "rows = interval_rows (is_order s) (is_unfetched s) (contents (is_index s))"
  obtains s' where "process_fetch (map row_of (fst (page c rows))) (snd (page c rows)) s = Inr s'" and "stream_ok fs contents s'"
    and "rows_to_come (contents (is_index s)) s' = rows_to_come (contents (is_index s)) s"
    and "is_index s' = is_index s" and "is_order s' = is_order s" and "is_initial s' = is_initial s"
    and "fetches_left (contents (is_index s)) s' < fetches_left (contents (is_index s)) s"
proof -
  let ?m = "contents (is_index s)" and ?ord = "is_order s" and ?iv = "is_unfetched s"
  let ?rest = "snd (Interval_split ?iv (snd (page c rows)) ?ord)"
  let ?s = "s\<lparr>is_unfetched := ?rest, is_page_count := is_page_count s + 1,
      is_rows_read := is_rows_read s + length (map row_of (fst (page c rows))), is_page := is_page s @ map row_of (fst (page c rows))\<rparr>"
  have m: "bt_ok ?m" "prefix_free ?m" using ok by (simp_all add: stream_ok_def view_ok_def)
  have rest: "interval_rows ?ord ?rest ?m = drop c rows" unfolding rows by (rule rows_after_page [OF m c])
  have "rows = take c rows @ drop c rows" by simp
  then have "map row_of rows = map row_of (take c rows) @ map row_of (drop c rows)" by (metis map_append)
  then have come: "rows_to_come ?m ?s = rows_to_come ?m s"
    by (simp add: rows_to_come_def rest) (simp add: page_def flip: rows)
  have "stream_ok fs contents ?s" using ok come by (simp add: stream_ok_def all_rows_def split: option.splits)
  moreover have progress: "?iv \<noteq> ?rest \<and> fetches_left ?m ?s < fetches_left ?m s"
  proof (cases "c \<le> length rows")
    case False
    then have "?rest = Interval_empty" by (simp add: page_def Interval_split_def)
    with more show ?thesis by (auto simp: fetches_left_def)
  next
    case True
    then have "length (interval_rows ?ord ?rest ?m) < length (interval_rows ?ord ?iv ?m)"
      unfolding rest using c by (simp flip: rows)
    then show ?thesis using more by (auto simp: fetches_left_def)
  qed
  ultimately show ?thesis using come by (intro that [of ?s]) (simp_all add: process_fetch_def Let_def)
qed

section \<open>Results depend on what was read\<close>

lemma sorted_partition:
  "sorted_wrt (comes_before ord) (map fst xs) \<Longrightarrow>
     filter (\<lambda>e. \<not> comes_before ord k (fst e)) xs @ filter (\<lambda>e. comes_before ord k (fst e)) xs = xs"
proof (induction xs)
  case (Cons x xs)
  show ?case
  proof (cases "comes_before ord k (fst x)")
    case True
    then have "comes_before ord k (fst e)" if "e \<in> set xs" for e using Cons.prems that by (auto intro: comes_before_trans)
    then have "filter (\<lambda>e. \<not> comes_before ord k (fst e)) xs = []" "filter (\<lambda>e. comes_before ord k (fst e)) xs = xs"
      by (simp_all add: filter_empty_conv filter_id_conv)
    with True show ?thesis by simp
  qed (use Cons in simp)
qed simp

lemma sorted_wrt_filter_fst: "sorted_wrt P (map fst xs) \<Longrightarrow> sorted_wrt P (map fst (filter Q xs))"
  by (induction xs) auto

lemma read_points:
  assumes "Interval_contains iv k" and "Interval_contains iv p" and "\<not> comes_before ord k p"
  shows "Interval_contains (fst (Interval_split iv (After k) ord)) p"
proof (cases ord)
  case Asc
  have "p \<in> Interval_points iv \<inter> Interval_points (fst (Interval_split_after iv k Asc)) \<longleftrightarrow> p \<in> Interval_points iv \<and> (p \<le> k \<or> prefix k p)"
    unfolding split_after_Asc_read by simp
  with Asc assms show ?thesis by (auto simp: Interval_split_def)
next
  case Desc
  have "p \<in> Interval_points (fst (Interval_split_after iv k Desc)) \<longleftrightarrow> p \<in> Interval_points iv \<and> k \<le> p"
    unfolding split_after_Desc(1) [OF assms(1)] by simp
  with Desc assms show ?thesis by (auto simp: Interval_split_def)
qed

text \<open>Two indexes with the same rows in the part that was read.\<close>

lemma rows_read_same:
  assumes m: "bt_ok m" "bt_ok m'" and rows: "interval_rows ord iv m = xs @ e # ys"
    and same: "\<And>x. Interval_contains (fst (Interval_split iv (After (fst e)) ord)) (fst x) \<Longrightarrow> x \<in> set m \<longleftrightarrow> x \<in> set m'"
  shows "prefix (xs @ [e]) (interval_rows ord iv m')"
proof -
  let ?k = "fst e" and ?R = "interval_rows ord iv m" and ?R' = "interval_rows ord iv m'"
  let ?A' = "filter (\<lambda>x. \<not> comes_before ord ?k (fst x)) ?R'"
  have R: "sorted_wrt (comes_before ord) (map fst ?R)" and R': "sorted_wrt (comes_before ord) (map fst ?R')"
    by (rule interval_rows_sorted [OF m(1)], rule interval_rows_sorted [OF m(2)])
  have "e \<in> set ?R" using rows by simp
  then have k: "Interval_contains iv ?k" by simp
  have xs: "sorted_wrt (comes_before ord) (map fst (xs @ [e]))" using R unfolding rows by (auto simp: sorted_wrt_append)
  have early: "x \<in> set ?R \<and> \<not> comes_before ord ?k (fst x) \<longleftrightarrow> x \<in> set (xs @ [e])" for x
    using R unfolding rows by (cases ord) (auto simp: sorted_wrt_append dest: order.asym)
  have "x \<in> set ?A' \<longleftrightarrow> x \<in> set (xs @ [e])" for x
    using early [of x] same [OF read_points [OF k], of x] by auto
  then have "?A' = xs @ [e]" by (intro sorted_rows_unique [OF sorted_wrt_filter_fst [OF R'] xs]) blast
  with sorted_partition [OF R', of ?k] show ?thesis by (metis prefixI)
qed

text \<open>An index of stored documents as a developer sees it.\<close>

definition developer_view :: "(bytes, write_timestamp \<times> resolved_document) btree \<Rightarrow> index_view" where
  "developer_view m = map (\<lambda>(k, w, d). (k, w, document d)) m"

lemma map_fst_developer_view [simp]: "map fst (developer_view m) = map fst m"
  by (simp add: developer_view_def case_prod_beta)

lemma mem_developer_view: "(k, w, d) \<in> set (developer_view m) \<longleftrightarrow> (\<exists>e. (k, w, e) \<in> set m \<and> d = document e)"
  by (auto simp: developer_view_def image_iff Bex_def split_paired_Ex)

lemma developer_view_ok: "bt_ok m \<Longrightarrow> prefix_free m \<Longrightarrow> view_ok (developer_view m)"
  unfolding view_ok_def prefix_free_def by (simp flip: set_map)

lemma packed_index_key: "PackedDocument_index_key (PackedDocument_pack d) fs = ResolvedDocument_index_key d fs"
  by (simp add: PackedDocument_index_key_def ResolvedDocument_index_key_def PackedDocument_pack_def
      ResolvedDocument_id_def packed_get_path_def [abs_def] indexed_values_def)

text \<open>Two stores that differ only in documents which the reads do not cover.\<close>

definition differ_unread :: "search_env \<Rightarrow> transaction_read_set \<Rightarrow> 'w versions \<Rightarrow> 'w versions \<Rightarrow> bool" where
  "differ_unread senv reads T T' =
     (\<forall>i v. T i \<noteq> T' i \<longrightarrow> T i = Some v \<or> T' i = Some v \<longrightarrow> \<not> covers senv (tx_read_set reads) (PackedDocument_pack (snd v)))"

lemma covered_same:
  assumes T: "store_ok T" "store_ok T'" and m: "index_contents T t f m" "index_contents T' t f m'" and index: "fst index = t" "fs index = f"
    and reads: "reads_interval fs index iv reads" and differ: "differ_unread senv reads T T'"
    and inside: "Interval_contains iv (fst x)"
  shows "x \<in> set (developer_view m) \<longleftrightarrow> x \<in> set (developer_view m')"
proof -
  have read: "covers senv (tx_read_set reads) (PackedDocument_pack (snd v))"
    if v: "tablet_id i = t" "S i = Some v" "row_key f (snd v) = fst x" "store_ok S" for i v S
  proof -
    have "packed_id (PackedDocument_pack (snd v)) = i" using stored_id [OF v(4,2)] by (simp add: PackedDocument_pack_def)
    then show ?thesis using reads inside v(1,3) index
      by (auto simp: reads_interval_def interval_reads_def packed_index_key row_key_def)
  qed
  have same: "T i = T' i" if "tablet_id i = t" "T i = Some v \<or> T' i = Some v" "row_key f (snd v) = fst x" for i v
    using differ that read [of i T v] read [of i T' v] T unfolding differ_unread_def by blast
  have "(k, v) \<in> set m \<longleftrightarrow> (k, v) \<in> set m'" if "k = fst x" for k v
  proof -
    have "T i = Some v \<longleftrightarrow> T' i = Some v" if "tablet_id i = t" "k = row_key f (snd v)" for i
      using same [OF that(1), of v] that(2) \<open>k = fst x\<close> by metis
    then show ?thesis unfolding contents_mem [OF m(1)] contents_mem [OF m(2)] by blast
  qed
  then show ?thesis by (cases x) (simp add: mem_developer_view)
qed

text \<open>C7. Whatever a stream has returned is determined by the documents that its transaction has read: the rows
  so far are the first rows, and at the end all rows, that the same interval has in any other store that
  differs only in documents which the read set does not cover.\<close>

theorem stream_results_determined:
  assumes T: "store_ok T" "store_ok T'" and m: "index_contents T t f m" "index_contents T' t f m'"
    and s: "stream_ok fs contents s" "contents (is_index s) = developer_view m"
    and index: "tablet_index_name_of (is_index s) = Some (t, n)" "fs (t, n) = f" and wf: "reads_wf fs reads"
    and run: "start_next env s reads hint = Some (Inr (Ready r), s', reads')"
    and differ: "differ_unread senv reads' T T'"
  shows "\<exists>returned. all_rows (developer_view m) s = returned @ rows_to_come (developer_view m) s'
    \<and> prefix returned (all_rows (developer_view m') s)
    \<and> (case r of Some x \<Rightarrow> returned \<noteq> [] \<and> snd (last returned) = x | None \<Rightarrow> returned = all_rows (developer_view m') s)"
proof -
  let ?m = "developer_view m" and ?m' = "developer_view m'" and ?ord = "is_order s" and ?iv = "is_initial s"
  have sorted: "bt_ok ?m" "bt_ok ?m'" using m by (simp_all add: index_contents_def)
  obtain res s1 reads1 where next1: "start_next env s reads hint = Some (res, s1, reads1)" "same_stream s s1"
    "stream_answer fs (contents (is_index s)) s res s1 reads1"
    by (rule start_next_correct [OF s(1) wf, where env = env and hint = hint])
  have eq: "res = Inr (Ready r)" "s1 = s'" "reads1 = reads'" using run next1(1) by simp_all
  note answer = next1(3) [unfolded eq s(2)]
  obtain pre where pre: "all_rows ?m s = pre @ rows_to_come ?m s" using s by (auto simp: stream_ok_def suffix_def)
  show ?thesis
  proof (cases r)
    case None
    with answer index have none: "rows_to_come ?m s = []" "rows_to_come ?m s' = []" "reads_interval fs (t, n) ?iv reads'"
      by (simp_all add: stream_answer_def)
    have "x \<in> set (interval_rows ?ord ?iv ?m) \<longleftrightarrow> x \<in> set (interval_rows ?ord ?iv ?m')" for x
      using covered_same [where f = f and index = "(t, n)" and x = x, OF T m _ index(2) none(3) differ] by auto
    then have "interval_rows ?ord ?iv ?m = interval_rows ?ord ?iv ?m'"
      by (intro sorted_rows_unique [OF interval_rows_sorted [OF sorted(1)] interval_rows_sorted [OF sorted(2)]]) blast
    then show ?thesis using None pre none by (intro exI [of _ pre]) (simp add: all_rows_def)
  next
    case (Some x)
    with answer index obtain k where k: "is_page s = (k, x) # is_page s'"
      and read: "reads_interval fs (t, n) (fst (Interval_split ?iv (After k) ?ord)) reads'"
      by (auto simp: stream_answer_def)
    have come: "rows_to_come ?m s = (k, x) # rows_to_come ?m s'"
      using k next1(2) by (simp add: rows_to_come_def same_stream_def eq)
    with pre obtain xs e ys where rows: "interval_rows ?ord ?iv ?m = xs @ e # ys" "map row_of xs = pre" "row_of e = (k, x)"
      "map row_of ys = rows_to_come ?m s'" unfolding all_rows_def by (auto simp: map_eq_append_conv map_eq_Cons_conv)
    have key: "fst e = k" using rows(3) by (metis fst_row_of fst_conv)
    have "prefix (xs @ [e]) (interval_rows ?ord ?iv ?m')"
      using covered_same [where f = f and index = "(t, n)", OF T m _ index(2) read differ] key
      by (intro rows_read_same [OF sorted rows(1)]) simp
    then have "prefix (map row_of (xs @ [e])) (all_rows ?m' s)" unfolding all_rows_def by (rule map_mono_prefix)
    then show ?thesis using Some pre come rows(2,3) by (intro exI [of _ "pre @ [(k, x)]"]) simp
  qed
qed

section \<open>Operators over a stream\<close>

definition passes :: "float_ops \<Rightarrow> expression \<Rightarrow> developer_document \<times> write_timestamp \<Rightarrow> bool" where
  "passes fl e row = (bind_result (eval fl (doc_value (fst row)) e) into_boolean = Inr True)"

text \<open>The stream below the operators, and the results that a query has yet to give.\<close>

primrec node_leaf :: "query_node \<Rightarrow> index_stream option" where
  "node_leaf (RangeNode s) = Some s"
| "node_leaf (SearchNode s) = None"
| "node_leaf (FilterNode child e) = node_leaf child"
| "node_leaf (LimitNode child limit emitted) = node_leaf child"

primrec upcoming ::
    "float_ops \<Rightarrow> (stable_index_name \<Rightarrow> index_view) \<Rightarrow> query_node \<Rightarrow> (developer_document \<times> write_timestamp) list" where
  "upcoming fl contents (RangeNode s) = map snd (rows_to_come (contents (is_index s)) s)"
| "upcoming fl contents (SearchNode s) = []"
| "upcoming fl contents (FilterNode child e) = filter (passes fl e) (upcoming fl contents child)"
| "upcoming fl contents (LimitNode child limit emitted) = take (limit - emitted) (upcoming fl contents child)"

text \<open>A query over an index range whose filters do not panic.\<close>

primrec node_ok ::
    "float_ops \<Rightarrow> (tablet_index_name \<Rightarrow> indexed_fields) \<Rightarrow> (stable_index_name \<Rightarrow> index_view) \<Rightarrow> query_node \<Rightarrow> bool" where
  "node_ok fl fs contents (RangeNode s) = stream_ok fs contents s"
| "node_ok fl fs contents (SearchNode s) = False"
| "node_ok fl fs contents (FilterNode child e) =
     (node_ok fl fs contents child \<and> (\<forall>d :: developer_document. bind_result (eval fl (doc_value d) e) into_boolean \<noteq> Inl ArithmeticPanic))"
| "node_ok fl fs contents (LimitNode child limit emitted) = node_ok fl fs contents child"

primrec node_fetches_left :: "(stable_index_name \<Rightarrow> index_view) \<Rightarrow> query_node \<Rightarrow> nat" where
  "node_fetches_left contents (RangeNode s) = fetches_left (contents (is_index s)) s"
| "node_fetches_left contents (SearchNode s) = 0"
| "node_fetches_left contents (FilterNode child e) = node_fetches_left contents child"
| "node_fetches_left contents (LimitNode child limit emitted) = node_fetches_left contents child"

primrec node_rows :: "query_node \<Rightarrow> nat" where
  "node_rows (RangeNode s) = length (is_page s)"
| "node_rows (SearchNode s) = 0"
| "node_rows (FilterNode child e) = node_rows child"
| "node_rows (LimitNode child limit emitted) = node_rows child"

primrec node_depth :: "query_node \<Rightarrow> nat" where
  "node_depth (RangeNode s) = 0"
| "node_depth (SearchNode s) = 0"
| "node_depth (FilterNode child e) = Suc (node_depth child)"
| "node_depth (LimitNode child limit emitted) = Suc (node_depth child)"

definition node_index :: "query_node \<Rightarrow> stable_index_name option" where
  "node_index node = map_option is_index (node_leaf node)"

lemma node_index_simps [simp]:
  "node_index (RangeNode s) = Some (is_index s)"
  "node_index (FilterNode child e) = node_index child"
  "node_index (LimitNode child limit emitted) = node_index child"
  by (simp_all add: node_index_def)

definition waits_for :: "query_node \<Rightarrow> stream_request \<Rightarrow> bool" where
  "waits_for node req = (\<exists>s. node_leaf node = Some s \<and> is_page s = [] \<and> tablet_index_name_of (is_index s) \<noteq> None
     \<and> \<not> Interval_is_empty (is_unfetched s) \<and> sr_index_name req = is_index s \<and> sr_interval req = is_unfetched s
     \<and> sr_order req = is_order s \<and> 0 < sr_max_rows req)"

text \<open>One call of \<open>next\<close> that keeps to the results to come.\<close>

definition node_step ::
    "float_ops \<Rightarrow> (tablet_index_name \<Rightarrow> indexed_fields) \<Rightarrow> (stable_index_name \<Rightarrow> index_view) \<Rightarrow> query_node \<Rightarrow> 't query_transaction
     \<Rightarrow> 'e query_error + stream_next \<Rightarrow> query_node \<Rightarrow> 't query_transaction \<Rightarrow> bool" where
  "node_step fl fs contents node tx res node' tx' =
     (node_ok fl fs contents node' \<and> reads_wf fs (qt_reads tx') \<and> reads_extend (qt_reads tx) (qt_reads tx') \<and> qt_source tx' = qt_source tx
      \<and> node_index node' = node_index node \<and> node_fetches_left contents node' = node_fetches_left contents node
      \<and> node_depth node' = node_depth node \<and> node_rows node' \<le> node_rows node
      \<and> (case res of
           Inl _ \<Rightarrow> True
         | Inr (WaitingOn req) \<Rightarrow> upcoming fl contents node' = upcoming fl contents node \<and> waits_for node' req
         | Inr (Ready None) \<Rightarrow> upcoming fl contents node = [] \<and> upcoming fl contents node' = []
         | Inr (Ready (Some x)) \<Rightarrow> upcoming fl contents node = x # upcoming fl contents node' \<and> node_rows node' < node_rows node))"

lemma node_next_simps:
  "node_next env (RangeNode s) tx hint =
     map_option (\<lambda>(res, s, reads). (res, RangeNode s, tx\<lparr>qt_reads := reads\<rparr>)) (start_next env s (qt_reads tx) hint)"
  "node_next env (FilterNode child e) tx hint =
     Option.bind (node_next env child tx (Some FILTER_QUERY_PREFETCH)) (\<lambda>(res, child, tx).
       case res of
         Inl err \<Rightarrow> Some (Inl err, FilterNode child e, tx)
       | Inr (WaitingOn request) \<Rightarrow> Some (Inr (WaitingOn request), FilterNode child e, tx)
       | Inr (Ready None) \<Rightarrow> Some (Inr (Ready None), FilterNode child e, tx)
       | Inr (Ready (Some row)) \<Rightarrow>
           (case bind_result (eval (qe_floats env) (doc_value (fst row)) e) into_boolean of
              Inl err \<Rightarrow> if err = ArithmeticPanic then None else Some (Inl (FilterFailed err), FilterNode child e, tx)
            | Inr b \<Rightarrow>
                if b then Some (Inr (Ready (Some row)), FilterNode child e, tx)
                else node_next env (FilterNode child e) tx hint))"
  "node_next env (LimitNode child limit emitted) tx hint =
     (if limit \<le> emitted then Some (Inr (Ready None), LimitNode child limit emitted, tx)
      else
        Option.bind (node_next env child tx (Some (min (unwrap_or DEFAULT_QUERY_PREFETCH hint) (limit - emitted)))) (\<lambda>(res, child, tx).
          Some (res, LimitNode child limit (case res of Inr (Ready (Some _)) \<Rightarrow> emitted + 1 | _ \<Rightarrow> emitted), tx)))"
  by (subst node_next.simps, simp)+

lemma range_step:
  assumes ok: "stream_ok fs contents s" and wf: "reads_wf fs (qt_reads tx)"
  shows "\<exists>res node' tx'. node_next env (RangeNode s) tx hint = Some (res, node', tx') \<and> node_step fl fs contents (RangeNode s) tx res node' tx'"
proof -
  obtain res s' reads' where r: "start_next env s (qt_reads tx) hint = Some (res, s', reads')" "stream_ok fs contents s'"
    "reads_wf fs reads'" "reads_extend (qt_reads tx) reads'" "same_stream s s'" "length (is_page s') \<le> length (is_page s)"
    "stream_answer fs (contents (is_index s)) s res s' reads'"
    by (rule start_next_correct [OF ok wf, where env = env and hint = hint])
  then have same: "is_index s' = is_index s" "is_order s' = is_order s" "is_initial s' = is_initial s" "is_unfetched s' = is_unfetched s"
    by (simp_all add: same_stream_def)
  have left: "fetches_left m s' = fetches_left m s" for m using same by (simp add: fetches_left_def)
  have row: "rows_to_come m s = (k, x) # rows_to_come m s'" if "is_page s = (k, x) # is_page s'" for k x m
    using that same by (simp add: rows_to_come_def)
  have "case res of Inl _ \<Rightarrow> True
      | Inr (WaitingOn req) \<Rightarrow> upcoming fl contents (RangeNode s') = upcoming fl contents (RangeNode s) \<and> waits_for (RangeNode s') req
      | Inr (Ready None) \<Rightarrow> upcoming fl contents (RangeNode s) = [] \<and> upcoming fl contents (RangeNode s') = []
      | Inr (Ready (Some x)) \<Rightarrow> upcoming fl contents (RangeNode s) = x # upcoming fl contents (RangeNode s')
          \<and> node_rows (RangeNode s') < node_rows (RangeNode s)"
    using r(7) same by (auto simp: stream_answer_def waits_for_def row split: sum.splits stream_next.splits option.splits)
  with r same left show ?thesis by (simp add: node_next_simps(1) node_step_def)
qed

lemma node_step_trans:
  assumes first: "node_step fl fs contents node tx (Inr (Ready (Some x))) mid tx1" and x: "\<not> passes fl e x"
    and "node_step fl fs contents (FilterNode mid e) tx1 res node' tx'"
  shows "node_step fl fs contents (FilterNode node e) tx res node' tx'"
  using assms by (auto simp: node_step_def intro: reads_extend_trans split: sum.splits stream_next.splits option.splits)

text \<open>A call of \<open>next\<close> always returns: a filter looks at rows until its page is used up.\<close>

lemma node_next_correct:
  assumes "node_ok (qe_floats env) fs contents node" and "reads_wf fs (qt_reads tx)"
  shows "\<exists>res node' tx'. node_next env node tx hint = Some (res, node', tx') \<and> node_step (qe_floats env) fs contents node tx res node' tx'"
  using assms
proof (induction node arbitrary: tx hint rule: wf_induct_rule [OF wf_measures [of "[node_depth, node_rows]"]])
  case (1 node)
  show ?case
  proof (cases node)
    case (RangeNode s)
    with "1.prems" show ?thesis using range_step by simp
  next
    case (SearchNode s)
    with "1.prems" show ?thesis by simp
  next
    case (LimitNode child limit emitted)
    let ?hint = "Some (min (unwrap_or DEFAULT_QUERY_PREFETCH hint) (limit - emitted))"
    have "\<exists>res node' tx'. node_next env child tx ?hint = Some (res, node', tx') \<and> node_step (qe_floats env) fs contents child tx res node' tx'"
      by (rule "1.IH") (use "1.prems" LimitNode in simp_all)
    then obtain res child' tx' where child: "node_next env child tx ?hint = Some (res, child', tx')"
      "node_step (qe_floats env) fs contents child tx res child' tx'" by blast
    show ?thesis
    proof (cases "limit \<le> emitted")
      case True
      with LimitNode "1.prems" show ?thesis by (simp add: node_next_simps(3) node_step_def)
    next
      case False
      let ?n = "case res of Inr (Ready (Some _)) \<Rightarrow> emitted + 1 | _ \<Rightarrow> emitted"
      have "node_next env node tx hint = Some (res, LimitNode child' limit ?n, tx')"
        using False child(1) by (simp add: LimitNode node_next_simps(3))
      moreover have "take (limit - emitted) (x # xs) = x # take (limit - Suc emitted) xs" for x and xs :: "(developer_document \<times> write_timestamp) list"
        using False by (metis Suc_diff_Suc not_le take_Suc_Cons)
      then have "node_step (qe_floats env) fs contents node tx res (LimitNode child' limit ?n) tx'"
        using child(2) by (auto simp: LimitNode node_step_def waits_for_def split: sum.splits stream_next.splits option.splits)
      ultimately show ?thesis by blast
    qed
  next
    case (FilterNode child e)
    have "\<exists>res node' tx'. node_next env child tx (Some FILTER_QUERY_PREFETCH) = Some (res, node', tx')
        \<and> node_step (qe_floats env) fs contents child tx res node' tx'"
      by (rule "1.IH") (use "1.prems" FilterNode in simp_all)
    then obtain res child' tx1 where child: "node_next env child tx (Some FILTER_QUERY_PREFETCH) = Some (res, child', tx1)"
      "node_step (qe_floats env) fs contents child tx res child' tx1" by blast
    have ok: "\<And>d :: developer_document. bind_result (eval (qe_floats env) (doc_value d) e) into_boolean \<noteq> Inl ArithmeticPanic"
      using "1.prems"(1) FilterNode by simp
    show ?thesis
    proof (cases "\<exists>x. res = Inr (Ready (Some x)) \<and> \<not> passes (qe_floats env) e x")
      case False
      have "node_next env node tx hint = Some (res, FilterNode child' e, tx1)"
        using child(1) False by (auto simp: FilterNode node_next_simps(2) passes_def split: sum.splits stream_next.splits option.splits)
      moreover have "node_step (qe_floats env) fs contents node tx res (FilterNode child' e) tx1"
        using child(2) "1.prems"(1) False
        by (auto simp: FilterNode node_step_def waits_for_def split: sum.splits stream_next.splits option.splits)
      ultimately show ?thesis by blast
    next
      case True
      then obtain x where x: "res = Inr (Ready (Some x))" "\<not> passes (qe_floats env) e x" by blast
      show ?thesis
      proof (cases "bind_result (eval (qe_floats env) (doc_value (fst x)) e) into_boolean")
        case (Inl err)
        with ok [of "fst x"] have "node_next env node tx hint = Some (Inl (FilterFailed err), FilterNode child' e, tx1)"
          using child(1) x by (auto simp: FilterNode node_next_simps(2))
        moreover have "node_step (qe_floats env) fs contents node tx (Inl (FilterFailed err)) (FilterNode child' e) tx1"
          using child(2) "1.prems"(1) by (simp add: FilterNode node_step_def)
        ultimately show ?thesis by blast
      next
        case (Inr b)
        with x have "b = False" by (simp add: passes_def)
        with Inr have next1: "node_next env node tx hint = node_next env (FilterNode child' e) tx1 hint"
          using child(1) x by (simp add: FilterNode node_next_simps(2) [of env child])
        have "\<exists>res node' tx'. node_next env (FilterNode child' e) tx1 hint = Some (res, node', tx')
            \<and> node_step (qe_floats env) fs contents (FilterNode child' e) tx1 res node' tx'"
          by (rule "1.IH") (use child(2) x "1.prems"(1) FilterNode in \<open>simp_all add: node_step_def\<close>)
        then obtain res2 node2 tx2 where last: "node_next env (FilterNode child' e) tx1 hint = Some (res2, node2, tx2)"
          "node_step (qe_floats env) fs contents (FilterNode child' e) tx1 res2 node2 tx2" by blast
        have "node_step (qe_floats env) fs contents (FilterNode child e) tx res2 node2 tx2"
          by (rule node_step_trans [OF child(2) [unfolded x(1)] x(2) last(2)])
        with last(1) next1 FilterNode show ?thesis by auto
      qed
    qed
  qed
qed

section \<open>Batches of queries\<close>

text \<open>A query that reads a served index, and the answer it gives next.\<close>

definition query_ok ::
    "float_ops \<Rightarrow> (tablet_index_name \<Rightarrow> indexed_fields) \<Rightarrow> (stable_index_name \<Rightarrow> index_view) \<Rightarrow> (stable_index_name \<Rightarrow> bool)
     \<Rightarrow> developer_query \<Rightarrow> bool" where
  "query_ok fl fs contents serves q =
     (node_ok fl fs contents (dq_root q)
      \<and> (\<exists>name. node_index (dq_root q) = Some name \<and> (tablet_index_name_of name = None \<or> serves name)))"

definition next_result ::
    "float_ops \<Rightarrow> (stable_index_name \<Rightarrow> index_view) \<Rightarrow> developer_query \<Rightarrow> 'e query_error + stream_result \<Rightarrow> developer_query \<Rightarrow> bool" where
  "next_result fl contents q res q' =
     (case res of
        Inl _ \<Rightarrow> True
      | Inr r \<Rightarrow> r = (case upcoming fl contents (dq_root q) of [] \<Rightarrow> None | x # _ \<Rightarrow> Some x)
          \<and> upcoming fl contents (dq_root q') = tl (upcoming fl contents (dq_root q)))"

text \<open>A response is an error or a page of the rows asked for.\<close>

definition fetch_answer :: "index_view \<Rightarrow> stream_request \<Rightarrow> 'e + developer_row list \<times> cursor_position \<Rightarrow> bool" where
  "fetch_answer m req a =
     (let rows = interval_rows (sr_order req) (sr_interval req) m
      in (\<exists>e. a = Inl e) \<or> (\<exists>c > 0. a = Inr (map row_of (fst (page c rows)), snd (page c rows))))"

definition stream_request_ok :: "(stable_index_name \<Rightarrow> bool) \<Rightarrow> stream_request \<Rightarrow> bool" where
  "stream_request_ok serves req = (serves (sr_index_name req) \<and> \<not> Interval_is_empty (sr_interval req) \<and> 0 < sr_max_rows req)"

definition batch_weight :: "(stable_index_name \<Rightarrow> index_view) \<Rightarrow> query_batch \<Rightarrow> nat" where
  "batch_weight contents batch = sum_list (map (\<lambda>(_, q, _). Suc (node_fetches_left contents (dq_root q))) batch)"

lemma batch_weight_simps [simp]:
  "batch_weight contents [] = 0"
  "batch_weight contents ((key, q, hint) # batch) = Suc (node_fetches_left contents (dq_root q)) + batch_weight contents batch"
  "batch_weight contents (a @ b) = batch_weight contents a + batch_weight contents b"
  by (simp_all add: batch_weight_def)

text \<open>
  What a batch of queries relies on: that fetching answers every request with an error or a page of the
  rows of the index, and keeps the source of the transaction and its reads well formed.
\<close>

locale range_source =
  fixes env :: "('t, 'e) query_env" and source_ok :: "'t \<Rightarrow> bool" and fs :: "tablet_index_name \<Rightarrow> indexed_fields"
    and contents :: "stable_index_name \<Rightarrow> index_view" and serves :: "stable_index_name \<Rightarrow> bool"
  assumes fetch: "source_ok (qt_source tx) \<Longrightarrow> reads_wf fs (qt_reads tx) \<Longrightarrow> bt_ok reqs
    \<Longrightarrow> \<forall>key req. bt_get reqs key = Some req \<longrightarrow> stream_request_ok serves req
    \<Longrightarrow> \<exists>responses tx'. qe_fetch env reqs tx = Some (responses, tx') \<and> source_ok (qt_source tx') \<and> reads_wf fs (qt_reads tx')
      \<and> (\<forall>key req. bt_get reqs key = Some req \<longrightarrow>
          (\<exists>a. bt_get responses key = Some a \<and> fetch_answer (contents (sr_index_name req)) req a))"
begin

abbreviation good :: "developer_query \<Rightarrow> bool" where
  "good \<equiv> query_ok (qe_floats env) fs contents serves"

abbreviation coming :: "developer_query \<Rightarrow> (developer_document \<times> write_timestamp) list" where
  "coming q \<equiv> upcoming (qe_floats env) contents (dq_root q)"

abbreviation left :: "developer_query \<Rightarrow> nat" where
  "left q \<equiv> node_fetches_left contents (dq_root q)"

lemma query_next:
  assumes q: "good q" and wf: "reads_wf fs (qt_reads tx)"
  obtains res root tx' where "node_next env (dq_root q) tx hint = Some (res, root, tx')"
    and "qt_source tx' = qt_source tx" and "reads_wf fs (qt_reads tx')" and "good (q\<lparr>dq_root := root\<rparr>)"
    and "left (q\<lparr>dq_root := root\<rparr>) = left q"
    and "case res of
        Inl _ \<Rightarrow> True
      | Inr (WaitingOn req) \<Rightarrow> coming (q\<lparr>dq_root := root\<rparr>) = coming q \<and> waits_for root req \<and> stream_request_ok serves req
      | Inr (Ready r) \<Rightarrow> next_result (qe_floats env) contents q (Inr r :: 'e query_error + _) (q\<lparr>dq_root := root\<rparr>)"
proof -
  from q have ok: "node_ok (qe_floats env) fs contents (dq_root q)" by (simp add: query_ok_def)
  obtain res root tx' where r: "node_next env (dq_root q) tx hint = Some (res, root, tx')"
    "node_step (qe_floats env) fs contents (dq_root q) tx res root tx'"
    using node_next_correct [OF ok wf] by blast
  have good: "good (q\<lparr>dq_root := root\<rparr>)" using q r(2) by (simp add: query_ok_def node_step_def)
  have "stream_request_ok serves req" if "waits_for root req" for req
    using that good by (auto simp: waits_for_def stream_request_ok_def query_ok_def node_index_def)
  then show ?thesis using r(2) good
    by (intro that [OF r(1)])
      (auto simp: node_step_def next_result_def split: sum.splits stream_next.splits option.splits)
qed

end

context range_source
begin

definition finished :: "developer_query \<Rightarrow> (('e query_error + stream_result) \<times> developer_query) option \<Rightarrow> bool" where
  "finished q result = (\<exists>res q'. result = Some (res, q') \<and> good q' \<and> next_result (qe_floats env) contents q res q')"

lemma finished_cong: "coming q = coming q' \<Longrightarrow> finished q result = finished q' result"
  unfolding finished_def next_result_def by (erule subst) (rule refl)

lemma finished_error: "good q' \<Longrightarrow> finished q (Some (Inl e, q'))"
  by (simp add: finished_def next_result_def)

lemma finishedI: "good q' \<Longrightarrow> next_result (qe_floats env) contents q res q' \<Longrightarrow> finished q (Some (res, q'))"
  by (simp add: finished_def)

text \<open>The outcome of a query in the first pass: a result, or a request to wait for.\<close>

definition passed ::
    "developer_query \<times> nat option \<Rightarrow> (('e query_error + stream_result) \<times> developer_query) option \<Rightarrow> stream_request option
     \<Rightarrow> (developer_query \<times> nat option) option \<Rightarrow> bool" where
  "passed qh result request waiting =
     (finished (fst qh) result \<and> request = None \<and> waiting = None
      \<or> (\<exists>req q. result = None \<and> request = Some req \<and> waiting = Some (q, snd qh) \<and> good q \<and> coming q = coming (fst qh)
           \<and> waits_for (dq_root q) req \<and> stream_request_ok serves req))"

lemma next_all_correct:
  "distinct (map fst batch) \<Longrightarrow> (\<forall>key q h. (key, q, h) \<in> set batch \<longrightarrow> good q) \<Longrightarrow> reads_wf fs (qt_reads tx)
    \<Longrightarrow> bt_ok results \<Longrightarrow> bt_ok requests \<Longrightarrow> distinct (map fst tf) \<Longrightarrow> fst ` set batch \<inter> fst ` set tf = {} \<Longrightarrow>
    (\<forall>key \<in> fst ` set batch. bt_get results key = None \<and> bt_get requests key = None) \<Longrightarrow>
    \<exists>tx' results' requests' tf'. next_all env batch tx results requests tf = Some (tx', results', requests', tf')
      \<and> qt_source tx' = qt_source tx \<and> reads_wf fs (qt_reads tx') \<and> bt_ok results' \<and> bt_ok requests' \<and> distinct (map fst tf')
      \<and> batch_weight contents tf' \<le> batch_weight contents tf + batch_weight contents batch
      \<and> (\<forall>key. case map_of batch key of
           None \<Rightarrow> bt_get results' key = bt_get results key \<and> bt_get requests' key = bt_get requests key \<and> map_of tf' key = map_of tf key
         | Some qh \<Rightarrow> passed qh (bt_get results' key) (bt_get requests' key) (map_of tf' key))"
proof (induction batch arbitrary: tx results requests tf)
  case (Cons p batch)
  obtain key q h where p: "p = (key, q, h)" by (metis surj_pair)
  have good: "good q" using Cons.prems(2) p by auto
  have fresh: "key \<notin> fst ` set batch" "key \<notin> fst ` set tf" "bt_get results key = None" "bt_get requests key = None"
    using Cons.prems p by auto
  obtain res root tx1 where next1: "node_next env (dq_root q) tx h = Some (res, root, tx1)"
    "qt_source tx1 = qt_source tx" "reads_wf fs (qt_reads tx1)" "good (q\<lparr>dq_root := root\<rparr>)"
    "left (q\<lparr>dq_root := root\<rparr>) = left q"
    "case res of
        Inl _ \<Rightarrow> True
      | Inr (WaitingOn req) \<Rightarrow> coming (q\<lparr>dq_root := root\<rparr>) = coming q \<and> waits_for root req \<and> stream_request_ok serves req
      | Inr (Ready r) \<Rightarrow> next_result (qe_floats env) contents q (Inr r :: 'e query_error + _) (q\<lparr>dq_root := root\<rparr>)"
    by (rule query_next [OF good Cons.prems(3), where hint = h])
  let ?q = "q\<lparr>dq_root := root\<rparr>"
  have get: "map_of (p # batch) k = (if k = key then Some (q, h) else map_of batch k)" for k using p by simp
  have none: "map_of batch key = None" using fresh(1) by (simp add: map_of_eq_None_iff)
  note rest = Cons.IH
  have batch: "distinct (map fst batch)" "\<forall>key q h. (key, q, h) \<in> set batch \<longrightarrow> good q" "fst ` set batch \<inter> fst ` set tf = {}"
    using Cons.prems(1,2,7) p by auto
  have other: "k \<noteq> key" if "k \<in> fst ` set batch" for k using that fresh(1) by blast
  show ?case
  proof (cases "\<exists>req. res = Inr (WaitingOn req)")
    case True
    then obtain req where req: "res = Inr (WaitingOn req)" by blast
    let ?tf = "tf @ [(key, ?q, h)]" and ?requests = "bt_insert key req requests"
    have none_after: "\<forall>k \<in> fst ` set batch. bt_get results k = None \<and> bt_get ?requests k = None"
      using Cons.prems(5,8) other p by simp
    have run: "next_all env (p # batch) tx results requests tf = next_all env batch tx1 results ?requests ?tf"
      using next1(1) req by (simp add: p Let_def)
    obtain tx' results' requests' tf' where r: "next_all env batch tx1 results ?requests ?tf = Some (tx', results', requests', tf')"
      "qt_source tx' = qt_source tx1" "reads_wf fs (qt_reads tx')" "bt_ok results'" "bt_ok requests'" "distinct (map fst tf')"
      "batch_weight contents tf' \<le> batch_weight contents ?tf + batch_weight contents batch"
      and keys: "\<And>k. case map_of batch k of
           None \<Rightarrow> bt_get results' k = bt_get results k \<and> bt_get requests' k = bt_get ?requests k \<and> map_of tf' k = map_of ?tf k
         | Some qh \<Rightarrow> passed qh (bt_get results' k) (bt_get requests' k) (map_of tf' k)"
      using rest [OF batch(1,2) next1(3) Cons.prems(4) _ _ _ none_after, of ?tf] Cons.prems(5,6) fresh batch(3) by auto
    have "map_of tf key = None" using fresh(2) by (simp add: map_of_eq_None_iff)
    then have "passed (q, h) (bt_get results' key) (bt_get requests' key) (map_of tf' key)"
      using keys [of key] none next1(4,6) req fresh(3) Cons.prems(5) by (simp add: passed_def map_add_def)
    moreover have "map_of ?tf k = map_of tf k" if "k \<noteq> key" for k using that by (simp add: map_add_def split: option.split)
    ultimately have "case map_of (p # batch) k of
           None \<Rightarrow> bt_get results' k = bt_get results k \<and> bt_get requests' k = bt_get requests k \<and> map_of tf' k = map_of tf k
         | Some qh \<Rightarrow> passed qh (bt_get results' k) (bt_get requests' k) (map_of tf' k)" for k
      using keys [of k] Cons.prems(5) unfolding get by (cases "k = key") (simp_all split: option.splits)
    with run r next1(2,5) p show ?thesis by simp
  next
    case False
    obtain out where out: "bt_insert key out results = bt_insert key (fst out, ?q) results"
      "next_result (qe_floats env) contents q (fst out) ?q" "snd out = ?q"
      and run: "next_all env (p # batch) tx results requests tf = next_all env batch tx1 (bt_insert key out results) requests tf"
    proof (cases res)
      case (Inl e)
      with next1(1) show ?thesis by (intro that [of "(Inl e, ?q)"]) (simp_all add: p next_result_def Let_def)
    next
      case (Inr sn)
      with False obtain r where "res = Inr (Ready r)" by (cases sn) auto
      with next1(1,6) show ?thesis by (intro that [of "(Inr r, ?q)"]) (simp_all add: p Let_def)
    qed
    let ?results = "bt_insert key out results"
    have none_after: "\<forall>k \<in> fst ` set batch. bt_get ?results k = None \<and> bt_get requests k = None"
      using Cons.prems(4,8) other p by simp
    obtain tx' results' requests' tf' where r: "next_all env batch tx1 ?results requests tf = Some (tx', results', requests', tf')"
      "qt_source tx' = qt_source tx1" "reads_wf fs (qt_reads tx')" "bt_ok results'" "bt_ok requests'" "distinct (map fst tf')"
      "batch_weight contents tf' \<le> batch_weight contents tf + batch_weight contents batch"
      and keys: "\<And>k. case map_of batch k of
           None \<Rightarrow> bt_get results' k = bt_get ?results k \<and> bt_get requests' k = bt_get requests k \<and> map_of tf' k = map_of tf k
         | Some qh \<Rightarrow> passed qh (bt_get results' k) (bt_get requests' k) (map_of tf' k)"
      using rest [OF batch(1,2) next1(3) _ Cons.prems(5,6) batch(3) none_after] Cons.prems(4) by auto
    have "map_of tf key = None" using fresh(2) by (simp add: map_of_eq_None_iff)
    then have "passed (q, h) (bt_get results' key) (bt_get requests' key) (map_of tf' key)"
      using keys [of key] none next1(4) out(2,3) fresh(4) Cons.prems(4) by (cases out) (simp add: passed_def finishedI)
    then have "case map_of (p # batch) k of
           None \<Rightarrow> bt_get results' k = bt_get results k \<and> bt_get requests' k = bt_get requests k \<and> map_of tf' k = map_of tf k
         | Some qh \<Rightarrow> passed qh (bt_get results' k) (bt_get requests' k) (map_of tf' k)" for k
      using keys [of k] Cons.prems(4) unfolding get by (cases "k = key") (simp_all split: option.splits)
    with run r next1(2) p show ?thesis by simp
  qed
qed simp

end

lemma waits_for_simps [simp]:
  "waits_for (FilterNode child e) req = waits_for child req"
  "waits_for (LimitNode child limit emitted) req = waits_for child req"
  by (simp_all add: waits_for_def)

lemma node_feed_correct:
  assumes "node_ok fl fs contents node" and "waits_for node req" and "0 < c"
    and "rows = interval_rows (sr_order req) (sr_interval req) (contents (sr_index_name req))"
  shows "\<exists>node'. node_feed node (map row_of (fst (page c rows))) (snd (page c rows)) = (Inr node' :: 'e query_error + query_node) \<and> node_ok fl fs contents node'
    \<and> upcoming fl contents node' = upcoming fl contents node \<and> node_index node' = node_index node
    \<and> node_fetches_left contents node' < node_fetches_left contents node"
  using assms(1,2)
proof (induction node)
  case (RangeNode s)
  then have ok: "stream_ok fs contents s" "\<not> Interval_is_empty (is_unfetched s)"
    "rows = interval_rows (is_order s) (is_unfetched s) (contents (is_index s))"
    using assms(4) by (auto simp: waits_for_def)
  obtain s' where s': "process_fetch (map row_of (fst (page c rows))) (snd (page c rows)) s = (Inr s' :: 'e query_error + index_stream)" "stream_ok fs contents s'"
    "rows_to_come (contents (is_index s)) s' = rows_to_come (contents (is_index s)) s"
    "is_index s' = is_index s" "is_order s' = is_order s" "is_initial s' = is_initial s"
    "fetches_left (contents (is_index s)) s' < fetches_left (contents (is_index s)) s"
    by (rule process_fetch_correct [OF ok(1,2) assms(3) ok(3)])
  then show ?case by simp
qed auto

context range_source
begin

text \<open>The outcome of a query that was fed: an error, or the query with fewer fetches to make.\<close>

lemma feed_all_correct:
  "distinct (map fst tf) \<Longrightarrow> (\<forall>key q h. (key, q, h) \<in> set tf \<longrightarrow> good q \<and>
      (\<exists>req a. waits_for (dq_root q) req \<and> bt_get responses key = Some a \<and> fetch_answer (contents (sr_index_name req)) req a))
    \<Longrightarrow> bt_ok results \<Longrightarrow> distinct (map fst nb) \<Longrightarrow> fst ` set tf \<inter> fst ` set nb = {} \<Longrightarrow>
    \<exists>results' nb'. feed_all tf (responses :: (batch_key, 'e + developer_row list \<times> cursor_position) btree) results nb = (results', nb') \<and> bt_ok results' \<and> distinct (map fst nb')
      \<and> batch_weight contents nb' + length tf \<le> batch_weight contents nb + batch_weight contents tf
      \<and> (\<forall>key. case map_of tf key of
           None \<Rightarrow> bt_get results' key = bt_get results key \<and> map_of nb' key = map_of nb key
         | Some (q, h) \<Rightarrow> (\<exists>e. bt_get results' key = Some (Inl e, q) \<and> map_of nb' key = None)
             \<or> (\<exists>q'. bt_get results' key = bt_get results key \<and> map_of nb' key = Some (q', h) \<and> good q' \<and> coming q' = coming q))"
proof (induction tf arbitrary: results nb)
  case (Cons p tf)
  obtain key q h where p: "p = (key, q, h)" by (metis surj_pair)
  obtain req a where q: "good q" "waits_for (dq_root q) req" "bt_get responses key = Some a"
    "fetch_answer (contents (sr_index_name req)) req a" using Cons.prems(2) [rule_format, of key q h] p by auto
  have fresh: "key \<notin> fst ` set tf" "key \<notin> fst ` set nb" using Cons.prems(1,5) p by auto
  have tf: "distinct (map fst tf)" "\<forall>key q h. (key, q, h) \<in> set tf \<longrightarrow> good q \<and>
      (\<exists>req a. waits_for (dq_root q) req \<and> bt_get responses key = Some a \<and> fetch_answer (contents (sr_index_name req)) req a)"
    "fst ` set tf \<inter> fst ` set nb = {}" using Cons.prems(1,2,5) p by auto
  have get: "map_of (p # tf) k = (if k = key then Some (q, h) else map_of tf k)" for k using p by simp
  have none: "map_of tf key = None" "map_of nb key = None" using fresh by (simp_all add: map_of_eq_None_iff)
  let ?rows = "interval_rows (sr_order req) (sr_interval req) (contents (sr_index_name req))"
  have ok: "node_ok (qe_floats env) fs contents (dq_root q)" using q(1) by (simp add: query_ok_def)
  consider (error) e where "feed_all (p # tf) responses results nb = feed_all tf responses (bt_insert key (Inl e, q) results) nb"
    | (fed) root where "feed_all (p # tf) responses results nb = feed_all tf responses results (nb @ [(key, q\<lparr>dq_root := root\<rparr>, h)])"
        "good (q\<lparr>dq_root := root\<rparr>)" "coming (q\<lparr>dq_root := root\<rparr>) = coming q" "left (q\<lparr>dq_root := root\<rparr>) < left q"
  proof (cases a)
    case (Inl e)
    with q(3) show ?thesis by (intro error) (simp add: p)
  next
    case (Inr pg)
    with q(4) obtain c where c: "0 < c" "pg = (map row_of (fst (page c ?rows)), snd (page c ?rows))"
      by (auto simp: fetch_answer_def Let_def)
    from node_feed_correct [OF ok q(2) c(1) refl] obtain root where
      "node_feed (dq_root q) (map row_of (fst (page c ?rows))) (snd (page c ?rows)) = (Inr root :: 'e query_error + query_node)"
      "node_ok (qe_floats env) fs contents root" "upcoming (qe_floats env) contents root = coming q"
      "node_index root = node_index (dq_root q)" "node_fetches_left contents root < left q" by blast
    with Inr q(1,3) c(2) show ?thesis by (intro fed [of root]) (auto simp: p query_ok_def)
  qed
  then show ?case
  proof cases
    case error
    let ?results = "bt_insert key (Inl e, q) results"
    obtain results' nb' where r: "feed_all tf responses ?results nb = (results', nb')" "bt_ok results'" "distinct (map fst nb')"
      "batch_weight contents nb' + length tf \<le> batch_weight contents nb + batch_weight contents tf"
      and keys: "\<And>key. case map_of tf key of
           None \<Rightarrow> bt_get results' key = bt_get ?results key \<and> map_of nb' key = map_of nb key
         | Some (q, h) \<Rightarrow> (\<exists>e. bt_get results' key = Some (Inl e, q) \<and> map_of nb' key = None)
             \<or> (\<exists>q'. bt_get results' key = bt_get ?results key \<and> map_of nb' key = Some (q', h) \<and> good q' \<and> coming q' = coming q)"
      using Cons.IH [OF tf(1,2) _ Cons.prems(4) tf(3), of ?results] Cons.prems(3) by auto
    have "case map_of (p # tf) k of
           None \<Rightarrow> bt_get results' k = bt_get results k \<and> map_of nb' k = map_of nb k
         | Some (q, h) \<Rightarrow> (\<exists>e. bt_get results' k = Some (Inl e, q) \<and> map_of nb' k = None)
             \<or> (\<exists>q'. bt_get results' k = bt_get results k \<and> map_of nb' k = Some (q', h) \<and> good q' \<and> coming q' = coming q)" for k
      using keys [of k] none Cons.prems(3) unfolding get by (cases "k = key") (simp_all split: option.splits prod.splits)
    with error r p show ?thesis by simp
  next
    case fed
    let ?nb = "nb @ [(key, q\<lparr>dq_root := root\<rparr>, h)]"
    have nb: "distinct (map fst ?nb)" "fst ` set tf \<inter> fst ` set ?nb = {}" using Cons.prems(4) tf(3) fresh by auto
    obtain results' nb' where r: "feed_all tf responses results ?nb = (results', nb')" "bt_ok results'" "distinct (map fst nb')"
      "batch_weight contents nb' + length tf \<le> batch_weight contents ?nb + batch_weight contents tf"
      and keys: "\<And>key. case map_of tf key of
           None \<Rightarrow> bt_get results' key = bt_get results key \<and> map_of nb' key = map_of ?nb key
         | Some (q, h) \<Rightarrow> (\<exists>e. bt_get results' key = Some (Inl e, q) \<and> map_of nb' key = None)
             \<or> (\<exists>q'. bt_get results' key = bt_get results key \<and> map_of nb' key = Some (q', h) \<and> good q' \<and> coming q' = coming q)"
      using Cons.IH [OF tf(1,2) Cons.prems(3) nb] by auto
    have "case map_of (p # tf) k of
           None \<Rightarrow> bt_get results' k = bt_get results k \<and> map_of nb' k = map_of nb k
         | Some (q, h) \<Rightarrow> (\<exists>e. bt_get results' k = Some (Inl e, q) \<and> map_of nb' k = None)
             \<or> (\<exists>q'. bt_get results' k = bt_get results k \<and> map_of nb' k = Some (q', h) \<and> good q' \<and> coming q' = coming q)" for k
      using keys [of k] none fed(2,3) unfolding get by (cases "k = key") (simp_all add: map_add_def split: option.splits prod.splits)
    with fed r p show ?thesis by simp
  qed
qed simp

end

context range_source
begin

lemma fetch_requests:
  assumes "source_ok (qt_source tx)" and "reads_wf fs (qt_reads tx)" and "bt_ok reqs"
    and "\<forall>key req. bt_get reqs key = Some req \<longrightarrow> stream_request_ok serves req"
  obtains responses tx' where "(if reqs = [] then Some ([], tx) else qe_fetch env reqs tx) = Some (responses, tx')"
    and "source_ok (qt_source tx')" and "reads_wf fs (qt_reads tx')"
    and "\<forall>key req. bt_get reqs key = Some req \<longrightarrow>
        (\<exists>a. bt_get responses key = Some a \<and> fetch_answer (contents (sr_index_name req)) req a)"
proof (cases "reqs = []")
  case True
  with assms show ?thesis by (intro that [of "[]" tx]) (simp_all add: bt.get_emp)
next
  case False
  from fetch [OF assms] obtain responses tx' where "qe_fetch env reqs tx = Some (responses, tx')" "source_ok (qt_source tx')"
    "reads_wf fs (qt_reads tx')" "\<forall>key req. bt_get reqs key = Some req \<longrightarrow>
      (\<exists>a. bt_get responses key = Some a \<and> fetch_answer (contents (sr_index_name req)) req a)" by blast
  with False show ?thesis by (intro that) simp_all
qed

text \<open>A round of the loop: every query has its result, or waits with fewer fetches to make.\<close>

lemma query_batch_round:
  assumes batch: "batch \<noteq> []" "distinct (map fst batch)" "\<forall>key q h. (key, q, h) \<in> set batch \<longrightarrow> good q"
    and tx: "source_ok (qt_source tx)" "reads_wf fs (qt_reads tx)"
    and results: "bt_ok results" "\<forall>key \<in> fst ` set batch. bt_get results key = None"
  obtains batch' tx' results' where "query_batch_loop env batch tx results = query_batch_loop env batch' tx' results'"
    and "distinct (map fst batch')" and "\<forall>key q h. (key, q, h) \<in> set batch' \<longrightarrow> good q"
    and "source_ok (qt_source tx')" and "reads_wf fs (qt_reads tx')" and "bt_ok results'"
    and "\<forall>key \<in> fst ` set batch'. bt_get results' key = None"
    and "batch_weight contents batch' < batch_weight contents batch"
    and "\<forall>key. case map_of batch key of
        None \<Rightarrow> bt_get results' key = bt_get results key \<and> map_of batch' key = None
      | Some (q, h) \<Rightarrow> finished q (bt_get results' key) \<and> map_of batch' key = None
          \<or> (\<exists>q'. map_of batch' key = Some (q', h) \<and> coming q' = coming q)"
proof -
  obtain tx1 results1 reqs tf where first: "next_all env batch tx results [] [] = Some (tx1, results1, reqs, tf)"
    "qt_source tx1 = qt_source tx" "reads_wf fs (qt_reads tx1)" "bt_ok results1" "bt_ok reqs" "distinct (map fst tf)"
    "batch_weight contents tf \<le> batch_weight contents batch"
    and raw1: "\<And>key. case map_of batch key of
           None \<Rightarrow> bt_get results1 key = bt_get results key \<and> bt_get reqs key = bt_get [] key \<and> map_of tf key = map_of [] key
         | Some qh \<Rightarrow> passed qh (bt_get results1 key) (bt_get reqs key) (map_of tf key)"
    using next_all_correct [OF batch(2,3) tx(2) results(1), of "[]" "[]"] results(2) by (auto simp: bt.get_emp)
  have keys1: "case map_of batch key of
           None \<Rightarrow> bt_get results1 key = bt_get results key \<and> bt_get reqs key = None \<and> map_of tf key = None
         | Some qh \<Rightarrow> passed qh (bt_get results1 key) (bt_get reqs key) (map_of tf key)" for key
    using raw1 [of key] by (cases "map_of batch key") (simp_all add: bt.get_emp)
  have "stream_request_ok serves req" if "bt_get reqs key = Some req" for key req
    using keys1 [of key] that by (auto simp: passed_def split: option.splits)
  then have reqs: "\<forall>key req. bt_get reqs key = Some req \<longrightarrow> stream_request_ok serves req" by blast
  have tx1: "source_ok (qt_source tx1)" using tx(1) first(2) by simp
  obtain responses tx2 where fetched: "(if reqs = [] then Some ([], tx1) else qe_fetch env reqs tx1) = Some (responses, tx2)"
    "source_ok (qt_source tx2)" "reads_wf fs (qt_reads tx2)"
    "\<forall>key req. bt_get reqs key = Some req \<longrightarrow> (\<exists>a. bt_get responses key = Some a \<and> fetch_answer (contents (sr_index_name req)) req a)"
    by (rule fetch_requests [OF tx1 first(3,5) reqs])
  have "good q \<and> (\<exists>req a. waits_for (dq_root q) req \<and> bt_get responses key = Some a \<and> fetch_answer (contents (sr_index_name req)) req a)"
    if "(key, q, h) \<in> set tf" for key q h
  proof -
    have "map_of tf key = Some (q, h)" using that first(6) by simp
    with keys1 [of key] obtain req where "good q" "bt_get reqs key = Some req" "waits_for (dq_root q) req"
      by (auto simp: passed_def split: option.splits)
    with fetched(4) show ?thesis by blast
  qed
  then have feed: "\<forall>key q h. (key, q, h) \<in> set tf \<longrightarrow> good q \<and>
      (\<exists>req a. waits_for (dq_root q) req \<and> bt_get responses key = Some a \<and> fetch_answer (contents (sr_index_name req)) req a)" by blast
  obtain results2 nb where second: "feed_all tf responses results1 [] = (results2, nb)" "bt_ok results2" "distinct (map fst nb)"
    "batch_weight contents nb + length tf \<le> batch_weight contents tf"
    and keys2: "\<And>key. case map_of tf key of
           None \<Rightarrow> bt_get results2 key = bt_get results1 key \<and> map_of nb key = map_of [] key
         | Some (q, h) \<Rightarrow> (\<exists>e. bt_get results2 key = Some (Inl e, q) \<and> map_of nb key = None)
             \<or> (\<exists>q'. bt_get results2 key = bt_get results1 key \<and> map_of nb key = Some (q', h) \<and> good q' \<and> coming q' = coming q)"
    using feed_all_correct [OF first(6) feed first(4), of "[]"] by auto
  have nb: "map_of nb key = Some (q, h)" if "(key, q, h) \<in> set nb" for key q h using that second(3) by simp
  have weight: "batch_weight contents nb < batch_weight contents batch"
  proof (cases "tf = []")
    case True
    with second(1) have "nb = []" by simp
    with batch(1) show ?thesis by (cases batch) auto
  next
    case False
    with second(4) first(7) show ?thesis by (cases tf) auto
  qed
  have good: "\<forall>key q h. (key, q, h) \<in> set nb \<longrightarrow> good q"
  proof (intro allI impI)
    fix key q h assume "(key, q, h) \<in> set nb"
    from nb [OF this] keys2 [of key] show "good q" by (auto split: option.splits)
  qed
  have fresh: "\<forall>key \<in> fst ` set nb. bt_get results2 key = None"
  proof
    fix key assume "key \<in> fst ` set nb"
    then obtain q h where "map_of nb key = Some (q, h)" using nb by force
    with keys2 [of key] keys1 [of key] show "bt_get results2 key = None" by (auto simp: passed_def split: option.splits)
  qed
  have "case map_of batch key of
        None \<Rightarrow> bt_get results2 key = bt_get results key \<and> map_of nb key = None
      | Some (q, h) \<Rightarrow> finished q (bt_get results2 key) \<and> map_of nb key = None
          \<or> (\<exists>q'. map_of nb key = Some (q', h) \<and> coming q' = coming q)" for key
    using keys1 [of key] keys2 [of key]
    by (auto simp: passed_def finished_error split: option.splits)
  moreover have "query_batch_loop env batch tx results = query_batch_loop env nb tx2 results2"
    using batch(1) first(1) fetched(1) second(1) by (subst query_batch_loop.simps) simp
  ultimately show ?thesis using second(2,3) good fresh weight fetched(2,3) by (intro that) blast+
qed

end

context range_source
begin

lemma query_batch_loop_correct:
  assumes "distinct (map fst batch)" and "\<forall>key q h. (key, q, h) \<in> set batch \<longrightarrow> good q"
    and "source_ok (qt_source tx)" and "reads_wf fs (qt_reads tx)"
    and "bt_ok results" and "\<forall>key \<in> fst ` set batch. bt_get results key = None"
  shows "\<exists>results' tx'. query_batch_loop env batch tx results = Some (results', tx') \<and> source_ok (qt_source tx')
    \<and> reads_wf fs (qt_reads tx') \<and> bt_ok results'
    \<and> (\<forall>key. case map_of batch key of
         None \<Rightarrow> bt_get results' key = bt_get results key
       | Some (q, h) \<Rightarrow> finished q (bt_get results' key))"
  using assms
proof (induction batch arbitrary: tx results rule: measure_induct_rule [of "batch_weight contents"])
  case (less batch)
  show ?case
  proof (cases "batch = []")
    case True
    with less.prems show ?thesis by (simp add: query_batch_loop.simps)
  next
    case False
    obtain batch' tx1 results1 where round1: "query_batch_loop env batch tx results = query_batch_loop env batch' tx1 results1"
      "distinct (map fst batch')" "\<forall>key q h. (key, q, h) \<in> set batch' \<longrightarrow> good q"
      "source_ok (qt_source tx1)" "reads_wf fs (qt_reads tx1)" "bt_ok results1"
      "\<forall>key \<in> fst ` set batch'. bt_get results1 key = None" "batch_weight contents batch' < batch_weight contents batch"
      and keys1: "\<forall>key. case map_of batch key of
          None \<Rightarrow> bt_get results1 key = bt_get results key \<and> map_of batch' key = None
        | Some (q, h) \<Rightarrow> finished q (bt_get results1 key) \<and> map_of batch' key = None
            \<or> (\<exists>q'. map_of batch' key = Some (q', h) \<and> coming q' = coming q)"
      by (rule query_batch_round [OF False less.prems])
    obtain results' tx' where r: "query_batch_loop env batch' tx1 results1 = Some (results', tx')" "source_ok (qt_source tx')"
      "reads_wf fs (qt_reads tx')" "bt_ok results'"
      and keys2: "\<forall>key. case map_of batch' key of
         None \<Rightarrow> bt_get results' key = bt_get results1 key
       | Some (q, h) \<Rightarrow> finished q (bt_get results' key)"
      using less.IH [OF round1(8,2-7)] by blast
    have "case map_of batch key of None \<Rightarrow> bt_get results' key = bt_get results key
       | Some (q, h) \<Rightarrow> finished q (bt_get results' key)" for key
      using keys1 [rule_format, of key] keys2 [rule_format, of key]
      by (auto dest: finished_cong [THEN iffD1, rotated] split: option.splits)
    with r round1(1) show ?thesis by auto
  qed
qed

lemma query_batch_next_correct:
  assumes batch: "distinct (map fst batch)" "\<forall>key q h. (key, q, h) \<in> set batch \<longrightarrow> good q"
    and tx: "source_ok (qt_source tx)" "reads_wf fs (qt_reads tx)"
  obtains results tx' where "query_batch_next env batch tx = Some (results, tx')" and "source_ok (qt_source tx')"
    and "reads_wf fs (qt_reads tx')" and "fst ` set results = fst ` set batch"
    and "\<forall>key q h. (key, q, h) \<in> set batch \<longrightarrow> finished q (bt_get results key)"
proof -
  obtain results tx' where r: "query_batch_loop env batch tx [] = Some (results, tx')" "source_ok (qt_source tx')"
    "reads_wf fs (qt_reads tx')" "bt_ok results"
    and raw: "\<forall>key. case map_of batch key of None \<Rightarrow> bt_get results key = bt_get [] key
      | Some (q, h) \<Rightarrow> finished q (bt_get results key)"
    using query_batch_loop_correct [OF batch tx, of "[]"] by (auto simp: bt.get_emp)
  have keys: "key \<in> fst ` set results \<longleftrightarrow> key \<in> fst ` set batch" for key
    using raw [rule_format, of key] bt_key_get [OF r(4), of key] map_of_eq_None_iff [of batch key]
    by (auto simp: bt.get_emp finished_def split: option.splits)
  then have same: "fst ` set results = fst ` set batch" by blast
  have "length results = card (fst ` set results)" using bt_distinct [OF r(4)] by (metis distinct_card length_map set_map)
  moreover have "length batch = card (fst ` set batch)" using batch(1) by (metis distinct_card length_map set_map)
  ultimately have "length results = length batch" using same by simp
  then have "query_batch_next env batch tx = Some (results, tx')" using r(1) by (simp add: query_batch_next_def)
  moreover have "finished q (bt_get results key)" if "(key, q, h) \<in> set batch" for key q h
    using raw [rule_format, of key] that batch(1) by (auto split: option.splits)
  ultimately show ?thesis using r same by (intro that) blast+
qed

lemma DeveloperQuery_next_correct:
  assumes q: "good q" and tx: "source_ok (qt_source tx)" "reads_wf fs (qt_reads tx)"
  shows "\<exists>res q' tx'. DeveloperQuery_next env q tx hint = Some (res, q', tx') \<and> good q' \<and> source_ok (qt_source tx')
    \<and> reads_wf fs (qt_reads tx') \<and> next_result (qe_floats env) contents q res q'"
proof -
  have batch: "distinct (map fst [(0 :: batch_key, q, hint)])" "\<forall>key r h. (key, r, h) \<in> set [(0 :: batch_key, q, hint)] \<longrightarrow> good r"
    using q by simp_all
  obtain results tx' where "query_batch_next env [(0, q, hint)] tx = Some (results, tx')" "source_ok (qt_source tx')"
    "reads_wf fs (qt_reads tx')" "fst ` set results = fst ` set [(0 :: batch_key, q, hint)]"
    "\<forall>key r h. (key, r, h) \<in> set [(0, q, hint)] \<longrightarrow> finished r (bt_get results key)"
    by (rule query_batch_next_correct [OF batch tx])
  then show ?thesis by (auto simp: DeveloperQuery_next_def finished_def)
qed

text \<open>Pulling results until the query ends or fails.\<close>

lemma DeveloperQuery_next_end:
  assumes "good q" and "source_ok (qt_source tx)" and "reads_wf fs (qt_reads tx)"
    and "DeveloperQuery_next env q tx hint = Some (Inr None, q', tx')"
  shows "coming q = []"
  using DeveloperQuery_next_correct [OF assms(1-3), of hint] assms(4) by (auto simp: next_result_def split: list.splits)

end

section \<open>The transaction's indexes as a source of ranges\<close>

lemma check_requests_keys:
  "check_requests cfg ti reqs reads (results :: (batch_key, 'e transaction_index_error + transaction_page) btree) tf = Some (reads', results', tf')
    \<Longrightarrow> bt_ok results \<Longrightarrow>
     bt_ok results' \<and> fst ` set results' \<union> fst ` set tf' = fst ` set results \<union> fst ` set tf \<union> fst ` set reqs"
proof (induction reqs arbitrary: reads results tf)
  case (Cons p reqs)
  obtain key req where p: "p = (key, req)" by (rule prod.exhaust)
  from Cons.prems(1) p obtain found reads1 where found: "TransactionIndex_require_enabled cfg ti (req_index_name req) reads = Some (found, reads1)"
    by (auto split: option.splits)
  show ?case
  proof (cases "indexed_fields_of (req_index_name req) found :: 'e transaction_index_error + indexed_fields")
    case (Inl e)
    with Cons.prems p found have run: "check_requests cfg ti reqs reads1 (bt_insert key (Inl e) results) tf = Some (reads', results', tf')" by simp
    have "bt_ok (bt_insert key (Inl e) results)" using Cons.prems(2) by simp
    from Cons.IH [OF run this] show ?thesis by (simp add: p)
  next
    case (Inr f)
    with Cons.prems p found have "check_requests cfg ti reqs reads1 results (bt_insert key req tf) = Some (reads', results', tf')" by simp
    from Cons.IH [OF this Cons.prems(2)] show ?thesis by (simp add: p)
  qed
qed simp

lemma fold_insert_keys:
  "bt_ok m \<Longrightarrow> bt_ok (fold (\<lambda>(key, x). bt_insert key (f key x)) xs m)
     \<and> fst ` set (fold (\<lambda>(key, x). bt_insert key (f key x)) xs m) = fst ` set xs \<union> fst ` set m"
  by (induction xs arbitrary: m) (simp_all add: case_prod_unfold)

lemma range_batch_keys:
  assumes "TransactionIndex_range_batch cfg limit schedule reqs reads ti = Some (results, reads', ti')"
  shows "bt_ok results \<and> fst ` set results = fst ` set reqs"
proof -
  from assms obtain results0 tf fetched where check: "check_requests cfg ti reqs reads [] [] = Some (reads', results0, tf)"
    and results: "results = fold (\<lambda>(key, req). bt_insert key (finish_request limit req (bt_get fetched key))) tf results0"
    by (auto simp: TransactionIndex_range_batch_def split: option.splits)
  from check_requests_keys [OF check] have r0: "bt_ok results0" "fst ` set results0 \<union> fst ` set tf = fst ` set reqs" by simp_all
  from fold_insert_keys [OF r0(1), of "\<lambda>key req. finish_request limit req (bt_get fetched key)" tf] r0(2) show ?thesis
    unfolding results by auto
qed

definition range_request_of :: "stream_request \<Rightarrow> range_request" where
  "range_request_of req =
     \<lparr>req_index_name = (case sr_index_name req of Physical n \<Rightarrow> n | Virtual _ n \<Rightarrow> n | MissingIndexName _ \<Rightarrow> ([], [])),
      req_interval = sr_interval req, req_order = sr_order req, req_max_size = min (sr_max_rows req) MAX_PAGE_SIZE\<rparr>"

lemma start_index_ranges_correct:
  "bt_ok reqs \<Longrightarrow> bt_ok tf \<Longrightarrow> (\<forall>key req. (key, req) \<in> set reqs \<longrightarrow>
      \<not> Interval_is_empty (sr_interval req) \<and> (\<exists>n. sr_index_name req = Physical n \<and> tablet_name mapping (fst n) \<noteq> None)) \<Longrightarrow>
    \<exists>tf'. start_index_ranges mapping reqs results tf = (results, tf') \<and> bt_ok tf' \<and> fst ` set tf' = fst ` set reqs \<union> fst ` set tf
      \<and> (\<forall>key. bt_get tf' key = (case bt_get reqs key of None \<Rightarrow> bt_get tf key | Some req \<Rightarrow> Some (range_request_of req)))"
proof (induction reqs arbitrary: tf)
  case (Cons p reqs)
  obtain key req where p: "p = (key, req)" by (rule prod.exhaust)
  from Cons.prems(3) [rule_format, of key req] p obtain n where n: "\<not> Interval_is_empty (sr_interval req)" "sr_index_name req = Physical n" "tablet_name mapping (fst n) \<noteq> None"
    by auto
  have run: "start_index_ranges mapping (p # reqs) results tf = start_index_ranges mapping reqs results (bt_insert key (range_request_of req) tf)"
    using n by (auto simp: p range_request_of_def Let_def)
  have other: "bt_get reqs key = None" using Cons.prems(1) p bt_key_get [of reqs key] by fastforce
  have get: "bt_get (p # reqs) k = (if k = key then Some req else bt_get reqs k)" for k using p by (simp add: bt_get_def)
  have reqs: "bt_ok reqs" "bt_ok (bt_insert key (range_request_of req) tf)"
    "\<forall>key req. (key, req) \<in> set reqs \<longrightarrow> \<not> Interval_is_empty (sr_interval req)
      \<and> (\<exists>n. sr_index_name req = Physical n \<and> tablet_name mapping (fst n) \<noteq> None)" using Cons.prems by simp_all
  obtain tf' where tf': "start_index_ranges mapping reqs results (bt_insert key (range_request_of req) tf) = (results, tf')" "bt_ok tf'"
    "fst ` set tf' = fst ` set reqs \<union> fst ` set (bt_insert key (range_request_of req) tf)"
    and keys: "\<And>k. bt_get tf' k = (case bt_get reqs k of None \<Rightarrow> bt_get (bt_insert key (range_request_of req) tf) k
      | Some req \<Rightarrow> Some (range_request_of req))"
    using Cons.IH [OF reqs] by blast
  have "bt_get tf' k = (case bt_get (p # reqs) k of None \<Rightarrow> bt_get tf k | Some req \<Rightarrow> Some (range_request_of req))" for k
    using keys [of k] other Cons.prems(2) by (cases "k = key"; cases "bt_get reqs k") (simp_all add: get)
  with tf' show ?case unfolding run by (intro exI [of _ tf']) (simp add: p)
qed (simp add: bt.get_emp)

lemma page_map:
  assumes "\<And>e. fst (f e) = fst e" and "0 < c"
  shows "fst (page c (map f rows)) = map f (fst (page c rows))" and "snd (page c (map f rows)) = snd (page c rows)"
proof -
  have "last (take c (map f rows)) = f (last (take c rows))" if "c \<le> length rows"
    using that assms(2) by (cases rows) (auto simp: take_map last_map take_Cons')
  then show "fst (page c (map f rows)) = map f (fst (page c rows))" "snd (page c (map f rows)) = snd (page c rows)"
    using assms(1) by (simp_all add: page_def take_map)
qed

lemma developer_rows: "interval_rows ord iv (developer_view m) = map (\<lambda>(k, w, d). (k, w, document d)) (interval_rows ord iv m)"
  by (cases ord) (simp_all add: interval_rows_def select_def developer_view_def filter_map o_def case_prod_beta rev_map)

lemma developer_page_answer:
  assumes a: "transaction_answer m cancelled (range_request_of req) a"
  shows "fetch_answer (developer_view m) req (developer_page to_virtual False a)"
proof -
  let ?rows = "interval_rows (sr_order req) (sr_interval req) m" and ?f = "\<lambda>(k, w, d). (k, w, document d)"
  from a consider c where "0 < c" "a = Inr (map shape (fst (page c ?rows)), snd (page c ?rows))" | e where "a = Inl e"
    by (auto simp: transaction_answer_def range_request_of_def interval_rows_def Let_def)
  then show ?thesis
  proof cases
    case 1
    have f: "fst (?f e) = fst e" for e :: "bytes \<times> write_timestamp \<times> resolved_document" by (simp add: case_prod_beta)
    have "developer_page to_virtual False a = Inr (map row_of (fst (page c (map ?f ?rows))), snd (page c (map ?f ?rows)))"
      using 1 page_map [of ?f, OF f 1(1), of ?rows]
      by (simp add: developer_page_def) (auto simp: shape_def row_of_def case_prod_beta)
    with 1(1) show ?thesis unfolding fetch_answer_def Let_def developer_rows by blast
  next
    case 2
    then show ?thesis by (simp add: developer_page_def fetch_answer_def Let_def)
  qed
qed

lemma bt_length: "bt_ok m \<Longrightarrow> length m = card (fst ` set m)"
  using bt_distinct by (metis distinct_card length_map set_map)

text \<open>
  The state of a transaction's indexes that range queries rely on.  \<open>index_of\<close> names the indexes that the
  transaction wrote nothing to or that are in memory.
\<close>

definition transaction_source_ok ::
    "'x index_parser \<Rightarrow> snapshot_store \<Rightarrow> index_rows \<Rightarrow> transaction_store
     \<Rightarrow> (internal_id \<Rightarrow> (bytes, write_timestamp \<times> resolved_document) btree) \<Rightarrow> internal_id set
     \<Rightarrow> (tablet_index_name \<Rightarrow> internal_id option) \<Rightarrow> (tablet_index_name \<Rightarrow> indexed_fields) \<Rightarrow> ('x, 'e) transaction_index \<Rightarrow> bool" where
  "transaction_source_ok parse S rows T seen ids index_of fs ti =
     (snapshot_ok parse (ti_snapshot_registry ti) S rows \<and> cache_ok rows (snap_cache (ti_snapshot ti))
      \<and> in_memory_view rows (snap_in_memory (ti_snapshot ti))
      \<and> persistence_ok parse (ti_snapshot_registry ti) S rows (snap_persistence (ti_snapshot ti))
      \<and> store_ok T \<and> represents parse (ti_registry ti) (documents_of T) \<and> rows_exact parse (ti_registry ti) T seen
      \<and> transaction_exact parse rows ids T ti
      \<and> (\<forall>j \<in> ids. \<exists>t ix f. indexed_by parse (ti_snapshot_registry ti) (documents_of S) t ix f \<and> ix_id ix = j)
      \<and> fs (IndexName_by_id (index_table (ti_registry ti))) = []
      \<and> (\<forall>n j. index_of n = Some j \<longrightarrow> j \<in> ids \<and> map_option ix_id (get_enabled (ti_registry ti) n) = Some j
           \<and> map_option ix_id (get_enabled (ti_snapshot_registry ti) n) = Some j
           \<and> (get_or [] (ti_updates ti) j = [] \<or> bt_get (snap_in_memory (ti_snapshot ti)) j \<noteq> None)))"

definition transaction_view ::
    "(internal_id \<Rightarrow> (bytes, write_timestamp \<times> resolved_document) btree) \<Rightarrow> (tablet_index_name \<Rightarrow> internal_id option)
     \<Rightarrow> stable_index_name \<Rightarrow> index_view" where
  "transaction_view seen index_of name =
     (case name of
        Physical n \<Rightarrow> (case index_of n of Some j \<Rightarrow> developer_view (seen j) | None \<Rightarrow> [])
      | _ \<Rightarrow> [])"

definition transaction_serves :: "(tablet_index_name \<Rightarrow> internal_id option) \<Rightarrow> stable_index_name \<Rightarrow> bool" where
  "transaction_serves index_of name = (\<exists>n. name = Physical n \<and> index_of n \<noteq> None)"

lemma index_range_batch_correct:
  assumes source: "transaction_source_ok parse S rows T seen ids index_of fs (qt_source tx)" and reads: "reads_wf fs (qt_reads tx)"
    and names: "\<forall>n. index_of n \<noteq> None \<longrightarrow> tablet_name mapping (fst n) \<noteq> None" and limit: "0 < limit" and schedule: "permutes schedule"
    and reqs: "bt_ok reqs" "\<forall>key req. bt_get reqs key = Some req \<longrightarrow> stream_request_ok (transaction_serves index_of) req"
  shows "\<exists>responses tx'. index_range_batch cfg limit schedule mapping to_virtual reqs tx = Some (responses, tx')
    \<and> transaction_source_ok parse S rows T seen ids index_of fs (qt_source tx') \<and> reads_wf fs (qt_reads tx')
    \<and> (\<forall>key req. bt_get reqs key = Some req \<longrightarrow>
        (\<exists>a. bt_get responses key = Some a \<and> fetch_answer (transaction_view seen index_of (sr_index_name req)) req a))"
proof -
  let ?ti = "qt_source tx"
  have physical: "\<exists>n j. sr_index_name req = Physical n \<and> index_of n = Some j" if "bt_get reqs key = Some req" for key req
    using reqs(2) that by (auto simp: stream_request_ok_def transaction_serves_def)
  have "\<forall>key req. (key, req) \<in> set reqs \<longrightarrow>
      \<not> Interval_is_empty (sr_interval req) \<and> (\<exists>n. sr_index_name req = Physical n \<and> tablet_name mapping (fst n) \<noteq> None)"
    using reqs physical names unfolding stream_request_ok_def by (simp add: bt_get_iff) blast
  from start_index_ranges_correct [OF reqs(1) _ this, of "[]" "[]"] obtain tf where
    start: "start_index_ranges mapping reqs [] [] = ([] :: (batch_key, ('b, 'c) fetch_error + developer_row list \<times> cursor_position) btree, tf)"
    and tf: "bt_ok tf" "fst ` set tf = fst ` set reqs"
    and raw: "\<And>key. bt_get tf key = (case bt_get reqs key of None \<Rightarrow> bt_get [] key | Some req \<Rightarrow> Some (range_request_of req))"
    by auto
  have tf_get: "bt_get tf key = map_option range_request_of (bt_get reqs key)" for key
    using raw [of key] by (cases "bt_get reqs key") (simp_all add: bt.get_emp)
  have ok: "request_ok (range_request_of req)" if "bt_get reqs key = Some req" for key req
    using reqs(2) that nonempty_forward by (auto simp: request_ok_def range_request_of_def stream_request_ok_def MAX_PAGE_SIZE_def)
  have "request_ok r" if "(key, r) \<in> set tf" for key r
    using that ok unfolding bt_get_iff [OF tf(1), symmetric] tf_get by auto
  then have tf_ok: "list_all (\<lambda>(_, req). request_ok req) tf" by (auto simp: list_all_iff)
  note source [unfolded transaction_source_ok_def]
  then have snap: "snapshot_ok parse (ti_snapshot_registry ?ti) S rows" "cache_ok rows (snap_cache (ti_snapshot ?ti))"
      "in_memory_view rows (snap_in_memory (ti_snapshot ?ti))"
      "persistence_ok parse (ti_snapshot_registry ?ti) S rows (snap_persistence (ti_snapshot ?ti))"
    and T: "store_ok T" "represents parse (ti_registry ?ti) (documents_of T)" "rows_exact parse (ti_registry ?ti) T seen"
    and exact: "transaction_exact parse rows ids T ?ti"
    and base: "\<forall>j \<in> ids. \<exists>t ix f. indexed_by parse (ti_snapshot_registry ?ti) (documents_of S) t ix f \<and> ix_id ix = j"
    and table: "fs (IndexName_by_id (index_table (ti_registry ?ti))) = []"
    and indexes: "\<forall>n j. index_of n = Some j \<longrightarrow> j \<in> ids \<and> map_option ix_id (get_enabled (ti_registry ?ti) n) = Some j
           \<and> map_option ix_id (get_enabled (ti_snapshot_registry ?ti) n) = Some j
           \<and> (get_or [] (ti_updates ?ti) j = [] \<or> bt_get (snap_in_memory (ti_snapshot ?ti)) j \<noteq> None)" by blast+
  have "reads_ok fs ?ti (qt_reads tx)" using reads table by (simp add: reads_ok_def reads_wf_def)
  from transaction_range_correct [OF snap tf(1) tf_ok schedule T exact base this limit, of cfg] obtain fetched reads' c where
    run: "TransactionIndex_range_batch cfg limit schedule tf (qt_reads tx) ?ti
      = Some (fetched, reads', ?ti\<lparr>ti_snapshot := (ti_snapshot ?ti)\<lparr>snap_cache := c\<rparr>\<rparr>)"
    and cache: "cache_ok rows c" and reads': "reads_ok fs ?ti reads'"
    and answers: "\<And>key req. bt_get tf key = Some req \<Longrightarrow> \<exists>a. bt_get fetched key = Some a
        \<and> (\<forall>j. read_correctly ids rows ?ti req j \<longrightarrow> transaction_answer (seen j) (\<exists>fs. schedule fs = None) req a)" by blast
  from range_batch_keys [OF run] have fetched: "bt_ok fetched" "fst ` set fetched = fst ` set reqs" using tf(2) by simp_all
  let ?virtual = "\<lambda>key. case bt_get reqs key of None \<Rightarrow> False | Some req \<Rightarrow> is_virtual_name (sr_index_name req)"
  let ?final = "fold (\<lambda>(key, res). bt_insert key (developer_page to_virtual (?virtual key) res)) fetched []"
  have final: "bt_ok ?final" "fst ` set ?final = fst ` set reqs"
    using fold_insert_keys [of "[]" "\<lambda>key res. developer_page to_virtual (?virtual key) res" fetched] fetched(2) by simp_all
  have "length ?final = length reqs" using bt_length [OF final(1)] bt_length [OF reqs(1)] final(2) by simp
  then have "index_range_batch cfg limit schedule mapping to_virtual reqs tx
      = Some (?final, tx\<lparr>qt_reads := reads', qt_source := ?ti\<lparr>ti_snapshot := (ti_snapshot ?ti)\<lparr>snap_cache := c\<rparr>\<rparr>\<rparr>)"
    using start run by (simp add: index_range_batch_def Let_def)
  moreover have "transaction_source_ok parse S rows T seen ids index_of fs (?ti\<lparr>ti_snapshot := (ti_snapshot ?ti)\<lparr>snap_cache := c\<rparr>\<rparr>)"
    using snap T exact base table indexes cache by (simp add: transaction_source_ok_def transaction_exact_def)
  moreover have "reads_wf fs reads'" using reads' by (simp add: reads_ok_def reads_wf_def)
  moreover have "\<exists>a. bt_get ?final key = Some a \<and> fetch_answer (transaction_view seen index_of (sr_index_name req)) req a"
    if req: "bt_get reqs key = Some req" for key req
  proof -
    from physical [OF req] obtain n j where n: "sr_index_name req = Physical n" "index_of n = Some j" by blast
    from answers [of key "range_request_of req"] req obtain a where a: "bt_get fetched key = Some a"
      "\<forall>j. read_correctly ids rows ?ti (range_request_of req) j \<longrightarrow> transaction_answer (seen j) (\<exists>fs. schedule fs = None) (range_request_of req) a"
      by (auto simp: tf_get)
    have "read_correctly ids rows ?ti (range_request_of req) j"
      using indexes [rule_format, OF n(2)] n by (auto simp: read_correctly_def range_request_of_def select_def)
    with a(2) have "transaction_answer (seen j) (\<exists>fs. schedule fs = None) (range_request_of req) a" by blast
    from developer_page_answer [OF this] have "fetch_answer (transaction_view seen index_of (sr_index_name req)) req (developer_page to_virtual False a)"
      by (simp add: transaction_view_def n)
    moreover have "inj_on fst (set fetched)" using bt_distinct [OF fetched(1)] distinct_map by blast
    then have "bt_get ?final key = Some (developer_page to_virtual (?virtual key) a)"
      using fold_bt_insert_get [of fst fetched "(key, a)" "\<lambda>x. developer_page to_virtual (?virtual (fst x)) (snd x)" "[]"] a(1)
        bt_get_iff [OF fetched(1)] by (simp add: case_prod_unfold)
    ultimately show ?thesis using req n(1) by simp
  qed
  ultimately show ?thesis by (intro exI conjI) (assumption | simp)+
qed

definition batch_source_ok ::
    "'x index_parser \<Rightarrow> snapshot_store \<Rightarrow> index_rows \<Rightarrow> transaction_store
     \<Rightarrow> (internal_id \<Rightarrow> (bytes, write_timestamp \<times> resolved_document) btree) \<Rightarrow> internal_id set
     \<Rightarrow> (tablet_index_name \<Rightarrow> internal_id option) \<Rightarrow> (tablet_index_name \<Rightarrow> indexed_fields) \<Rightarrow> table_mapping \<Rightarrow> nat
     \<Rightarrow> ('e fetch_result list \<Rightarrow> 'e fetch_result list option) \<Rightarrow> ('x, 'e) transaction_index \<Rightarrow> bool" where
  "batch_source_ok parse S rows T seen ids index_of fs mapping limit schedule ti =
     ((\<forall>n. index_of n \<noteq> None \<longrightarrow> tablet_name mapping (fst n) \<noteq> None) \<and> 0 < limit \<and> permutes schedule
      \<and> transaction_source_ok parse S rows T seen ids index_of fs ti)"

interpretation transaction_source: range_source
    "env\<lparr>qe_fetch := index_range_batch cfg limit schedule mapping to_virtual\<rparr>"
    "batch_source_ok parse S rows T seen ids index_of fs mapping limit schedule" fs
    "transaction_view seen index_of" "transaction_serves index_of"
  for env :: "(('x, 'e) transaction_index, ('e, 'v) fetch_error) query_env" and cfg limit schedule mapping to_virtual
    and parse :: "'x index_parser" and S rows T seen ids index_of fs
proof
  fix tx :: "('x, 'e) transaction_index query_transaction" and reqs :: "(batch_key, stream_request) btree"
  assume "batch_source_ok parse S rows T seen ids index_of fs mapping limit schedule (qt_source tx)" and reads: "reads_wf fs (qt_reads tx)"
    and reqs: "bt_ok reqs" "\<forall>key req. bt_get reqs key = Some req \<longrightarrow> stream_request_ok (transaction_serves index_of) req"
  then have source: "transaction_source_ok parse S rows T seen ids index_of fs (qt_source tx)"
    and names: "\<forall>n. index_of n \<noteq> None \<longrightarrow> tablet_name mapping (fst n) \<noteq> None" and limit: "0 < limit" and schedule: "permutes schedule"
    by (simp_all add: batch_source_ok_def)
  show "\<exists>responses tx'. qe_fetch (env\<lparr>qe_fetch := index_range_batch cfg limit schedule mapping to_virtual\<rparr>) reqs tx = Some (responses, tx')
      \<and> batch_source_ok parse S rows T seen ids index_of fs mapping limit schedule (qt_source tx') \<and> reads_wf fs (qt_reads tx')
      \<and> (\<forall>key req. bt_get reqs key = Some req \<longrightarrow>
          (\<exists>a. bt_get responses key = Some a \<and> fetch_answer (transaction_view seen index_of (sr_index_name req)) req a))"
    using index_range_batch_correct [OF source reads names limit schedule reqs, of cfg to_virtual] names limit schedule
    by (simp add: batch_source_ok_def)
qed

section \<open>Properties\<close>


section \<open>Pages of a query\<close>

lemma contains_nothing [simp]: "\<not> Interval_contains Interval_empty k"
  using mem_points [of k Interval_empty] by simp

text \<open>Trimming an interval to the cursor after a row leaves what is behind the row.\<close>

lemma trimmed_after:
  assumes "Interval_contains (trimmed_interval iv ord ci) k" and "BinaryKey_increment k = Some k'"
  shows "trimmed_interval iv ord (ci\<lparr>curr_exclusive := Some (After k)\<rparr>) = snd (Interval_split (trimmed_interval iv ord ci) (After k) ord)"
  using assms
  by (cases ord; cases "curr_exclusive ci"; cases "end_inclusive ci")
    (auto simp: trimmed_interval_def Interval_split_def Interval_split_after_def Let_def split: cursor_position.splits option.splits)

lemma start_next_cursor:
  assumes ok: "stream_ok fs contents s" and run: "start_next env s reads hint = Some (Inr (Ready (Some x)), s', reads')"
  obtains k where "is_page s = (k, x) # is_page s'" and "is_cursors s' = (is_cursors s)\<lparr>curr_exclusive := Some (After k)\<rparr>"
  using ok
proof (cases rule: start_next_cases [where env = env and reads = reads and hint = hint])
  case (row index k d w rest)
  with run have "yield_row env index (k, d, w) (s\<lparr>is_page := rest\<rparr>) reads = Some (Inr (Ready (Some x)), s', reads')" by simp
  then have "x = (d, w)" "is_page s' = rest" "is_cursors s' = (is_cursors s)\<lparr>curr_exclusive := Some (After k)\<rparr>"
    by (auto simp: yield_row_def Let_def split: option.splits sum.splits if_splits prod.splits)
  with row(2) that show ?thesis by simp
next
  case (finished index ci)
  with run show ?thesis by (auto split: sum.splits)
qed (use run in auto)

lemma row_key_increment: "BinaryKey_increment (row_key fs d) \<noteq> None"
proof -
  have "STRING_TAG \<in> set (row_key fs d)"
    unfolding row_key_values by (auto simp: values_to_bytes_def optional_key_def id_value_def)
  moreover have "STRING_TAG \<noteq> 255" by (simp add: STRING_TAG_def)
  ultimately show ?thesis unfolding increment_None_iff by blast
qed

text \<open>C37. A page ends with a cursor from which the query resumes: after a row, a stream that starts again from
  the cursor, over the same interval and up to the same end cursor, has the same rows to come as the
  stream that goes on, also when the end cursor lies before the end of the interval or the
  stream itself started from a cursor.\<close>

theorem pagination_resumes:
  assumes T: "store_ok T" "index_contents T t f m" and s: "stream_ok fs contents s" "contents (is_index s) = developer_view m"
    and index: "tablet_index_name_of (is_index s) = Some (t, n)" and wf: "reads_wf fs reads"
    and initial: "is_initial s = trimmed_interval iv (is_order s) ci" "end_inclusive (is_cursors s) = end_inclusive ci"
    and run: "start_next env s reads hint = Some (Inr (Ready (Some x)), s', reads')"
  shows "rows_to_come (developer_view m)
       (IndexStream_new env' (is_index s) table iv (is_order s) (is_fields s) (is_cursors s') max_rows max_bytes compute_split)
     = rows_to_come (developer_view m) s'"
proof -
  let ?m = "developer_view m" and ?ord = "is_order s"
  have m: "bt_ok ?m" "prefix_free ?m" using s by (simp_all add: stream_ok_def view_ok_def)
  obtain k where k: "is_page s = (k, x) # is_page s'" "is_cursors s' = (is_cursors s)\<lparr>curr_exclusive := Some (After k)\<rparr>"
    by (rule start_next_cursor [OF s(1) run])
  obtain res s1 reads1 where next1: "start_next env s reads hint = Some (res, s1, reads1)" "same_stream s s1"
    by (rule start_next_correct [OF s(1) wf, where env = env and hint = hint])
  have same: "same_stream s s'" using run next1 by simp
  have come: "rows_to_come ?m s = (k, x) # rows_to_come ?m s'" using k(1) same by (simp add: rows_to_come_def same_stream_def)
  obtain pre where "all_rows ?m s = pre @ rows_to_come ?m s" using s by (auto simp: stream_ok_def suffix_def)
  with come obtain xs e ys where rows: "interval_rows ?ord (is_initial s) ?m = xs @ e # ys" "row_of e = (k, x)"
    "map row_of ys = rows_to_come ?m s'" unfolding all_rows_def by (auto simp: map_eq_append_conv map_eq_Cons_conv)
  have key: "fst e = k" using rows(2) by (metis fst_row_of fst_conv)
  have "e \<in> set (interval_rows ?ord (is_initial s) ?m)" using rows(1) by simp
  then have e: "e \<in> set ?m" "Interval_contains (is_initial s) k" using key by simp_all
  obtain w d where "e = (k, w, d)" using key by (cases e) auto
  with e(1) contents_mem [OF T(2)] obtain d' where "k = row_key f d'" by (auto simp: mem_developer_view)
  with row_key_increment obtain k' where "BinaryKey_increment k = Some k'" by blast
  from trimmed_after [OF e(2) [unfolded initial(1)] this]
  have "trimmed_interval iv ?ord (is_cursors s') = snd (Interval_split (is_initial s) (After k) ?ord)"
    unfolding k(2) initial(1) using initial(2) by (simp add: trimmed_interval_def)
  moreover have "interval_rows ?ord (snd (Interval_split (is_initial s) (After k) ?ord)) ?m = ys"
    using rows_after_row [OF m rows(1)] key by simp
  ultimately show ?thesis by (simp add: rows_to_come_def IndexStream_new_def Let_def rows(3))
qed

section \<open>A new query\<close>

fun operators_result ::
    "float_ops \<Rightarrow> query_operator list \<Rightarrow> (developer_document \<times> write_timestamp) list \<Rightarrow> (developer_document \<times> write_timestamp) list" where
  "operators_result fl [] rows = rows"
| "operators_result fl (Filter e # ops) rows = operators_result fl ops (filter (passes fl e) rows)"
| "operators_result fl (Limit n # ops) rows = operators_result fl ops (take n rows)"

definition operators_total :: "float_ops \<Rightarrow> query_operator list \<Rightarrow> bool" where
  "operators_total fl ops = (\<forall>e. Filter e \<in> set ops \<longrightarrow>
     (\<forall>d :: developer_document. bind_result (eval fl (doc_value d) e) into_boolean \<noteq> Inl ArithmeticPanic))"

lemma apply_operators_correct:
  "node_ok fl fs contents node \<Longrightarrow> operators_total fl ops \<Longrightarrow>
     node_ok fl fs contents (apply_operators ops node) \<and> node_index (apply_operators ops node) = node_index node
     \<and> upcoming fl contents (apply_operators ops node) = operators_result fl ops (upcoming fl contents node)"
  by (induction ops node rule: apply_operators.induct) (auto simp: operators_total_def)

lemma new_stream_ok:
  assumes "view_ok (contents (Physical n))" and "fs n = f"
  shows "stream_ok fs contents (IndexStream_new env (Physical n) table iv ord f \<lparr>curr_exclusive = None, end_inclusive = None\<rparr> a b c)"
    and "rows_to_come v (IndexStream_new env (Physical n) table iv ord f \<lparr>curr_exclusive = None, end_inclusive = None\<rparr> a b c)
      = map row_of (interval_rows ord iv v)"
  using assms by (simp_all add: stream_ok_def IndexStream_new_def rows_to_come_def all_rows_def trimmed_interval_def)

text \<open>The documents of a table hold their id.\<close>

definition holds_id :: "resolved_document \<Rightarrow> bool" where
  "holds_id d = (ConvexObject_get_path (document_value d) ID_FIELD_PATH = Some (id_value (doc_id (document d))))"

definition literals_apart :: "index_range_expression list \<Rightarrow> resolved_document \<Rightarrow> bool" where
  "literals_apart exprs d = (\<forall>x \<in> set exprs. optional_ok (range_literal x)
     \<and> \<not> zero_extends (range_literal x) (ConvexObject_get_path (document_value d) (range_field x)))"

lemma row_key_selected:
  assumes iv: "IndexRange_compile exprs f = Inr iv" and d: "holds_id d" "key_ok (ObjectV (document_value d))" "literals_apart exprs d"
  shows "Interval_contains iv (row_key f d) \<longleftrightarrow> passes fl (AndE (map range_filter exprs)) (document d, w)"
proof -
  have key: "row_key f d = values_to_bytes (map (ConvexObject_get_path (document_value d)) (IndexedFields_iter_with_id f))"
    using d(1) by (simp add: row_key_def IndexKey_into_bytes_def ResolvedDocument_index_key_def IndexKey_new_allow_missing_def
        indexed_values_def IndexedFields_iter_with_id_def holds_id_def)
  have "Interval_contains iv (row_key f d) \<longleftrightarrow> (\<forall>x \<in> set exprs. range_holds (ConvexObject_get_path (document_value d)) x)"
    unfolding key using d by (intro compile_selects [OF iv]) (auto simp: literals_apart_def get_path_ok)
  then show ?thesis by (simp add: passes_def eval_filters into_boolean_def)
qed


section \<open>Examples\<close>

abbreviation example_env :: "((unit, unit) transaction_index, (unit, unit) fetch_error) query_env" where
  "example_env \<equiv>
     \<lparr>qe_config = example_read_config\<lparr>max_read_size_bytes := 1000\<rparr>, qe_max_rows = 100, qe_max_bytes = 1000,
      qe_floats = \<lparr>float_op = \<lambda>_ l _. l\<rparr>, qe_is_virtual = \<lambda>_. False, qe_component_known = True,
      qe_search = \<lambda>_ _ tx. (Inr [], tx), qe_table_number = \<lambda>_. Inr 1, qe_get_with_ts = \<lambda>_ tx. (Inr None, tx),
      qe_fetch = \<lambda>_ _. None, qe_fingerprint = \<lambda>_ _. Inr []\<rparr>"

abbreviation example_cursors :: cursor_interval where
  "example_cursors \<equiv> \<lparr>curr_exclusive = None, end_inclusive = None\<rparr>"

abbreviation example_rows :: "(bytes, write_timestamp \<times> resolved_document) btree" where
  "example_rows \<equiv> [(fst example_row, Committed 1, snd (snd example_row))]"

abbreviation example_stream :: index_stream where
  "example_stream \<equiv> IndexStream_new example_env (Physical (IndexName_by_id [0])) [] Interval_all Asc [] example_cursors None None False"

abbreviation example_fetched :: index_stream where
  "example_fetched \<equiv> example_stream\<lparr>is_page := map row_of (developer_view example_rows), is_unfetched := Interval_empty\<rparr>"

lemma select_all: "select Interval_all m = m"
proof -
  have "Interval_contains Interval_all k" for k by (simp add: Interval_all_def Interval_contains_def BinaryKey_min_def)
  then show ?thesis by (simp add: select_def)
qed

lemma example_store: "store_ok (begun example_snapshot)" "index_contents (begun example_snapshot) [0] [] example_rows"
proof -
  show "store_ok (begun example_snapshot)" by (rule begun_ok) (rule example_store_ok)
  show "index_contents (begun example_snapshot) [0] [] example_rows"
    by (auto simp: index_contents_def begun_def example_snapshot_def bt_get_def example_meta_id_def example_row_def)
qed

lemma example_view: "view_ok (developer_view example_rows)"
  using contents_ok [OF example_store(2)] contents_prefix_free [OF example_store] by (rule developer_view_ok)

lemma example_fetched_ok: "stream_ok (\<lambda>_. []) (\<lambda>_. developer_view example_rows) example_fetched"
  using example_view
  by (simp add: stream_ok_def IndexStream_new_def rows_to_come_def all_rows_def trimmed_interval_def select_all
      interval_rows_def select_nothing)

lemma record_fresh:
  obtains n rs where "record_indexed_inner cfg index f [iv] ReadSet_empty = Some ((0, n), rs)" and "n \<le> 1"
proof -
  have "\<exists>s. IntervalSet_add IntervalSet_new iv = Some s \<and> IntervalSet_len s \<le> 1"
    by (auto simp: IntervalSet_add_def IntervalSet_new_def IntervalSet_len_def intersecting_or_adjacent_def)
  then show ?thesis using that
    by (auto simp: record_indexed_inner_def ReadSet_empty_def get_or_def bt_get_def IntervalSet_new_def IntervalSet_len_def)
qed

lemma example_next:
  obtains x s' reads' where "start_next example_env example_fetched TransactionReadSet_new None = Some (Inr (Ready (Some x)), s', reads')"
proof -
  let ?k = "fst example_row" and ?d = "document (snd (snd example_row))"
  obtain n rs where rs: "record_indexed_inner (qe_config example_env) (IndexName_by_id [0]) []
      [fst (Interval_split Interval_all (After ?k) Asc)] ReadSet_empty = Some ((0, n), rs)" "n \<le> 1"
    by (rule record_fresh)
  have size: "DeveloperDocument_size ?d \<le> 1000" by code_simp
  have system: "\<not> TableName_is_system []" by code_simp
  have "\<exists>s' reads'. start_next example_env example_fetched TransactionReadSet_new None = Some (Inr (Ready (Some (?d, Committed 1))), s', reads')"
    using rs size system
    by (simp add: start_next_def IndexStream_new_def trimmed_interval_def enforce_limits_def developer_view_def yield_row_def
        record_used_def record_indexed_directly_def UserFacing_record_read_document_def record_read_document_def
        TransactionReadSet_new_def count_document_def zero_read_size_def Let_def)
  with that show ?thesis by blast
qed

lemma reads_new_wf: "reads_wf fs TransactionReadSet_new"
  by (simp add: reads_wf_def TransactionReadSet_new_def read_set_empty_ok)

lemma example_names: "is_index example_fetched = Physical (IndexName_by_id [0])" "is_order example_fetched = Asc"
  "is_initial example_fetched = Interval_all" "is_cursors example_fetched = example_cursors"
  by (simp_all add: IndexStream_new_def trimmed_interval_def Let_def)

theorem stream_results_determined_witness:
  "\<exists>x s' reads' returned. start_next example_env example_fetched TransactionReadSet_new None = Some (Inr (Ready (Some x)), s', reads')
    \<and> prefix returned (all_rows (developer_view example_rows) example_fetched) \<and> returned \<noteq> [] \<and> snd (last returned) = x"
proof -
  obtain x s' reads' where run: "start_next example_env example_fetched TransactionReadSet_new None = Some (Inr (Ready (Some x)), s', reads')"
    by (rule example_next)
  have view: "(\<lambda>_. developer_view example_rows) (is_index example_fetched) = developer_view example_rows" ..
  have index: "tablet_index_name_of (is_index example_fetched) = Some ([0], snd (IndexName_by_id [0]))"
    by (simp only: example_names tablet_index_name_of.simps) (simp add: IndexName_by_id_def)
  have "differ_unread senv reads' (begun example_snapshot) (begun example_snapshot)" for senv by (simp add: differ_unread_def)
  from stream_results_determined [where fs = "\<lambda>_. []", OF example_store(1) example_store(1) example_store(2) example_store(2)
      example_fetched_ok view index refl reads_new_wf run this]
  show ?thesis using run by auto
qed

theorem pagination_resumes_witness:
  "\<exists>x s' reads'. start_next example_env example_fetched TransactionReadSet_new None = Some (Inr (Ready (Some x)), s', reads')
    \<and> rows_to_come (developer_view example_rows)
        (IndexStream_new example_env (Physical (IndexName_by_id [0])) [] Interval_all Asc [] (is_cursors s') None None False)
      = rows_to_come (developer_view example_rows) s'"
proof -
  obtain x s' reads' where run: "start_next example_env example_fetched TransactionReadSet_new None = Some (Inr (Ready (Some x)), s', reads')"
    by (rule example_next)
  have view: "(\<lambda>_. developer_view example_rows) (is_index example_fetched) = developer_view example_rows" ..
  have index: "tablet_index_name_of (is_index example_fetched) = Some ([0], snd (IndexName_by_id [0]))"
    by (simp only: example_names tablet_index_name_of.simps) (simp add: IndexName_by_id_def)
  have initial: "is_initial example_fetched = trimmed_interval Interval_all (is_order example_fetched) example_cursors"
    "end_inclusive (is_cursors example_fetched) = end_inclusive example_cursors"
    by (simp_all only: example_names) (simp_all add: trimmed_interval_def)
  have "is_fields example_fetched = []" by (simp add: IndexStream_new_def Let_def)
  with pagination_resumes [OF example_store example_fetched_ok view index reads_new_wf initial run, of example_env "[]" None None False]
  show ?thesis using run by (simp only: example_names) blast
qed

abbreviation example_index_of :: "tablet_index_name \<Rightarrow> internal_id option" where
  "example_index_of \<equiv> \<lambda>n. if n = IndexName_by_id [0] then Some (replicate 16 1) else None"

abbreviation example_mapping :: table_mapping where
  "example_mapping \<equiv> TableMapping_new\<lparr>tablet_to_table := [([0], (Global, 1, [95]))]\<rparr>"

abbreviation example_query :: developer_query where
  "example_query \<equiv> \<lparr>dq_root = LimitNode (RangeNode example_stream) 1 0, dq_fingerprint = None, dq_end_cursor = None\<rparr>"

abbreviation example_batch :: query_batch where
  "example_batch \<equiv> [(4, example_query, Some 3), (0, example_query, None)]"

lemma example_source_ok:
  "batch_source_ok example_parse example_snapshot (\<lambda>_. [example_row]) (begun example_snapshot) (\<lambda>_. example_rows) {replicate 16 1}
     example_index_of (\<lambda>_. []) example_mapping 100 (\<lambda>fs. Some (rev fs)) example_transaction"
proof -
  have name: "map_option ix_id (get_enabled example_registry (IndexName_by_id [0])) = Some (replicate 16 1)"
    by (simp add: get_enabled_def example_registry_def registry_insert_def registry_empty_def Index_new_def
        IndexMetadata_new_enabled_def IndexConfig_is_enabled_def bt_get_def Let_def example_meta_id_def)
  have fields: "ti_registry example_transaction = example_registry" "ti_snapshot_registry example_transaction = example_registry"
    "ti_updates example_transaction = []" "snap_in_memory (ti_snapshot example_transaction) = []"
    "snap_persistence (ti_snapshot example_transaction) = example_scan" "snap_cache (ti_snapshot example_transaction) = cache_new"
    by (simp_all add: TransactionIndex_new_def)
  have "transaction_source_ok example_parse example_snapshot (\<lambda>_. [example_row]) (begun example_snapshot) (\<lambda>_. example_rows) {replicate 16 1}
     example_index_of (\<lambda>_. []) example_transaction"
    unfolding transaction_source_ok_def fields
    using example_snapshot_ok cache_new_ok example_store(1) example_represents example_seen example_begun example_base name
    by (simp add: in_memory_view_def bt.get_emp persistence_ok_def scans_def streams_def example_scan_def documents_of_begun
        example_documents get_or_def)
  then show ?thesis
    by (simp add: batch_source_ok_def permutes_def tablet_name_def TableMapping_new_def bt_get_def IndexName_by_id_def)
qed


abbreviation example_range :: index_range where
  "example_range \<equiv> \<lparr>range_index_name = ([95], [98]), range_exprs = [GtR [[97]] (Int64 3), LteR [[97]] (Int64 9)], range_order = Desc\<rparr>"

abbreviation example_fields :: indexed_fields where
  "example_fields \<equiv> [[[97]]]"

abbreviation example_table :: transaction_store where
  "example_table \<equiv> (\<lambda>_. None)(example_id := Some (Pending, example_document (Int64 5)))"

lemma example_document_stored: "stored_document_ok (example_document (Int64 5))"
proof -
  have "key_ok (ObjectV (document_value (example_document (Int64 5))))"
    by (simp add: example_document_def ascii_def ID_FIELD_def CREATION_TIME_FIELD_def key_name_def id_value_def
        is_valid_field_name_def check_valid_field_name_inner_def MAX_FIELD_NAME_LENGTH_def is_ascii_def is_ascii_control_def)
  moreover have "PackedDocument_unpack (PackedDocument_pack (example_document (Int64 5))) = Some (example_document (Int64 5))" by code_simp
  moreover have "document_id_ok (doc_id (document (example_document (Int64 5))))" using example_id_ok by (simp add: example_document_def)
  ultimately show ?thesis by (simp add: stored_document_ok_def)
qed


end
