(* ===== verification/Shape_Inference.thy ===== *)
theory Shape_Inference
  imports Convex_Object Document_Id
begin

text \<open>
  The shapes of the \<open>shape_inference\<close> crate: the type of a shape and of its counters
  (\<open>lib.rs\<close>, \<open>array.rs\<close>, \<open>set.rs\<close>, \<open>map.rs\<close>, \<open>object.rs\<close>, \<open>union.rs\<close>), the membership
  test (\<open>contains.rs\<close>), the shapes of single floats and strings (\<open>float64.rs\<close>, \<open>string.rs\<close>,
  \<open>config.rs\<close>) and the conversion that forgets the counters.

  A shape is a pair of a variant and a counter, as the struct is; the type variable \<open>'s\<close> is the
  \<open>ShapeCounter\<close>.  The type parameter for the configuration only chooses constants and is fixed to
  \<open>ProdConfigWithOptionalFields\<close>, the one configuration outside tests.
\<close>

declare split_paired_All [simp del] split_paired_Ex [simp del]

section \<open>Loops that stop at the first error\<close>

fun try_each :: "('a \<Rightarrow> 'e + unit) \<Rightarrow> 'a list \<Rightarrow> 'e + unit" where
  "try_each f [] = Inr ()"
| "try_each f (x # xs) = bind_result (f x) (\<lambda>_. try_each f xs)"

lemma try_each_cong [fundef_cong]:
  "xs = ys \<Longrightarrow> (\<And>x. x \<in> set ys \<Longrightarrow> f x = g x) \<Longrightarrow> try_each f xs = try_each g ys"
  by (induction xs arbitrary: ys) (auto simp: bind_result_def split: sum.splits)

lemma is_ok_bind [simp]: "is_ok (bind_result r f) \<longleftrightarrow> (case r of Inl _ \<Rightarrow> False | Inr x \<Rightarrow> is_ok (f x))"
  by (cases r) auto

lemma is_ok_bind_unit: "is_ok (bind_result r (\<lambda>_. q)) \<longleftrightarrow> is_ok r \<and> is_ok q"
  by (cases r) auto

lemma is_ok_try_each [simp]: "is_ok (try_each f xs) \<longleftrightarrow> (\<forall>x \<in> set xs. is_ok (f x))"
  by (induction xs) (simp_all add: is_ok_bind_unit del: is_ok_bind)

lemma bt_get_member: "bt_get m k = Some v \<Longrightarrow> (k, v) \<in> set m"
  by (simp add: bt_get_def map_of_SomeD)

section \<open>Shapes\<close>

datatype 'a object_field = ObjectField (value_shape: 'a) (field_optional: bool)

datatype 's shape_enum =
    S_Never | S_Null | S_Int64 | S_NegativeInf | S_PositiveInf | S_NegativeZero | S_NaN
  | S_NormalFloat64 | S_Float64 | S_Boolean
  | S_StringLiteral bytes
  | S_Id table_number
  | S_FieldName | S_String | S_Bytes
  | S_Array "'s shape_enum \<times> 's"
  | S_Set "'s shape_enum \<times> 's"
  | S_Map "'s shape_enum \<times> 's" "'s shape_enum \<times> 's"
  | S_Object "(field_name \<times> ('s shape_enum \<times> 's) object_field) list"
  | S_Record "'s shape_enum \<times> 's" "'s shape_enum \<times> 's"
  | S_Union "('s shape_enum \<times> 's) list"
  | S_Unknown

type_synonym 's shape = "'s shape_enum \<times> 's"

abbreviation shape_variant :: "'s shape \<Rightarrow> 's shape_enum" where "shape_variant \<equiv> fst"

abbreviation shape_num_values :: "'s shape \<Rightarrow> 's" where "shape_num_values \<equiv> snd"

fun ShapeEnum_is_empty :: "'s shape_enum \<Rightarrow> bool" where
  "ShapeEnum_is_empty S_Never = True"
| "ShapeEnum_is_empty _ = False"

section \<open>Floats and strings\<close>

definition f64_is_nan :: "u64 \<Rightarrow> bool" where
  "f64_is_nan f = (f AND 0x7FFFFFFFFFFFFFFF > 0x7FF0000000000000)"

definition Float64Shape_shape_of :: "u64 \<Rightarrow> 's shape_enum" where
  "Float64Shape_shape_of f =
     (if f64_is_nan f then S_NaN
      else if f = 0x7FF0000000000000 then S_PositiveInf
      else if f = 0xFFF0000000000000 then S_NegativeInf
      else if total_cmp f 0x8000000000000000 = Equal then S_NegativeZero
      else S_NormalFloat64)"

definition is_valid_string_literal :: "bytes \<Rightarrow> bool" where
  "is_valid_string_literal s = is_valid_identifier s"

definition StringLiteralShape_shape_of :: "bytes \<Rightarrow> 's shape_enum" where
  "StringLiteralShape_shape_of s =
     (if is_valid_string_literal s then S_StringLiteral s
      else case DeveloperDocumentId_decode s of
        Inr i \<Rightarrow> S_Id (id_table i)
      | Inl _ \<Rightarrow> if is_valid_field_name s then S_FieldName else S_String)"

section \<open>Membership\<close>

lemma size_shape_fst [termination_simp]: "size (fst t) < Suc (size_prod size f t)"
  by (cases t) auto

lemma size_shape_list [termination_simp]:
  "t \<in> set ts \<Longrightarrow> size (fst t) < Suc (size_list (size_prod size f) ts)"
  by (induction ts) (auto simp: size_shape_fst)

lemma size_shape_object [termination_simp]:
  "bt_get fs k = Some w \<Longrightarrow>
     size (fst (value_shape w)) < Suc (size_list (\<lambda>x. Suc (size_object_field (\<lambda>x. Suc (size (fst x))) (snd x))) fs)"
proof (induction fs)
  case (Cons x fs)
  then show ?case by (cases x; cases w) (auto simp: bt_get_def split: if_splits)
qed (simp add: bt_get_def)

function contains :: "'s shape_enum \<Rightarrow> convex_value \<Rightarrow> bool" where
  "contains t v =
     (case (v, t) of
        (_, S_Never) \<Rightarrow> False
      | (Null, S_Null) \<Rightarrow> True
      | (Int64 _, S_Int64) \<Rightarrow> True
      | (Float64 _, S_Float64) \<Rightarrow> True
      | (Float64 f, S_NegativeInf) \<Rightarrow> Float64Shape_shape_of f = t
      | (Float64 f, S_PositiveInf) \<Rightarrow> Float64Shape_shape_of f = t
      | (Float64 f, S_NegativeZero) \<Rightarrow> Float64Shape_shape_of f = t
      | (Float64 f, S_NaN) \<Rightarrow> Float64Shape_shape_of f = t
      | (Float64 f, S_NormalFloat64) \<Rightarrow> Float64Shape_shape_of f = t
      | (Boolean _, S_Boolean) \<Rightarrow> True
      | (StringV s, S_StringLiteral literal) \<Rightarrow> s = literal
      | (StringV s, S_Id table) \<Rightarrow>
          (case DeveloperDocumentId_decode s of Inr i \<Rightarrow> id_table i = table | Inl _ \<Rightarrow> False)
      | (StringV s, S_FieldName) \<Rightarrow> is_ok (FieldName_from_str s)
      | (StringV _, S_String) \<Rightarrow> True
      | (BytesV _, S_Bytes) \<Rightarrow> True
      | (ArrayV xs, S_Array element) \<Rightarrow> list_all (contains (fst element)) xs
      | (SetV xs, S_Set element) \<Rightarrow> list_all (contains (fst element)) xs
      | (MapV kvs, S_Map key val) \<Rightarrow>
          list_all (\<lambda>(k, w). contains (fst key) k \<and> contains (fst val) w) kvs
      | (ObjectV obj, S_Object fs) \<Rightarrow>
          list_all (\<lambda>(f, w).
            case bt_get fs f of
              None \<Rightarrow> False
            | Some fld \<Rightarrow> contains (fst (value_shape fld)) w) obj
          \<and> list_all (\<lambda>(f, fld). \<not> (\<not> field_optional fld \<and> bt_get obj f = None)) fs
      | (ObjectV obj, S_Record key val) \<Rightarrow>
          list_all (\<lambda>(k, w). contains (fst key) (StringV k) \<and> contains (fst val) w) obj
      | (_, S_Union ts) \<Rightarrow> list_ex (\<lambda>u. contains (fst u) v) ts
      | (_, S_Unknown) \<Rightarrow> True
      | _ \<Rightarrow> False)"
  by pat_completeness auto
termination
  by (relation "measure (\<lambda>(t, _). size t)") (auto simp: termination_simp)

declare contains.simps [simp del]

section \<open>Subtyping\<close>

lemma size_literal_shape: "size (StringLiteralShape_shape_of s) \<le> 1"
  by (auto simp: StringLiteralShape_shape_of_def split: sum.splits)

lemma size_shape_member [termination_simp]:
  "(f, w) \<in> set fs \<Longrightarrow>
     size (fst (value_shape w)) < Suc (size_list (\<lambda>x. Suc (size_object_field (\<lambda>x. Suc (size (fst x))) (snd x))) fs)"
proof (induction fs)
  case (Cons x fs)
  then show ?case by (cases x; cases w) auto
qed simp

function is_subtype :: "'s shape_enum \<Rightarrow> 's shape_enum \<Rightarrow> bool" where
  "is_subtype t u =
     (case (t, u) of
        (S_Never, _) \<Rightarrow> True
      | (S_Null, S_Null) \<Rightarrow> True
      | (S_Int64, S_Int64) \<Rightarrow> True
      | (S_Boolean, S_Boolean) \<Rightarrow> True
      | (S_Bytes, S_Bytes) \<Rightarrow> True
      | (S_StringLiteral s, S_StringLiteral other) \<Rightarrow> s = other
      | (S_StringLiteral s, S_Id table) \<Rightarrow>
          (case DeveloperDocumentId_decode s of Inr i \<Rightarrow> id_table i = table | Inl _ \<Rightarrow> False)
      | (S_StringLiteral s, S_FieldName) \<Rightarrow> is_ok (FieldName_from_str s)
      | (S_StringLiteral _, S_String) \<Rightarrow> True
      | (S_Id table, S_Id other) \<Rightarrow> table = other
      | (S_Id _, S_FieldName) \<Rightarrow> True
      | (S_Id _, S_String) \<Rightarrow> True
      | (S_FieldName, S_FieldName) \<Rightarrow> True
      | (S_FieldName, S_String) \<Rightarrow> True
      | (S_String, S_String) \<Rightarrow> True
      | (S_NegativeInf, S_NegativeInf) \<Rightarrow> True
      | (S_NegativeInf, S_Float64) \<Rightarrow> True
      | (S_PositiveInf, S_PositiveInf) \<Rightarrow> True
      | (S_PositiveInf, S_Float64) \<Rightarrow> True
      | (S_NegativeZero, S_NegativeZero) \<Rightarrow> True
      | (S_NegativeZero, S_Float64) \<Rightarrow> True
      | (S_NaN, S_NaN) \<Rightarrow> True
      | (S_NaN, S_Float64) \<Rightarrow> True
      | (S_NormalFloat64, S_NormalFloat64) \<Rightarrow> True
      | (S_NormalFloat64, S_Float64) \<Rightarrow> True
      | (S_Float64, S_Float64) \<Rightarrow> True
      | (S_Array a, S_Array b) \<Rightarrow> is_subtype (fst a) (fst b)
      | (S_Set a, S_Set b) \<Rightarrow> is_subtype (fst a) (fst b)
      | (S_Map k w, S_Map k' w') \<Rightarrow> is_subtype (fst k) (fst k') \<and> is_subtype (fst w) (fst w')
      | (S_Object fs, S_Object gs) \<Rightarrow>
          list_all (\<lambda>(f, fld).
            case bt_get gs f of
              None \<Rightarrow> False
            | Some other \<Rightarrow>
                \<not> (field_optional fld \<and> \<not> field_optional other)
                \<and> is_subtype (fst (value_shape fld)) (fst (value_shape other))) fs
          \<and> list_all (\<lambda>(f, fld). \<not> (bt_get fs f = None \<and> \<not> field_optional fld)) gs
      | (S_Object fs, S_Record k w) \<Rightarrow>
          list_all (\<lambda>(f, fld).
            is_subtype (StringLiteralShape_shape_of f) (fst k)
            \<and> is_subtype (fst (value_shape fld)) (fst w)) fs
      | (S_Record k w, S_Record k' w') \<Rightarrow> is_subtype (fst k) (fst k') \<and> is_subtype (fst w) (fst w')
      | (S_Union ts, _) \<Rightarrow> list_all (\<lambda>x. is_subtype (fst x) u) ts
      | (_, S_Union us) \<Rightarrow> list_ex (\<lambda>x. is_subtype t (fst x)) us
      | (_, S_Unknown) \<Rightarrow> True
      | _ \<Rightarrow> False)"
  by pat_completeness auto
termination
  apply (relation "measure (\<lambda>(t, u). size t + size u)")
                      apply (auto simp: termination_simp)
   apply (drule (1) add_strict_mono [OF size_shape_member size_shape_object])
   apply simp
   apply (rule le_less_trans [OF size_literal_shape])
   apply simp
  apply (drule size_shape_member)
  apply simp
  done

declare is_subtype.simps [simp del]

section \<open>Overlap\<close>

definition may_overlap :: "'s shape_enum \<Rightarrow> 's shape_enum \<Rightarrow> bool" where
  "may_overlap t u =
     (t = u \<or>
      (case (t, u) of
         (S_Array _, S_Array _) \<Rightarrow> True
       | (S_Set _, S_Set _) \<Rightarrow> True
       | (S_Map _ _, S_Map _ _) \<Rightarrow> True
       | (S_Record _ _, S_Record _ _) \<Rightarrow> True
       | (S_Object fs, S_Object gs) \<Rightarrow>
           let left_disjoint = list_ex (\<lambda>(f, fld). \<not> field_optional fld \<and> bt_get gs f = None) fs;
               right_disjoint = list_ex (\<lambda>(f, fld). \<not> field_optional fld \<and> bt_get fs f = None) gs
           in \<not> (left_disjoint \<or> right_disjoint)
       | (S_Object _, S_Record _ _) \<Rightarrow> True
       | (S_Record _ _, S_Object _) \<Rightarrow> True
       | (S_Union _, _) \<Rightarrow> True
       | (_, S_Union _) \<Rightarrow> True
       | (S_Unknown, _) \<Rightarrow> True
       | (_, S_Unknown) \<Rightarrow> True
       | _ \<Rightarrow> False))"

section \<open>Subtypes and overlaps as sets of values\<close>

lemma contains_literal_shape: "contains (StringLiteralShape_shape_of s) (StringV s)"
  by (auto simp: contains.simps StringLiteralShape_shape_of_def FieldName_from_str_def is_valid_field_name_def
      split: sum.splits)

lemma contains_float_shape: "contains (Float64Shape_shape_of f) (Float64 f)"
  by (auto simp: contains.simps Float64Shape_shape_of_def)

lemma decode_base32: "DeveloperDocumentId_decode s = Inr i \<Longrightarrow> is_ok (base32_decode s)"
  by (auto simp: DeveloperDocumentId_decode_def split: if_splits sum.splits)

lemma char_offset_plain: "char_offset b \<noteq> None \<Longrightarrow> is_ascii b \<and> \<not> is_ascii_control b \<and> b \<noteq> 36"
  by (auto simp: char_offset_def is_ascii_def is_ascii_control_def word_le_nat_alt word_less_nat_alt split: if_splits)

lemma id_is_field_name:
  assumes "DeveloperDocumentId_decode s = Inr i"
  shows "is_ok (FieldName_from_str s)"
proof -
  have "\<forall>b \<in> set s. char_offset b \<noteq> None"
    using decode_base32 [OF assms] base32_decode_errors [of s] by (simp add: list_all_iff)
  then have "\<forall>b \<in> set s. is_ascii b \<and> \<not> is_ascii_control b \<and> b \<noteq> 36"
    using char_offset_plain by blast
  moreover have "length s \<le> MAX_FIELD_NAME_LENGTH"
    using assms by (auto simp: DeveloperDocumentId_decode_def MAX_BASE32_LEN_def encoded_len_def
        MAX_FIELD_NAME_LENGTH_def Let_def not_less split: if_splits)
  ultimately show ?thesis
    by (auto simp: FieldName_from_str_def check_valid_field_name_inner_def)
qed

lemma contains_leaf [simp]:
  "contains S_Never v \<longleftrightarrow> False"
  "contains S_Null v \<longleftrightarrow> v = Null"
  "contains S_Int64 v \<longleftrightarrow> (\<exists>i. v = Int64 i)"
  "contains S_Float64 v \<longleftrightarrow> (\<exists>f. v = Float64 f)"
  "contains S_Boolean v \<longleftrightarrow> (\<exists>b. v = Boolean b)"
  "contains (S_StringLiteral s) v \<longleftrightarrow> v = StringV s"
  "contains (S_Id n) v \<longleftrightarrow> (\<exists>s i. v = StringV s \<and> DeveloperDocumentId_decode s = Inr i \<and> id_table i = n)"
  "contains S_FieldName v \<longleftrightarrow> (\<exists>s. v = StringV s \<and> is_ok (FieldName_from_str s))"
  "contains S_String v \<longleftrightarrow> (\<exists>s. v = StringV s)"
  "contains S_Bytes v \<longleftrightarrow> (\<exists>s. v = BytesV s)"
  "contains S_Unknown v"
  for v
  by (subst contains.simps, cases v; simp split: sum.splits)+

lemma contains_float [simp]:
  "contains (S_NegativeInf :: 's shape_enum) v \<longleftrightarrow> (\<exists>f. v = Float64 f \<and> Float64Shape_shape_of f = (S_NegativeInf :: 's shape_enum))"
  "contains (S_PositiveInf :: 's shape_enum) v \<longleftrightarrow> (\<exists>f. v = Float64 f \<and> Float64Shape_shape_of f = (S_PositiveInf :: 's shape_enum))"
  "contains (S_NegativeZero :: 's shape_enum) v \<longleftrightarrow> (\<exists>f. v = Float64 f \<and> Float64Shape_shape_of f = (S_NegativeZero :: 's shape_enum))"
  "contains (S_NaN :: 's shape_enum) v \<longleftrightarrow> (\<exists>f. v = Float64 f \<and> Float64Shape_shape_of f = (S_NaN :: 's shape_enum))"
  "contains (S_NormalFloat64 :: 's shape_enum) v \<longleftrightarrow> (\<exists>f. v = Float64 f \<and> Float64Shape_shape_of f = (S_NormalFloat64 :: 's shape_enum))"
  for v
  by (subst contains.simps, cases v; simp)+

lemma contains_container [simp]:
  "contains (S_Array e) v \<longleftrightarrow> (\<exists>xs. v = ArrayV xs \<and> (\<forall>x \<in> set xs. contains (fst e) x))"
  "contains (S_Set e) v \<longleftrightarrow> (\<exists>xs. v = SetV xs \<and> (\<forall>x \<in> set xs. contains (fst e) x))"
  "contains (S_Map k w) v \<longleftrightarrow> (\<exists>kvs. v = MapV kvs \<and> (\<forall>(x, y) \<in> set kvs. contains (fst k) x \<and> contains (fst w) y))"
  "contains (S_Record k w) v \<longleftrightarrow> (\<exists>obj. v = ObjectV obj \<and> (\<forall>(f, y) \<in> set obj. contains (fst k) (StringV f) \<and> contains (fst w) y))"
  "contains (S_Object fs) v \<longleftrightarrow>
     (\<exists>obj. v = ObjectV obj
       \<and> (\<forall>(f, w) \<in> set obj. \<exists>fld. bt_get fs f = Some fld \<and> contains (fst (value_shape fld)) w)
       \<and> (\<forall>(f, fld) \<in> set fs. field_optional fld \<or> bt_get obj f \<noteq> None))"
  "contains (S_Union ts) v \<longleftrightarrow> (\<exists>x \<in> set ts. contains (fst x) v)"
  for v
  by (subst contains.simps, cases v; simp add: list_all_iff list_ex_iff Ball_def split: option.splits; fastforce?)+

text \<open>What every shape is below besides the shapes of its own kind: a union with a member above it, and \<open>Unknown\<close>.\<close>

definition above :: "'s shape_enum \<Rightarrow> 's shape_enum \<Rightarrow> bool" where
  "above t u =
     (case u of
        S_Union us \<Rightarrow> (\<exists>x \<in> set us. is_subtype t (fst x))
      | S_Unknown \<Rightarrow> True
      | _ \<Rightarrow> False)"

lemma is_subtype_leaf:
  "is_subtype S_Never u"
  "is_subtype S_Null u \<longleftrightarrow> u = S_Null \<or> above S_Null u"
  "is_subtype S_Int64 u \<longleftrightarrow> u = S_Int64 \<or> above S_Int64 u"
  "is_subtype S_Boolean u \<longleftrightarrow> u = S_Boolean \<or> above S_Boolean u"
  "is_subtype S_Bytes u \<longleftrightarrow> u = S_Bytes \<or> above S_Bytes u"
  "is_subtype S_FieldName u \<longleftrightarrow> u \<in> {S_FieldName, S_String} \<or> above S_FieldName u"
  "is_subtype S_String u \<longleftrightarrow> u = S_String \<or> above S_String u"
  "is_subtype S_NegativeInf u \<longleftrightarrow> u \<in> {S_NegativeInf, S_Float64} \<or> above S_NegativeInf u"
  "is_subtype S_PositiveInf u \<longleftrightarrow> u \<in> {S_PositiveInf, S_Float64} \<or> above S_PositiveInf u"
  "is_subtype S_NegativeZero u \<longleftrightarrow> u \<in> {S_NegativeZero, S_Float64} \<or> above S_NegativeZero u"
  "is_subtype S_NaN u \<longleftrightarrow> u \<in> {S_NaN, S_Float64} \<or> above S_NaN u"
  "is_subtype S_NormalFloat64 u \<longleftrightarrow> u \<in> {S_NormalFloat64, S_Float64} \<or> above S_NormalFloat64 u"
  "is_subtype S_Float64 u \<longleftrightarrow> u = S_Float64 \<or> above S_Float64 u"
  "is_subtype S_Unknown u \<longleftrightarrow> above S_Unknown u"
  by (subst is_subtype.simps, cases u; simp add: above_def list_ex_iff)+

lemma is_subtype_string:
  "is_subtype (S_StringLiteral s) u \<longleftrightarrow>
     u = S_StringLiteral s
     \<or> (\<exists>i. DeveloperDocumentId_decode s = Inr i \<and> u = S_Id (id_table i))
     \<or> u = S_FieldName \<and> is_ok (FieldName_from_str s)
     \<or> u = S_String \<or> above (S_StringLiteral s) u"
  "is_subtype (S_Id n) u \<longleftrightarrow> u \<in> {S_Id n, S_FieldName, S_String} \<or> above (S_Id n) u"
  by (subst is_subtype.simps, cases u; auto simp: above_def list_ex_iff split: sum.splits)+

lemma is_subtype_container:
  "is_subtype (S_Array a) u \<longleftrightarrow> (\<exists>b. u = S_Array b \<and> is_subtype (fst a) (fst b)) \<or> above (S_Array a) u"
  "is_subtype (S_Set a) u \<longleftrightarrow> (\<exists>b. u = S_Set b \<and> is_subtype (fst a) (fst b)) \<or> above (S_Set a) u"
  "is_subtype (S_Map k w) u \<longleftrightarrow>
     (\<exists>k' w'. u = S_Map k' w' \<and> is_subtype (fst k) (fst k') \<and> is_subtype (fst w) (fst w')) \<or> above (S_Map k w) u"
  "is_subtype (S_Record k w) u \<longleftrightarrow>
     (\<exists>k' w'. u = S_Record k' w' \<and> is_subtype (fst k) (fst k') \<and> is_subtype (fst w) (fst w')) \<or> above (S_Record k w) u"
  "is_subtype (S_Union ts) u \<longleftrightarrow> (\<forall>x \<in> set ts. is_subtype (fst x) u)"
  by (subst is_subtype.simps, cases u; simp add: above_def list_ex_iff list_all_iff)+

definition fields_below ::
    "(field_name \<times> 's shape object_field) list \<Rightarrow> (field_name \<times> 's shape object_field) list \<Rightarrow> bool" where
  "fields_below fs gs =
     ((\<forall>(f, fld) \<in> set fs. \<exists>other. bt_get gs f = Some other
         \<and> (field_optional fld \<longrightarrow> field_optional other)
         \<and> is_subtype (fst (value_shape fld)) (fst (value_shape other)))
      \<and> (\<forall>(f, fld) \<in> set gs. bt_get fs f = None \<longrightarrow> field_optional fld))"

lemma is_subtype_object:
  "is_subtype (S_Object fs) u \<longleftrightarrow>
     (\<exists>gs. u = S_Object gs \<and> fields_below fs gs)
     \<or> (\<exists>k w. u = S_Record k w
       \<and> (\<forall>(f, fld) \<in> set fs. is_subtype (StringLiteralShape_shape_of f) (fst k)
            \<and> is_subtype (fst (value_shape fld)) (fst w)))
     \<or> above (S_Object fs) u"
  by (subst is_subtype.simps, cases u; simp add: fields_below_def above_def list_ex_iff list_all_iff Ball_def split: option.splits; fastforce?)

text \<open>The fields of an object shape are a \<open>BTreeMap\<close>, at every level.\<close>

fun shape_ok :: "'s shape_enum \<Rightarrow> bool" where
  "shape_ok (S_Array e) = shape_ok (fst e)"
| "shape_ok (S_Set e) = shape_ok (fst e)"
| "shape_ok (S_Map k w) = (shape_ok (fst k) \<and> shape_ok (fst w))"
| "shape_ok (S_Record k w) = (shape_ok (fst k) \<and> shape_ok (fst w))"
| "shape_ok (S_Object fs) = (bt_ok fs \<and> (\<forall>(f, w) \<in> set fs. shape_ok (fst (value_shape w))))"
| "shape_ok (S_Union ts) = (\<forall>x \<in> set ts. shape_ok (fst x))"
| "shape_ok _ = True"

lemma size_prod_fst [simp]: "size_prod f (\<lambda>_. 0) p = Suc (f (fst p))"
  by (cases p) simp

lemma size_members:
  "x \<in> set ts \<Longrightarrow> size (fst x) < size (S_Union ts)"
  "(f, w) \<in> set fs \<Longrightarrow> size (fst (value_shape w)) < size (S_Object fs)"
  "bt_get fs f = Some w \<Longrightarrow> size (fst (value_shape w)) < size (S_Object fs)"
  by (auto simp: termination_simp)

lemma object_contains:
  assumes "fields_below fs gs" "bt_ok gs" "contains (S_Object fs) v"
    and below: "\<And>f a b x. bt_get fs f = Some a \<Longrightarrow> bt_get gs f = Some b \<Longrightarrow>
      is_subtype (fst (value_shape a)) (fst (value_shape b)) \<Longrightarrow>
      contains (fst (value_shape a)) x \<Longrightarrow> contains (fst (value_shape b)) x"
  shows "contains (S_Object gs) v"
proof -
  obtain obj where v: "v = ObjectV obj"
    and vals: "\<And>f x. (f, x) \<in> set obj \<Longrightarrow> \<exists>a. bt_get fs f = Some a \<and> contains (fst (value_shape a)) x"
    and req: "\<And>f a. (f, a) \<in> set fs \<Longrightarrow> field_optional a \<or> bt_get obj f \<noteq> None"
    using assms(3) by fastforce
  have other: "\<exists>b. bt_get gs f = Some b \<and> (field_optional a \<longrightarrow> field_optional b)
      \<and> is_subtype (fst (value_shape a)) (fst (value_shape b))" if "bt_get fs f = Some a" for f a
    using assms(1) that by (fastforce simp: fields_below_def bt_get_def dest: map_of_SomeD)
  have "\<exists>b. bt_get gs f = Some b \<and> contains (fst (value_shape b)) x" if "(f, x) \<in> set obj" for f x
    using vals [OF that] other below by blast
  moreover have "field_optional b \<or> bt_get obj f \<noteq> None" if b: "(f, b) \<in> set gs" for f b
  proof (cases "bt_get fs f")
    case None
    then show ?thesis using assms(1) b by (auto simp: fields_below_def)
  next
    case (Some a)
    then have "(f, a) \<in> set fs" by (simp add: bt_get_member)
    moreover have "bt_get gs f = Some b" using b assms(2) by (simp add: bt_get_iff)
    ultimately show ?thesis using other [OF Some] req by auto
  qed
  ultimately show ?thesis using v by fastforce
qed

lemma record_contains:
  assumes "\<forall>(f, a) \<in> set fs. is_subtype (StringLiteralShape_shape_of f) (fst k)
      \<and> is_subtype (fst (value_shape a)) (fst w)"
    and "contains (S_Object fs) v"
    and "\<And>f. is_subtype (StringLiteralShape_shape_of f) (fst k) \<Longrightarrow> fs \<noteq> [] \<Longrightarrow> contains (fst k) (StringV f)"
    and "\<And>f a x. bt_get fs f = Some a \<Longrightarrow> is_subtype (fst (value_shape a)) (fst w) \<Longrightarrow>
      contains (fst (value_shape a)) x \<Longrightarrow> contains (fst w) x"
  shows "contains (S_Record k w) v"
proof -
  obtain obj where v: "v = ObjectV obj"
    and vals: "\<And>f x. (f, x) \<in> set obj \<Longrightarrow> \<exists>a. bt_get fs f = Some a \<and> contains (fst (value_shape a)) x"
    using assms(2) by fastforce
  have "contains (fst k) (StringV f) \<and> contains (fst w) x" if fx: "(f, x) \<in> set obj" for f x
  proof -
    obtain a where a: "bt_get fs f = Some a" "contains (fst (value_shape a)) x" using vals [OF fx] by blast
    then have "(f, a) \<in> set fs" by (simp add: bt_get_member)
    then have "is_subtype (StringLiteralShape_shape_of f) (fst k)" "is_subtype (fst (value_shape a)) (fst w)" "fs \<noteq> []"
      using assms(1) by auto
    then show ?thesis using assms(3,4) a by blast
  qed
  then show ?thesis using v by fastforce
qed

text \<open>
  A shape below another one contains no other values, so skipping work on the strength of
  \<open>is_subtype\<close> is safe.
\<close>

lemma subtype_contains:
  "is_subtype t u \<Longrightarrow> shape_ok u \<Longrightarrow> contains t v \<Longrightarrow> contains u v" for t u :: "'s shape_enum"
proof (induction "size t + size u" arbitrary: t u v rule: less_induct)
  case less
  have IH: "contains u' v'" if "is_subtype t' u'" "shape_ok u'" "contains t' v'" "size t' + size u' < size t + size u"
    for t' u' :: "'s shape_enum" and v'
    using less.hyps that by blast
  have up: "contains u v" if "above t u"
  proof (cases u)
    case (S_Union us)
    have "\<exists>x \<in> set us. is_subtype t (fst x)" using that S_Union by (simp add: above_def)
    then obtain x where "x \<in> set us" "is_subtype t (fst x)" by blast
    then show ?thesis using IH [of t "fst x" v] less.prems size_members(1) [of x us] S_Union by auto
  qed (use that in \<open>simp_all add: above_def\<close>)
  show ?case
  proof (cases t)
    case (S_Array a)
    then obtain xs where v: "v = ArrayV xs" "\<forall>x \<in> set xs. contains (fst a) x" using less.prems(3) by auto
    consider b where "u = S_Array b" "is_subtype (fst a) (fst b)" | "above t u"
      using less.prems(1) unfolding S_Array is_subtype_container by blast
    then show ?thesis
    proof cases
      case 1
      then show ?thesis using v IH [of "fst a" "fst b"] less.prems(2) S_Array by simp
    qed (rule up)
  next
    case (S_Set a)
    then obtain xs where v: "v = SetV xs" "\<forall>x \<in> set xs. contains (fst a) x" using less.prems(3) by auto
    consider b where "u = S_Set b" "is_subtype (fst a) (fst b)" | "above t u"
      using less.prems(1) unfolding S_Set is_subtype_container by blast
    then show ?thesis
    proof cases
      case 1
      then show ?thesis using v IH [of "fst a" "fst b"] less.prems(2) S_Set by simp
    qed (rule up)
  next
    case (S_Map k w)
    then obtain kvs where v: "v = MapV kvs" "\<And>x y. (x, y) \<in> set kvs \<Longrightarrow> contains (fst k) x \<and> contains (fst w) y"
      using less.prems(3) by fastforce
    consider k' w' where "u = S_Map k' w'" "is_subtype (fst k) (fst k')" "is_subtype (fst w) (fst w')" | "above t u"
      using less.prems(1) unfolding S_Map is_subtype_container by blast
    then show ?thesis
    proof cases
      case 1
      have "contains (fst k') x \<and> contains (fst w') y" if "(x, y) \<in> set kvs" for x y
        using v(2) [OF that] IH [of "fst k" "fst k'"] IH [of "fst w" "fst w'"] 1 less.prems(2) S_Map by simp
      then show ?thesis using v(1) 1(1) by fastforce
    qed (rule up)
  next
    case (S_Record k w)
    then obtain kvs where v: "v = ObjectV kvs" "\<And>x y. (x, y) \<in> set kvs \<Longrightarrow> contains (fst k) (StringV x) \<and> contains (fst w) y"
      using less.prems(3) by fastforce
    consider k' w' where "u = S_Record k' w'" "is_subtype (fst k) (fst k')" "is_subtype (fst w) (fst w')" | "above t u"
      using less.prems(1) unfolding S_Record is_subtype_container by blast
    then show ?thesis
    proof cases
      case 1
      have "contains (fst k') (StringV x) \<and> contains (fst w') y" if "(x, y) \<in> set kvs" for x y
        using v(2) [OF that] IH [of "fst k" "fst k'"] IH [of "fst w" "fst w'"] 1 less.prems(2) S_Record by simp
      then show ?thesis using v(1) 1(1) by fastforce
    qed (rule up)
  next
    case (S_Union ts)
    have "\<exists>x \<in> set ts. contains (fst x) v" using less.prems S_Union by simp
    then obtain x where "x \<in> set ts" "contains (fst x) v" by blast
    then show ?thesis
      using IH [of "fst x" u v] less.prems size_members(1) [of x ts] S_Union by (auto simp: is_subtype_container)
  next
    case (S_Object fs)
    consider (object) gs where "u = S_Object gs" "fields_below fs gs"
      | (records) k w where "u = S_Record k w" "\<forall>(f, fld) \<in> set fs.
           is_subtype (StringLiteralShape_shape_of f) (fst k) \<and> is_subtype (fst (value_shape fld)) (fst w)"
      | (above) "above t u"
      using less.prems(1) unfolding S_Object is_subtype_object by blast
    then show ?thesis
    proof cases
      case object
      have "contains (fst (value_shape b)) x"
        if "bt_get fs f = Some a" "bt_get gs f = Some b"
          "is_subtype (fst (value_shape a)) (fst (value_shape b))" "contains (fst (value_shape a)) x" for f a b x
        using IH [OF that(3) _ that(4)] size_members(3) [OF that(1)] size_members(3) [OF that(2)]
          less.prems(2) S_Object object(1) that(2) by (auto simp: bt_get_iff)
      then show ?thesis
        using object_contains [of fs gs v] less.prems(2,3) S_Object object by simp
    next
      case records
      have "contains (fst k) (StringV f)" if "is_subtype (StringLiteralShape_shape_of f) (fst k)" "fs \<noteq> []" for f
        using IH [OF that(1) _ contains_literal_shape] size_literal_shape [of f, where 'a = 's] that(2)
          less.prems(2) S_Object records(1) by (cases fs) simp_all
      moreover have "contains (fst w) x"
        if "bt_get fs f = Some a" "is_subtype (fst (value_shape a)) (fst w)" "contains (fst (value_shape a)) x" for f a x
        using IH [OF that(2) _ that(3)] size_members(3) [OF that(1)] less.prems(2) S_Object records(1) by simp
      ultimately show ?thesis
        using record_contains [of fs k w v] less.prems(2,3) S_Object records by simp
    qed (rule up)
  qed (use less.prems up in \<open>auto simp: is_subtype_leaf is_subtype_string id_is_field_name\<close>)
qed

text \<open>
  Two shapes that share a value while neither is below the other are found to overlap, so the
  variants of a union stay disjoint.
\<close>

lemma may_overlap_simps:
  "may_overlap t t"
  "may_overlap (S_Union ts) u" "may_overlap t (S_Union us)"
  "may_overlap S_Unknown u" "may_overlap t S_Unknown"
  "may_overlap (S_Array a) (S_Array b)" "may_overlap (S_Set a) (S_Set b)"
  "may_overlap (S_Map k w) (S_Map k' w')" "may_overlap (S_Record k w) (S_Record k' w')"
  "may_overlap (S_Object fs) (S_Record k w)" "may_overlap (S_Record k w) (S_Object fs)"
  by (simp_all add: may_overlap_def split: shape_enum.split)

lemma objects_overlap:
  assumes "contains (S_Object fs) v" "contains (S_Object gs) v"
  shows "may_overlap (S_Object fs) (S_Object gs)"
proof -
  obtain obj where v: "v = ObjectV obj" using assms by auto
  have "field_optional a \<or> bt_get gs f \<noteq> None"
    if "(f, a) \<in> set fs" "contains (S_Object fs) (ObjectV obj)" "contains (S_Object gs) (ObjectV obj)"
    for f a and fs gs :: "(field_name \<times> 'a shape object_field) list"
  proof (cases "bt_get obj f")
    case None
    then show ?thesis using that(1,2) by auto
  next
    case (Some x)
    then have "(f, x) \<in> set obj" by (simp add: bt_get_member)
    then show ?thesis using that(3) by auto
  qed
  then have "\<not> list_ex (\<lambda>(f, a). \<not> field_optional a \<and> bt_get gs f = None) fs"
    "\<not> list_ex (\<lambda>(f, a). \<not> field_optional a \<and> bt_get fs f = None) gs"
    using assms unfolding v list_ex_iff by blast+
  then show ?thesis unfolding may_overlap_def by simp
qed

lemma overlap_found:
  assumes "contains t v" "contains u v"
  shows "is_subtype t u \<or> is_subtype u t \<or> may_overlap t u"
proof (cases "\<exists>fs gs. t = S_Object fs \<and> u = S_Object gs")
  case True
  then show ?thesis using assms objects_overlap by blast
next
  case False
  then show ?thesis using assms
    by (cases t; simp only: contains_leaf contains_float contains_container; cases u;
        simp add: is_subtype_leaf is_subtype_string may_overlap_simps; fastforce?)
qed

section \<open>Properties\<close>

text \<open>C38. Subtyping of inferred shapes is sound: if \<open>t.is_subtype(u)\<close> then every value \<open>t\<close> contains is
  contained in \<open>u\<close>; the single pass over the fields of two object shapes stands for all choices of
  their optional fields, and an object shape below a record shape covers the names of its fields.\<close>

theorem is_subtype_sound:
  assumes "is_subtype t u" and "shape_ok u" and "contains t v"
  shows "contains u v"
  using assms by (rule subtype_contains)

theorem is_subtype_sound_witness:
  "contains (S_Union [(S_Array (S_Float64, ()), ()), (S_Null, ())]) (ArrayV [Float64 0x7FF8000000000000])"
proof (rule is_subtype_sound)
  show "is_subtype (S_Array (S_NaN, ())) (S_Union [(S_Array (S_Float64, ()), ()), (S_Null, ())])"
    by (simp add: is_subtype_container is_subtype_leaf above_def)
  show "contains (S_Array (S_NaN, ())) (ArrayV [Float64 0x7FF8000000000000])"
    by (simp add: Float64Shape_shape_of_def f64_is_nan_def)
qed simp

end
