(* ===== verification/Schema_Validator.thy ===== *)
theory Schema_Validator
  imports Table_Registry Shape_Inference
begin

text \<open>
  The validators of \<open>common/src/schemas/validator.rs\<close>: which values a validator accepts and
  which error it reports otherwise, the comparison that lets a schema change skip the scan of a
  table, the conversion from inferred shapes, and the questions schemas ask of validators (fields,
  vector fields, foreign keys, streaming export).  \<open>VirtualSystemMapping\<close>
  (\<open>common/src/virtual_system_mapping.rs\<close>) gives the tables their names.

  Printing (\<open>Display\<close>), the JSON schemas and the tracing of the mapper for virtual documents are not
  modelled; the path in an error is, with its decimal indexes.
\<close>

declare split_paired_All [simp del] split_paired_Ex [simp del]

section \<open>Names of tables, virtual ones included\<close>

record virtual_system_mapping =
  virtual_to_system :: "(table_name, table_name) btree"
  system_to_virtual :: "(table_name, table_name) btree"
  virtual_to_system_indexes :: "(table_name index_name, table_name index_name) btree"

definition VirtualSystemMapping_default :: virtual_system_mapping where
  "VirtualSystemMapping_default =
     \<lparr>virtual_to_system = [], system_to_virtual = [], virtual_to_system_indexes = []\<rparr>"

definition VirtualSystemMapping_add_table ::
    "table_name \<Rightarrow> table_name \<Rightarrow> (table_name index_name, table_name index_name) btree
       \<Rightarrow> virtual_system_mapping \<Rightarrow> virtual_system_mapping" where
  "VirtualSystemMapping_add_table virt system indexes m =
     m\<lparr>virtual_to_system := bt_insert virt system (virtual_to_system m),
       system_to_virtual := bt_insert system virt (system_to_virtual m),
       virtual_to_system_indexes := fold (\<lambda>(k, i). bt_insert k i) indexes (virtual_to_system_indexes m)\<rparr>"

definition is_virtual_table :: "virtual_system_mapping \<Rightarrow> table_name \<Rightarrow> bool" where
  "is_virtual_table m name = (bt_get (virtual_to_system m) name \<noteq> None)"

definition is_virtual_index :: "virtual_system_mapping \<Rightarrow> table_name index_name \<Rightarrow> bool" where
  "is_virtual_index m name = (bt_get (virtual_to_system_indexes m) name \<noteq> None)"

definition virtual_to_system_index ::
    "virtual_system_mapping \<Rightarrow> table_name index_name \<Rightarrow> (table_name index_name) option" where
  "virtual_to_system_index m name = bt_get (virtual_to_system_indexes m) name"

definition virtual_to_system_table :: "virtual_system_mapping \<Rightarrow> table_name \<Rightarrow> table_name option" where
  "virtual_to_system_table m name = bt_get (virtual_to_system m) name"

definition system_to_virtual_table :: "virtual_system_mapping \<Rightarrow> table_name \<Rightarrow> table_name option" where
  "system_to_virtual_table m name = bt_get (system_to_virtual m) name"

text \<open>\<open>Err\<close> is \<open>None\<close>; its message has no other content.\<close>

definition all_tables_number_to_name ::
    "namespaced_table_mapping \<Rightarrow> virtual_system_mapping \<Rightarrow> table_number \<Rightarrow> table_name option" where
  "all_tables_number_to_name m vm n =
     (case name_by_number_if_exists m n of
        None \<Rightarrow> None
      | Some physical_name \<Rightarrow>
          (case bt_get (system_to_virtual vm) physical_name of
             Some virtual_name \<Rightarrow> Some virtual_name
           | None \<Rightarrow> Some physical_name))"

section \<open>Validators and errors\<close>

datatype literal_validator =
    L_Float64 u64 | L_Int64 i64 | L_Boolean bool | L_String bytes

datatype 'v field_validator = FieldValidator (fv_validator: 'v) (fv_optional: bool)

datatype validator =
    V_Id table_name | V_Null | V_Float64 | V_Int64 | V_Boolean | V_String | V_Bytes
  | V_Literal literal_validator
  | V_Array validator
  | V_Set validator
  | V_Record validator validator
  | V_Map validator validator
  | V_Object "(field_name \<times> validator field_validator) list"
  | V_Union "validator list"
  | V_Any

type_synonym object_validator = "(field_name, validator field_validator) btree"

definition required_field_type :: "validator \<Rightarrow> validator field_validator" where
  "required_field_type v = FieldValidator v False"

definition optional_field_type :: "validator \<Rightarrow> validator field_validator" where
  "optional_field_type v = FieldValidator v True"

fun literal_to_value :: "literal_validator \<Rightarrow> convex_value" where
  "literal_to_value (L_Float64 f) = Float64 f"
| "literal_to_value (L_Int64 i) = Int64 i"
| "literal_to_value (L_Boolean b) = Boolean b"
| "literal_to_value (L_String s) = StringV s"

fun literal_from_value :: "convex_value \<Rightarrow> literal_validator option" where
  "literal_from_value (Float64 f) = Some (L_Float64 f)"
| "literal_from_value (Int64 i) = Some (L_Int64 i)"
| "literal_from_value (Boolean b) = Some (L_Boolean b)"
| "literal_from_value (StringV s) = Some (L_String s)"
| "literal_from_value _ = None"

text \<open>\<open>ValidationContext\<close>: the path to the value, absent at the top.\<close>

type_synonym validation_context = "bytes option"

definition context_with :: "validation_context \<Rightarrow> bytes \<Rightarrow> validation_context" where
  "context_with c new =
     (case c of Some old \<Rightarrow> Some (old @ new) | None \<Rightarrow> Some new)"

fun decimal :: "nat \<Rightarrow> bytes" where
  "decimal n = (if n < 10 then [of_nat (48 + n)] else decimal (n div 10) @ [of_nat (48 + n mod 10)])"

declare decimal.simps [simp del]

datatype validation_error =
    TableNamesDoNotMatch developer_document_id table_name table_name validation_context
  | SystemTableReference developer_document_id table_name validation_context
  | LiteralValuesDoNotMatch convex_value literal_validator validation_context
  | MissingRequiredField convex_object field_name object_validator validation_context
  | ExtraField convex_object field_name object_validator validation_context
  | NoMatch convex_value validator validation_context

section \<open>Checking a value\<close>

lemma size_field_member [termination_simp]:
  "(f, w) \<in> set fs \<Longrightarrow>
     size (fv_validator w) < Suc (size_list (\<lambda>x. Suc (size_field_validator size (snd x))) fs)"
proof (induction fs)
  case (Cons x fs)
  then show ?case by (cases x; cases w) auto
qed simp

lemma size_field_get [termination_simp]:
  "bt_get fs f = Some w \<Longrightarrow>
     size (fv_validator w) < Suc (size_list (\<lambda>x. Suc (size_field_validator size (snd x))) fs)"
  using size_field_member [of f w fs] by (simp add: bt_get_member)

function check_value_internal ::
    "(table_number \<Rightarrow> table_name option) \<Rightarrow> validator \<Rightarrow> convex_value \<Rightarrow> validation_context
       \<Rightarrow> validation_error + unit" where
  "check_value_internal names v x c =
     (case (v, x) of
        (V_Id validator_table, StringV s) \<Rightarrow>
          (case DeveloperDocumentId_decode s of
             Inl _ \<Rightarrow> Inl (NoMatch x v c)
           | Inr i \<Rightarrow>
               (case names (id_table i) of
                  None \<Rightarrow> Inl (NoMatch x v c)
                | Some name \<Rightarrow>
                    if name \<noteq> validator_table
                    then if TableName_is_system name then Inl (SystemTableReference i validator_table c)
                         else Inl (TableNamesDoNotMatch i name validator_table c)
                    else Inr ()))
      | (V_Null, Null) \<Rightarrow> Inr ()
      | (V_Float64, Float64 _) \<Rightarrow> Inr ()
      | (V_Int64, Int64 _) \<Rightarrow> Inr ()
      | (V_Boolean, Boolean _) \<Rightarrow> Inr ()
      | (V_String, StringV _) \<Rightarrow> Inr ()
      | (V_Bytes, BytesV _) \<Rightarrow> Inr ()
      | (V_Literal l, _) \<Rightarrow>
          if x \<noteq> literal_to_value l then Inl (LiteralValuesDoNotMatch x l c) else Inr ()
      | (V_Array t, ArrayV xs) \<Rightarrow>
          try_each (\<lambda>(i, y). check_value_internal names t y
            (context_with c (ascii ''['' @ decimal i @ ascii '']''))) (enumerate 0 xs)
      | (V_Set t, SetV xs) \<Rightarrow>
          try_each (\<lambda>(i, y). check_value_internal names t y
            (context_with c (ascii ''.keys()['' @ decimal i @ ascii '']''))) (enumerate 0 xs)
      | (V_Map kt vt, MapV kvs) \<Rightarrow>
          try_each (\<lambda>(i, k, y).
            bind_result (check_value_internal names kt k
              (context_with c (ascii ''keys()['' @ decimal i @ ascii '']''))) (\<lambda>_.
            check_value_internal names vt y
              (context_with c (ascii ''.values()['' @ decimal i @ ascii '']'')))) (enumerate 0 kvs)
      | (V_Record kt vt, ObjectV obj) \<Rightarrow>
          try_each (\<lambda>(k, y).
            bind_result (check_value_internal names kt (StringV k) (context_with c (ascii ''.keys()''))) (\<lambda>_.
            check_value_internal names vt y (context_with c (ascii ''.values()'')))) obj
      | (V_Object fs, ObjectV obj) \<Rightarrow>
          bind_result
            (try_each (\<lambda>(f, fv).
               case ConvexObject_get obj f of
                 Some y \<Rightarrow> check_value_internal names (fv_validator fv) y (context_with c (ascii ''.'' @ f))
               | None \<Rightarrow>
                   if \<not> fv_optional fv then Inl (MissingRequiredField obj f fs c) else Inr ()) fs) (\<lambda>_.
             try_each (\<lambda>(f, _).
               if bt_get fs f = None then Inl (ExtraField obj f fs c) else Inr ()) obj)
      | (V_Union vs, _) \<Rightarrow>
          (case vs of
             [t] \<Rightarrow> check_value_internal names t x c
           | _ \<Rightarrow>
               if list_ex (\<lambda>t. is_ok (check_value_internal names t x c)) vs then Inr ()
               else Inl (NoMatch x v c))
      | (V_Any, _) \<Rightarrow> Inr ()
      | _ \<Rightarrow> Inl (NoMatch x v c))"
  by pat_completeness auto
termination
  by (relation "measure (\<lambda>(_, v, _). size v)") (auto simp: termination_simp)

declare check_value_internal.simps [simp del]

definition Validator_check_value ::
    "validator \<Rightarrow> convex_value \<Rightarrow> namespaced_table_mapping \<Rightarrow> virtual_system_mapping \<Rightarrow> validation_error + unit" where
  "Validator_check_value v x m vm = check_value_internal (all_tables_number_to_name m vm) v x None"

section \<open>Which values conform\<close>

text \<open>The values a validator stands for, without the order of the checks and the errors.\<close>

fun conforms :: "(table_number \<Rightarrow> table_name option) \<Rightarrow> validator \<Rightarrow> convex_value \<Rightarrow> bool" where
  "conforms names (V_Id t) x =
     (case x of
        StringV s \<Rightarrow> (case DeveloperDocumentId_decode s of Inr i \<Rightarrow> names (id_table i) = Some t | Inl _ \<Rightarrow> False)
      | _ \<Rightarrow> False)"
| "conforms names V_Null x = (x = Null)"
| "conforms names V_Float64 x = (case x of Float64 _ \<Rightarrow> True | _ \<Rightarrow> False)"
| "conforms names V_Int64 x = (case x of Int64 _ \<Rightarrow> True | _ \<Rightarrow> False)"
| "conforms names V_Boolean x = (case x of Boolean _ \<Rightarrow> True | _ \<Rightarrow> False)"
| "conforms names V_String x = (case x of StringV _ \<Rightarrow> True | _ \<Rightarrow> False)"
| "conforms names V_Bytes x = (case x of BytesV _ \<Rightarrow> True | _ \<Rightarrow> False)"
| "conforms names (V_Literal l) x = (x = literal_to_value l)"
| "conforms names (V_Array t) x = (case x of ArrayV xs \<Rightarrow> \<forall>y \<in> set xs. conforms names t y | _ \<Rightarrow> False)"
| "conforms names (V_Set t) x = (case x of SetV xs \<Rightarrow> \<forall>y \<in> set xs. conforms names t y | _ \<Rightarrow> False)"
| "conforms names (V_Map kt vt) x =
     (case x of MapV kvs \<Rightarrow> \<forall>(k, y) \<in> set kvs. conforms names kt k \<and> conforms names vt y | _ \<Rightarrow> False)"
| "conforms names (V_Record kt vt) x =
     (case x of ObjectV obj \<Rightarrow> \<forall>(k, y) \<in> set obj. conforms names kt (StringV k) \<and> conforms names vt y | _ \<Rightarrow> False)"
| "conforms names (V_Object fs) x =
     (case x of
        ObjectV obj \<Rightarrow>
          (\<forall>(f, fv) \<in> set fs.
             case bt_get obj f of Some y \<Rightarrow> conforms names (fv_validator fv) y | None \<Rightarrow> fv_optional fv)
          \<and> (\<forall>(f, _) \<in> set obj. bt_get fs f \<noteq> None)
      | _ \<Rightarrow> False)"
| "conforms names (V_Union vs) x = (\<exists>t \<in> set vs. conforms names t x)"
| "conforms names V_Any x = True"

lemma enumerate_ok:
  "(\<And>i y. y \<in> set xs \<Longrightarrow> is_ok (f i y) = P y) \<Longrightarrow>
     (\<forall>p \<in> set (enumerate k xs). is_ok (case p of (i, y) \<Rightarrow> f i y)) \<longleftrightarrow> (\<forall>y \<in> set xs. P y)"
  by (induction xs arbitrary: k) auto

lemma check_ok_conforms: "is_ok (check_value_internal names v x c) \<longleftrightarrow> conforms names v x"
proof (induction names v x arbitrary: c rule: conforms.induct)
  case (9 names t x)
  then show ?case
    by (subst check_value_internal.simps, cases x; simp) (rule enumerate_ok, blast)
next
  case (10 names t x)
  then show ?case
    by (subst check_value_internal.simps, cases x; simp) (rule enumerate_ok, blast)
next
  case (11 names kt vt x)
  show ?case
  proof (cases x)
    case (MapV kvs)
    have "is_ok (case z of (k, y) \<Rightarrow> bind_result (check_value_internal names kt k c1) (\<lambda>_. check_value_internal names vt y c2))
        \<longleftrightarrow> (case z of (k, y) \<Rightarrow> conforms names kt k \<and> conforms names vt y)" if "z \<in> set kvs" for z c1 c2
      using 11 [OF MapV, of z] that by (cases z) (simp add: is_ok_bind_unit del: is_ok_bind)
    then show ?thesis
      by (subst check_value_internal.simps) (simp add: MapV enumerate_ok)
  qed (subst check_value_internal.simps, simp)+
next
  case (12 names kt vt x)
  show ?case
  proof (cases x)
    case (ObjectV obj)
    have "is_ok (case z of (k, y) \<Rightarrow> bind_result (check_value_internal names kt (StringV k) c1) (\<lambda>_. check_value_internal names vt y c2))
        \<longleftrightarrow> (case z of (k, y) \<Rightarrow> conforms names kt (StringV k) \<and> conforms names vt y)" if "z \<in> set obj" for z c1 c2
      using 12 [OF ObjectV, of z] that by (cases z) (simp add: is_ok_bind_unit del: is_ok_bind)
    then show ?thesis
      by (subst check_value_internal.simps) (simp add: ObjectV)
  qed (subst check_value_internal.simps, simp)+
next
  case (13 names fs x)
  show ?case
  proof (cases x)
    case (ObjectV obj)
    have "is_ok (case z of (f, fv) \<Rightarrow> case ConvexObject_get obj f of
          Some y \<Rightarrow> check_value_internal names (fv_validator fv) y (c' f)
        | None \<Rightarrow> if \<not> fv_optional fv then Inl (MissingRequiredField obj f fs c) else Inr ())
      \<longleftrightarrow> (case z of (f, fv) \<Rightarrow>
            case bt_get obj f of Some y \<Rightarrow> conforms names (fv_validator fv) y | None \<Rightarrow> fv_optional fv)"
      if "z \<in> set fs" for z c'
      using 13 [OF ObjectV, of z] that by (cases z) (auto simp: ConvexObject_get_def split: option.split)
    moreover have "is_ok (case z of (f, _) \<Rightarrow> if bt_get fs f = None then Inl (ExtraField obj f fs c) else Inr ())
        \<longleftrightarrow> (case z of (f, _) \<Rightarrow> bt_get fs f \<noteq> None)" for z :: "field_name \<times> convex_value"
      by (cases z) simp
    ultimately show ?thesis
      by (subst check_value_internal.simps) (simp add: ObjectV is_ok_bind_unit del: is_ok_bind)
  qed (subst check_value_internal.simps, simp)+
next
  case (14 names vs x)
  then show ?case
    by (subst check_value_internal.simps, cases vs rule: remdups_adj.cases; simp add: list_ex_iff)
qed (subst check_value_internal.simps, simp split: convex_value.split sum.split option.split)+

section \<open>Comparing validators\<close>

text \<open>
  The measure of the comparison: a boolean validator weighs more than the literals it is split
  into, everything else weighs as much as its parts and one more.
\<close>

fun weight :: "validator \<Rightarrow> nat" where
  "weight V_Boolean = 3"
| "weight (V_Array t) = Suc (weight t)"
| "weight (V_Set t) = Suc (weight t)"
| "weight (V_Record k w) = Suc (weight k + weight w)"
| "weight (V_Map k w) = Suc (weight k + weight w)"
| "weight (V_Object fs) = Suc (sum_list (map (\<lambda>(_, fv). weight (fv_validator fv)) fs))"
| "weight (V_Union vs) = Suc (sum_list (map weight vs))"
| "weight _ = 1"

lemma weight_union: "t \<in> set vs \<Longrightarrow> weight t < weight (V_Union vs)"
  by (simp add: less_Suc_eq_le member_le_sum_list)

lemma weight_object:
  assumes "(f, fv) \<in> set fs"
  shows "weight (fv_validator fv) < weight (V_Object fs)"
  using member_le_sum_list [of "weight (fv_validator fv)" "map (\<lambda>(_, fv). weight (fv_validator fv)) fs"] assms
  by (force simp: less_Suc_eq_le)

lemma weight_field: "bt_get fs f = Some fv \<Longrightarrow> weight (fv_validator fv) < weight (V_Object fs)"
  using weight_object [of f fv fs] by (simp add: bt_get_member)

text \<open>The arms of the match on types that are subsets of other ones.\<close>

fun subset_of_type :: "validator \<Rightarrow> validator \<Rightarrow> bool" where
  "subset_of_type _ V_Any = True"
| "subset_of_type (V_Literal (L_String _)) V_String = True"
| "subset_of_type (V_Literal (L_Int64 _)) V_Int64 = True"
| "subset_of_type (V_Literal (L_Float64 _)) V_Float64 = True"
| "subset_of_type (V_Literal (L_Boolean _)) V_Boolean = True"
| "subset_of_type (V_Id _) V_String = True"
| "subset_of_type _ _ = False"

text \<open>
  The arms in the order of the source, the last ones first: \<open>in_union\<close> is the arm for a union on
  the right, \<open>other\<close> all arms after the ones for containers of the same kind.
\<close>

function is_subset :: "validator \<Rightarrow> validator \<Rightarrow> bool" where
  "is_subset a b =
     (let in_union =
        (case b of
           V_Union rs \<Rightarrow>
             if list_ex (\<lambda>r. is_subset a r) rs then True
             else if a = V_Boolean
             then is_subset (V_Literal (L_Boolean True)) b \<and> is_subset (V_Literal (L_Boolean False)) b
             else False
         | _ \<Rightarrow> False);
       other =
        (if a = b then True
         else if subset_of_type a b then True
         else case a of
           V_Union ls \<Rightarrow> list_all (\<lambda>l. is_subset l b) ls
         | _ \<Rightarrow> in_union)
      in case (a, b) of
        (V_Array l, V_Array r) \<Rightarrow> is_subset l r
      | (V_Set l, V_Set r) \<Rightarrow> is_subset l r
      | (V_Map lk lv, V_Map rk rv) \<Rightarrow> is_subset lk rk \<and> is_subset lv rv
      | (V_Object ls, V_Object rs) \<Rightarrow>
          list_all (\<lambda>(f, _). bt_get rs f \<noteq> None) ls
          \<and> list_all (\<lambda>(f, r).
              case bt_get ls f of
                Some l \<Rightarrow>
                  (\<not> fv_optional l \<or> fv_optional r) \<and> is_subset (fv_validator l) (fv_validator r)
              | None \<Rightarrow> fv_optional r) rs
      | _ \<Rightarrow> other)"
  by pat_completeness auto
termination
  apply (relation "measure (\<lambda>(a, b). weight a + weight b)")
  apply (auto intro: add_strict_mono weight_object weight_field weight_union simp del: weight.simps(6,7))
  done

declare is_subset.simps [simp del]

lemma is_subset_cases [consumes 1, case_names array set_of map_of_kind object equal kind left right boolean]:
  assumes "is_subset a b"
  obtains l r where "a = V_Array l" "b = V_Array r" "is_subset l r"
    | l r where "a = V_Set l" "b = V_Set r" "is_subset l r"
    | lk lv rk rv where "a = V_Map lk lv" "b = V_Map rk rv" "is_subset lk rk" "is_subset lv rv"
    | ls rs where "a = V_Object ls" "b = V_Object rs"
        "\<forall>(f, _) \<in> set ls. bt_get rs f \<noteq> None"
        "\<forall>(f, r) \<in> set rs. case bt_get ls f of
           Some l \<Rightarrow> (\<not> fv_optional l \<or> fv_optional r) \<and> is_subset (fv_validator l) (fv_validator r)
         | None \<Rightarrow> fv_optional r"
    | "a = b"
    | "subset_of_type a b"
    | ls where "a = V_Union ls" "\<forall>l \<in> set ls. is_subset l b"
    | rs r where "b = V_Union rs" "r \<in> set rs" "is_subset a r"
    | rs where "a = V_Boolean" "b = V_Union rs"
        "is_subset (V_Literal (L_Boolean True)) b" "is_subset (V_Literal (L_Boolean False)) b"
proof -
  note arms = that
  define in_union where "in_union =
        (case b of
           V_Union rs \<Rightarrow>
             if list_ex (\<lambda>r. is_subset a r) rs then True
             else if a = V_Boolean
             then is_subset (V_Literal (L_Boolean True)) b \<and> is_subset (V_Literal (L_Boolean False)) b
             else False
         | _ \<Rightarrow> False)"
  define other where "other =
        (if a = b then True
         else if subset_of_type a b then True
         else case a of V_Union ls \<Rightarrow> list_all (\<lambda>l. is_subset l b) ls | _ \<Rightarrow> in_union)"
  have union: thesis if u: in_union
  proof (cases b)
    case (V_Union rs)
    then show thesis
      using u arms(8,9) unfolding in_union_def by (auto simp: list_ex_iff split: if_splits)
  qed (use u in \<open>simp_all add: in_union_def\<close>)
  have rest: thesis if o: other
  proof (cases "a = b \<or> subset_of_type a b")
    case True
    then show thesis using arms(5,6) by blast
  next
    case False
    then show thesis
      using o union arms(7) unfolding other_def by (cases a) (simp_all add: list_all_iff)
  qed
  show thesis
    using assms unfolding is_subset.simps [of a b] in_union_def [symmetric] other_def [symmetric] Let_def
    using rest arms(1-4)
    by (cases a; cases b) (simp_all add: list_all_iff)
qed

lemma is_subset_union_left:
  "is_subset (V_Union ls) b \<longleftrightarrow> b = V_Union ls \<or> b = V_Any \<or> (\<forall>l \<in> set ls. is_subset l b)"
  by (subst is_subset.simps, cases b) (auto simp: Let_def list_all_iff)

lemma is_subset_object_union:
  "is_subset (V_Object fs) (V_Union rs) \<longleftrightarrow> (\<exists>r \<in> set rs. is_subset (V_Object fs) r)"
  by (subst is_subset.simps) (simp add: Let_def list_ex_iff)

lemma kind_conforms: "subset_of_type a b \<Longrightarrow> conforms names a x \<Longrightarrow> conforms names b x"
  by (cases "(a, b)" rule: subset_of_type.cases) (auto split: convex_value.splits)

lemma object_conforms:
  assumes "\<forall>(f, _) \<in> set ls. bt_get rs f \<noteq> None"
    and "\<forall>(f, r) \<in> set rs. case bt_get ls f of
           Some l \<Rightarrow> (\<not> fv_optional l \<or> fv_optional r) \<and> sub (fv_validator l) (fv_validator r)
         | None \<Rightarrow> fv_optional r"
    and "conforms names (V_Object ls) x"
    and below: "\<And>f l r y. bt_get ls f = Some l \<Longrightarrow> (f, r) \<in> set rs \<Longrightarrow> sub (fv_validator l) (fv_validator r) \<Longrightarrow>
           conforms names (fv_validator l) y \<Longrightarrow> conforms names (fv_validator r) y"
  shows "conforms names (V_Object rs) x"
proof -
  obtain obj where x: "x = ObjectV obj" using assms(3) by (auto split: convex_value.splits)
  have vals: "case bt_get obj f of Some y \<Rightarrow> conforms names (fv_validator l) y | None \<Rightarrow> fv_optional l"
    if "bt_get ls f = Some l" for f l
  proof -
    have "(f, l) \<in> set ls" using that by (simp add: bt_get_member)
    then show ?thesis using assms(3) x by auto
  qed
  have known: "bt_get ls f \<noteq> None" if "(f, y) \<in> set obj" for f y
    using assms(3) x that by auto
  have "case bt_get obj f of Some y \<Rightarrow> conforms names (fv_validator r) y | None \<Rightarrow> fv_optional r"
    if r: "(f, r) \<in> set rs" for f r
  proof (cases "bt_get ls f")
    case None
    have "bt_get obj f = None"
      using known None bt_get_member [of obj f] by (metis not_None_eq)
    then show ?thesis using assms(2) r None by auto
  next
    case (Some l)
    then have l: "\<not> fv_optional l \<or> fv_optional r" "sub (fv_validator l) (fv_validator r)"
      using assms(2) r by auto
    show ?thesis
    proof (cases "bt_get obj f")
      case None
      then show ?thesis using vals [OF Some] l(1) by auto
    next
      case y: (Some y)
      then show ?thesis using vals [OF Some] below [OF Some r l(2)] by simp
    qed
  qed
  moreover have "bt_get rs f \<noteq> None" if fy: "(f, y) \<in> set obj" for f y
  proof -
    obtain l where "(f, l) \<in> set ls" using known [OF fy] bt_get_member [of ls f] by auto
    then show ?thesis using assms(1) by auto
  qed
  ultimately show ?thesis using x by auto
qed

lemma subset_conforms: "is_subset a b \<Longrightarrow> conforms names a x \<Longrightarrow> conforms names b x"
proof (induction "weight a + weight b" arbitrary: a b x rule: less_induct)
  case less
  have IH: "conforms names d y" if "is_subset c d" "conforms names c y" "weight c + weight d < weight a + weight b" for c d y
    using less.hyps [OF that(3) that(1,2)] .
  from less.prems(1) show ?case
  proof (cases rule: is_subset_cases)
    case (array l r)
    then show ?thesis using less.prems(2) IH [of l r] by (auto split: convex_value.splits)
  next
    case (set_of l r)
    then show ?thesis using less.prems(2) IH [of l r] by (auto split: convex_value.splits)
  next
    case (map_of_kind lk lv rk rv)
    then show ?thesis
      using less.prems(2) IH [of lk rk] IH [of lv rv] by (auto split: convex_value.splits)
  next
    case (object ls rs)
    show ?thesis
      unfolding object(2)
    proof (rule object_conforms [OF object(3,4)])
      show "conforms names (V_Object ls) x" using less.prems(2) object(1) by simp
      show "conforms names (fv_validator r) y"
        if "bt_get ls f = Some l" "(f, r) \<in> set rs" "is_subset (fv_validator l) (fv_validator r)"
          "conforms names (fv_validator l) y" for f l r y
        using IH [OF that(3,4)] weight_field [OF that(1)] weight_object [OF that(2)] object(1,2) by simp
    qed
  next
    case equal
    then show ?thesis using less.prems(2) by simp
  next
    case kind
    then show ?thesis using less.prems(2) kind_conforms by blast
  next
    case (left ls)
    then obtain l where "l \<in> set ls" "conforms names l x" "is_subset l b" using less.prems(2) by auto
    then show ?thesis using IH [of l b x] weight_union [of l ls] left(1) by simp
  next
    case (right rs r)
    then have "conforms names r x" using IH [of a r x] less.prems(2) weight_union [of r rs] by simp
    then show ?thesis using right by auto
  next
    case (boolean rs)
    then obtain t where "x = literal_to_value (L_Boolean t)" using less.prems(2) by (auto split: convex_value.splits)
    then have "conforms names (V_Literal (L_Boolean t)) x" by simp
    moreover have "is_subset (V_Literal (L_Boolean t)) b" using boolean(3,4) by (cases t) simp_all
    ultimately show ?thesis using IH [of "V_Literal (L_Boolean t)" b x] boolean(1) by simp
  qed
qed

section \<open>System fields, and other questions about validators\<close>

definition has_validator_for_system_field :: "object_validator \<Rightarrow> bool" where
  "has_validator_for_system_field fs = list_ex (\<lambda>(f, _). FieldName_is_system f) fs"

definition ObjectValidator_filter_system_fields :: "object_validator \<Rightarrow> object_validator" where
  "ObjectValidator_filter_system_fields fs =
     (if \<not> has_validator_for_system_field fs then fs
      else filter (\<lambda>(f, _). \<not> FieldName_is_system f) fs)"

fun filter_top_level_system_fields :: "validator \<Rightarrow> validator" where
  "filter_top_level_system_fields (V_Object fs) = V_Object (ObjectValidator_filter_system_fields fs)"
| "filter_top_level_system_fields (V_Union vs) = V_Union (map filter_top_level_system_fields vs)"
| "filter_top_level_system_fields v = v"

fun is_string_subtype_with_string_literal :: "validator \<Rightarrow> bool" where
  "is_string_subtype_with_string_literal (V_Literal (L_String _)) = True"
| "is_string_subtype_with_string_literal (V_Union vs) = list_ex is_string_subtype_with_string_literal vs"
| "is_string_subtype_with_string_literal _ = False"

fun has_map_or_set :: "validator \<Rightarrow> bool" where
  "has_map_or_set (V_Set _) = True"
| "has_map_or_set (V_Map _ _) = True"
| "has_map_or_set (V_Array a) = has_map_or_set a"
| "has_map_or_set (V_Record k v) = (has_map_or_set k \<or> has_map_or_set v)"
| "has_map_or_set (V_Object fs) = list_ex (\<lambda>(_, fv). has_map_or_set (fv_validator fv)) fs"
| "has_map_or_set (V_Union vs) = list_ex has_map_or_set vs"
| "has_map_or_set _ = False"

fun foreign_keys :: "validator \<Rightarrow> table_name list" where
  "foreign_keys (V_Id t) = [t]"
| "foreign_keys (V_Object fs) = concat (map (\<lambda>(_, fv). foreign_keys (fv_validator fv)) fs)"
| "foreign_keys (V_Array v) = foreign_keys v"
| "foreign_keys (V_Set v) = foreign_keys v"
| "foreign_keys (V_Union vs) = concat (map foreign_keys vs)"
| "foreign_keys (V_Record k v) = foreign_keys k @ foreign_keys v"
| "foreign_keys (V_Map k v) = foreign_keys k @ foreign_keys v"
| "foreign_keys _ = []"

text \<open>The error of \<open>ensure_supported_for_streaming_export\<close> is its error code.\<close>

datatype export_error = UnsupportedSchemaForExport

fun is_object_validator :: "validator \<Rightarrow> bool" where
  "is_object_validator (V_Object _) = True"
| "is_object_validator _ = False"

fun ensure_supported_for_streaming_export :: "validator \<Rightarrow> export_error + unit" where
  "ensure_supported_for_streaming_export (V_Array e) = ensure_supported_for_streaming_export e"
| "ensure_supported_for_streaming_export (V_Set e) = ensure_supported_for_streaming_export e"
| "ensure_supported_for_streaming_export (V_Map k v) =
     bind_result (ensure_supported_for_streaming_export k) (\<lambda>_. ensure_supported_for_streaming_export v)"
| "ensure_supported_for_streaming_export (V_Object fs) =
     try_each (\<lambda>(_, fv). ensure_supported_for_streaming_export (fv_validator fv)) fs"
| "ensure_supported_for_streaming_export (V_Union vs) =
     bind_result (try_each ensure_supported_for_streaming_export vs) (\<lambda>_.
       if length (filter is_object_validator vs) > 1 then Inl UnsupportedSchemaForExport else Inr ())"
| "ensure_supported_for_streaming_export _ = Inr ()"

section \<open>Fields a validator allows\<close>

function can_contain_field :: "validator \<Rightarrow> field_path \<Rightarrow> bool" where
  "can_contain_field v [] = True"
| "can_contain_field v (f # path) =
     (case v of
        V_Any \<Rightarrow> True
      | V_Union vs \<Rightarrow> list_ex (\<lambda>t. can_contain_field t (f # path)) vs
      | V_Object fs \<Rightarrow>
          (case bt_get fs f of Some fv \<Rightarrow> can_contain_field (fv_validator fv) path | None \<Rightarrow> False)
      | _ \<Rightarrow> False)"
  by pat_completeness auto
termination by (relation "measure (\<lambda>(v, _). size v)") (auto simp: termination_simp)

fun is_valid_vector_validator :: "validator \<Rightarrow> bool" where
  "is_valid_vector_validator (V_Array v) = (v = V_Float64 \<or> v = V_Any)"
| "is_valid_vector_validator V_Any = True"
| "is_valid_vector_validator (V_Union vs) = list_ex is_valid_vector_validator vs"
| "is_valid_vector_validator _ = False"

function overlaps_with_array_float64 :: "validator \<Rightarrow> field_path \<Rightarrow> bool" where
  "overlaps_with_array_float64 v [] = is_valid_vector_validator v"
| "overlaps_with_array_float64 v (f # path) =
     (case v of
        V_Any \<Rightarrow> True
      | V_Union vs \<Rightarrow> list_ex (\<lambda>t. overlaps_with_array_float64 t (f # path)) vs
      | V_Object fs \<Rightarrow>
          (case bt_get fs f of
             Some fv \<Rightarrow> overlaps_with_array_float64 (fv_validator fv) path
           | None \<Rightarrow> True)
      | _ \<Rightarrow> False)"
  by pat_completeness auto
termination by (relation "measure (\<lambda>(v, _). size v)") (auto simp: termination_simp)

section \<open>Validators of inferred shapes\<close>

function from_shape :: "(table_number \<Rightarrow> table_name option) \<Rightarrow> 's shape_enum \<Rightarrow> validator" where
  "from_shape names t =
     (case t of
        S_Never \<Rightarrow> V_Union []
      | S_Null \<Rightarrow> V_Null
      | S_Int64 \<Rightarrow> V_Int64
      | S_Float64 \<Rightarrow> V_Float64
      | S_NegativeInf \<Rightarrow> V_Float64
      | S_PositiveInf \<Rightarrow> V_Float64
      | S_NegativeZero \<Rightarrow> V_Float64
      | S_NaN \<Rightarrow> V_Float64
      | S_NormalFloat64 \<Rightarrow> V_Float64
      | S_Boolean \<Rightarrow> V_Boolean
      | S_StringLiteral s \<Rightarrow> V_Literal (L_String s)
      | S_Id n \<Rightarrow> (case names n of Some name \<Rightarrow> V_Id name | None \<Rightarrow> V_String)
      | S_FieldName \<Rightarrow> V_String
      | S_String \<Rightarrow> V_String
      | S_Bytes \<Rightarrow> V_Bytes
      | S_Array e \<Rightarrow> V_Array (from_shape names (fst e))
      | S_Set e \<Rightarrow> V_Set (from_shape names (fst e))
      | S_Map k w \<Rightarrow> V_Map (from_shape names (fst k)) (from_shape names (fst w))
      | S_Object fs \<Rightarrow>
          V_Object (map (\<lambda>(f, fld). (f, FieldValidator (from_shape names (fst (value_shape fld))) (field_optional fld))) fs)
      | S_Record k w \<Rightarrow> V_Record (from_shape names (fst k)) (from_shape names (fst w))
      | S_Union ts \<Rightarrow> V_Union (map (\<lambda>u. from_shape names (fst u)) ts)
      | S_Unknown \<Rightarrow> V_Any)"
  by pat_completeness auto
termination by (relation "measure (\<lambda>(_, t). size t)") (auto simp: termination_simp)

declare from_shape.simps [simp del]

definition Validator_from_shape ::
    "'s shape \<Rightarrow> namespaced_table_mapping \<Rightarrow> virtual_system_mapping \<Rightarrow> validator" where
  "Validator_from_shape t m vm = from_shape (all_tables_number_to_name m vm) (shape_variant t)"

text \<open>Every value of a shape conforms to the validator made from it, under any naming of the tables.\<close>

lemma from_shape_containers [simp]:
  "from_shape names (S_Array e) = V_Array (from_shape names (fst e))"
  "from_shape names (S_Set e) = V_Set (from_shape names (fst e))"
  "from_shape names (S_Map k w) = V_Map (from_shape names (fst k)) (from_shape names (fst w))"
  "from_shape names (S_Record k w) = V_Record (from_shape names (fst k)) (from_shape names (fst w))"
  "from_shape names (S_Object fs) =
     V_Object (map (\<lambda>(f, fld). (f, FieldValidator (from_shape names (fst (value_shape fld))) (field_optional fld))) fs)"
  "from_shape names (S_Union ts) = V_Union (map (\<lambda>u. from_shape names (fst u)) ts)"
  by (subst from_shape.simps, simp)+

lemma from_shape_leaves [simp]:
  "from_shape names S_Never = V_Union []"
  "from_shape names S_Null = V_Null"
  "from_shape names S_Int64 = V_Int64"
  "from_shape names S_Float64 = V_Float64"
  "from_shape names S_NegativeInf = V_Float64"
  "from_shape names S_PositiveInf = V_Float64"
  "from_shape names S_NegativeZero = V_Float64"
  "from_shape names S_NaN = V_Float64"
  "from_shape names S_NormalFloat64 = V_Float64"
  "from_shape names S_Boolean = V_Boolean"
  "from_shape names (S_StringLiteral s) = V_Literal (L_String s)"
  "from_shape names (S_Id n) = (case names n of Some name \<Rightarrow> V_Id name | None \<Rightarrow> V_String)"
  "from_shape names S_FieldName = V_String"
  "from_shape names S_String = V_String"
  "from_shape names S_Bytes = V_Bytes"
  "from_shape names S_Unknown = V_Any"
  by (subst from_shape.simps, simp)+

lemma shape_fields_conform:
  assumes "contains (S_Object fs) x" "bt_ok fs"
    and below: "\<And>f fld y. (f, fld) \<in> set fs \<Longrightarrow> contains (fst (value_shape fld)) y \<Longrightarrow>
      conforms names (from_shape names (fst (value_shape fld))) y"
  shows "conforms names (from_shape names (S_Object fs)) x"
proof -
  let ?g = "\<lambda>fld. FieldValidator (from_shape names (fst (value_shape fld))) (field_optional fld)"
  obtain obj where x: "x = ObjectV obj"
    and vals: "\<And>f y. (f, y) \<in> set obj \<Longrightarrow> \<exists>fld. bt_get fs f = Some fld \<and> contains (fst (value_shape fld)) y"
    and req: "\<And>f fld. (f, fld) \<in> set fs \<Longrightarrow> field_optional fld \<or> bt_get obj f \<noteq> None"
    using assms(1) by fastforce
  have get: "bt_get (map (\<lambda>(f, fld). (f, ?g fld)) fs) f = map_option ?g (bt_get fs f)" for f
    by (simp add: bt_get_def map_of_map)
  have "case bt_get obj f of Some y \<Rightarrow> conforms names (fv_validator (?g fld)) y | None \<Rightarrow> fv_optional (?g fld)"
    if fld: "(f, fld) \<in> set fs" for f fld
  proof (cases "bt_get obj f")
    case None
    then show ?thesis using req [OF fld] by simp
  next
    case (Some y)
    have "bt_get fs f = Some fld" using fld assms(2) by (simp add: bt_get_iff)
    then have "contains (fst (value_shape fld)) y" using vals [OF bt_get_member [OF Some]] by simp
    then show ?thesis using below [OF fld] Some by simp
  qed
  moreover have "bt_get (map (\<lambda>(f, fld). (f, ?g fld)) fs) f \<noteq> None" if "(f, y) \<in> set obj" for f y
    using vals [OF that] by (auto simp: get)
  ultimately show ?thesis unfolding x by auto
qed

lemma shape_conforms: "contains t x \<Longrightarrow> shape_ok t \<Longrightarrow> conforms names (from_shape names t) x" for t :: "'s shape_enum"
proof (induction "size t" arbitrary: t x rule: less_induct)
  case less
  have IH: "conforms names (from_shape names u) y" if "contains u y" "shape_ok u" "size u < size t"
    for u :: "'s shape_enum" and y
    using less.hyps [OF that(3) that(1,2)] .
  show ?case
  proof (cases t)
    case (S_Array e)
    then show ?thesis using less.prems IH [of "fst e"] by auto
  next
    case (S_Set e)
    then show ?thesis using less.prems IH [of "fst e"] by auto
  next
    case (S_Map k w)
    then have "\<And>y. contains (fst k) y \<Longrightarrow> conforms names (from_shape names (fst k)) y"
      "\<And>y. contains (fst w) y \<Longrightarrow> conforms names (from_shape names (fst w)) y"
      using less.prems(2) IH by simp_all
    then show ?thesis using less.prems(1) S_Map by fastforce
  next
    case (S_Record k w)
    then have "\<And>y. contains (fst k) y \<Longrightarrow> conforms names (from_shape names (fst k)) y"
      "\<And>y. contains (fst w) y \<Longrightarrow> conforms names (from_shape names (fst w)) y"
      using less.prems(2) IH by simp_all
    then show ?thesis using less.prems(1) S_Record by fastforce
  next
    case (S_Union ts)
    have "\<exists>u \<in> set ts. contains (fst u) x" using less.prems(1) S_Union by simp
    then obtain u where u: "u \<in> set ts" "contains (fst u) x" by blast
    then have "conforms names (from_shape names (fst u)) x"
      using IH [of "fst u"] size_members(1) [of u ts] S_Union less.prems(2) by simp
    then show ?thesis using u(1) S_Union by auto
  next
    case (S_Object fs)
    have "conforms names (from_shape names (fst (value_shape fld))) y"
      if "(f, fld) \<in> set fs" "contains (fst (value_shape fld)) y" for f fld y
      using IH [OF that(2)] size_members(2) [OF that(1)] that(1) S_Object less.prems(2) by auto
    then show ?thesis
      using shape_fields_conform [of fs x names] less.prems S_Object by simp
  qed (use less.prems(1) in \<open>auto split: option.split\<close>)
qed

section \<open>What filtering, deleting a table and paths keep\<close>

lemma bt_get_filter_keys: "bt_get (filter (\<lambda>(k, _). P k) m) k = (if P k then bt_get m k else None)"
  by (induction m) (auto simp: bt_get_def)

lemma filter_system_fields_filter:
  "ObjectValidator_filter_system_fields fs = filter (\<lambda>(f, _). \<not> FieldName_is_system f) fs"
  by (auto simp: ObjectValidator_filter_system_fields_def has_validator_for_system_field_def list_ex_iff
      intro!: filter_True [symmetric])

lemma literal_not_object [simp]: "ObjectV obj \<noteq> literal_to_value l" "literal_to_value l \<noteq> ObjectV obj"
  by (cases l; simp)+

text \<open>\<open>filter_top_level_system_fields\<close> follows a document that loses its system fields.\<close>

lemma filter_top_level_conforms:
  "conforms names v (ObjectV obj) \<Longrightarrow>
     conforms names (filter_top_level_system_fields v) (ObjectV (filter (\<lambda>(f, _). \<not> FieldName_is_system f) obj))"
proof (induction v rule: filter_top_level_system_fields.induct)
  case (1 fs)
  then show ?case
    by (force simp: filter_system_fields_filter bt_get_filter_keys split: option.splits)
next
  case (2 vs)
  then show ?case by fastforce
qed auto

text \<open>
  After a table is deleted its number has no name.  A validator that does not name the table
  accepts what it accepted before.
\<close>

definition without_table :: "table_name \<Rightarrow> (table_number \<Rightarrow> table_name option) \<Rightarrow> table_number \<Rightarrow> table_name option" where
  "without_table t names n = (if names n = Some t then None else names n)"

lemma conforms_without_table:
  "t \<notin> set (foreign_keys v) \<Longrightarrow> conforms names v x \<Longrightarrow> conforms (without_table t names) v x"
proof (induction names v x rule: conforms.induct)
  case (13 names fs x)
  then show ?case 
    by (fastforce split: convex_value.splits option.splits)
qed (fastforce simp: without_table_def split: convex_value.splits sum.splits)+

text \<open>
  A path that leads to a value in some document leads through fields of the validator, unless it
  enters a record.
\<close>

fun enters_record :: "validator \<Rightarrow> field_path \<Rightarrow> bool" where
  "enters_record v [] = False"
| "enters_record (V_Record _ _) (f # path) = True"
| "enters_record (V_Union vs) (f # path) = (\<exists>t \<in> set vs. enters_record t (f # path))"
| "enters_record (V_Object fs) (f # path) =
     (case bt_get fs f of Some fv \<Rightarrow> enters_record (fv_validator fv) path | None \<Rightarrow> False)"
| "enters_record _ (f # path) = False"

lemma can_contain_complete:
  "conforms names v x \<Longrightarrow> get_path_loop x path = Some y \<Longrightarrow> \<not> enters_record v path \<Longrightarrow> can_contain_field v path"
proof (induction v path arbitrary: x rule: can_contain_field.induct)
  case (2 v f path)
  obtain obj w where x: "x = ObjectV obj" "bt_get obj f = Some w" "get_path_loop w path = Some y"
    using "2.prems"(2) by (auto split: convex_value.splits option.splits)
  show ?case
  proof (cases v)
    case (V_Object fs)
    have "bt_get fs f \<noteq> None" using "2.prems"(1) V_Object x bt_get_member [OF x(2)] by auto
    then obtain fv where fv: "bt_get fs f = Some fv" by auto
    then have "conforms names (fv_validator fv) w"
      using "2.prems"(1) V_Object x(1,2) bt_get_member [OF fv] by fastforce
    then show ?thesis using 2(1) [OF V_Object fv] x(3) "2.prems"(3) V_Object fv by simp
  next
    case (V_Union vs)
    then show ?thesis using 2(2) [OF V_Union] "2.prems" by (auto simp: list_ex_iff)
  qed (use "2.prems" x in simp_all)
qed simp

section \<open>Properties\<close>

text \<open>\<open>check_value\<close> accepts exactly the values the validator stands for: a loop that stops at the
  first mismatch, in whatever order it runs, and the special case of unions with one member, change
  the error but never the verdict.\<close>

lemma check_value_exact:
  "is_ok (Validator_check_value v x m vm) \<longleftrightarrow> conforms (all_tables_number_to_name m vm) v x"
  by (simp add: Validator_check_value_def check_ok_conforms)

text \<open>C12. The comparison of validators has no false positives: if \<open>a.is_subset(b)\<close> then every value
  \<open>a\<close> accepts is accepted by \<open>b\<close>.  A schema change may skip the scan of a table on its word.\<close>

theorem is_subset_sound:
  assumes "is_subset a b" and "is_ok (Validator_check_value a x m vm)"
  shows "is_ok (Validator_check_value b x m vm)"
  using assms subset_conforms by (simp add: Validator_check_value_def check_ok_conforms)

definition example_flag :: field_name where "example_flag = ascii ''flag''"
definition example_note :: field_name where "example_note = ascii ''note''"

definition example_old_validator :: validator where
  "example_old_validator = V_Object [(example_flag, required_field_type V_Boolean)]"

definition example_new_validator :: validator where
  "example_new_validator =
     V_Object
       [(example_flag, required_field_type
           (V_Union [V_Literal (L_Boolean False), V_Literal (L_Boolean True)])),
        (example_note, optional_field_type V_String)]"

definition example_tables_mapping :: namespaced_table_mapping where
  "example_tables_mapping =
     \<lparr>mapping_namespace = Global, ns_tablets = [], ns_names = [], ns_numbers = []\<rparr>"

lemma example_subset: "is_subset example_old_validator example_new_validator"
  by code_simp

lemma example_value_checked:
  "is_ok (Validator_check_value example_old_validator (ObjectV [(example_flag, Boolean True)])
     example_tables_mapping VirtualSystemMapping_default)"
  by code_simp

theorem is_subset_sound_witness:
  "is_ok (Validator_check_value example_new_validator (ObjectV [(example_flag, Boolean True)])
     example_tables_mapping VirtualSystemMapping_default)"
  by (rule is_subset_sound [OF example_subset example_value_checked])

end
