(* ===== verification/Database_Schema.thy ===== *)
theory Database_Schema
  imports Schema_Validator Convex_Document
begin

text \<open>
  Schemas of a database (\<open>common/src/schemas/mod.rs\<close>): which documents a schema allows, which
  tables have to be scanned before a new schema may replace the active one, which tables may be
  deleted under a schema, and which indexes it may define.

  \<open>None\<close> in a result stands for the panic of \<open>ConvexObject::filter_system_fields\<close>.  The document id
  in \<open>SchemaValidationError\<close> is the one of the document.
\<close>

declare split_paired_All [simp del] split_paired_Ex [simp del]

section \<open>Document schemas\<close>

datatype document_schema = D_Any | D_Union "object_validator list"

fun Validator_of_schema :: "document_schema \<Rightarrow> validator" where
  "Validator_of_schema D_Any = V_Any"
| "Validator_of_schema (D_Union vs) = V_Union (map V_Object vs)"

fun Validator_of_schema_option :: "document_schema option \<Rightarrow> validator" where
  "Validator_of_schema_option None = V_Any"
| "Validator_of_schema_option (Some s) = Validator_of_schema s"

definition DocumentSchema_check_value ::
    "document_schema \<Rightarrow> convex_object \<Rightarrow> namespaced_table_mapping \<Rightarrow> virtual_system_mapping
       \<Rightarrow> (validation_error + unit) option" where
  "DocumentSchema_check_value s obj m vm =
     (case s of
        D_Any \<Rightarrow> Some (Inr ())
      | D_Union ts \<Rightarrow>
          (case ConvexObject_filter_system_fields obj of
             None \<Rightarrow> None
           | Some obj' \<Rightarrow> Some (Validator_check_value (V_Union (map V_Object ts)) (ObjectV obj') m vm)))"

definition DocumentSchema_can_contain_field :: "document_schema \<Rightarrow> field_path \<Rightarrow> bool" where
  "DocumentSchema_can_contain_field s path =
     (if (case path of [f] \<Rightarrow> FieldName_is_system f | _ \<Rightarrow> False) then True
      else case s of
        D_Any \<Rightarrow> True
      | D_Union vs \<Rightarrow> list_ex (\<lambda>v. can_contain_field (V_Object v) path) vs)"

definition DocumentSchema_has_validator_for_system_field :: "document_schema \<Rightarrow> bool" where
  "DocumentSchema_has_validator_for_system_field s =
     (case s of D_Any \<Rightarrow> False | D_Union vs \<Rightarrow> list_ex has_validator_for_system_field vs)"

definition DocumentSchema_has_map_or_set :: "document_schema \<Rightarrow> bool" where
  "DocumentSchema_has_map_or_set s =
     (case s of D_Any \<Rightarrow> False | D_Union vs \<Rightarrow> list_ex (\<lambda>v. has_map_or_set (V_Object v)) vs)"

definition DocumentSchema_is_vector_index_eligible :: "document_schema \<Rightarrow> field_path \<Rightarrow> bool" where
  "DocumentSchema_is_vector_index_eligible s path =
     (case s of
        D_Any \<Rightarrow> True
      | D_Union vs \<Rightarrow> list_ex (\<lambda>v. overlaps_with_array_float64 (V_Object v) path) vs)"

definition optional_top_level_fields :: "document_schema \<Rightarrow> field_name set" where
  "optional_top_level_fields s =
     (case s of
        D_Any \<Rightarrow> {}
      | D_Union vs \<Rightarrow> set (concat (map (\<lambda>v. map fst (filter (\<lambda>(_, fv). fv_optional fv) v)) vs)))"

definition DocumentSchema_foreign_keys :: "document_schema \<Rightarrow> table_name list" where
  "DocumentSchema_foreign_keys s =
     (case s of D_Any \<Rightarrow> [] | D_Union vs \<Rightarrow> concat (map (\<lambda>v. foreign_keys (V_Object v)) vs))"

section \<open>Tables and database schemas\<close>

record search_index_schema =
  search_field :: field_path
  search_filter_fields :: "(field_path, unit) btree"

record vector_index_schema =
  vector_field :: field_path
  vector_dimension :: u32
  vector_filter_fields :: "(field_path, unit) btree"

record table_definition =
  def_table_name :: table_name
  def_indexes :: "(index_descriptor, indexed_fields) btree"
  def_search_indexes :: "(index_descriptor, search_index_schema) btree"
  def_vector_indexes :: "(index_descriptor, vector_index_schema) btree"
  document_type :: "document_schema option"

record database_schema =
  schema_tables :: "(table_name, table_definition) btree"
  schema_validation :: bool

definition vector_fields :: "table_definition \<Rightarrow> (index_descriptor \<times> field_path) list" where
  "vector_fields d = map (\<lambda>(i, s). (i, vector_field s)) (def_vector_indexes d)"

definition fields_referenced_in_indexes :: "table_definition \<Rightarrow> (index_descriptor \<times> field_path) list" where
  "fields_referenced_in_indexes d =
     concat (map (\<lambda>(i, fs). map (\<lambda>f. (i, f)) fs) (def_indexes d))
     @ map (\<lambda>(i, s). (i, search_field s)) (def_search_indexes d)
     @ concat (map (\<lambda>(i, s). map (\<lambda>(f, _). (i, f)) (search_filter_fields s)) (def_search_indexes d))
     @ vector_fields d"

definition schema_for_table :: "database_schema \<Rightarrow> table_name \<Rightarrow> document_schema option" where
  "schema_for_table s name = Option.bind (bt_get (schema_tables s) name) document_type"

definition ns_tablet_name :: "namespaced_table_mapping \<Rightarrow> tablet_id \<Rightarrow> table_name option" where
  "ns_tablet_name m t = map_option (\<lambda>(_, _, name). name) (bt_get (ns_tablets m) t)"

section \<open>Checking documents\<close>

definition DatabaseSchema_check_value ::
    "database_schema \<Rightarrow> resolved_document \<Rightarrow> namespaced_table_mapping \<Rightarrow> virtual_system_mapping
       \<Rightarrow> (validation_error + unit) option" where
  "DatabaseSchema_check_value s d m vm =
     (if \<not> schema_validation s then Some (Inr ())
      else case ns_tablet_name m (doc_tablet_id d) of
        None \<Rightarrow> Some (Inr ())
      | Some name \<Rightarrow>
          (case schema_for_table s name of
             None \<Rightarrow> Some (Inr ())
           | Some ds \<Rightarrow> DocumentSchema_check_value ds (document_value d) m vm))"

datatype schema_validation_error =
    ExistingDocument validation_error table_name developer_document_id
  | NewDocument validation_error table_name
  | TableCannotBeDeleted table_name
  | ReferencedTableCannotBeDeleted table_name table_name

datatype schema_enforcement_error =
    E_Document validation_error table_name
  | E_TableCannotBeDeleted table_name
  | E_ReferencedTableCannotBeDeleted table_name table_name

fun to_validation_error :: "schema_enforcement_error \<Rightarrow> schema_validation_error" where
  "to_validation_error (E_Document e t) = NewDocument e t"
| "to_validation_error (E_TableCannotBeDeleted t) = TableCannotBeDeleted t"
| "to_validation_error (E_ReferencedTableCannotBeDeleted s t) = ReferencedTableCannotBeDeleted s t"

definition check_existing_document ::
    "database_schema \<Rightarrow> resolved_document \<Rightarrow> table_name \<Rightarrow> namespaced_table_mapping \<Rightarrow> virtual_system_mapping
       \<Rightarrow> (schema_validation_error + unit) option" where
  "check_existing_document s d name m vm =
     map_option (map_error (\<lambda>e. ExistingDocument e name (doc_id (document d)))) (DatabaseSchema_check_value s d m vm)"

definition check_new_document ::
    "database_schema \<Rightarrow> resolved_document \<Rightarrow> table_name \<Rightarrow> namespaced_table_mapping \<Rightarrow> virtual_system_mapping
       \<Rightarrow> (schema_enforcement_error + unit) option" where
  "check_new_document s d name m vm =
     map_option (map_error (\<lambda>e. E_Document e name)) (DatabaseSchema_check_value s d m vm)"

section \<open>Replacing a schema\<close>

definition must_revalidate_table ::
    "table_name \<Rightarrow> table_definition \<Rightarrow> database_schema option \<Rightarrow> namespaced_table_mapping
       \<Rightarrow> virtual_system_mapping \<Rightarrow> 's shape option \<Rightarrow> bool" where
  "must_revalidate_table name d active m vm table_shape =
     (let next_schema_validator = Validator_of_schema_option (document_type d);
          enforced_schema =
            (case active of
               Some s \<Rightarrow> if schema_validation s then schema_for_table s name else None
             | None \<Rightarrow> None);
          enforced_schema_validator = Validator_of_schema_option enforced_schema
      in if is_subset enforced_schema_validator next_schema_validator then False
         else case table_shape of
           Some t \<Rightarrow>
             \<not> is_subset (filter_top_level_system_fields (Validator_from_shape t m vm)) next_schema_validator
         | None \<Rightarrow> True)"

definition tables_to_validate ::
    "database_schema \<Rightarrow> database_schema option \<Rightarrow> namespaced_table_mapping \<Rightarrow> virtual_system_mapping
       \<Rightarrow> (table_name \<Rightarrow> 's shape option) \<Rightarrow> table_name list" where
  "tables_to_validate new active m vm shape_provider =
     (if \<not> schema_validation new then []
      else map fst (filter
        (\<lambda>(name, d). must_revalidate_table name d active m vm (shape_provider name)) (schema_tables new)))"

section \<open>Deleting tables, defining indexes\<close>

fun contains_table_as_reference_loop :: "table_name \<Rightarrow> table_definition list \<Rightarrow> table_name option" where
  "contains_table_as_reference_loop t [] = None"
| "contains_table_as_reference_loop t (d # ds) =
     (case document_type d of
        Some s \<Rightarrow>
          if t \<in> set (DocumentSchema_foreign_keys s) then Some (def_table_name d)
          else contains_table_as_reference_loop t ds
      | None \<Rightarrow> contains_table_as_reference_loop t ds)"

definition contains_table_as_reference :: "database_schema \<Rightarrow> table_name \<Rightarrow> table_name option" where
  "contains_table_as_reference s t = contains_table_as_reference_loop t (map snd (schema_tables s))"

definition check_delete_table :: "database_schema \<Rightarrow> table_name \<Rightarrow> schema_enforcement_error + unit" where
  "check_delete_table s t =
     (if schema_for_table s t \<noteq> None then Inl (E_TableCannotBeDeleted t)
      else case contains_table_as_reference s t of
        Some table_in_schema \<Rightarrow> Inl (E_ReferencedTableCannotBeDeleted table_in_schema t)
      | None \<Rightarrow> Inr ())"

datatype index_reference_error =
    FieldDoesNotExist table_name index_descriptor field_path
  | NotAVectorField table_name index_descriptor field_path

definition is_vector_index_eligible :: "document_schema option \<Rightarrow> field_path \<Rightarrow> bool" where
  "is_vector_index_eligible s path =
     (case s of None \<Rightarrow> True | Some ds \<Rightarrow> DocumentSchema_is_vector_index_eligible ds path)"

definition check_table_indexes :: "table_name \<Rightarrow> table_definition \<Rightarrow> index_reference_error + unit" where
  "check_table_indexes name d =
     (case find (\<lambda>(_, path).
             case document_type d of Some s \<Rightarrow> \<not> DocumentSchema_can_contain_field s path | None \<Rightarrow> False)
           (fields_referenced_in_indexes d) of
        Some (i, path) \<Rightarrow> Inl (FieldDoesNotExist name i path)
      | None \<Rightarrow>
          (case find (\<lambda>(_, path). \<not> is_vector_index_eligible (document_type d) path) (vector_fields d) of
             Some (i, path) \<Rightarrow> Inl (NotAVectorField name i path)
           | None \<Rightarrow> Inr ()))"

definition check_index_references :: "database_schema \<Rightarrow> index_reference_error + unit" where
  "check_index_references s =
     (if \<not> schema_validation s then Inr ()
      else try_each (\<lambda>(name, d). check_table_indexes name d) (schema_tables s))"

section \<open>Schemas as validators\<close>

abbreviation plain_fields :: "convex_object \<Rightarrow> convex_object" where
  "plain_fields obj \<equiv> filter (\<lambda>(k, _). \<not> FieldName_is_system k) obj"

lemma schema_check_conforms:
  assumes "value_ok (ObjectV obj)"
  shows "DocumentSchema_check_value s obj m vm = Some (Inr ()) \<longleftrightarrow>
    conforms (all_tables_number_to_name m vm) (Validator_of_schema s) (ObjectV (plain_fields obj))"
proof (cases s)
  case (D_Union ts)
  have "r = Inr () \<longleftrightarrow> is_ok r" for r :: "validation_error + unit" by (cases r) simp_all
  then show ?thesis
    using filter_system_fields_correct [OF assms] D_Union
    by (simp add: DocumentSchema_check_value_def check_value_exact del: conforms.simps value_ok.simps)
qed (simp add: DocumentSchema_check_value_def)

lemma schema_option_conforms:
  assumes "value_ok (ObjectV obj)"
  shows "(case s of None \<Rightarrow> Some (Inr ()) | Some ds \<Rightarrow> DocumentSchema_check_value ds obj m vm) = Some (Inr ()) \<longleftrightarrow>
    conforms (all_tables_number_to_name m vm) (Validator_of_schema_option s) (ObjectV (plain_fields obj))"
  using schema_check_conforms [OF assms] by (cases s) simp_all

text \<open>The schema a database schema enforces on a table.\<close>

definition enforced_validator :: "database_schema option \<Rightarrow> table_name \<Rightarrow> validator" where
  "enforced_validator s name =
     Validator_of_schema_option
       (case s of Some s \<Rightarrow> if schema_validation s then schema_for_table s name else None | None \<Rightarrow> None)"

lemma database_check_conforms:
  assumes "value_ok (ObjectV (document_value d))" and "ns_tablet_name m (doc_tablet_id d) = Some name"
  shows "DatabaseSchema_check_value s d m vm = Some (Inr ()) \<longleftrightarrow>
    conforms (all_tables_number_to_name m vm) (enforced_validator (Some s) name)
      (ObjectV (plain_fields (document_value d)))"
  using schema_option_conforms [OF assms(1), where s = "schema_for_table s name"] assms(2)
  by (simp add: DatabaseSchema_check_value_def enforced_validator_def)

text \<open>A table that need not be revalidated: the active schema or the shape implies the next one.\<close>

lemma skipped_table:
  assumes "\<not> must_revalidate_table name d active m vm shp"
    and "conforms (all_tables_number_to_name m vm) (enforced_validator active name) (ObjectV (plain_fields obj))"
    and "\<And>t. shp = Some t \<Longrightarrow> shape_ok (shape_variant t) \<and> contains (shape_variant t) (ObjectV obj)"
  shows "conforms (all_tables_number_to_name m vm) (Validator_of_schema_option (document_type d)) (ObjectV (plain_fields obj))"
proof (cases "is_subset (enforced_validator active name) (Validator_of_schema_option (document_type d))")
  case True
  then show ?thesis using assms(2) by (rule subset_conforms)
next
  case False
  then obtain t where t: "shp = Some t"
    "is_subset (filter_top_level_system_fields (Validator_from_shape t m vm)) (Validator_of_schema_option (document_type d))"
    using assms(1) by (auto simp: must_revalidate_table_def enforced_validator_def Let_def split: option.splits if_splits)
  have "conforms (all_tables_number_to_name m vm) (Validator_from_shape t m vm) (ObjectV obj)"
    unfolding Validator_from_shape_def using shape_conforms assms(3) [OF t(1)] by blast
  then show ?thesis using filter_top_level_conforms subset_conforms [OF t(2)] by blast
qed

lemma reference_loop_None:
  "contains_table_as_reference_loop t ds = None \<Longrightarrow> d \<in> set ds \<Longrightarrow> document_type d = Some s \<Longrightarrow>
     t \<notin> set (DocumentSchema_foreign_keys s)"
  by (induction ds) (auto split: option.splits if_splits)

lemma schema_foreign_keys: "foreign_keys (Validator_of_schema s) = DocumentSchema_foreign_keys s"
  by (cases s) (simp_all add: DocumentSchema_foreign_keys_def o_def)

text \<open>No validator of the schema names a table that may be deleted.\<close>

lemma no_reference:
  assumes "check_delete_table s t = Inr ()"
  shows "t \<notin> set (foreign_keys (enforced_validator (Some s) name))"
proof (cases "schema_validation s \<and> schema_for_table s name \<noteq> None")
  case True
  then obtain d ds where d: "bt_get (schema_tables s) name = Some d" "document_type d = Some ds"
    by (auto simp: schema_for_table_def bind_eq_Some_conv)
  have "contains_table_as_reference_loop t (map snd (schema_tables s)) = None"
    using assms by (auto simp: check_delete_table_def contains_table_as_reference_def split: option.splits if_splits)
  moreover have "d \<in> set (map snd (schema_tables s))" using bt_get_member [OF d(1)] by force
  ultimately have "t \<notin> set (DocumentSchema_foreign_keys ds)" using reference_loop_None d(2) by blast
  then show ?thesis using True d by (simp add: enforced_validator_def schema_for_table_def schema_foreign_keys)
next
  case False
  then show ?thesis by (auto simp: enforced_validator_def)
qed

section \<open>Properties\<close>

text \<open>C9. Replacing the schema without scanning a table is safe: when \<open>tables_to_validate\<close> leaves a
  table of the new schema out, every document of it that the active schema (if there is one) accepts
  and that lies in the table's inferred shape (if there is one) is accepted by the new schema.\<close>

theorem skipped_tables_conform:
  assumes "value_ok (ObjectV (document_value d))"
    and "ns_tablet_name m (doc_tablet_id d) = Some name"
    and "name \<notin> set (tables_to_validate new active m vm shapes)"
    and "\<And>s. active = Some s \<Longrightarrow> DatabaseSchema_check_value s d m vm = Some (Inr ())"
    and "\<And>t. shapes name = Some t \<Longrightarrow>
           shape_ok (shape_variant t) \<and> contains (shape_variant t) (ObjectV (document_value d))"
  shows "DatabaseSchema_check_value new d m vm = Some (Inr ())"
proof (cases "schema_validation new \<and> bt_get (schema_tables new) name \<noteq> None")
  case True
  then obtain def where def: "bt_get (schema_tables new) name = Some def" by auto
  have "\<not> must_revalidate_table name def active m vm (shapes name)"
    using assms(3) True bt_get_member [OF def] by (force simp: tables_to_validate_def)
  moreover have "conforms (all_tables_number_to_name m vm) (enforced_validator active name)
      (ObjectV (plain_fields (document_value d)))"
    using database_check_conforms [OF assms(1,2)] assms(4)
    by (cases active) (simp_all add: enforced_validator_def)
  ultimately have "conforms (all_tables_number_to_name m vm) (Validator_of_schema_option (document_type def))
      (ObjectV (plain_fields (document_value d)))"
    by (rule skipped_table) (rule assms(5))
  then show ?thesis
    using True def by (simp add: database_check_conforms [OF assms(1,2)] enforced_validator_def schema_for_table_def)
next
  case False
  then show ?thesis
    using assms(2) by (auto simp: DatabaseSchema_check_value_def schema_for_table_def)
qed

definition example_table_name :: table_name where "example_table_name = ascii ''notes''"
definition example_tablet :: tablet_id where "example_tablet = replicate 16 7"

definition example_mapping :: namespaced_table_mapping where
  "example_mapping =
     \<lparr>mapping_namespace = Global, ns_tablets = [(example_tablet, Global, 10001, example_table_name)],
      ns_names = [(example_table_name, example_tablet)], ns_numbers = [(10001, example_tablet)]\<rparr>"

definition example_definition :: "document_schema \<Rightarrow> table_definition" where
  "example_definition s =
     \<lparr>def_table_name = example_table_name, def_indexes = [], def_search_indexes = [], def_vector_indexes = [],
      document_type = Some s\<rparr>"

definition example_schema :: "document_schema \<Rightarrow> database_schema" where
  "example_schema s =
     \<lparr>schema_tables = [(example_table_name, example_definition s)], schema_validation = True\<rparr>"

definition example_old_schema :: database_schema where
  "example_old_schema = example_schema (D_Union [[(example_flag, required_field_type V_Boolean)]])"

definition example_new_schema :: database_schema where
  "example_new_schema =
     example_schema (D_Union
       [[(example_flag, required_field_type V_Any), (example_note, optional_field_type V_String)]])"

definition example_object :: convex_object where
  "example_object = [(ascii ''_creationTime'', Float64 0), (example_flag, Boolean True)]"

definition example_document :: resolved_document where
  "example_document =
     \<lparr>doc_tablet_id = example_tablet,
      document = \<lparr>doc_id = \<lparr>id_table = 10001, internal_id = replicate 16 9\<rparr>,
                  doc_creation_time = None, doc_value = example_object\<rparr>\<rparr>"

lemmas example_limits = within_limits_def MAX_SIZE_def MAX_NESTING_def MAX_OBJECT_FIELDS_def max_or_0_def
  is_valid_field_name_def check_valid_field_name_inner_def is_ascii_def is_ascii_control_def
  MAX_FIELD_NAME_LENGTH_def example_flag_def example_note_def ascii_def

lemma example_document_ok: "value_ok (ObjectV (document_value example_document))"
  by (simp add: example_document_def example_object_def example_limits)

lemma example_named: "ns_tablet_name example_mapping (doc_tablet_id example_document) = Some example_table_name"
  by code_simp

lemma example_accepted:
  "DatabaseSchema_check_value example_old_schema example_document example_mapping VirtualSystemMapping_default = Some (Inr ())"
  unfolding database_check_conforms [OF example_document_ok example_named] by code_simp

lemma example_subset_any:
  "is_subset (V_Union [V_Object [(example_flag, required_field_type V_Boolean)]])
     (V_Union [V_Object [(example_flag, required_field_type V_Any), (example_note, optional_field_type V_String)]])"
proof -
  have "is_subset (V_Object [(example_flag, required_field_type V_Boolean)])
      (V_Object [(example_flag, required_field_type V_Any), (example_note, optional_field_type V_String)])"
    by code_simp
  then show ?thesis by (simp add: is_subset_union_left is_subset_object_union)
qed

lemma example_skipped:
  "example_table_name \<notin> set (tables_to_validate example_new_schema (Some example_old_schema) example_mapping
     VirtualSystemMapping_default (\<lambda>_. None :: unit shape option))"
  using example_subset_any
  by (simp add: tables_to_validate_def must_revalidate_table_def example_new_schema_def example_old_schema_def
      example_schema_def example_definition_def schema_for_table_def bt_get_def)

theorem skipped_tables_conform_witness:
  "DatabaseSchema_check_value example_new_schema example_document example_mapping VirtualSystemMapping_default = Some (Inr ())"
  by (rule skipped_tables_conform [OF example_document_ok example_named example_skipped])
    (use example_accepted in auto)

text \<open>C13. A table that \<open>check_delete_table\<close> lets go leaves no document behind that the schema rejects:
  once the number of the table has no name any more, the documents of the other tables that were
  accepted are still accepted, since no validator of the schema names the table.\<close>

theorem deletion_keeps_documents:
  assumes "check_delete_table s t = Inr ()"
    and "value_ok (ObjectV (document_value d))"
    and "DatabaseSchema_check_value s d m vm = Some (Inr ())"
    and "ns_tablet_name m (doc_tablet_id d) = Some name" and "ns_tablet_name m' (doc_tablet_id d) = Some name"
    and "\<And>n. all_tables_number_to_name m' vm n =
           (if all_tables_number_to_name m vm n = Some t then None else all_tables_number_to_name m vm n)"
  shows "DatabaseSchema_check_value s d m' vm = Some (Inr ())"
proof -
  have "t \<notin> set (foreign_keys (enforced_validator (Some s) name))"
    by (rule no_reference) (rule assms(1))
  moreover have "all_tables_number_to_name m' vm = without_table t (all_tables_number_to_name m vm)"
    using assms(6) by (simp add: fun_eq_iff without_table_def)
  moreover have "conforms (all_tables_number_to_name m vm) (enforced_validator (Some s) name)
      (ObjectV (plain_fields (document_value d)))"
    using assms(3) database_check_conforms [OF assms(2,4)] by simp
  ultimately show ?thesis
    using conforms_without_table database_check_conforms [OF assms(2,5)] by simp
qed

definition example_reference_schema :: database_schema where
  "example_reference_schema =
     example_schema (D_Union [[(example_note, optional_field_type (V_Id example_table_name)), (example_flag, required_field_type V_Any)]])"

definition other_table_name :: table_name where "other_table_name = ascii ''drafts''"

definition example_larger_mapping :: namespaced_table_mapping where
  "example_larger_mapping =
     example_mapping
       \<lparr>ns_tablets := [(example_tablet, Global, 10001, example_table_name), (replicate 16 8, Global, 10002, other_table_name)],
        ns_names := [(other_table_name, replicate 16 8), (example_table_name, example_tablet)],
        ns_numbers := [(10001, example_tablet), (10002, replicate 16 8)]\<rparr>"

lemma example_named_larger: "ns_tablet_name example_larger_mapping (doc_tablet_id example_document) = Some example_table_name"
  by code_simp

lemma example_deletion: "check_delete_table example_reference_schema other_table_name = Inr ()"
  by code_simp

lemma example_reference_accepted:
  "DatabaseSchema_check_value example_reference_schema example_document example_larger_mapping VirtualSystemMapping_default = Some (Inr ())"
  unfolding database_check_conforms [OF example_document_ok example_named_larger] by code_simp

lemma example_number_names:
  "all_tables_number_to_name example_mapping VirtualSystemMapping_default n =
     (if n = 10001 then Some example_table_name else None)"
  "all_tables_number_to_name example_larger_mapping VirtualSystemMapping_default n =
     (if n = 10001 then Some example_table_name else if n = 10002 then Some other_table_name else None)"
  by (auto simp: all_tables_number_to_name_def name_by_number_if_exists_def example_mapping_def
      example_larger_mapping_def bt_get_def VirtualSystemMapping_default_def example_tablet_def)

lemma example_names_differ: "example_table_name \<noteq> other_table_name"
  by code_simp

theorem deletion_keeps_documents_witness:
  "DatabaseSchema_check_value example_reference_schema example_document example_mapping VirtualSystemMapping_default = Some (Inr ())"
  using example_names_differ
  by (intro deletion_keeps_documents [OF example_deletion example_document_ok
      example_reference_accepted example_named_larger example_named])
    (simp add: example_number_names)

text \<open>C39. An index that \<open>check_index_references\<close> turns down for a field that does not exist is useless:
  no document the schema accepts has a value at that path outside the system fields, unless the path
  enters a record.\<close>

theorem missing_field_never_present:
  assumes "check_table_indexes name d = Inl (FieldDoesNotExist name i path)"
    and "document_type d = Some (D_Union vs)"
    and "list_all (\<lambda>v. \<not> enters_record (V_Object v) path) vs"
    and "value_ok (ObjectV obj)" and "DocumentSchema_check_value (D_Union vs) obj m vm = Some (Inr ())"
  shows "ConvexObject_get_path (plain_fields obj) path = None"
proof (rule ccontr)
  assume present: "ConvexObject_get_path (plain_fields obj) path \<noteq> None"
  then obtain y where y: "get_path_loop (ObjectV (plain_fields obj)) path = Some y"
    by (auto simp: ConvexObject_get_path_def split: list.splits option.splits)
  obtain v where v: "v \<in> set vs" "conforms (all_tables_number_to_name m vm) (V_Object v) (ObjectV (plain_fields obj))"
    using schema_check_conforms [OF assms(4), of "D_Union vs" m vm] assms(5) by auto
  then have "can_contain_field (V_Object v) path"
    using can_contain_complete [OF v(2) y] assms(3) by (simp add: list_all_iff)
  then have "DocumentSchema_can_contain_field (D_Union vs) path"
    using v(1) by (auto simp: DocumentSchema_can_contain_field_def list_ex_iff)
  moreover have "\<not> DocumentSchema_can_contain_field (D_Union vs) path"
    using assms(1,2) by (auto simp: check_table_indexes_def find_Some_iff split: option.splits)
  ultimately show False by blast
qed

definition example_indexed :: "object_validator \<Rightarrow> field_path \<Rightarrow> table_definition" where
  "example_indexed v path =
     (example_definition (D_Union [v]))\<lparr>def_indexes := [(ascii ''by_path'', [path])]\<rparr>"

lemma example_no_such_field:
  "check_table_indexes example_table_name
     (example_indexed [(example_flag, required_field_type V_Boolean)] [example_note])
   = Inl (FieldDoesNotExist example_table_name (ascii ''by_path'') [example_note])"
  by code_simp

lemma example_checked_alone:
  "DocumentSchema_check_value (D_Union [[(example_flag, required_field_type V_Boolean)]])
     (document_value example_document) example_mapping VirtualSystemMapping_default = Some (Inr ())"
  unfolding schema_check_conforms [OF example_document_ok] by code_simp

lemma example_no_record:
  "list_all (\<lambda>v. \<not> enters_record (V_Object v) [example_note]) [[(example_flag, required_field_type V_Boolean)]]"
  by code_simp

theorem missing_field_never_present_witness:
  "ConvexObject_get_path (plain_fields (document_value example_document)) [example_note] = None"
  by (rule missing_field_never_present [OF example_no_such_field _ example_no_record example_document_ok example_checked_alone])
    (simp_all add: example_indexed_def example_definition_def)

definition example_record_validator :: object_validator where
  "example_record_validator = [(example_flag, required_field_type (V_Record V_String V_Boolean))]"

definition example_record_object :: convex_object where
  "example_record_object = [(example_flag, ObjectV [(example_note, Boolean True)])]"

lemma example_record_ok: "value_ok (ObjectV example_record_object)"
  by (simp add: example_record_object_def example_limits)


end
