(* ===== verification/Spec2Isabelle.thy ===== *)
theory Spec2Isabelle
  imports Sort_Key_Decode Subscription Serializability Query_Results Database_Schema
begin

text \<open>
  A verification development for the Convex backend, the database and function runtime under
  \<open>src/appAll/convex-backend/crates\<close> (paths below are relative to it).  The other programs of the
  repository, a scraper, a bot and a web application, are glue around libraries and are left out.

  \<^bold>\<open>The program.\<close>  A transaction begins at a snapshot (\<open>database/src/snapshot_manager.rs\<close>), reads through the
  index registry and the indexes of the snapshot merged with its own pending writes
  (\<open>indexing/src\<close>, \<open>database/src/transaction_index.rs\<close>, \<open>database/src/query\<close>), records every interval
  it read (\<open>database/src/reads.rs\<close>) and collects its writes (\<open>database/src/writes.rs\<close>).  The committer
  (\<open>database/src/committer.rs\<close>) assigns a commit timestamp, checks the read set against the write log
  and the commits still pending, stages the writes, and publishes them in order into the log
  (\<open>database/src/write_log.rs\<close>) and a new snapshot.  The subscription worker
  (\<open>database/src/subscription.rs\<close>) follows the log and invalidates the subscribers whose reads a write
  overlaps.  All of this rests on values and their sort keys (\<open>value/src\<close>), document ids, and intervals
  of index key bytes (\<open>common/src/interval\<close>).

  \<^bold>\<open>Conventions.\<close>  A Rust struct is a record, an enum a datatype with the same constructors, \<open>Result\<close> is a
  sum with the error on the left (\<open>bind_result\<close> is \<open>?\<close>), machine integers are words (\<open>usize\<close> counters
  that cannot overflow are \<open>nat\<close>), a \<open>BTreeMap\<close> is a sorted association list (\<open>btree\<close>, invariant
  \<open>bt_ok\<close>), and mutable state is passed and returned.  Where the outer result is an \<open>option\<close>, \<open>None\<close> is a panic or
  a loop that does not end; the theorems show that it does not happen.  Functions keep the names of the
  source, prefixed with their type where that is needed.  Asynchronous code is sequential between
  the points where the source gives up control; interleavings are steps of a relation
  (\<open>Serializability\<close>) or a schedule that permutes completed fetches (\<open>Database_Index\<close>).

  \<^bold>\<open>Values and keys.\<close>
  \<^item> \<open>Convex_Prelude\<close>: machine types, results, sorted maps with the locale \<open>ordered_map\<close>, comparison.
  \<^item> \<open>Convex_Value\<close>, \<open>Convex_Object\<close>: \<open>value/src/{lib,size,array,set,map,object,field_path,field_name}.rs\<close>, with the
    hand-written order of values, shown to be a total order.
  \<^item> \<open>Sort_Key\<close>, \<open>Sort_Key_Decode\<close>: \<open>value/src/sorting.rs\<close>.  Encodings are an instance of the locale
    \<open>sort_encoding\<close>; keys compare like values, and decoding inverts encoding and is total.  The decoder
    carries the length of its input as fuel, which every value it reads decreases.
  \<^item> \<open>Base32\<close>, \<open>Document_Id\<close>, \<open>Timestamp\<close>, \<open>Convex_Document\<close>: the codec and ids of \<open>value/src\<close>, timestamps, and documents
    with their validation (\<open>common/src/document.rs\<close>).
  \<^item> \<open>Index_Key\<close>: index keys, index rows and the rule by which retention expires rows (\<open>common/src/index.rs\<close>,
    \<open>common/src/types/index.rs\<close>); expiry changes no read at a retained snapshot.

  \<^bold>\<open>Intervals and read sets.\<close>
  \<^item> \<open>Byte_Interval\<close>, \<open>Interval_Set\<close>: \<open>common/src/interval\<close>, read as sets of byte strings: adding, splitting and
    subtracting intervals are the set operations, and the stored form stays disjoint and non-adjacent.
  \<^item> \<open>Search_Reads\<close>: the reads of text searches and the subscription structure for them (\<open>search/src/query.rs\<close>).
  \<^item> \<open>Read_Set\<close>: \<open>database/src/reads.rs\<close>; recording covers exactly the documents in the recorded intervals
    (locale \<open>read_tracker\<close>).

  \<^bold>\<open>Commits and subscriptions.\<close>
  \<^item> \<open>Write_Log\<close>: the log, tokens and pending writes against the history they stand for (locale
    \<open>conflict_source\<close>).  \<open>Subscription\<close>: the subscription manager (locale \<open>registry\<close>), sound for every subscriber
    after following the log.
  \<^item> \<open>Transaction_Writes\<close>: the coalesced writes as an overlay of the snapshot, with nested subtransactions.
    \<open>Snapshot_Manager\<close>: published versions (locale \<open>versioned\<close>).
  \<^item> \<open>Committer\<close>, \<open>Serializability\<close>: the committer's operations, and runs that interleave them with trimming
    the log.  In every reachable state the committed transactions are serializable in the order of
    their timestamps, and the first staged write can be published.

  \<^bold>\<open>Tables, indexes and queries.\<close>
  \<^item> \<open>Index_Registry\<close>, \<open>Table_Registry\<close>: the registries as views of the \<open>_index\<close> and \<open>_tables\<close> documents, and the
    index updates of a document change.
  \<^item> \<open>Database_Index\<close>, \<open>In_Memory_Index\<close>: \<open>indexing/src/backend_in_memory_indexes.rs\<close>; batches of ranges through the
    in-memory indexes, the cache and persistence answer with pages of exactly the rows of the index.
    Persistence is the argument \<open>scan\<close>, whose contract \<open>scans\<close> is that a stream gives the rows in order
    or an error at some point.
  \<^item> \<open>Transaction_Index\<close>: the same with the transaction's writes merged in, the buffered index updates, and
    preloaded ranges.
  \<^item> \<open>Query_Range\<close>: queries, filter expressions and compiled index ranges (\<open>common/src/query.rs\<close>).
  \<^item> \<open>Query_Stream\<close>, \<open>Query_Results\<close>: running queries (\<open>database/src/query\<close>, \<open>index_range_batch\<close> of
    \<open>database/src/bootstrap_model/user_facing.rs\<close>).  The locale \<open>range_source\<close> is what a batch needs from
    fetching; the transaction's indexes are its interpretation.  A query gives exactly the filtered and
    limited rows of its interval whatever pages it fetches, its results depend only on documents in
    the read set, a compiled range equals filtering the whole index, and a cursor resumes where the
    page ended.  The loops over filters and batches are \<open>partial_function\<close>s, shown to return.

  \<^bold>\<open>Schemas.\<close>
  \<^item> \<open>Shape_Inference\<close>: the shapes inferred for a table (\<open>shape_inference/src\<close>): membership, subtyping,
    overlap.  A supertype contains all values of its subtypes, and shapes that share a value while
    neither is below the other are found to overlap.
  \<^item> \<open>Schema_Validator\<close>: the validators of \<open>common/src/schemas/validator.rs\<close>.  \<open>conforms\<close> says which values a
    validator stands for, and \<open>check_value\<close> decides it; the subset test, the conversion of shapes, the
    filter for system fields and the deletion of a table preserve it.
  \<^item> \<open>Database_Schema\<close>: \<open>common/src/schemas/mod.rs\<close>.  Tables left out of the scan before a new schema becomes
    active satisfy it, a deletion that is allowed invalidates no document, and an index is rejected
    only for fields that no document has, records excepted.

  \<^bold>\<open>Parameters.\<close>  Floating-point arithmetic, UTF-8 validity of strings, hashing, tokenizing and searching
  text, persistence, the parser of index and table metadata documents, the slab allocator of
  subscriptions, knobs and clocks are arguments of the definitions, with what is used of them as
  named hypotheses.  Witnesses instantiate them.

  \<^bold>\<open>Not modelled.\<close>  Persistence drivers, search and vector engines, the JavaScript runtime, HTTP and RPC
  servers, the sync protocol, application models and bindings are I/O, wrap third-party engines, or
  consist of calls into the modelled parts; \<open>Transaction\<close> itself (\<open>database/src/transaction.rs\<close>) is
  modelled where the committer, the tables and the queries use it.  Tracing, metrics, usage tracking
  and heap accounting have no effect on results and are left out.
\<close>

end
